(* ===== verification/Prelude.thy ===== *)
theory Prelude
  imports Complex_Main "HOL-Library.AList" "HOL-Library.Multiset"
begin

text \<open>
  Shared vocabulary of the development.

  Numbers: a finite TypeScript \<open>number\<close> is an element of \<open>rat\<close> (\<open>jsnum\<close>); every finite double is a
  rational, comparison, \<open>Math.floor\<close>, \<open>Math.ceil\<close>, \<open>Math.trunc\<close>, \<open>Math.min\<close> and \<open>Math.max\<close> are exact, and
  sums and products are taken without rounding.  Counters and array indices are \<open>nat\<close>.
  \<open>jsvalue\<close> adds the three non-finite doubles where the code tests for them.

  Maps: a JavaScript \<open>Map\<close> iterates in insertion order and \<open>set\<close> on a present key keeps its place, which is
  the association list of \<open>HOL-Library.AList\<close> with \<open>map_of\<close>, \<open>AList.update\<close> and \<open>AList.delete\<close>.

  Clocks: \<open>clock()\<close> is read by the caller and its value passed in, one argument per read.
\<close>

section \<open>Numbers\<close>

type_synonym jsnum = rat

datatype jsvalue = Fin jsnum | PosInf | NegInf | NaN

definition math_max :: "jsnum \<Rightarrow> jsnum \<Rightarrow> jsnum" where
  "math_max a b = (if a < b then b else a)"

definition math_min :: "jsnum \<Rightarrow> jsnum \<Rightarrow> jsnum" where
  "math_min a b = (if b < a then b else a)"

definition math_trunc :: "jsnum \<Rightarrow> int" where
  "math_trunc x = (if x < 0 then ceiling x else floor x)"

definition nullish :: "'a option \<Rightarrow> 'a \<Rightarrow> 'a" where
  "nullish x d = (case x of None \<Rightarrow> d | Some v \<Rightarrow> v)"

lemma nullish_simps [simp]: "nullish None d = d" "nullish (Some v) d = v"
  by (simp_all add: nullish_def)

lemma math_min_le [simp]: "math_min a b \<le> a" "math_min a b \<le> b"
  by (simp_all add: math_min_def)

lemma math_max_ge [simp]: "a \<le> math_max a b" "b \<le> math_max a b"
  by (simp_all add: math_max_def)

lemma math_trunc_of_int [simp]: "math_trunc (of_int n) = n"
  by (simp add: math_trunc_def)

lemma math_trunc_numerals [simp]:
  "math_trunc (numeral m) = numeral m" "math_trunc 0 = 0" "math_trunc 1 = 1"
  using math_trunc_of_int [of "numeral m"] math_trunc_of_int [of 0] math_trunc_of_int [of 1] by simp_all

section \<open>Errors and strings\<close>

text \<open>A thrown \<open>Error\<close>: its \<open>name\<close> and its \<open>message\<close>.  A call that may throw returns \<open>js_error + 'a\<close>.\<close>

datatype js_error = JsError (err_name: string) (err_message: string)

definition is_digit :: "char \<Rightarrow> bool" where
  "is_digit c \<longleftrightarrow> 48 \<le> (of_char c :: nat) \<and> (of_char c :: nat) \<le> 57"

definition digit_value :: "char \<Rightarrow> nat" where
  "digit_value c = of_char c - 48"

fun digits_value :: "nat \<Rightarrow> string \<Rightarrow> nat" where
  "digits_value acc [] = acc"
| "digits_value acc (c # cs) = digits_value (10 * acc + digit_value c) cs"

text \<open>\<open>String(n)\<close> of a natural number.\<close>

fun show_nat :: "nat \<Rightarrow> string" where
  "show_nat n = (if n < 10 then [char_of (48 + n)] else show_nat (n div 10) @ [char_of (48 + n mod 10)])"

definition show_int :: "int \<Rightarrow> string" where
  "show_int i = (if i < 0 then CHR ''-'' # show_nat (nat (- i)) else show_nat (nat i))"

declare show_nat.simps [simp del]

lemma is_digit_char: "d < 10 \<Longrightarrow> is_digit (char_of (48 + d)) \<and> digit_value (char_of (48 + d)) = d"
  by (simp add: is_digit_def digit_value_def)

lemma show_nat_digits: "list_all is_digit (show_nat n)"
  by (induction n rule: show_nat.induct) (subst show_nat.simps, simp add: is_digit_char)

lemma show_nat_nonempty: "show_nat n \<noteq> []"
  by (subst show_nat.simps) simp

lemma digits_value_append: "digits_value acc (s @ t) = digits_value (digits_value acc s) t"
  by (induction s arbitrary: acc) auto

lemma digits_value_show: "digits_value 0 (show_nat n) = n"
  by (induction n rule: show_nat.induct) (subst show_nat.simps, simp add: digits_value_append is_digit_char)

lemma show_nat_length: "0 < d \<Longrightarrow> n < 10 ^ d \<Longrightarrow> length (show_nat n) \<le> d"
proof (induction n arbitrary: d rule: show_nat.induct)
  case (1 n)
  show ?case
  proof (cases "n < 10")
    case True
    with 1 show ?thesis by (subst show_nat.simps) simp
  next
    case False
    with 1(3) obtain d' where d: "d = Suc d'" "0 < d'" by (cases d; cases "d - 1") auto
    then have "n div 10 < 10 ^ d'" using 1(3) by (simp add: div_less_iff_less_mult mult.commute)
    with 1(1) [OF False d(2)] False d(1) show ?thesis by (subst show_nat.simps) simp
  qed
qed

text \<open>The ASCII part of \<open>toLowerCase\<close> and \<open>toUpperCase\<close>, and the white space \<open>trim\<close> removes.\<close>

definition lower_char :: "char \<Rightarrow> char" where
  "lower_char c = (if 65 \<le> (of_char c :: nat) \<and> (of_char c :: nat) \<le> 90 then char_of (of_char c + 32 :: nat) else c)"

definition upper_char :: "char \<Rightarrow> char" where
  "upper_char c = (if 97 \<le> (of_char c :: nat) \<and> (of_char c :: nat) \<le> 122 then char_of (of_char c - 32 :: nat) else c)"

definition to_lower :: "string \<Rightarrow> string" where
  "to_lower = map lower_char"

definition to_upper :: "string \<Rightarrow> string" where
  "to_upper = map upper_char"

definition is_space :: "char \<Rightarrow> bool" where
  "is_space c \<longleftrightarrow> (of_char c :: nat) \<in> {9, 10, 11, 12, 13, 32, 160}"

definition trim :: "string \<Rightarrow> string" where
  "trim s = rev (dropWhile is_space (rev (dropWhile is_space s)))"

definition starts_with :: "string \<Rightarrow> string \<Rightarrow> bool" where
  "starts_with p s \<longleftrightarrow> take (length p) s = p"

definition ends_with :: "string \<Rightarrow> string \<Rightarrow> bool" where
  "ends_with p s \<longleftrightarrow> length p \<le> length s \<and> drop (length s - length p) s = p"

named_theorems str_eval

lemmas string_ops_eval [str_eval] =
  is_digit_def digit_value_def lower_char_def upper_char_def to_lower_def to_upper_def is_space_def trim_def
  starts_with_def ends_with_def

text \<open>\<open>s.split(c)\<close> for a one-character separator: never empty, and \<open>join\<close> is its inverse.\<close>

fun split_on :: "char \<Rightarrow> string \<Rightarrow> string list" where
  "split_on c [] = [[]]"
| "split_on c (x # xs) =
     (if x = c then [] # split_on c xs
      else (case split_on c xs of [] \<Rightarrow> [[x]] | w # ws \<Rightarrow> (x # w) # ws))"

fun join_with :: "char \<Rightarrow> string list \<Rightarrow> string" where
  "join_with c [] = []"
| "join_with c [w] = w"
| "join_with c (w # ws) = w @ c # join_with c ws"

lemma split_on_nonempty [simp]: "split_on c s \<noteq> []"
  by (induction s) (auto split: list.splits)

lemma join_with_Cons: "ws \<noteq> [] \<Longrightarrow> join_with c (w # ws) = w @ c # join_with c ws"
  by (cases ws) auto

lemma join_split_on [simp]: "join_with c (split_on c s) = s"
proof (induction s)
  case Nil
  then show ?case by simp
next
  case (Cons x xs)
  obtain w ws where s: "split_on c xs = w # ws" by (cases "split_on c xs") auto
  with Cons show ?case by (cases ws) (auto simp: join_with_Cons)
qed

lemma split_on_no_sep: "w \<in> set (split_on c s) \<Longrightarrow> c \<notin> set w"
  by (induction s arbitrary: w) (auto split: if_splits list.splits)

lemma split_on_absent: "c \<notin> set s \<Longrightarrow> split_on c s = [s]"
  by (induction s) auto

lemma split_on_append: "c \<notin> set w \<Longrightarrow> split_on c (w @ c # s) = w # split_on c s"
  by (induction w) auto

lemma split_join: "ws \<noteq> [] \<Longrightarrow> \<forall>w \<in> set ws. c \<notin> set w \<Longrightarrow> split_on c (join_with c ws) = ws"
  by (induction ws rule: join_with.induct) (auto simp: split_on_absent split_on_append)

section \<open>Insertion-ordered maps\<close>

type_synonym ('k, 'v) jsmap = "('k \<times> 'v) list"

definition map_has :: "('k, 'v) jsmap \<Rightarrow> 'k \<Rightarrow> bool" where
  "map_has m k \<longleftrightarrow> map_of m k \<noteq> None"

definition map_keys :: "('k, 'v) jsmap \<Rightarrow> 'k list" where
  "map_keys m = map fst m"

definition keys_distinct :: "('k, 'v) jsmap \<Rightarrow> bool" where
  "keys_distinct m \<longleftrightarrow> distinct (map fst m)"

named_theorems jsmap_simps

lemma map_of_update [simp, jsmap_simps]: "map_of (AList.update k v m) = (map_of m)(k \<mapsto> v)"
  by (simp add: AList.update_conv')

lemma map_of_delete [simp, jsmap_simps]: "map_of (AList.delete k m) = (map_of m)(k := None)"
  by (simp add: AList.delete_conv')

lemma keys_distinct_Nil [simp, intro]: "keys_distinct []"
  by (simp add: keys_distinct_def)

lemma keys_distinct_update [simp, intro]: "keys_distinct m \<Longrightarrow> keys_distinct (AList.update k v m)"
  by (simp add: keys_distinct_def AList.distinct_update)

lemma keys_distinct_delete [simp, intro]: "keys_distinct m \<Longrightarrow> keys_distinct (AList.delete k m)"
  by (simp add: keys_distinct_def AList.distinct_delete)

lemma keys_distinct_filter [simp, intro]: "keys_distinct m \<Longrightarrow> keys_distinct (filter P m)"
  by (auto simp: keys_distinct_def distinct_map inj_on_def)

lemma keys_distinct_Cons: "keys_distinct ((k, v) # m) \<longleftrightarrow> map_of m k = None \<and> keys_distinct m"
  by (auto simp: keys_distinct_def map_of_eq_None_iff)

lemma map_of_Some_in: "map_of m k = Some v \<Longrightarrow> (k, v) \<in> set m"
  by (rule map_of_SomeD)

lemma keys_distinct_in: "keys_distinct m \<Longrightarrow> (k, v) \<in> set m \<longleftrightarrow> map_of m k = Some v"
  by (simp add: keys_distinct_def)

lemma length_update [jsmap_simps]:
  "length (AList.update k v m) = (if map_of m k = None then Suc (length m) else length m)"
  by (induction m) (auto split: if_splits)

lemma update_absent: "map_of m k = None \<Longrightarrow> AList.update k v m = m @ [(k, v)]"
  by (induction m) (auto split: if_splits)

lemma delete_absent: "map_of m k = None \<Longrightarrow> AList.delete k m = m"
  by (induction m) (auto split: if_splits)

lemma length_delete_le: "length (AList.delete k m) \<le> length m"
  by (rule AList.length_delete_le)

lemma length_delete [jsmap_simps]:
  "keys_distinct m \<Longrightarrow> length (AList.delete k m) = (if map_of m k = None then length m else length m - 1)"
proof (induction m)
  case Nil
  then show ?case by simp
next
  case (Cons p m)
  obtain a b where p: "p = (a, b)" by (cases p)
  from Cons.prems have d: "map_of m a = None" "keys_distinct m"
    unfolding p by (simp_all add: keys_distinct_Cons)
  show ?case
  proof (cases "a = k")
    case True
    with d show ?thesis by (simp add: p delete_absent)
  next
    case False
    have "map_of m k \<noteq> None \<Longrightarrow> 0 < length m" by (cases m) auto
    with False d Cons.IH show ?thesis by (auto simp: p)
  qed
qed

lemma set_delete: "set (AList.delete k m) = {p \<in> set m. fst p \<noteq> k}"
  by (auto simp: AList.delete_eq)

lemma mset_delete_split:
  "keys_distinct m \<Longrightarrow> map_of m k = Some v \<Longrightarrow> mset m = add_mset (k, v) (mset (AList.delete k m))"
proof (induction m)
  case Nil
  then show ?case by simp
next
  case (Cons p m)
  obtain a b where p: "p = (a, b)" by (cases p)
  from Cons.prems have d: "map_of m a = None" "keys_distinct m"
    unfolding p by (simp_all add: keys_distinct_Cons)
  show ?case
  proof (cases "a = k")
    case True
    with d Cons.prems show ?thesis by (simp add: p delete_absent)
  next
    case False
    with d Cons show ?thesis by (simp add: p)
  qed
qed

text \<open>The contents of a map of lists, as a multiset.\<close>

definition bag :: "('k, 'v list) jsmap \<Rightarrow> 'v multiset" where
  "bag m = mset (concat (map snd m))"

lemma bag_Nil [simp]: "bag [] = {#}"
  by (simp add: bag_def)

lemma bag_Cons [simp]: "bag (p # m) = mset (snd p) + bag m"
  by (simp add: bag_def)

lemma bag_update: "bag (AList.update k v m) + mset (nullish (map_of m k) []) = bag m + mset v"
  by (induction m) (auto simp: add.assoc add.commute add.left_commute)

lemma bag_update_add:
  "mset v = mset (nullish (map_of m k) []) + a \<Longrightarrow> bag (AList.update k v m) = bag m + a"
  using bag_update [of k v m] by (simp add: add.assoc add.commute add.left_commute)

lemma bag_update_sub:
  "mset (nullish (map_of m k) []) = mset v + a \<Longrightarrow> bag m = bag (AList.update k v m) + a"
  using bag_update [of k v m] by (simp add: add.assoc add.commute add.left_commute)

lemma in_bag: "x \<in># bag m \<longleftrightarrow> (\<exists>p \<in> set m. x \<in> set (snd p))"
  by (auto simp: bag_def)

lemma bag_member: "map_of m k = Some xs \<Longrightarrow> x \<in> set xs \<Longrightarrow> x \<in># bag m"
  by (auto simp: in_bag dest!: map_of_SomeD intro!: bexI)

section \<open>Runs of a state machine\<close>

text \<open>
  A component whose operations are functions of its state runs over a list of operations by \<open>foldl\<close>.  The
  contract of such a component: an invariant that every operation keeps.
\<close>

locale machine =
  fixes step :: "'s \<Rightarrow> 'e \<Rightarrow> 's"
    and invar :: "'s \<Rightarrow> bool"
  assumes invar_step: "invar s \<Longrightarrow> invar (step s e)"
begin

lemma invar_run: "invar s \<Longrightarrow> invar (foldl step s es)"
  by (induction es arbitrary: s) (auto intro: invar_step)

text \<open>A quantity no step can lose is not lost by a run.\<close>

lemma run_keeps:
  assumes "\<And>s e. invar s \<Longrightarrow> Q s \<Longrightarrow> Q (step s e)"
  shows "invar s \<Longrightarrow> Q s \<Longrightarrow> Q (foldl step s es)"
  by (induction es arbitrary: s) (auto intro: invar_step assms)

end

section \<open>Lists\<close>

lemma list_update_swap_mset:
  "i < length xs \<Longrightarrow> j < length xs \<Longrightarrow> mset (xs[i := xs ! j, j := xs ! i]) = mset xs"
  by (rule mset_swap)

lemma takeWhile_dropWhile_sorted:
  "sorted xs \<Longrightarrow> dropWhile (\<lambda>t. t < c) xs = filter (\<lambda>t. c \<le> t) xs"
proof (induction xs)
  case Nil
  then show ?case by simp
next
  case (Cons x xs)
  show ?case
  proof (cases "x < c")
    case True
    with Cons show ?thesis by simp
  next
    case False
    with Cons.prems have "filter (\<lambda>t. c \<le> t) xs = xs"
      by (auto intro!: filter_True)
    with False show ?thesis by simp
  qed
qed

lemma sort_key_sorted: "sorted (map f xs) \<Longrightarrow> sort_key f xs = xs"
  by (induction xs) (auto simp: insort_is_Cons)

lemma sorted_dropWhile [intro]: "sorted xs \<Longrightarrow> sorted (dropWhile P xs)"
  by (metis sorted_append takeWhile_dropWhile_id)

end
