(* ===== verification/Wire.thy ===== *)
theory Wire
  imports Prelude "HOL-Library.Word"
begin

text \<open>
  Bytes: what the wire formats use of Node's \<open>Buffer\<close>.  A buffer is a list of bytes.  \<open>write_int\<close> and \<open>write_uint\<close> are the
  big-endian \<open>writeInt..BE\<close> and \<open>writeUInt..BE\<close>, which throw a \<open>RangeError\<close> for a value that does not fit; \<open>read_uint\<close> and
  \<open>read_int\<close> are the reads, which throw when the buffer is too short; \<open>subarray\<close> clamps its two indices and counts
  negative ones from the end.

  A reader is a buffer and an offset into it.  The locale \<open>codec\<close> is the interface between a format and what is built of
  it: \<open>put\<close> appends the bytes of a value to a writer, \<open>get\<close> reads them back and leaves the reader behind them.
\<close>

unbundle bit_operations_syntax

section \<open>Results\<close>

definition and_then :: "'e + 'a \<Rightarrow> ('a \<Rightarrow> 'e + 'b) \<Rightarrow> 'e + 'b" where
  "and_then m f = (case m of Inl e \<Rightarrow> Inl e | Inr v \<Rightarrow> f v)"

lemma and_then_simps [simp]: "and_then (Inl e) f = Inl e" "and_then (Inr v) f = f v"
  by (simp_all add: and_then_def)

lemma and_then_Inr: "and_then m f = Inr y \<longleftrightarrow> (\<exists>v. m = Inr v \<and> f v = Inr y)"
  by (simp add: and_then_def split: sum.split)

section \<open>Bytes\<close>

type_synonym byte = "8 word"

definition range_error :: js_error where
  "range_error = JsError ''RangeError'' ''ERR_OUT_OF_RANGE''"

fun be_bytes :: "nat \<Rightarrow> int \<Rightarrow> byte list" where
  "be_bytes 0 v = []"
| "be_bytes (Suc n) v = be_bytes n (v div 256) @ [word_of_int v]"

definition be_value :: "byte list \<Rightarrow> int" where
  "be_value bs = foldl (\<lambda>a b. a * 256 + uint b) 0 bs"

definition write_uint :: "nat \<Rightarrow> int \<Rightarrow> js_error + byte list" where
  "write_uint n v = (if 0 \<le> v \<and> v < 2 ^ (8 * n) then Inr (be_bytes n v) else Inl range_error)"

definition write_int :: "nat \<Rightarrow> int \<Rightarrow> js_error + byte list" where
  "write_int n v = (if - (2 ^ (8 * n - 1)) \<le> v \<and> v < 2 ^ (8 * n - 1) then Inr (be_bytes n v) else Inl range_error)"

definition read_at :: "nat \<Rightarrow> int \<Rightarrow> byte list \<Rightarrow> js_error + byte list" where
  "read_at n off bs =
     (if 0 \<le> off \<and> off + int n \<le> int (length bs) then Inr (take n (drop (nat off) bs)) else Inl range_error)"

definition read_uint :: "nat \<Rightarrow> int \<Rightarrow> byte list \<Rightarrow> js_error + int" where
  "read_uint n off bs = and_then (read_at n off bs) (\<lambda>c. Inr (be_value c))"

definition read_int :: "nat \<Rightarrow> int \<Rightarrow> byte list \<Rightarrow> js_error + int" where
  "read_int n off bs = and_then (read_at n off bs) (\<lambda>c. Inr (signed_take_bit (8 * n - 1) (be_value c)))"

definition clamp_index :: "int \<Rightarrow> byte list \<Rightarrow> nat" where
  "clamp_index i bs =
     (let j = (if i < 0 then i + int (length bs) else i) in if 0 < j then min (nat j) (length bs) else 0)"

definition subarray :: "int \<Rightarrow> int \<Rightarrow> byte list \<Rightarrow> byte list" where
  "subarray i j bs = take (clamp_index j bs - clamp_index i bs) (drop (clamp_index i bs) bs)"

definition subarray_from :: "int \<Rightarrow> byte list \<Rightarrow> byte list" where
  "subarray_from i bs = drop (clamp_index i bs) bs"

declare be_bytes.simps [simp del]

lemma be_bytes_length [simp]: "length (be_bytes n v) = n"
  by (induction n arbitrary: v) (simp_all add: be_bytes.simps)

lemma be_value_snoc [simp]: "be_value (bs @ [b]) = be_value bs * 256 + uint b"
  by (simp add: be_value_def)

lemma be_value_bytes: "be_value (be_bytes n v) = v mod 256 ^ n"
proof (induction n arbitrary: v)
  case 0
  then show ?case by (simp add: be_value_def be_bytes.simps)
next
  case (Suc n)
  have "uint (word_of_int v :: byte) = v mod 256" by (simp add: uint_word_of_int)
  then have "be_value (be_bytes (Suc n) v) = (v div 256) mod 256 ^ n * 256 + v mod 256" by (simp add: Suc.IH be_bytes.simps)
  also have "\<dots> = v mod (256 * 256 ^ n)" using zmod_zmult2_eq [of "256 ^ n" v 256] by simp
  finally show ?case by simp
qed

lemma be_value_bytes_unsigned: "0 \<le> v \<Longrightarrow> v < 2 ^ (8 * n) \<Longrightarrow> be_value (be_bytes n v) = v"
  using be_value_bytes [of n v] by (simp add: power_mult)

lemma be_value_bytes_signed:
  assumes "0 < n" "- (2 ^ (8 * n - 1)) \<le> v" "v < 2 ^ (8 * n - 1)"
  shows "signed_take_bit (8 * n - 1) (be_value (be_bytes n v)) = v"
proof -
  have p: "(256::int) ^ n = 2 ^ Suc (8 * n - 1)"
    using assms(1) power_mult [of "2::int" 8 n] by (simp add: Suc_diff_Suc del: power_Suc)
  have "be_value (be_bytes n v) = take_bit (Suc (8 * n - 1)) v"
    by (simp only: be_value_bytes p take_bit_eq_mod)
  then have "signed_take_bit (8 * n - 1) (be_value (be_bytes n v)) = signed_take_bit (8 * n - 1) v"
    by (simp add: signed_take_bit_take_bit del: take_bit_Suc signed_take_bit_Suc)
  also have "\<dots> = v" using assms(2,3) by (rule signed_take_bit_int_eq_self)
  finally show ?thesis .
qed

section \<open>Readers\<close>

record reader =
  rd_buf :: "byte list"
  rd_off :: int

definition reader_at :: "byte list \<Rightarrow> byte list \<Rightarrow> reader" where
  "reader_at seen rest = \<lparr>rd_buf = seen @ rest, rd_off = int (length seen)\<rparr>"

definition advance :: "int \<Rightarrow> reader \<Rightarrow> reader" where
  "advance n r = r\<lparr>rd_off := rd_off r + n\<rparr>"

lemma read_at_reader [simp]:
  "n = length bs \<Longrightarrow> read_at n (rd_off (reader_at seen (bs @ rest))) (rd_buf (reader_at seen (bs @ rest))) = Inr bs"
  by (simp add: read_at_def reader_at_def)

lemma advance_reader [simp]:
  "n = int (length bs) \<Longrightarrow> advance n (reader_at seen (bs @ rest)) = reader_at (seen @ bs) rest"
  by (simp add: advance_def reader_at_def)

lemma subarray_reader [simp]:
  "i = int (length seen) \<Longrightarrow> j = int (length seen) + int (length bs) \<Longrightarrow> subarray i j (rd_buf (reader_at seen (bs @ rest))) = bs"
  by (cases bs; cases seen) (simp_all add: subarray_def clamp_index_def reader_at_def Let_def nat_add_distrib min_def)

lemma subarray_from_reader [simp]:
  "subarray_from (rd_off (reader_at seen rest)) (rd_buf (reader_at seen rest)) = rest"
  by (simp add: subarray_from_def clamp_index_def reader_at_def Let_def)

lemma subarray_prefix [simp]: "j = int (length bs) \<Longrightarrow> subarray 0 j (bs @ rest) = bs"
  by (simp add: subarray_def clamp_index_def Let_def)

section \<open>Codecs\<close>

type_synonym writer = "byte list list"

definition emits :: "(writer \<Rightarrow> js_error + writer) \<Rightarrow> byte list \<Rightarrow> bool" where
  "emits f bs \<longleftrightarrow> (\<forall>w. \<exists>w'. f w = Inr w' \<and> concat w' = concat w @ bs)"

lemma emits_chain: "emits f a \<Longrightarrow> emits g b \<Longrightarrow> emits (\<lambda>w. and_then (f w) g) (a @ b)"
  unfolding emits_def by (metis and_then_simps(2) append.assoc)

lemma emits_build: "emits f bs \<Longrightarrow> \<exists>w. f [] = Inr w \<and> concat w = bs"
  unfolding emits_def by (metis append_Nil concat.simps(1))

locale codec =
  fixes good :: "'a \<Rightarrow> bool"
    and bytes :: "'a \<Rightarrow> byte list"
    and put :: "'a \<Rightarrow> writer \<Rightarrow> js_error + writer"
    and get :: "reader \<Rightarrow> js_error + ('a \<times> reader)"
  assumes put_emits: "good x \<Longrightarrow> emits (put x) (bytes x)"
    and get_back: "good x \<Longrightarrow> get (reader_at seen (bytes x @ rest)) = Inr (x, reader_at (seen @ bytes x) rest)"
begin

lemma round_trip: "good x \<Longrightarrow> \<exists>w. put x [] = Inr w \<and> get (reader_at [] (concat w @ rest)) = Inr (x, reader_at (concat w) rest)"
  using emits_build [OF put_emits] get_back [of x "[]" rest] by fastforce

text \<open>The encoding is injective, and no encoding is a proper prefix of another.\<close>

lemma unique_decoding:
  assumes "good x" "good y" "bytes x @ r = bytes y @ s"
  shows "x = y \<and> r = s"
proof -
  have "Inr (x, reader_at (bytes x) r) = Inr (y, reader_at (bytes y) s)"
    using get_back [OF assms(1), of "[]" r] get_back [OF assms(2), of "[]" s] assms(3) by simp
  then show ?thesis by (auto simp: reader_at_def)
qed

end

end
