(* ===== verification/Utf8.thy ===== *)
theory Utf8
  imports Wire
begin

text \<open>
  UTF-8 as Node's \<open>Buffer.from (s, 'utf8')\<close> and \<open>toString ('utf8')\<close> do it.  A string is the list of its code points; a lone
  surrogate is encoded as U+FFFD, and the decoder replaces every maximal ill-formed sequence by U+FFFD.
\<close>

type_synonym code_points = "nat list"

definition surrogate :: "nat \<Rightarrow> bool" where
  "surrogate c \<longleftrightarrow> 0xD800 \<le> c \<and> c \<le> 0xDFFF"

definition scalar_value :: "nat \<Rightarrow> bool" where
  "scalar_value c \<longleftrightarrow> c < 0x110000 \<and> \<not> surrogate c"

definition utf8_point :: "nat \<Rightarrow> byte list" where
  "utf8_point c =
     (if c < 0x80 then [of_nat c]
      else if c < 0x800 then [of_nat (0xC0 + c div 64), of_nat (0x80 + c mod 64)]
      else if surrogate c then [0xEF, 0xBF, 0xBD]
      else if c < 0x10000 then [of_nat (0xE0 + c div 4096), of_nat (0x80 + c div 64 mod 64), of_nat (0x80 + c mod 64)]
      else [of_nat (0xF0 + c div 262144), of_nat (0x80 + c div 4096 mod 64), of_nat (0x80 + c div 64 mod 64), of_nat (0x80 + c mod 64)])"

definition utf8_encode :: "code_points \<Rightarrow> byte list" where
  "utf8_encode s = concat (map utf8_point s)"

datatype utf8_state = Utf8Start | Cont nat nat nat nat

definition utf8_start :: "nat \<Rightarrow> code_points \<times> utf8_state" where
  "utf8_start b =
     (if b < 0x80 then ([b], Utf8Start)
      else if b < 0xC2 then ([0xFFFD], Utf8Start)
      else if b < 0xE0 then ([], Cont 1 (b - 0xC0) 0x80 0xBF)
      else if b < 0xF0 then ([], Cont 2 (b - 0xE0) (if b = 0xE0 then 0xA0 else 0x80) (if b = 0xED then 0x9F else 0xBF))
      else if b < 0xF5 then ([], Cont 3 (b - 0xF0) (if b = 0xF0 then 0x90 else 0x80) (if b = 0xF4 then 0x8F else 0xBF))
      else ([0xFFFD], Utf8Start))"

fun utf8_go :: "utf8_state \<Rightarrow> byte list \<Rightarrow> code_points" where
  "utf8_go Utf8Start [] = []"
| "utf8_go (Cont n cp lo hi) [] = [0xFFFD]"
| "utf8_go Utf8Start (b # bs) = (case utf8_start (unat b) of (cs, st) \<Rightarrow> cs @ utf8_go st bs)"
| "utf8_go (Cont n cp lo hi) (b # bs) =
     (if lo \<le> unat b \<and> unat b \<le> hi
      then (let cp' = cp * 64 + (unat b - 0x80)
            in if n \<le> 1 then cp' # utf8_go Utf8Start bs else utf8_go (Cont (n - 1) cp' 0x80 0xBF) bs)
      else 0xFFFD # (case utf8_start (unat b) of (cs, st) \<Rightarrow> cs @ utf8_go st bs))"

definition utf8_decode :: "byte list \<Rightarrow> code_points" where
  "utf8_decode = utf8_go Utf8Start"

lemma unat_byte: "n < 256 \<Longrightarrow> unat (of_nat n :: byte) = n"
  by (simp add: unat_of_nat)

text \<open>A code point is put together again from its groups of six bits.\<close>

lemma six_bits: "(n::nat) = n div 64 * 64 + n mod 64" "n div 64 div 64 = n div 4096" "n div 4096 div 64 = n div 262144"
  by (simp_all add: div_mult2_eq [symmetric])

lemma utf8_two:
  assumes "0x80 \<le> c" "c < 0x800"
  shows "utf8_go Utf8Start (utf8_point c @ bs) = c # utf8_go Utf8Start bs"
proof -
  define h l where "h = c div 64" and "l = c mod 64"
  have c: "c = h * 64 + l" "l < 64" using six_bits(1) [of c] by (simp_all add: h_def l_def)
  then have "2 \<le> h" "h < 32" using assms by linarith+
  moreover have "utf8_point c = [of_nat (0xC0 + h), of_nat (0x80 + l)]" using assms by (simp only: utf8_point_def h_def l_def) simp
  ultimately show ?thesis using c by (simp add: utf8_start_def unat_byte Let_def del: of_nat_add)
qed

lemma utf8_three:
  assumes "0x800 \<le> c" "c < 0x10000" "\<not> surrogate c"
  shows "utf8_go Utf8Start (utf8_point c @ bs) = c # utf8_go Utf8Start bs"
proof -
  define h m l where "h = c div 4096" and "m = c div 64 mod 64" and "l = c mod 64"
  have c: "c = (h * 64 + m) * 64 + l" "m < 64" "l < 64"
    using six_bits(1) [of c] six_bits(1) [of "c div 64"] by (simp_all add: h_def m_def l_def six_bits(2))
  have h1: "h < 16" using c(1) assms(2) by simp
  have h2: "32 \<le> m" if "h = 0" using that c assms(1) by simp
  have "c < 0xD800 \<or> 0xDFFF < c" using assms(3) by (auto simp: surrogate_def)
  then have h3: "m \<le> 31" if "h = 13" using that c by auto
  note h = h1 h2 h3
  have p: "utf8_point c = [of_nat (0xE0 + h), of_nat (0x80 + m), of_nat (0x80 + l)]"
    using assms by (simp only: utf8_point_def h_def m_def l_def) simp
  have s: "utf8_start (0xE0 + h) = ([], Cont 2 h (if h = 0 then 0xA0 else 0x80) (if h = 13 then 0x9F else 0xBF))"
    using h by (simp add: utf8_start_def)
  show ?thesis using h c(2,3) unfolding p by (simp add: s unat_byte Let_def c(1) del: of_nat_add)
qed

lemma utf8_four:
  assumes "0x10000 \<le> c" "c < 0x110000"
  shows "utf8_go Utf8Start (utf8_point c @ bs) = c # utf8_go Utf8Start bs"
proof -
  define h n m l where "h = c div 262144" and "n = c div 4096 mod 64" and "m = c div 64 mod 64" and "l = c mod 64"
  have c: "c = ((h * 64 + n) * 64 + m) * 64 + l" "n < 64" "m < 64" "l < 64"
    using six_bits(1) [of c] six_bits(1) [of "c div 64"] six_bits(1) [of "c div 4096"]
    by (simp_all add: h_def n_def m_def l_def six_bits(2,3))
  have h1: "h < 5" using c(1) assms(2) by simp
  have h2: "16 \<le> n" if "h = 0" using that c assms(1) by simp
  have h3: "n \<le> 15" if "h = 4" using that c assms(2) by simp
  note h = h1 h2 h3
  have p: "utf8_point c = [of_nat (0xF0 + h), of_nat (0x80 + n), of_nat (0x80 + m), of_nat (0x80 + l)]"
    using assms by (simp only: utf8_point_def surrogate_def h_def n_def m_def l_def) simp
  have s: "utf8_start (0xF0 + h) = ([], Cont 3 h (if h = 0 then 0x90 else 0x80) (if h = 4 then 0x8F else 0xBF))"
    using h by (simp add: utf8_start_def)
  show ?thesis using h c(2-4) unfolding p by (simp add: s unat_byte Let_def c(1) del: of_nat_add)
qed

lemma utf8_decode_point: "scalar_value c \<Longrightarrow> utf8_go Utf8Start (utf8_point c @ bs) = c # utf8_go Utf8Start bs"
proof (cases "c < 0x80")
  case True
  then show ?thesis by (simp add: utf8_point_def utf8_start_def unat_byte)
next
  case False
  moreover assume "scalar_value c"
  ultimately show ?thesis using utf8_two [of c bs] utf8_three [of c bs] utf8_four [of c bs]
    by (cases "c < 0x800"; cases "c < 0x10000") (auto simp: scalar_value_def)
qed

lemma utf8_round_trip: "list_all scalar_value s \<Longrightarrow> utf8_decode (utf8_encode s) = s"
proof (induction s)
  case Nil
  then show ?case by (simp add: utf8_decode_def utf8_encode_def)
next
  case (Cons c s)
  then show ?case by (simp add: utf8_decode_def utf8_encode_def utf8_decode_point)
qed

end
