(* ===== verification/KafkaPrimitives.thy ===== *)
theory KafkaPrimitives
  imports Utf8
begin

text \<open>
  \<open>packages/core/src/transports/kafka/primitives.ts\<close>: the writer and reader of Kafka's wire types and the CRC-32C checksum.

  A writer is its list of chunks, \<open>build\<close> concatenates them.  An operation that can throw (a number outside its width, a
  read past the end of the buffer) is a sum.  A \<open>varint\<close> takes an integer, zigzag-encodes it and keeps 64 bits of it
  (\<open>BigInt.asUintN (64, v)\<close>); reading one accumulates in an unbounded \<open>BigInt\<close>.  JavaScript's bitwise operators work on 32
  bits, which is \<open>32 word\<close> for the checksum.
\<close>

section \<open>KafkaWriter\<close>

definition k_push :: "js_error + byte list \<Rightarrow> writer \<Rightarrow> js_error + writer" where
  "k_push m w = and_then m (\<lambda>b. Inr (w @ [b]))"

definition k_int8 :: "int \<Rightarrow> writer \<Rightarrow> js_error + writer" where
  "k_int8 v = k_push (write_int 1 v)"

definition k_int16 :: "int \<Rightarrow> writer \<Rightarrow> js_error + writer" where
  "k_int16 v = k_push (write_int 2 v)"

definition k_int32 :: "int \<Rightarrow> writer \<Rightarrow> js_error + writer" where
  "k_int32 v = k_push (write_int 4 v)"

definition k_uint32 :: "int \<Rightarrow> writer \<Rightarrow> js_error + writer" where
  "k_uint32 v = k_push (write_uint 4 (take_bit 32 v))"

definition k_int64 :: "int \<Rightarrow> writer \<Rightarrow> js_error + writer" where
  "k_int64 v = k_push (write_int 8 v)"

definition k_raw :: "byte list \<Rightarrow> writer \<Rightarrow> js_error + writer" where
  "k_raw b = k_push (Inr b)"

definition k_string :: "code_points option \<Rightarrow> writer \<Rightarrow> js_error + writer" where
  "k_string s w =
     (case s of
        None \<Rightarrow> k_int16 (-1) w
      | Some cs \<Rightarrow> (let buf = utf8_encode cs in and_then (k_int16 (int (length buf)) w) (k_raw buf)))"

definition k_bytes :: "byte list option \<Rightarrow> writer \<Rightarrow> js_error + writer" where
  "k_bytes b w =
     (case b of
        None \<Rightarrow> k_int32 (-1) w
      | Some bs \<Rightarrow> and_then (k_int32 (int (length bs)) w) (k_raw bs))"

definition zigzag :: "int \<Rightarrow> 64 word" where
  "zigzag v = word_of_int (push_bit 1 v XOR drop_bit 63 v)"

lemma unat_drop_bit: "unat (drop_bit n (w :: 64 word)) = unat w div 2 ^ n"
proof -
  have "take_bit 64 (unat w) = unat w" using unsigned_less [of w, where 'a = nat] by (intro take_bit_nat_eq_self) simp
  then show ?thesis by (simp only: unsigned_drop_bit_eq drop_bit_eq_div [where 'a = nat]) simp
qed

function varint_bytes :: "64 word \<Rightarrow> byte list" where
  "varint_bytes zz =
     (let b = ucast (zz AND 0x7f); zz' = drop_bit 7 zz
      in if zz' \<noteq> 0 then (b OR 0x80) # varint_bytes zz' else [b])"
  by pat_completeness auto

termination
proof (relation "measure unat")
  fix zz zz' :: "64 word" and b :: byte
  assume "zz' = drop_bit 7 zz" "zz' \<noteq> 0"
  then have "0 < unat (drop_bit 7 zz)" by (simp add: unat_gt_0)
  then show "(zz', zz) \<in> measure unat" using \<open>zz' = drop_bit 7 zz\<close> by (simp add: unat_drop_bit)
qed simp

declare varint_bytes.simps [simp del]

definition k_varint :: "int \<Rightarrow> writer \<Rightarrow> js_error + writer" where
  "k_varint v = k_push (Inr (varint_bytes (zigzag v)))"

definition k_build :: "writer \<Rightarrow> byte list" where
  "k_build w = concat w"

definition k_length :: "writer \<Rightarrow> nat" where
  "k_length w = foldl (\<lambda>n c. n + length c) 0 w"

section \<open>KafkaReader\<close>

definition r_take :: "nat \<Rightarrow> (nat \<Rightarrow> int \<Rightarrow> byte list \<Rightarrow> js_error + int) \<Rightarrow> reader \<Rightarrow> js_error + (int \<times> reader)" where
  "r_take n rd r = and_then (rd n (rd_off r) (rd_buf r)) (\<lambda>v. Inr (v, advance (int n) r))"

definition r_int8 :: "reader \<Rightarrow> js_error + (int \<times> reader)" where
  "r_int8 = r_take 1 read_int"

definition r_int16 :: "reader \<Rightarrow> js_error + (int \<times> reader)" where
  "r_int16 = r_take 2 read_int"

definition r_int32 :: "reader \<Rightarrow> js_error + (int \<times> reader)" where
  "r_int32 = r_take 4 read_int"

definition r_uint32 :: "reader \<Rightarrow> js_error + (int \<times> reader)" where
  "r_uint32 = r_take 4 read_uint"

definition r_int64 :: "reader \<Rightarrow> js_error + (int \<times> reader)" where
  "r_int64 = r_take 8 read_int"

text \<open>\<open>toString ('utf8', start, end)\<close> clamps its indices but, unlike \<open>subarray\<close>, does not count negative ones from the end.\<close>

definition utf8_slice :: "int \<Rightarrow> int \<Rightarrow> byte list \<Rightarrow> code_points" where
  "utf8_slice i j bs = utf8_decode (drop (nat i) (take (nat j) bs))"

definition r_string :: "reader \<Rightarrow> js_error + (code_points option \<times> reader)" where
  "r_string r = and_then (r_int16 r) (\<lambda>(len, r).
     if len = -1 then Inr (None, r)
     else Inr (Some (utf8_slice (rd_off r) (rd_off r + len) (rd_buf r)), advance len r))"

definition r_bytes :: "reader \<Rightarrow> js_error + (byte list option \<times> reader)" where
  "r_bytes r = and_then (r_int32 r) (\<lambda>(len, r).
     if len = -1 then Inr (None, r)
     else Inr (Some (subarray (rd_off r) (rd_off r + len) (rd_buf r)), advance len r))"

fun varint_loop :: "nat \<Rightarrow> int \<Rightarrow> nat \<Rightarrow> byte list \<Rightarrow> js_error + (int \<times> nat)" where
  "varint_loop shift result used [] = Inl range_error"
| "varint_loop shift result used (b # bs) =
     (let result' = result OR push_bit shift (uint b AND 0x7f)
      in if uint b AND 0x80 = 0 then Inr (result', Suc used) else varint_loop (shift + 7) result' (Suc used) bs)"

definition unzigzag :: "int \<Rightarrow> int" where
  "unzigzag n = drop_bit 1 n XOR - (n AND 1)"

definition r_varint :: "reader \<Rightarrow> js_error + (int \<times> reader)" where
  "r_varint r =
     (if rd_off r < 0 then Inl range_error
      else and_then (varint_loop 0 0 0 (drop (nat (rd_off r)) (rd_buf r)))
             (\<lambda>(n, used). Inr (unzigzag n, advance (int used) r)))"

fun r_repeat :: "nat \<Rightarrow> (reader \<Rightarrow> js_error + ('a \<times> reader)) \<Rightarrow> reader \<Rightarrow> js_error + ('a list \<times> reader)" where
  "r_repeat 0 rd r = Inr ([], r)"
| "r_repeat (Suc n) rd r = and_then (rd r) (\<lambda>(x, r). and_then (r_repeat n rd r) (\<lambda>(xs, r). Inr (x # xs, r)))"

definition r_array :: "(reader \<Rightarrow> js_error + ('a \<times> reader)) \<Rightarrow> reader \<Rightarrow> js_error + ('a list \<times> reader)" where
  "r_array rd r = and_then (r_int32 r) (\<lambda>(count, r). if count < 0 then Inr ([], r) else r_repeat (nat count) rd r)"

definition r_remaining :: "reader \<Rightarrow> byte list" where
  "r_remaining r = subarray_from (rd_off r) (rd_buf r)"

definition r_has_more :: "reader \<Rightarrow> bool" where
  "r_has_more r \<longleftrightarrow> rd_off r < int (length (rd_buf r))"

section \<open>CRC-32C\<close>

definition crc_bit :: "32 word \<Rightarrow> 32 word" where
  "crc_bit c = (if c AND 1 \<noteq> 0 then 0x82f63b78 XOR drop_bit 1 c else drop_bit 1 c)"

definition CRC32C_TABLE :: "32 word list" where
  "CRC32C_TABLE = map (\<lambda>n. (crc_bit ^^ 8) (of_nat n)) [0..<256]"

definition crc_step :: "32 word \<Rightarrow> byte \<Rightarrow> 32 word" where
  "crc_step crc b = CRC32C_TABLE ! unat ((crc XOR ucast b) AND 0xff) XOR drop_bit 8 crc"

definition crc32c :: "byte list \<Rightarrow> 32 word" where
  "crc32c buf = foldl crc_step 0xffffffff buf XOR 0xffffffff"

section \<open>Every operation is a codec\<close>

definition fits :: "nat \<Rightarrow> int \<Rightarrow> bool" where
  "fits n v \<longleftrightarrow> - (2 ^ (8 * n - 1)) \<le> v \<and> v < 2 ^ (8 * n - 1)"

named_theorems kafka_ops

lemmas kafka_operations [kafka_ops] =
  k_int8_def k_int16_def k_int32_def k_uint32_def k_int64_def r_int8_def r_int16_def r_int32_def r_uint32_def r_int64_def

lemma emits_push: "m = Inr b \<Longrightarrow> emits (k_push m) b"
  by (simp add: emits_def k_push_def)

lemma write_int_fits: "fits n v \<Longrightarrow> write_int n v = Inr (be_bytes n v)"
  by (simp add: write_int_def fits_def)

lemma write_int_overflow: "\<not> fits n v \<Longrightarrow> k_push (write_int n v) w = Inl range_error"
  by (simp add: write_int_def fits_def k_push_def)

lemma take_int_back:
  "0 < n \<Longrightarrow> fits n v \<Longrightarrow> r_take n read_int (reader_at seen (be_bytes n v @ rest)) = Inr (v, reader_at (seen @ be_bytes n v) rest)"
  using be_value_bytes_signed [of n v] by (simp add: r_take_def read_int_def fits_def)

lemma take_uint_back:
  "0 \<le> v \<Longrightarrow> v < 2 ^ (8 * n) \<Longrightarrow>
   r_take n read_uint (reader_at seen (be_bytes n v @ rest)) = Inr (v, reader_at (seen @ be_bytes n v) rest)"
  by (simp add: r_take_def read_uint_def be_value_bytes_unsigned)

interpretation i8: codec "fits 1" "be_bytes 1" k_int8 r_int8
  by unfold_locales (auto simp: kafka_ops take_int_back write_int_fits intro!: emits_push)

interpretation i16: codec "fits 2" "be_bytes 2" k_int16 r_int16
  by unfold_locales (auto simp: kafka_ops take_int_back write_int_fits intro!: emits_push)

interpretation i32: codec "fits 4" "be_bytes 4" k_int32 r_int32
  by unfold_locales (auto simp: kafka_ops take_int_back write_int_fits intro!: emits_push)

interpretation i64: codec "fits 8" "be_bytes 8" k_int64 r_int64
  by unfold_locales (auto simp: kafka_ops take_int_back write_int_fits intro!: emits_push)

interpretation u32: codec "\<lambda>v. 0 \<le> v \<and> v < 2 ^ 32" "be_bytes 4" k_uint32 r_uint32
proof (unfold_locales, goal_cases)
  case (1 v)
  then have "take_bit 32 v = v" by (simp add: take_bit_int_eq_self)
  with 1 show ?case by (auto simp: k_uint32_def write_uint_def intro!: emits_push)
next
  case (2 v seen rest)
  then show ?case using take_uint_back [of v 4 seen rest] by (simp add: r_uint32_def)
qed

section \<open>Variable-length integers\<close>

lemma zigzag_value:
  assumes "fits 8 v"
  shows "uint (zigzag v) = (if v < 0 then - 2 * v - 1 else 2 * v)"
proof (cases "v < 0")
  case True
  have "drop_bit 63 v = -1" using assms True by (simp add: drop_bit_eq_div fits_def)
  then have "zigzag v = word_of_int (- 2 * v - 1)" by (simp add: zigzag_def not_int_def push_bit_eq_mult)
  moreover have "(- 2 * v - 1) mod 2 ^ 64 = - 2 * v - 1" using assms True by (intro mod_pos_pos_trivial) (simp_all add: fits_def)
  ultimately show ?thesis using True by (simp only: uint_word_of_int) simp
next
  case False
  have "drop_bit 63 v = 0" using assms False by (simp add: drop_bit_eq_div fits_def)
  then have "zigzag v = word_of_int (2 * v)" by (simp add: zigzag_def push_bit_eq_mult)
  moreover have "(2 * v) mod 2 ^ 64 = 2 * v" using assms False by (intro mod_pos_pos_trivial) (simp_all add: fits_def)
  ultimately show ?thesis using False by (simp only: uint_word_of_int) simp
qed

lemma unzigzag_zigzag: "fits 8 v \<Longrightarrow> unzigzag (uint (zigzag v)) = v"
proof (cases "v < 0")
  case True
  have "(- 2 * v - 1) div 2 = - v - 1" "(- 2 * v - 1) mod 2 = 1" by presburger+
  moreover assume "fits 8 v"
  ultimately show ?thesis using True by (simp add: zigzag_value unzigzag_def and_one_eq drop_bit_eq_div not_int_def)
qed (simp add: zigzag_value unzigzag_def and_one_eq drop_bit_eq_div)

lemma varint_low: "uint (ucast (zz AND 0x7f :: 64 word) :: byte) = take_bit 7 (uint zz)"
proof -
  have m: "(127 :: int) = mask 7" by (simp add: mask_eq_exp_minus_1)
  have "uint (ucast (zz AND 0x7f :: 64 word) :: byte) = take_bit 8 (uint zz AND 127)" by (simp add: unsigned_ucast_eq uint_and)
  then show ?thesis by (simp only: m take_bit_eq_mask [symmetric] take_bit_take_bit)
qed

lemma bit_127: "bit (127 :: int) k \<longleftrightarrow> k < 7"
  using bit_mask_iff [of 7 k, where 'a = int] by (simp add: mask_eq_exp_minus_1)

lemma bit_128: "bit (128 :: int) k \<longleftrightarrow> k = 7"
  using bit_exp_iff [of 7 k, where 'a = int] by auto

lemma varint_byte:
  fixes zz :: "64 word"
  defines "b \<equiv> ucast (zz AND 0x7f) :: byte"
  shows "uint b AND 0x7f = take_bit 7 (uint zz)" "uint b AND 0x80 = 0"
    "uint (b OR 0x80) AND 0x7f = take_bit 7 (uint zz)" "uint (b OR 0x80) AND 0x80 \<noteq> 0"
proof -
  have u: "uint b = take_bit 7 (uint zz)" by (simp add: b_def varint_low)
  note bits = bit_simps bit_127 bit_128
  show "uint b AND 0x7f = take_bit 7 (uint zz)" unfolding u by (rule bit_eqI) (auto simp: bits)
  show "uint b AND 0x80 = 0" unfolding u by (rule bit_eqI) (auto simp: bits)
  have o: "uint (b OR 0x80) = take_bit 7 (uint zz) OR 0x80" by (simp add: uint_or u)
  show "uint (b OR 0x80) AND 0x7f = take_bit 7 (uint zz)" unfolding o by (rule bit_eqI) (auto simp: bits)
  have "bit (uint (b OR 0x80) AND 0x80) 7" unfolding o by (simp add: bits)
  then show "uint (b OR 0x80) AND 0x80 \<noteq> 0" by (metis bit_0_eq bot_apply bot_bool_def)
qed

lemma split_low_bits: "take_bit n a OR push_bit n (drop_bit n a) = (a :: int)"
proof (rule bit_eqI)
  fix m
  show "bit (take_bit n a OR push_bit n (drop_bit n a)) m \<longleftrightarrow> bit a m" by (cases "m < n") (simp_all add: bit_simps)
qed

lemma uint_drop_bit: "uint (drop_bit n (w :: 64 word)) = drop_bit n (uint w)"
proof -
  have "take_bit 64 (uint w) = uint w" using unsigned_less [of w, where 'a = int] by (intro take_bit_int_eq_self) simp_all
  then show ?thesis by (simp only: unsigned_drop_bit_eq) simp
qed

lemma varint_loop_back:
  "varint_loop shift result used (varint_bytes zz @ rest) =
     Inr (result OR push_bit shift (uint zz), used + length (varint_bytes zz))"
proof (induction zz arbitrary: shift result used rule: varint_bytes.induct)
  case (1 zz)
  note step = varint_bytes.simps [of zz]
  show ?case
  proof (cases "drop_bit 7 zz = 0")
    case True
    then have "drop_bit 7 (uint zz) = 0" by (metis uint_drop_bit unsigned_0)
    then have "take_bit 7 (uint zz) = uint zz" using split_low_bits [of 7 "uint zz"] by simp
    with True show ?thesis by (simp add: step Let_def varint_byte)
  next
    case False
    have "result OR push_bit shift (take_bit 7 (uint zz)) OR push_bit (shift + 7) (uint (drop_bit 7 zz)) =
        result OR push_bit shift (take_bit 7 (uint zz) OR push_bit 7 (drop_bit 7 (uint zz)))"
      by (simp add: uint_drop_bit or.assoc push_bit_or push_bit_push_bit add.commute)
    then have "result OR push_bit shift (take_bit 7 (uint zz)) OR push_bit (shift + 7) (uint (drop_bit 7 zz)) =
        result OR push_bit shift (uint zz)" by (simp only: split_low_bits)
    with False 1 [OF refl refl False] show ?thesis by (simp add: step Let_def varint_byte or.assoc)
  qed
qed

lemma r_varint_back:
  "fits 8 v \<Longrightarrow>
   r_varint (reader_at seen (varint_bytes (zigzag v) @ rest)) = Inr (v, reader_at (seen @ varint_bytes (zigzag v)) rest)"
  using varint_loop_back [of 0 0 0 "zigzag v" rest]
  by (simp add: r_varint_def reader_at_def advance_def unzigzag_zigzag)

interpretation vi: codec "fits 8" "\<lambda>v. varint_bytes (zigzag v)" k_varint r_varint
  by unfold_locales (auto simp: k_varint_def r_varint_back intro!: emits_push)

section \<open>Strings, byte arrays and sequences\<close>

definition string_ok :: "code_points option \<Rightarrow> bool" where
  "string_ok s = (case s of None \<Rightarrow> True | Some cs \<Rightarrow> list_all scalar_value cs \<and> length (utf8_encode cs) < 2 ^ 15)"

definition string_bytes :: "code_points option \<Rightarrow> byte list" where
  "string_bytes s =
     (case s of None \<Rightarrow> be_bytes 2 (-1) | Some cs \<Rightarrow> be_bytes 2 (int (length (utf8_encode cs))) @ utf8_encode cs)"

definition bytes_ok :: "byte list option \<Rightarrow> bool" where
  "bytes_ok b = (case b of None \<Rightarrow> True | Some bs \<Rightarrow> length bs < 2 ^ 31)"

definition bytes_bytes :: "byte list option \<Rightarrow> byte list" where
  "bytes_bytes b = (case b of None \<Rightarrow> be_bytes 4 (-1) | Some bs \<Rightarrow> be_bytes 4 (int (length bs)) @ bs)"

lemma emits_raw: "emits (k_raw bs) bs"
  by (simp add: k_raw_def emits_push)

lemma fits_length:
  "length bs < 2 ^ 15 \<Longrightarrow> fits 2 (int (length bs))" "length bs < 2 ^ 31 \<Longrightarrow> fits 4 (int (length bs))"
  "fits 2 (-1)" "fits 4 (-1)"
  by (simp_all add: fits_def)

lemma utf8_slice_reader:
  "utf8_slice (rd_off (reader_at seen (bs @ rest))) (rd_off (reader_at seen (bs @ rest)) + int (length bs))
     (rd_buf (reader_at seen (bs @ rest))) = utf8_decode bs"
  by (simp add: utf8_slice_def reader_at_def nat_add_distrib)

lemma string_emits: "string_ok s \<Longrightarrow> emits (k_string s) (string_bytes s)"
proof (cases s)
  case None
  then show ?thesis using i16.put_emits [OF fits_length(3)] by (simp add: emits_def k_string_def string_bytes_def)
next
  case (Some cs)
  moreover assume "string_ok s"
  ultimately have "emits (k_int16 (int (length (utf8_encode cs)))) (be_bytes 2 (int (length (utf8_encode cs))))"
    by (intro i16.put_emits fits_length) (simp add: string_ok_def)
  from emits_chain [OF this emits_raw] show ?thesis
    using Some by (simp add: emits_def k_string_def string_bytes_def Let_def)
qed

lemma string_back: "string_ok s \<Longrightarrow> r_string (reader_at seen (string_bytes s @ rest)) = Inr (s, reader_at (seen @ string_bytes s) rest)"
proof (cases s)
  case None
  then show ?thesis using i16.get_back [OF fits_length(3), of seen rest] by (simp add: r_string_def string_bytes_def)
next
  case (Some cs)
  moreover assume "string_ok s"
  ultimately have "list_all scalar_value cs" "fits 2 (int (length (utf8_encode cs)))" by (simp_all add: string_ok_def fits_length)
  from i16.get_back [OF this(2), of seen "utf8_encode cs @ rest"] utf8_round_trip [OF this(1)] show ?thesis
    using Some by (simp add: r_string_def string_bytes_def utf8_slice_reader)
qed

interpretation ks: codec string_ok string_bytes k_string r_string
  by unfold_locales (simp_all add: string_emits string_back)

lemma bytes_emits: "bytes_ok b \<Longrightarrow> emits (k_bytes b) (bytes_bytes b)"
proof (cases b)
  case None
  then show ?thesis using i32.put_emits [OF fits_length(4)] by (simp add: emits_def k_bytes_def bytes_bytes_def)
next
  case (Some bs)
  moreover assume "bytes_ok b"
  ultimately have "emits (k_int32 (int (length bs))) (be_bytes 4 (int (length bs)))"
    by (intro i32.put_emits fits_length) (simp add: bytes_ok_def)
  from emits_chain [OF this emits_raw] show ?thesis
    using Some by (simp add: emits_def k_bytes_def bytes_bytes_def)
qed

lemma bytes_back: "bytes_ok b \<Longrightarrow> r_bytes (reader_at seen (bytes_bytes b @ rest)) = Inr (b, reader_at (seen @ bytes_bytes b) rest)"
proof (cases b)
  case None
  then show ?thesis using i32.get_back [OF fits_length(4), of seen rest] by (simp add: r_bytes_def bytes_bytes_def)
next
  case (Some bs)
  moreover assume "bytes_ok b"
  ultimately have f: "fits 4 (int (length bs))" by (simp add: bytes_ok_def fits_length)
  have "subarray (rd_off r) (rd_off r + int (length bs)) (rd_buf r) = bs" if "r = reader_at (seen @ be_bytes 4 (int (length bs))) (bs @ rest)" for r
    unfolding that by (rule subarray_reader) (simp_all add: reader_at_def)
  with i32.get_back [OF f, of seen "bs @ rest"] show ?thesis
    using Some by (simp add: r_bytes_def bytes_bytes_def)
qed

interpretation kb_opt: codec bytes_ok bytes_bytes k_bytes r_bytes
  by unfold_locales (simp_all add: bytes_emits bytes_back)

context codec
begin

lemma repeat_back:
  "list_all good xs \<Longrightarrow>
   r_repeat (length xs) get (reader_at seen (concat (map bytes xs) @ rest)) =
     Inr (xs, reader_at (seen @ concat (map bytes xs)) rest)"
  by (induction xs arbitrary: seen) (simp_all add: get_back)

lemma array_back:
  assumes "list_all good xs" "length xs < 2 ^ 31"
  shows "r_array get (reader_at seen (be_bytes 4 (int (length xs)) @ concat (map bytes xs) @ rest)) =
     Inr (xs, reader_at (seen @ be_bytes 4 (int (length xs)) @ concat (map bytes xs)) rest)"
  using i32.get_back [OF fits_length(2) [OF assms(2)], of seen "concat (map bytes xs) @ rest"]
    repeat_back [OF assms(1), of "seen @ be_bytes 4 (int (length xs))" rest]
  by (simp add: r_array_def)

end

section \<open>The checksum\<close>

text \<open>The table saves seven of eight shifts: a step of \<open>crc32c\<close> is eight steps of the shift register.\<close>

definition crc_shift :: "32 word \<Rightarrow> byte \<Rightarrow> 32 word" where
  "crc_shift crc b = (crc_bit ^^ 8) (crc XOR ucast b)"

lemma crc_bit_cases: "crc_bit c = (if bit c 0 then 0x82f63b78 XOR drop_bit 1 c else drop_bit 1 c)"
  by (simp add: crc_bit_def and_one_eq bit_0 odd_iff_mod_2_eq_one)

lemma crc_bit_xor: "crc_bit (x XOR y) = crc_bit x XOR crc_bit y"
  by (auto simp: crc_bit_cases bit_xor_iff xor.assoc xor.left_commute xor.commute)

lemma crc_bits_xor: "(crc_bit ^^ k) (x XOR y) = (crc_bit ^^ k) x XOR (crc_bit ^^ k) y"
  by (induction k) (simp_all add: crc_bit_xor)

lemma crc_bits_zero: "(\<forall>i < k. \<not> bit y i) \<Longrightarrow> (crc_bit ^^ k) y = drop_bit k y"
proof (induction k arbitrary: y)
  case 0
  then show ?case by simp
next
  case (Suc k)
  then have "crc_bit y = drop_bit 1 y" by (simp add: crc_bit_cases)
  moreover have "\<forall>i < k. \<not> bit (drop_bit 1 y) i" using Suc.prems by (simp add: bit_drop_bit_eq)
  ultimately show ?case using Suc.IH [of "drop_bit 1 y"] by (simp add: funpow_Suc_right del: funpow.simps)
qed

lemma bit_255: "bit (255 :: int) k \<longleftrightarrow> k < 8"
  using bit_mask_iff [of 8 k, where 'a = int] by (simp add: mask_eq_exp_minus_1)

lemma crc_step_shift: "crc_step crc b = crc_shift crc b"
proof -
  define x where "x = crc XOR ucast b"
  have "x = (x AND 0xff) XOR (x AND NOT 0xff)" by (rule bit_eqI) (auto simp: bit_simps)
  then have e: "(crc_bit ^^ 8) x = (crc_bit ^^ 8) (x AND 0xff) XOR (crc_bit ^^ 8) (x AND NOT 0xff)"
    by (metis crc_bits_xor)
  have "\<forall>i < 8. \<not> bit (x AND NOT 0xff) i" by (simp add: bit_simps bit_255)
  then have high: "(crc_bit ^^ 8) (x AND NOT 0xff) = drop_bit 8 (x AND NOT 0xff)" by (rule crc_bits_zero)
  have rest: "drop_bit 8 (x AND NOT 0xff) = drop_bit 8 crc"
  proof (rule bit_eqI)
    fix n
    have "\<not> bit (ucast b :: 32 word) (8 + n)" by (auto simp: bit_ucast_iff dest: bit_imp_le_length)
    moreover have "bit (NOT 0xff :: 32 word) (8 + n) \<longleftrightarrow> 8 + n < 32" by (simp only: bit_not_iff) (simp add: bit_simps bit_255)
    ultimately show "bit (drop_bit 8 (x AND NOT 0xff)) n = bit (drop_bit 8 crc) n"
      unfolding x_def by (simp only: bit_drop_bit_eq o_apply bit_and_iff bit_xor_iff) (auto dest: bit_imp_le_length)
  qed
  have tbl: "CRC32C_TABLE ! unat (x AND 0xff) = (crc_bit ^^ 8) (x AND 0xff)"
  proof -
    have "unat (x AND 0xff) < 256" using word_and_le1 [of x "0xff"] by (simp add: word_le_nat_alt)
    then show ?thesis by (simp add: CRC32C_TABLE_def)
  qed
  show ?thesis by (simp only: crc_step_def crc_shift_def x_def [symmetric] e high rest tbl)
qed

lemma crc32c_shift: "crc32c buf = foldl crc_shift 0xffffffff buf XOR 0xffffffff"
  by (simp add: crc32c_def crc_step_shift cong: foldl_cong)

text \<open>The shift register loses nothing: the bit shifted out is bit 31 of the result.\<close>

lemma xor_cancel: "(a :: 32 word) XOR b = a XOR c \<Longrightarrow> b = c"
proof -
  assume "a XOR b = a XOR c"
  then have "a XOR (a XOR b) = a XOR (a XOR c)" by simp
  then show ?thesis by (simp add: xor.assoc [symmetric])
qed

lemma xor_cancel_iff: "(a :: 32 word) XOR b = a XOR c \<longleftrightarrow> b = c"
  using xor_cancel by blast

lemma crc_bit_inject: "crc_bit x = crc_bit y \<Longrightarrow> x = y"
proof -
  assume e: "crc_bit x = crc_bit y"
  have sign: "bit (crc_bit c) 31 \<longleftrightarrow> bit c 0" for c
    using not_bit_length [of c] by (simp add: crc_bit_cases bit_simps)
  have zero: "bit x 0 = bit y 0" using sign [of x] sign [of y] e by simp
  then have d: "drop_bit 1 x = drop_bit 1 y"
    using e xor_cancel [of "0x82f63b78" "drop_bit 1 x" "drop_bit 1 y"] by (auto simp: crc_bit_cases split: if_splits)
  show ?thesis
  proof (rule bit_eqI)
    fix n
    show "bit x n = bit y n"
    proof (cases n)
      case (Suc m)
      have "bit (drop_bit 1 x) m = bit (drop_bit 1 y) m" using d by simp
      then show ?thesis by (simp add: bit_drop_bit_eq Suc)
    qed (use zero in simp)
  qed
qed

lemma crc_bits_inject: "(crc_bit ^^ k) x = (crc_bit ^^ k) y \<Longrightarrow> x = y"
  by (induction k) (auto dest: crc_bit_inject)

lemma crc_shift_inject: "crc_shift x b = crc_shift y b \<Longrightarrow> x = y"
  unfolding crc_shift_def by (drule crc_bits_inject) (simp add: xor.commute [of _ "ucast b"] xor_cancel_iff)

lemma crc_shift_byte: "crc_shift x b = crc_shift x c \<Longrightarrow> b = c"
proof -
  assume "crc_shift x b = crc_shift x c"
  then have "x XOR ucast b = x XOR ucast c" unfolding crc_shift_def by (rule crc_bits_inject)
  then have "(ucast b :: 32 word) = ucast c" by (rule xor_cancel)
  then have "ucast (ucast b :: 32 word) = (ucast (ucast c :: 32 word) :: byte)" by simp
  then show ?thesis by (simp add: ucast_up_ucast_id is_up)
qed

lemma crc_run_inject: "foldl crc_shift x bs = foldl crc_shift y bs \<Longrightarrow> x = y"
  by (induction bs arbitrary: x y) (auto dest: crc_shift_inject)

end
