(* ===== verification/RecordBatch.thy ===== *)
theory RecordBatch
  imports KafkaPrimitives
begin

text \<open>
  \<open>packages/core/src/transports/kafka/recordbatch.ts\<close>: Kafka's RecordBatch v2, uncompressed.

  The encoder threads writers (\<open>recW\<close>, \<open>inner\<close>, \<open>afterCrc\<close>, \<open>head\<close>, \<open>full\<close>); \<open>seq_put\<close> runs a list of writer operations one
  after the other.  \<open>Date.now ()\<close> is the argument \<open>now\<close>.  The decoder reads a batch field by field; a batch that does not
  end inside the buffer ends the loop, one with another magic number is skipped.  \<open>Number (r.varint ())\<close> is taken exact.
\<close>

section \<open>Encoding\<close>

record kafka_record =
  kr_key :: "byte list option"
  kr_value :: "byte list option"
  kr_offset :: "int option"
  kr_timestamp :: "int option"

record batch_options =
  bo_producerId :: "int option"
  bo_producerEpoch :: "int option"
  bo_baseSequence :: "int option"

definition MAGIC :: int where
  "MAGIC = 2"

type_synonym put_op = "writer \<Rightarrow> js_error + writer"

fun seq_put :: "put_op list \<Rightarrow> put_op" where
  "seq_put [] w = Inr w"
| "seq_put (f # fs) w = and_then (f w) (seq_put fs)"

definition built :: "put_op list \<Rightarrow> js_error + byte list" where
  "built fs = and_then (seq_put fs []) (\<lambda>w. Inr (k_build w))"

definition put_nullable :: "byte list option \<Rightarrow> put_op list" where
  "put_nullable b = (case b of None \<Rightarrow> [k_varint (-1)] | Some bs \<Rightarrow> [k_varint (int (length bs)), k_raw bs])"

definition encode_record :: "nat \<Rightarrow> kafka_record \<Rightarrow> js_error + byte list" where
  "encode_record i rec =
     built ([k_int8 0, k_varint 0, k_varint (int i)] @ put_nullable (kr_key rec) @ put_nullable (kr_value rec) @ [k_varint 0])"

fun encode_records :: "nat \<Rightarrow> kafka_record list \<Rightarrow> put_op" where
  "encode_records i [] recW = Inr recW"
| "encode_records i (rec # recs) recW =
     and_then (encode_record i rec) (\<lambda>body.
       and_then (seq_put [k_varint (int (length body)), k_raw body] recW) (encode_records (Suc i) recs))"

definition encode_record_batch :: "int \<Rightarrow> kafka_record list \<Rightarrow> batch_options \<Rightarrow> js_error + byte list" where
  "encode_record_batch now records opts =
     and_then (built [encode_records 0 records]) (\<lambda>recordsBuf.
     and_then (built
       [k_int16 0, k_int32 (int (length records) - 1), k_int64 now, k_int64 now,
        k_int64 (nullish (bo_producerId opts) (-1)), k_int16 (nullish (bo_producerEpoch opts) (-1)),
        k_int32 (nullish (bo_baseSequence opts) (-1)), k_int32 (int (length records)), k_raw recordsBuf]) (\<lambda>afterCrcBuf.
     and_then (built [k_int32 (-1), k_int8 MAGIC, k_uint32 (uint (crc32c afterCrcBuf))]) (\<lambda>headBuf.
     built [k_int64 0, k_int32 (int (length (headBuf @ afterCrcBuf))), k_raw (headBuf @ afterCrcBuf)])))"

section \<open>Decoding\<close>

definition r_skip :: "int \<Rightarrow> reader \<Rightarrow> reader" where
  "r_skip n r = advance n r"

definition read_nullable :: "reader \<Rightarrow> js_error + (byte list option \<times> reader)" where
  "read_nullable r = and_then (r_varint r) (\<lambda>(len, r).
     Inr (if len < 0 then None else Some (subarray 0 len (r_remaining r)), if 0 \<le> len then r_skip len r else r))"

definition skip_counted :: "reader \<Rightarrow> js_error + reader" where
  "skip_counted r = and_then (r_varint r) (\<lambda>(len, r). Inr (if 0 \<le> len then r_skip len r else r))"

fun skip_headers :: "nat \<Rightarrow> reader \<Rightarrow> js_error + reader" where
  "skip_headers 0 r = Inr r"
| "skip_headers (Suc n) r = and_then (skip_counted r) (\<lambda>r. and_then (skip_counted r) (skip_headers n))"

definition decode_record :: "int \<Rightarrow> int \<Rightarrow> reader \<Rightarrow> js_error + (kafka_record \<times> reader)" where
  "decode_record baseOffset firstTimestamp r =
     and_then (r_varint r) (\<lambda>(_, r).
     and_then (r_int8 r) (\<lambda>(_, r).
     and_then (r_varint r) (\<lambda>(tsDelta, r).
     and_then (r_varint r) (\<lambda>(offsetDelta, r).
     and_then (read_nullable r) (\<lambda>(key, r).
     and_then (read_nullable r) (\<lambda>(val, r).
     and_then (r_varint r) (\<lambda>(headerCount, r).
     and_then (skip_headers (nat headerCount) r) (\<lambda>r.
       Inr (\<lparr>kr_key = key, kr_value = val, kr_offset = Some (baseOffset + offsetDelta),
             kr_timestamp = Some (firstTimestamp + tsDelta)\<rparr>, r)))))))))"

definition decode_batch :: "int \<Rightarrow> byte list \<Rightarrow> js_error + kafka_record list" where
  "decode_batch baseOffset batch =
     and_then (r_int32 \<lparr>rd_buf = batch, rd_off = 0\<rparr>) (\<lambda>(_, r).
     and_then (r_int8 r) (\<lambda>(magic, r).
     and_then (r_uint32 r) (\<lambda>(_, r).
     and_then (r_int16 r) (\<lambda>(_, r).
     and_then (r_int32 r) (\<lambda>(_, r).
     and_then (r_int64 r) (\<lambda>(firstTimestamp, r).
     and_then (r_int64 r) (\<lambda>(_, r).
     and_then (r_int64 r) (\<lambda>(_, r).
     and_then (r_int16 r) (\<lambda>(_, r).
     and_then (r_int32 r) (\<lambda>(_, r).
     and_then (r_int32 r) (\<lambda>(count, r).
       if magic \<noteq> MAGIC then Inr []
       else and_then (r_repeat (nat count) (decode_record baseOffset firstTimestamp) r) (\<lambda>(recs, _). Inr recs))))))))))))"

text \<open>The rest of the buffer is what lies behind \<open>offset\<close>.\<close>

function decode_record_batches :: "byte list \<Rightarrow> js_error + kafka_record list" where
  "decode_record_batches buf =
     (if 12 \<le> length buf
      then and_then (read_int 8 0 buf) (\<lambda>baseOffset.
           and_then (read_int 4 8 buf) (\<lambda>batchLength.
             if batchLength \<le> 0 \<or> int (length buf) < 12 + batchLength then Inr []
             else and_then (decode_batch baseOffset (subarray 12 (12 + batchLength) buf)) (\<lambda>recs.
                  and_then (decode_record_batches (drop (12 + nat batchLength) buf)) (\<lambda>more. Inr (recs @ more)))))
      else Inr [])"
  by pat_completeness auto

termination
  by (relation "measure length") auto

declare decode_record_batches.simps [simp del]


section \<open>What the encoder writes\<close>

definition varint_of :: "int \<Rightarrow> byte list" where
  "varint_of v = varint_bytes (zigzag v)"

definition nullable_bytes :: "byte list option \<Rightarrow> byte list" where
  "nullable_bytes b = (case b of None \<Rightarrow> varint_of (-1) | Some bs \<Rightarrow> varint_of (int (length bs)) @ bs)"

definition record_body :: "nat \<Rightarrow> kafka_record \<Rightarrow> byte list" where
  "record_body i rec =
     be_bytes 1 0 @ varint_of 0 @ varint_of (int i) @ nullable_bytes (kr_key rec) @ nullable_bytes (kr_value rec) @ varint_of 0"

definition framed_record :: "nat \<Rightarrow> kafka_record \<Rightarrow> byte list" where
  "framed_record i rec = varint_of (int (length (record_body i rec))) @ record_body i rec"

fun records_bytes :: "nat \<Rightarrow> kafka_record list \<Rightarrow> byte list" where
  "records_bytes i [] = []"
| "records_bytes i (rec # recs) = framed_record i rec @ records_bytes (Suc i) recs"

lemma varint_raw_ops: "k_varint v w = Inr (w @ [varint_of v])" "k_raw b w = Inr (w @ [b])"
  by (simp_all add: k_varint_def k_raw_def k_push_def varint_of_def)

lemma k_push_Inr: "k_push (write_int n v) w = Inr w' \<longleftrightarrow> fits n v \<and> w' = w @ [be_bytes n v]"
  by (auto simp: k_push_def write_int_def fits_def)

lemma seq_put_append: "seq_put (fs @ gs) w = and_then (seq_put fs w) (seq_put gs)"
  by (induction fs arbitrary: w) (auto simp: and_then_def split: sum.split)

lemma put_nullable_bytes: "\<exists>cs. seq_put (put_nullable b) w = Inr (w @ cs) \<and> concat cs = nullable_bytes b"
  by (cases b) (auto simp: put_nullable_def nullable_bytes_def varint_raw_ops)

lemma encode_record_bytes: "encode_record i rec = Inr (record_body i rec)"
proof -
  obtain ks vs where n: "\<And>w. seq_put (put_nullable (kr_key rec)) w = Inr (w @ ks)" "concat ks = nullable_bytes (kr_key rec)"
    "\<And>w. seq_put (put_nullable (kr_value rec)) w = Inr (w @ vs)" "concat vs = nullable_bytes (kr_value rec)"
    using that by (cases "kr_key rec"; cases "kr_value rec") (simp_all add: put_nullable_def nullable_bytes_def varint_raw_ops)
  have z: "k_int8 0 w = Inr (w @ [be_bytes 1 0])" for w by (simp add: k_int8_def k_push_Inr fits_def)
  show ?thesis unfolding encode_record_def built_def record_body_def seq_put_append
    by (simp add: z varint_raw_ops n k_build_def)
qed

lemma encode_records_bytes: "\<exists>w'. encode_records i recs w = Inr w' \<and> concat w' = concat w @ records_bytes i recs"
proof (induction recs arbitrary: i w)
  case Nil
  then show ?case by simp
next
  case (Cons rec recs)
  from Cons.IH [of "Suc i" "w @ [varint_of (int (length (record_body i rec))), record_body i rec]"]
  show ?case by (simp add: encode_record_bytes varint_raw_ops framed_record_def)
qed

text \<open>The body of a batch behind its length field.\<close>

definition batch_body :: "int \<Rightarrow> int \<Rightarrow> kafka_record list \<Rightarrow> batch_options \<Rightarrow> byte list" where
  "batch_body crc now recs opts =
     be_bytes 4 (-1) @ be_bytes 1 MAGIC @ be_bytes 4 crc @ be_bytes 2 0 @ be_bytes 4 (int (length recs) - 1) @
     be_bytes 8 now @ be_bytes 8 now @ be_bytes 8 (nullish (bo_producerId opts) (-1)) @
     be_bytes 2 (nullish (bo_producerEpoch opts) (-1)) @ be_bytes 4 (nullish (bo_baseSequence opts) (-1)) @
     be_bytes 4 (int (length recs)) @ records_bytes 0 recs"

definition in_range :: "int \<Rightarrow> kafka_record list \<Rightarrow> batch_options \<Rightarrow> bool" where
  "in_range now recs opts \<longleftrightarrow>
     fits 8 now \<and> fits 8 (nullish (bo_producerId opts) (-1)) \<and> fits 2 (nullish (bo_producerEpoch opts) (-1)) \<and>
     fits 4 (nullish (bo_baseSequence opts) (-1)) \<and> length (records_bytes 0 recs) + 49 < 2 ^ 31"

lemma framed_record_length:
  "1 \<le> length (framed_record i rec)"
  "length (nullish (kr_key rec) []) + length (nullish (kr_value rec) []) \<le> length (record_body i rec)"
  "length (record_body i rec) \<le> length (framed_record i rec)"
  by (simp_all add: framed_record_def record_body_def nullable_bytes_def split: option.split)

lemma records_bytes_length: "length recs \<le> length (records_bytes i recs)"
proof (induction recs arbitrary: i)
  case Nil
  then show ?case by simp
next
  case (Cons rec recs)
  from Cons.IH [of "Suc i"] framed_record_length(1) [of i rec] show ?case by simp
qed


definition batch_crc :: "int \<Rightarrow> kafka_record list \<Rightarrow> batch_options \<Rightarrow> int" where
  "batch_crc now recs opts = uint (crc32c (drop 9 (batch_body 0 now recs opts)))"

definition batch_bytes :: "int \<Rightarrow> kafka_record list \<Rightarrow> batch_options \<Rightarrow> byte list" where
  "batch_bytes now recs opts =
     (let body = batch_body (batch_crc now recs opts) now recs opts in be_bytes 8 0 @ be_bytes 4 (int (length body)) @ body)"

lemma built_Inr: "built fs = Inr b \<longleftrightarrow> (\<exists>w. seq_put fs [] = Inr w \<and> b = concat w)"
  by (auto simp: built_def and_then_Inr k_build_def)

lemma built_records: "built [encode_records 0 recs] = Inr (records_bytes 0 recs)"
  using encode_records_bytes [of 0 recs "[]"] by (auto simp: built_Inr)

lemma crc_put: "k_uint32 (uint (c :: 32 word)) w = Inr (w @ [be_bytes 4 (uint c)])"
proof -
  have "uint c < 2 ^ 32" using unsigned_less [of c, where 'a = int] by simp
  then show ?thesis by (simp add: k_uint32_def k_push_def write_uint_def take_bit_int_eq_self)
qed

lemma batch_body_length: "length (batch_body crc now recs opts) = 49 + length (records_bytes 0 recs)"
  by (simp add: batch_body_def)

lemma encode_batch_Inr:
  "encode_record_batch now recs opts = Inr buf \<longleftrightarrow> in_range now recs opts \<and> buf = batch_bytes now recs opts"
proof -
  have small: "fits 4 (int (length (records_bytes 0 recs)) + 49) \<longleftrightarrow> length (records_bytes 0 recs) + 49 < 2 ^ 31" by (auto simp: fits_def)
  have counts: "length (records_bytes 0 recs) + 49 < 2 ^ 31 \<Longrightarrow> fits 4 (int (length recs)) \<and> fits 4 (int (length recs) - 1)"
    using records_bytes_length [of recs 0] by (simp add: fits_def)
  have z: "fits 2 0" "fits 8 0" "fits 4 (-1)" "fits 1 MAGIC" by (simp_all add: fits_def MAGIC_def)
  define after where "after = drop 9 (batch_body 0 now recs opts)"
  have after: "batch_body crc now recs opts = be_bytes 4 (-1) @ be_bytes 1 MAGIC @ be_bytes 4 crc @ after" for crc
    by (simp add: after_def batch_body_def)
  have len: "length after = 40 + length (records_bytes 0 recs)" by (simp add: after_def batch_body_length)
  have mid: "built [k_int16 0, k_int32 (int (length recs) - 1), k_int64 now, k_int64 now,
        k_int64 (nullish (bo_producerId opts) (-1)), k_int16 (nullish (bo_producerEpoch opts) (-1)),
        k_int32 (nullish (bo_baseSequence opts) (-1)), k_int32 (int (length recs)), k_raw (records_bytes 0 recs)] = Inr b \<longleftrightarrow>
      fits 4 (int (length recs) - 1) \<and> fits 8 now \<and> fits 8 (nullish (bo_producerId opts) (-1)) \<and>
      fits 2 (nullish (bo_producerEpoch opts) (-1)) \<and> fits 4 (nullish (bo_baseSequence opts) (-1)) \<and>
      fits 4 (int (length recs)) \<and> b = after" for b
    by (auto simp: built_Inr kafka_ops and_then_Inr k_push_Inr varint_raw_ops z after_def batch_body_def)
  have head: "built [k_int32 (-1), k_int8 MAGIC, k_uint32 (uint c)] = Inr (be_bytes 4 (-1) @ be_bytes 1 MAGIC @ be_bytes 4 (uint c))"
    for c :: "32 word"
    by (simp add: built_Inr k_int32_def k_int8_def crc_put and_then_Inr k_push_Inr z del: One_nat_def)
  have full: "built [k_int64 0, k_int32 n, k_raw b] = Inr c \<longleftrightarrow> fits 4 n \<and> c = be_bytes 8 0 @ be_bytes 4 n @ b" for n b c
    by (auto simp: built_Inr k_int64_def k_int32_def and_then_Inr k_push_Inr varint_raw_ops z)
  show ?thesis
    unfolding encode_record_batch_def built_records and_then_simps using counts
    by (auto simp: and_then_Inr mid head full in_range_def batch_bytes_def Let_def batch_crc_def after len small
        add.commute [of 49] simp flip: after_def)
qed


section \<open>What the decoder reads\<close>

fun delivered_from :: "int \<Rightarrow> nat \<Rightarrow> kafka_record list \<Rightarrow> kafka_record list" where
  "delivered_from now i [] = []"
| "delivered_from now i (rec # recs) =
     \<lparr>kr_key = kr_key rec, kr_value = kr_value rec, kr_offset = Some (int i), kr_timestamp = Some now\<rparr> # delivered_from now (Suc i) recs"

lemma varint_back: "fits 8 v \<Longrightarrow> r_varint (reader_at seen (varint_of v @ rest)) = Inr (v, reader_at (seen @ varint_of v) rest)"
  unfolding varint_of_def by (rule vi.get_back)

lemma nullable_back:
  assumes "length (nullish b []) < 2 ^ 31"
  shows "read_nullable (reader_at seen (nullable_bytes b @ rest)) = Inr (b, reader_at (seen @ nullable_bytes b) rest)"
proof (cases b)
  case None
  then show ?thesis by (simp add: read_nullable_def nullable_bytes_def varint_back fits_def)
next
  case (Some bs)
  with assms have "fits 8 (int (length bs))" by (simp add: fits_def)
  then have v: "r_varint (reader_at seen (varint_of (int (length bs)) @ bs @ rest)) =
      Inr (int (length bs), reader_at (seen @ varint_of (int (length bs))) (bs @ rest))" by (rule varint_back)
  show ?thesis unfolding Some nullable_bytes_def read_nullable_def
    by (simp add: v r_skip_def r_remaining_def)
qed

lemma decode_record_back:
  assumes "length (record_body i rec) < 2 ^ 31" "i < 2 ^ 31"
  shows "decode_record base ts (reader_at seen (framed_record i rec @ rest)) =
     Inr (\<lparr>kr_key = kr_key rec, kr_value = kr_value rec, kr_offset = Some (base + int i), kr_timestamp = Some ts\<rparr>,
          reader_at (seen @ framed_record i rec) rest)"
proof -
  have "length (nullish (kr_key rec) []) < 2 ^ 31" "length (nullish (kr_value rec) []) < 2 ^ 31"
    using framed_record_length(2) [of rec i] assms(1) by linarith+
  note nullables = this [THEN nullable_back]
  have "fits 8 (int (length (record_body i rec)))" "fits 8 (int i)" "fits 8 0" "fits 1 0" using assms by (simp_all add: fits_def)
  then show ?thesis
    by (simp add: decode_record_def framed_record_def record_body_def varint_back i8.get_back nullables del: One_nat_def)
qed

lemma decode_records_back:
  assumes "length (records_bytes i recs) < 2 ^ 31" "i + length recs < 2 ^ 31"
  shows "r_repeat (length recs) (decode_record 0 ts) (reader_at seen (records_bytes i recs @ rest)) =
     Inr (delivered_from ts i recs, reader_at (seen @ records_bytes i recs) rest)"
  using assms
proof (induction recs arbitrary: i seen)
  case Nil
  then show ?case by simp
next
  case (Cons rec recs)
  then have "length (record_body i rec) < 2 ^ 31" "i < 2 ^ 31" using framed_record_length(3) [of i rec] by simp_all
  from decode_record_back [OF this, of 0 ts seen "records_bytes (Suc i) recs @ rest"]
    Cons.IH [of "Suc i" "seen @ framed_record i rec"] Cons.prems
  show ?case by simp
qed

lemma decode_batch_back:
  assumes "in_range now recs opts"
  shows "decode_batch 0 (batch_body (batch_crc now recs opts) now recs opts) = Inr (delivered_from now 0 recs)"
proof -
  have len: "length recs < 2 ^ 31 - 49" "length (records_bytes 0 recs) < 2 ^ 31"
    using assms records_bytes_length [of recs 0] by (simp_all add: in_range_def)
  have c: "0 \<le> batch_crc now recs opts" "batch_crc now recs opts < 2 ^ 32"
    using unsigned_less [of "crc32c (drop 9 (batch_body 0 now recs opts))", where 'a = int] by (simp_all add: batch_crc_def)
  have z: "fits 2 0" "fits 4 (-1)" "fits 1 MAGIC" "fits 4 (int (length recs))" "fits 4 (int (length recs) - 1)"
    using len by (simp_all add: fits_def MAGIC_def)
  have start: "\<lparr>rd_buf = b, rd_off = 0\<rparr> = reader_at [] b" for b by (simp add: reader_at_def)
  have recs: "r_repeat (length recs) (decode_record 0 now) (reader_at seen (records_bytes 0 recs)) =
      Inr (delivered_from now 0 recs, reader_at (seen @ records_bytes 0 recs) [])" for seen
    using decode_records_back [of 0 recs now seen "[]"] len by simp
  show ?thesis using assms
    by (simp add: decode_batch_def batch_body_def start in_range_def z c recs
        i8.get_back i16.get_back i32.get_back i64.get_back u32.get_back [OF conjI [OF c]] del: One_nat_def)
qed

lemma decode_one_batch:
  assumes "in_range now recs opts"
  shows "decode_record_batches (batch_bytes now recs opts @ rest) =
     and_then (decode_record_batches rest) (\<lambda>more. Inr (delivered_from now 0 recs @ more))"
proof -
  define body where "body = batch_body (batch_crc now recs opts) now recs opts"
  define buf where "buf = be_bytes 8 0 @ be_bytes 4 (int (length body)) @ body @ rest"
  have f: "fits 8 0" "fits 4 (int (length body))"
    using assms by (simp_all add: fits_def body_def batch_body_length in_range_def)
  have r: "read_int 8 0 buf = Inr 0" "read_int 4 8 buf = Inr (int (length body))"
    using f be_value_bytes_signed [of 8 0] be_value_bytes_signed [of 4 "int (length body)"]
    by (simp_all add: read_int_def read_at_def buf_def fits_def)
  have b: "batch_bytes now recs opts @ rest = buf" by (simp add: batch_bytes_def buf_def body_def Let_def)
  have s: "subarray 12 (12 + int (length body)) buf = body" "drop (12 + length body) buf = rest" "0 < length body"
    "length buf = 12 + length body + length rest"
    using batch_body_length [of "batch_crc now recs opts" now recs opts]
    by (simp_all add: subarray_def clamp_index_def Let_def buf_def body_def nat_add_distrib)
  show ?thesis unfolding b
    by (subst decode_record_batches.simps) (use s in \<open>simp add: r buf_def [symmetric] body_def [symmetric] decode_batch_back [OF assms, folded body_def]\<close>)
qed


text \<open>A batch cut off anywhere yields nothing, and ends the loop.\<close>

lemma decode_cut_batch:
  assumes "in_range now recs opts" "n < length (batch_bytes now recs opts)"
  shows "decode_record_batches (take n (batch_bytes now recs opts)) = Inr []"
proof (cases "n < 12")
  case True
  then show ?thesis by (subst decode_record_batches.simps) simp
next
  case False
  define body where "body = batch_body (batch_crc now recs opts) now recs opts"
  define buf where "buf = take n (batch_bytes now recs opts)"
  have buf: "buf = be_bytes 8 0 @ be_bytes 4 (int (length body)) @ take (n - 12) body"
    using False by (simp add: buf_def batch_bytes_def body_def Let_def)
  have "fits 8 0" "fits 4 (int (length body))"
    using assms(1) by (simp_all add: fits_def body_def batch_body_length in_range_def)
  then have "read_int 8 0 buf = Inr 0" "read_int 4 8 buf = Inr (int (length body))"
    using be_value_bytes_signed [of 8 0] be_value_bytes_signed [of 4 "int (length body)"]
    by (simp_all add: read_int_def read_at_def buf fits_def)
  moreover have "length buf < 12 + length body" "12 \<le> length buf"
    using assms(2) False by (simp_all add: buf_def batch_bytes_def body_def Let_def)
  ultimately show ?thesis unfolding buf_def [symmetric] by (subst decode_record_batches.simps) simp
qed

type_synonym produced = "int \<times> kafka_record list \<times> batch_options"

definition produced_ok :: "produced \<Rightarrow> bool" where
  "produced_ok p = (case p of (now, recs, opts) \<Rightarrow> in_range now recs opts)"

definition produced_bytes :: "produced \<Rightarrow> byte list" where
  "produced_bytes p = (case p of (now, recs, opts) \<Rightarrow> batch_bytes now recs opts)"

definition produced_records :: "produced \<Rightarrow> kafka_record list" where
  "produced_records p = (case p of (now, recs, opts) \<Rightarrow> delivered_from now 0 recs)"

lemma decode_produced:
  "list_all produced_ok ps \<Longrightarrow> produced_ok q \<Longrightarrow> n < length (produced_bytes q) \<Longrightarrow>
   decode_record_batches (concat (map produced_bytes ps) @ take n (produced_bytes q)) = Inr (concat (map produced_records ps))"
proof (induction ps)
  case Nil
  then show ?case by (cases q) (simp add: produced_ok_def produced_bytes_def decode_cut_batch)
next
  case (Cons p ps)
  then show ?case by (cases p) (simp add: produced_ok_def produced_bytes_def produced_records_def decode_one_batch)
qed

lemma delivered_contents:
  "map (\<lambda>r. (kr_key r, kr_value r)) (delivered_from now i recs) = map (\<lambda>r. (kr_key r, kr_value r)) recs"
  "map kr_offset (delivered_from now i recs) = map (\<lambda>j. Some (int j)) [i..<i + length recs]"
  "list_all (\<lambda>r. kr_timestamp r = Some now) (delivered_from now i recs)"
  by (induction recs arbitrary: i) (simp_all add: upt_conv_Cons del: upt_Suc)

end
