(* ===== verification/LruCache.thy ===== *)
theory LruCache
  imports Prelude
begin

text \<open>
  \<open>packages/cache/src/lru.ts\<close> (of which \<open>packages/core/src/cache/lru.ts\<close> is a copy): a bounded cache with a time to live, as a
  \<open>Map\<close> from keys to entry objects that are chained, most recently used first, by \<open>prev\<close> and \<open>next\<close> references.

  The entry objects live in an explicit heap, since the code changes them through the map, through \<open>head\<close> and \<open>tail\<close> and
  through each other's links: an address is a number, \<open>lr_fresh\<close> the next one to allocate.  The first half translates the
  code, pointer by pointer.  The second half shows that it implements a list of entries ordered by recency (\<open>recency\<close>): each
  operation keeps the representation \<open>represents\<close> and acts on the list as its specification says.
\<close>

section \<open>The code\<close>

record 'v cache_entry =
  en_key :: string
  en_value :: 'v
  en_expiresAt :: jsnum
  en_prev :: "nat option"
  en_next :: "nat option"

record 'v lru_cache =
  lr_heap :: "nat \<Rightarrow> 'v cache_entry option"
  lr_fresh :: nat
  lr_map :: "(string, nat) jsmap"
  lr_maxEntries :: jsnum
  lr_ttlMs :: jsnum
  lr_head :: "nat option"
  lr_tail :: "nat option"

definition new_lru :: "jsnum \<Rightarrow> jsnum \<Rightarrow> js_error + 'v lru_cache" where
  "new_lru maxEntries ttlMs =
     (if maxEntries < 1 then Inl (JsError ''Error'' ''maxEntries must be >= 1'')
      else Inr \<lparr>lr_heap = (\<lambda>_. None), lr_fresh = 0, lr_map = [], lr_maxEntries = maxEntries, lr_ttlMs = ttlMs,
                lr_head = None, lr_tail = None\<rparr>)"

definition entry_prev :: "'v lru_cache \<Rightarrow> nat \<Rightarrow> nat option" where
  "entry_prev s a = Option.bind (lr_heap s a) en_prev"

definition entry_next :: "'v lru_cache \<Rightarrow> nat \<Rightarrow> nat option" where
  "entry_next s a = Option.bind (lr_heap s a) en_next"

definition change_entry :: "nat \<Rightarrow> ('v cache_entry \<Rightarrow> 'v cache_entry) \<Rightarrow> 'v lru_cache \<Rightarrow> 'v lru_cache" where
  "change_entry a f s = s\<lparr>lr_heap := (lr_heap s)(a := map_option f (lr_heap s a))\<rparr>"

text \<open>\<open>p.next = q\<close> where there is a \<open>p\<close>, else the head becomes \<open>q\<close>; and the same for \<open>prev\<close> and the tail.\<close>

definition link_next :: "nat option \<Rightarrow> nat option \<Rightarrow> 'v lru_cache \<Rightarrow> 'v lru_cache" where
  "link_next p q s = (case p of Some p \<Rightarrow> change_entry p (\<lambda>e. e\<lparr>en_next := q\<rparr>) s | None \<Rightarrow> s\<lparr>lr_head := q\<rparr>)"

definition link_prev :: "nat option \<Rightarrow> nat option \<Rightarrow> 'v lru_cache \<Rightarrow> 'v lru_cache" where
  "link_prev n q s = (case n of Some n \<Rightarrow> change_entry n (\<lambda>e. e\<lparr>en_prev := q\<rparr>) s | None \<Rightarrow> s\<lparr>lr_tail := q\<rparr>)"

definition detach :: "nat \<Rightarrow> 'v lru_cache \<Rightarrow> 'v lru_cache" where
  "detach a s =
     (let s = link_next (entry_prev s a) (entry_next s a) s;
          s = link_prev (entry_next s a) (entry_prev s a) s
      in change_entry a (\<lambda>e. e\<lparr>en_prev := None, en_next := None\<rparr>) s)"

definition set_head :: "nat \<Rightarrow> 'v lru_cache \<Rightarrow> 'v lru_cache" where
  "set_head a s =
     (let s = (case lr_head s of Some h \<Rightarrow> change_entry h (\<lambda>e. e\<lparr>en_prev := Some a\<rparr>) s | None \<Rightarrow> s);
          s = s\<lparr>lr_head := Some a\<rparr>
      in if lr_tail s = None then s\<lparr>lr_tail := Some a\<rparr> else s)"

definition move_to_head :: "nat \<Rightarrow> 'v lru_cache \<Rightarrow> 'v lru_cache" where
  "move_to_head a s =
     (if lr_head s = Some a then s
      else (let s = detach a s;
                s = change_entry a (\<lambda>e. e\<lparr>en_next := lr_head s, en_prev := None\<rparr>) s
            in set_head a s))"

definition remove_entry :: "nat \<Rightarrow> 'v lru_cache \<Rightarrow> 'v lru_cache" where
  "remove_entry a s =
     (let s = detach a s
      in case lr_heap s a of Some e \<Rightarrow> s\<lparr>lr_map := AList.delete (en_key e) (lr_map s)\<rparr> | None \<Rightarrow> s)"

definition evict_tail :: "'v lru_cache \<Rightarrow> 'v lru_cache" where
  "evict_tail s = (case lr_tail s of Some a \<Rightarrow> remove_entry a s | None \<Rightarrow> s)"

definition entry_expired :: "jsnum \<Rightarrow> nat \<Rightarrow> 'v lru_cache \<Rightarrow> bool" where
  "entry_expired now a s = (case lr_heap s a of Some e \<Rightarrow> en_expiresAt e < now | None \<Rightarrow> False)"

definition lru_get :: "string \<Rightarrow> jsnum \<Rightarrow> 'v lru_cache \<Rightarrow> 'v option \<times> 'v lru_cache" where
  "lru_get k now s =
     (case map_of (lr_map s) k of
        None \<Rightarrow> (None, s)
      | Some a \<Rightarrow>
          if entry_expired now a s then (None, remove_entry a s)
          else (let s = move_to_head a s in (map_option en_value (lr_heap s a), s)))"

definition lru_set :: "string \<Rightarrow> 'v \<Rightarrow> jsnum \<Rightarrow> 'v lru_cache \<Rightarrow> 'v lru_cache" where
  "lru_set k v now s =
     (case map_of (lr_map s) k of
        Some a \<Rightarrow> move_to_head a (change_entry a (\<lambda>e. e\<lparr>en_value := v, en_expiresAt := now + lr_ttlMs s\<rparr>) s)
      | None \<Rightarrow>
          (let a = lr_fresh s;
               e = \<lparr>en_key = k, en_value = v, en_expiresAt = now + lr_ttlMs s, en_prev = None, en_next = lr_head s\<rparr>;
               s = s\<lparr>lr_heap := (lr_heap s)(a \<mapsto> e), lr_fresh := Suc a, lr_map := AList.update k a (lr_map s)\<rparr>;
               s = set_head a s
           in if lr_maxEntries s < of_nat (length (lr_map s)) then evict_tail s else s))"

definition lru_delete :: "string \<Rightarrow> 'v lru_cache \<Rightarrow> bool \<times> 'v lru_cache" where
  "lru_delete k s = (case map_of (lr_map s) k of None \<Rightarrow> (False, s) | Some a \<Rightarrow> (True, remove_entry a s))"

definition lru_has :: "string \<Rightarrow> jsnum \<Rightarrow> 'v lru_cache \<Rightarrow> bool \<times> 'v lru_cache" where
  "lru_has k now s =
     (case map_of (lr_map s) k of
        None \<Rightarrow> (False, s)
      | Some a \<Rightarrow> if entry_expired now a s then (False, remove_entry a s) else (True, s))"

definition lru_clear :: "'v lru_cache \<Rightarrow> 'v lru_cache" where
  "lru_clear s = s\<lparr>lr_map := [], lr_head := None, lr_tail := None\<rparr>"

definition lru_size :: "'v lru_cache \<Rightarrow> nat" where
  "lru_size s = length (lr_map s)"

text \<open>The sweep visits the entries of the map in order; an entry it deletes is the one it is at.\<close>

definition sweep_expired :: "jsnum \<Rightarrow> 'v lru_cache \<Rightarrow> 'v lru_cache" where
  "sweep_expired now s = foldl (\<lambda>s (k, a). if entry_expired now a s then remove_entry a s else s) s (lr_map s)"

section \<open>Chains of entries\<close>

definition first_of :: "nat list \<Rightarrow> nat option \<Rightarrow> nat option" where
  "first_of xs n = (case xs of [] \<Rightarrow> n | x # _ \<Rightarrow> Some x)"

definition last_of :: "nat option \<Rightarrow> nat list \<Rightarrow> nat option" where
  "last_of p xs = (if xs = [] then p else Some (last xs))"

fun entry_chain :: "(nat \<Rightarrow> 'v cache_entry option) \<Rightarrow> nat option \<Rightarrow> nat list \<Rightarrow> nat option \<Rightarrow> bool" where
  "entry_chain h p [] n \<longleftrightarrow> True"
| "entry_chain h p (x # xs) n \<longleftrightarrow>
     (\<exists>e. h x = Some e \<and> en_prev e = p \<and> en_next e = first_of xs n) \<and> entry_chain h (Some x) xs n"

lemma first_of_simps [simp]: "first_of [] n = n" "first_of (x # xs) n = Some x"
  by (simp_all add: first_of_def)

lemma last_of_simps [simp]: "last_of p [] = p" "last_of p (xs @ [x]) = Some x" "last_of p (x # xs) = last_of (Some x) xs"
  by (simp_all add: last_of_def)

lemma first_of_append: "first_of (xs @ ys) n = first_of xs (first_of ys n)"
  by (cases xs) simp_all

lemma last_of_append: "last_of p (xs @ ys) = last_of (last_of p xs) ys"
  by (simp add: last_of_def)

lemma chain_append: "entry_chain h p (xs @ ys) n \<longleftrightarrow> entry_chain h p xs (first_of ys n) \<and> entry_chain h (last_of p xs) ys n"
  by (induction xs arbitrary: p) (auto simp: first_of_append)

lemma chain_frame [simp]: "a \<notin> set xs \<Longrightarrow> entry_chain (h(a := z)) p xs n = entry_chain h p xs n"
  by (induction xs arbitrary: p) auto

lemma chain_set_prev:
  "entry_chain h p (x # xs) n \<Longrightarrow> x \<notin> set xs \<Longrightarrow> entry_chain (h(x := map_option (\<lambda>e. e\<lparr>en_prev := q\<rparr>) (h x))) q (x # xs) n"
  by auto

lemma chain_set_next:
  "entry_chain h p (xs @ [x]) n \<Longrightarrow> x \<notin> set xs \<Longrightarrow> entry_chain (h(x := map_option (\<lambda>e. e\<lparr>en_next := m\<rparr>) (h x))) p (xs @ [x]) m"
  by (auto simp: chain_append)

lemma chain_allocated: "entry_chain h p xs n \<Longrightarrow> x \<in> set xs \<Longrightarrow> \<exists>e. h x = Some e"
  by (induction xs arbitrary: p) auto

section \<open>A linked cache\<close>

definition linked :: "'v lru_cache \<Rightarrow> nat list \<Rightarrow> bool" where
  "linked s xs \<longleftrightarrow>
     distinct xs \<and> entry_chain (lr_heap s) None xs None \<and> lr_head s = first_of xs None \<and> lr_tail s = last_of None xs"

definition entry_data :: "'v lru_cache \<Rightarrow> nat \<Rightarrow> (string \<times> 'v \<times> jsnum) option" where
  "entry_data s a = map_option (\<lambda>e. (en_key e, en_value e, en_expiresAt e)) (lr_heap s a)"

definition same_data :: "'v lru_cache \<Rightarrow> 'v lru_cache \<Rightarrow> bool" where
  "same_data s t \<longleftrightarrow> (\<forall>a. entry_data s a = entry_data t a) \<and> lr_map s = lr_map t \<and> lr_fresh s = lr_fresh t \<and>
     lr_maxEntries s = lr_maxEntries t \<and> lr_ttlMs s = lr_ttlMs t"

lemma same_data_refl [simp]: "same_data s s"
  by (simp add: same_data_def)

lemma same_data_trans [trans]: "same_data s t \<Longrightarrow> same_data t u \<Longrightarrow> same_data s u"
  by (simp add: same_data_def)

lemma same_data_alloc: "same_data s t \<Longrightarrow> lr_heap s a = None \<longleftrightarrow> lr_heap t a = None"
proof -
  assume "same_data s t"
  then have "entry_data s a = entry_data t a" by (simp add: same_data_def)
  then show ?thesis by (cases "lr_heap s a"; cases "lr_heap t a") (simp_all add: entry_data_def)
qed

lemma change_links_data:
  assumes "\<And>e. en_key (f e) = en_key e" "\<And>e. en_value (f e) = en_value e" "\<And>e. en_expiresAt (f e) = en_expiresAt e"
  shows "same_data (change_entry a f s) s"
  using assms by (auto simp: same_data_def entry_data_def change_entry_def option.map_comp o_def)

lemma head_tail_data: "same_data (s\<lparr>lr_head := h\<rparr>) t = same_data s t" "same_data (s\<lparr>lr_tail := h\<rparr>) t = same_data s t"
  by (simp_all add: same_data_def entry_data_def)

lemma link_data: "same_data (link_next p q s) s" "same_data (link_prev p q s) s"
  by (cases p; simp add: link_next_def link_prev_def head_tail_data change_links_data)+

lemma detach_data: "same_data (detach a s) s"
  unfolding detach_def Let_def
  by (rule same_data_trans [OF change_links_data]; (simp; fail)?) (blast intro: same_data_trans link_data)

lemma set_head_data: "same_data (set_head a s) s"
  unfolding set_head_def Let_def by (auto split: option.split simp: head_tail_data intro: change_links_data)

lemma change_simps [simp]:
  "lr_heap (change_entry a f s) = (lr_heap s)(a := map_option f (lr_heap s a))"
  "lr_head (change_entry a f s) = lr_head s" "lr_tail (change_entry a f s) = lr_tail s"
  by (simp_all add: change_entry_def)

lemma link_next_chain:
  assumes "entry_chain (lr_heap s) None xs m" "distinct xs" "p = last_of None xs"
  shows "entry_chain (lr_heap (link_next p q s)) None xs q"
    "lr_head (link_next p q s) = (if xs = [] then q else lr_head s)" "lr_tail (link_next p q s) = lr_tail s"
    "\<And>b. b \<notin> set xs \<Longrightarrow> lr_heap (link_next p q s) b = lr_heap s b"
    "set xs \<inter> set ys = {} \<Longrightarrow> entry_chain (lr_heap (link_next p q s)) r ys n = entry_chain (lr_heap s) r ys n"
  using assms by (cases xs rule: rev_cases; auto simp: link_next_def chain_append)+

lemma link_prev_chain:
  assumes "entry_chain (lr_heap s) r ys None" "distinct ys" "n = first_of ys None"
  shows "entry_chain (lr_heap (link_prev n q s)) q ys None"
    "lr_tail (link_prev n q s) = (if ys = [] then q else lr_tail s)" "lr_head (link_prev n q s) = lr_head s"
    "\<And>b. b \<notin> set ys \<Longrightarrow> lr_heap (link_prev n q s) b = lr_heap s b"
    "set xs \<inter> set ys = {} \<Longrightarrow> entry_chain (lr_heap (link_prev n q s)) p xs m = entry_chain (lr_heap s) p xs m"
  using assms by (cases ys; auto simp: link_prev_def)+

lemma detach_linked:
  assumes "linked s (xs @ a # ys)"
  shows "linked (detach a s) (xs @ ys)"
proof -
  have d: "a \<notin> set xs" "a \<notin> set ys" "distinct xs" "distinct ys" "set xs \<inter> set ys = {}" using assms by (auto simp: linked_def)
  have c: "entry_chain (lr_heap s) None xs (Some a)" "entry_chain (lr_heap s) (Some a) ys None"
    "\<exists>e. lr_heap s a = Some e \<and> en_prev e = last_of None xs \<and> en_next e = first_of ys None"
    using assms by (auto simp: linked_def chain_append)
  have ends: "lr_head s = first_of (xs @ a # ys) None" "lr_tail s = last_of None (xs @ a # ys)" using assms by (simp_all add: linked_def)
  have links: "entry_prev s a = last_of None xs" "entry_next s a = first_of ys None"
    using c(3) by (auto simp: entry_prev_def entry_next_def)
  define s1 where "s1 = link_next (entry_prev s a) (entry_next s a) s"
  note l = link_next_chain [OF c(1) d(3) links(1), where q = "entry_next s a", folded s1_def]
  have links1: "entry_prev s1 a = last_of None xs" "entry_next s1 a = first_of ys None"
    using links l(4) [OF d(1)] by (simp_all add: entry_prev_def entry_next_def)
  define s2 where "s2 = link_prev (entry_next s1 a) (entry_prev s1 a) s1"
  have c1: "entry_chain (lr_heap s1) (Some a) ys None" using l(5) [OF d(5)] c(2) by simp
  note m = link_prev_chain [OF c1 d(4) links1(2), where q = "entry_prev s1 a", folded s2_def]
  have "entry_chain (lr_heap s2) None xs (first_of ys None)" "entry_chain (lr_heap s2) (last_of None xs) ys None"
    using m(1) m(5) [OF d(5), where p = None and m = "first_of ys None"] l(1) links links1 by simp_all
  moreover have "lr_head s2 = first_of (xs @ ys) None"
    using m(3) l(2) links ends by (cases xs) simp_all
  moreover have "lr_tail s2 = last_of None (xs @ ys)"
    using m(2) l(3) links1 ends by (cases ys rule: rev_cases) (simp_all add: last_of_append)
  moreover have "detach a s = change_entry a (\<lambda>e. e\<lparr>en_prev := None, en_next := None\<rparr>) s2"
    by (simp add: detach_def Let_def s1_def s2_def)
  ultimately show ?thesis using d by (simp add: linked_def chain_append)
qed

lemma move_to_head_linked:
  assumes "linked s (xs @ a # ys)"
  shows "linked (move_to_head a s) (a # xs @ ys)" "same_data (move_to_head a s) s"
proof -
  show "same_data (move_to_head a s) s"
    unfolding move_to_head_def Let_def
    by (auto intro!: same_data_trans [OF set_head_data] same_data_trans [OF change_links_data] detach_data)
  show "linked (move_to_head a s) (a # xs @ ys)"
  proof (cases xs)
    case Nil
    with assms show ?thesis by (simp add: move_to_head_def linked_def)
  next
    case (Cons x xs')
    with assms have "lr_head s \<noteq> Some a" "a \<notin> set (xs @ ys)" by (auto simp: linked_def)
    moreover have "\<exists>e. lr_heap (detach a s) a = Some e" 
      using assms same_data_alloc [OF detach_data, of a s a] by (auto simp: linked_def chain_append)
    ultimately show ?thesis using detach_linked [OF assms] Cons
      by (auto simp: move_to_head_def set_head_def Let_def linked_def last_of_def)
  qed
qed

lemma push_linked:
  assumes "linked s xs" "a \<notin> set xs" "lr_heap s a = Some e" "en_prev e = None" "en_next e = lr_head s"
  shows "linked (set_head a s) (a # xs)"
  using assms by (cases xs) (auto simp: set_head_def Let_def linked_def last_of_def)

section \<open>The list the cache stands for\<close>

type_synonym 'v recency_list = "(string \<times> 'v \<times> jsnum) list"

definition recency :: "'v lru_cache \<Rightarrow> nat list \<Rightarrow> 'v recency_list" where
  "recency s xs = map (\<lambda>a. the (entry_data s a)) xs"

definition indexed :: "'v lru_cache \<Rightarrow> nat list \<Rightarrow> bool" where
  "indexed s xs \<longleftrightarrow>
     keys_distinct (lr_map s) \<and> (\<forall>a. lr_fresh s \<le> a \<longrightarrow> lr_heap s a = None) \<and>
     (\<forall>k a. map_of (lr_map s) k = Some a \<longleftrightarrow> a \<in> set xs \<and> map_option fst (entry_data s a) = Some k)"

definition represents :: "'v lru_cache \<Rightarrow> nat list \<Rightarrow> bool" where
  "represents s xs \<longleftrightarrow> linked s xs \<and> indexed s xs"

lemma same_data_recency: "same_data s t \<Longrightarrow> recency s xs = recency t xs"
  by (simp add: recency_def same_data_def)

lemma same_data_indexed: "same_data s t \<Longrightarrow> indexed s xs = indexed t xs"
  unfolding indexed_def using same_data_alloc [of s t] by (simp add: same_data_def)

lemma indexed_set: "set xs = set ys \<Longrightarrow> indexed s xs = indexed s ys"
  by (simp add: indexed_def)

lemma linked_data: "linked s xs \<Longrightarrow> a \<in> set xs \<Longrightarrow> \<exists>k v t. entry_data s a = Some (k, v, t)"
  unfolding linked_def entry_data_def using chain_allocated by fastforce

lemma represented_keys:
  assumes "represents s xs"
  shows "map_of (lr_map s) k = Some a \<Longrightarrow> \<exists>v t. a \<in> set xs \<and> entry_data s a = Some (k, v, t)"
    and "a \<in> set xs \<Longrightarrow> entry_data s a = Some (k, v, t) \<Longrightarrow> map_of (lr_map s) k = Some a"
  using assms by (fastforce simp: represents_def indexed_def)+

lemma recency_keys:
  assumes r: "represents s xs"
  shows "k \<in> fst ` set (recency s xs) \<longleftrightarrow> map_of (lr_map s) k \<noteq> None"
proof
  assume "k \<in> fst ` set (recency s xs)"
  then obtain a where a: "a \<in> set xs" "fst (the (entry_data s a)) = k" by (auto simp: recency_def)
  obtain l v t where d: "entry_data s a = Some (l, v, t)" using linked_data r a(1) unfolding represents_def by blast
  with represented_keys(2) [OF r a(1) d] a(2) show "map_of (lr_map s) k \<noteq> None" by simp
next
  assume "map_of (lr_map s) k \<noteq> None"
  then obtain a where "map_of (lr_map s) k = Some a" by blast
  from represented_keys(1) [OF r this] show "k \<in> fst ` set (recency s xs)" by (force simp: recency_def)
qed

lemma recency_distinct: "represents s xs \<Longrightarrow> distinct (map fst (recency s xs))"
proof -
  assume r: "represents s xs"
  have "inj_on (\<lambda>a. fst (the (entry_data s a))) (set xs)"
  proof (rule inj_onI)
    fix a b assume ab: "a \<in> set xs" "b \<in> set xs" "fst (the (entry_data s a)) = fst (the (entry_data s b))"
    obtain k v t where a: "entry_data s a = Some (k, v, t)" using linked_data r ab(1) unfolding represents_def by blast
    obtain l w u where b: "entry_data s b = Some (l, w, u)" using linked_data r ab(2) unfolding represents_def by blast
    from represented_keys(2) [OF r ab(1) a] represented_keys(2) [OF r ab(2) b] ab(3) a b show "a = b" by simp
  qed
  with r show ?thesis by (simp add: recency_def distinct_map o_def represents_def linked_def)
qed

lemma recency_size: "represents s xs \<Longrightarrow> length (lr_map s) = length xs"
proof -
  assume r: "represents s xs"
  have "set (map fst (lr_map s)) = set (map fst (recency s xs))"
    using recency_keys [OF r] by (auto simp: map_of_eq_None_iff)
  moreover have "distinct (map fst (lr_map s))" using r by (simp add: represents_def indexed_def keys_distinct_def)
  ultimately have "length (map fst (lr_map s)) = length (map fst (recency s xs))"
    using recency_distinct [OF r] by (metis distinct_card)
  then show ?thesis by (simp add: recency_def)
qed

lemma lru_found:
  assumes r: "represents s xs" and m: "map_of (lr_map s) k = Some a"
  obtains ys zs v t where "xs = ys @ a # zs" "entry_data s a = Some (k, v, t)"
    "map_of (recency s xs) k = Some (v, t)" "AList.delete k (recency s xs) = recency s (ys @ zs)"
proof -
  obtain v t where a: "a \<in> set xs" "entry_data s a = Some (k, v, t)" using represented_keys(1) [OF r m] by blast
  then obtain ys zs where xs: "xs = ys @ a # zs" by (metis split_list)
  have rec: "recency s xs = recency s ys @ (k, v, t) # recency s zs" "recency s (ys @ zs) = recency s ys @ recency s zs"
    using a(2) by (simp_all add: xs recency_def)
  then have "k \<notin> fst ` set (recency s ys)" "k \<notin> fst ` set (recency s zs)" using recency_distinct [OF r] by auto
  then have none: "map_of (recency s ys) k = None" "map_of (recency s zs) k = None" by (simp_all add: map_of_eq_None_iff)
  then have "map_of (recency s xs) k = Some (v, t)" by (simp add: rec map_add_def)
  moreover have "AList.delete k (recency s xs) = recency s (ys @ zs)"
    using none [THEN delete_absent] by (simp add: rec AList.delete_eq)
  ultimately show ?thesis using that xs a(2) by blast
qed

lemma lru_absent: "represents s xs \<Longrightarrow> map_of (lr_map s) k = None \<Longrightarrow> map_of (recency s xs) k = None"
  by (simp add: map_of_eq_None_iff recency_keys)

lemma data_expired: "entry_data s a = Some (k, v, t) \<Longrightarrow> entry_expired now a s \<longleftrightarrow> t < now"
  by (auto simp: entry_data_def entry_expired_def)

lemma data_value: "entry_data s a = Some (k, v, t) \<Longrightarrow> map_option en_value (lr_heap s a) = Some v"
  by (auto simp: entry_data_def)

text \<open>The two building blocks: dropping an entry and moving one to the front.\<close>

lemma remove_represents:
  assumes r: "represents s (ys @ a # zs)" and a: "entry_data s a = Some (k, v, t)"
  shows "represents (remove_entry a s) (ys @ zs)" "recency (remove_entry a s) (ys @ zs) = recency s (ys @ zs)"
    "lr_maxEntries (remove_entry a s) = lr_maxEntries s" "lr_ttlMs (remove_entry a s) = lr_ttlMs s"
    "lr_map (remove_entry a s) = AList.delete k (lr_map s)"
    "entry_data (remove_entry a s) b = entry_data s b"
proof -
  have data: "same_data (detach a s) s" by (rule detach_data)
  then have "entry_data (detach a s) a = Some (k, v, t)" using a by (simp add: same_data_def)
  then obtain e where e: "lr_heap (detach a s) a = Some e" "en_key e = k" by (auto simp: entry_data_def)
  then have rem: "remove_entry a s = (detach a s)\<lparr>lr_map := AList.delete k (lr_map (detach a s))\<rparr>" by (simp add: remove_entry_def Let_def)
  have same: "entry_data (remove_entry a s) b = entry_data s b" for b using data by (simp add: rem same_data_def entry_data_def)
  then show "entry_data (remove_entry a s) b = entry_data s b" .
  show "recency (remove_entry a s) (ys @ zs) = recency s (ys @ zs)" by (simp add: recency_def same)
  show "lr_maxEntries (remove_entry a s) = lr_maxEntries s" "lr_ttlMs (remove_entry a s) = lr_ttlMs s"
    and m: "lr_map (remove_entry a s) = AList.delete k (lr_map s)"
    using data by (simp_all add: rem same_data_def)
  have i: "indexed s (ys @ a # zs)" "a \<notin> set (ys @ zs)" using r by (auto simp: represents_def linked_def)
  have "indexed (remove_entry a s) (ys @ zs)"
    unfolding indexed_def m same
  proof (intro conjI allI impI)
    show "keys_distinct (AList.delete k (lr_map s))" using i(1) by (auto simp: indexed_def)
    fix b assume "lr_fresh (remove_entry a s) \<le> b"
    then show "lr_heap (remove_entry a s) b = None"
      using i(1) data same_data_alloc [OF data, of b] by (simp add: rem indexed_def same_data_def)
  next
    fix l b
    have iff: "map_of (lr_map s) l = Some b \<longleftrightarrow> (b = a \<or> b \<in> set (ys @ zs)) \<and> map_option fst (entry_data s b) = Some l"
      using i(1) by (auto simp: indexed_def)
    have "map_of (lr_map s) k = Some a" using i(1) a by (simp add: indexed_def)
    then show "map_of (AList.delete k (lr_map s)) l = Some b \<longleftrightarrow> b \<in> set (ys @ zs) \<and> map_option fst (entry_data s b) = Some l"
      using iff i(2) a by (cases "l = k") auto
  qed
  moreover have "linked (remove_entry a s) (ys @ zs)"
    using detach_linked [of s ys a zs] r by (simp add: represents_def linked_def rem)
  ultimately show "represents (remove_entry a s) (ys @ zs)" by (simp add: represents_def)
qed

lemma move_represents:
  assumes "represents s (ys @ a # zs)"
  shows "represents (move_to_head a s) (a # ys @ zs)" "recency (move_to_head a s) xs = recency s xs"
    "lr_maxEntries (move_to_head a s) = lr_maxEntries s" "lr_ttlMs (move_to_head a s) = lr_ttlMs s"
    "entry_data (move_to_head a s) b = entry_data s b"
  using move_to_head_linked [of s ys a zs] assms same_data_indexed [of "move_to_head a s" s] same_data_recency [of "move_to_head a s" s]
    indexed_set [of "a # ys @ zs" "ys @ a # zs" s]
  by (auto simp: represents_def same_data_def)

section \<open>What a cache promises\<close>

definition spec_get :: "string \<Rightarrow> jsnum \<Rightarrow> 'v recency_list \<Rightarrow> 'v option \<times> 'v recency_list" where
  "spec_get k now L =
     (case map_of L k of
        None \<Rightarrow> (None, L)
      | Some (v, t) \<Rightarrow> if t < now then (None, AList.delete k L) else (Some v, (k, v, t) # AList.delete k L))"

definition spec_set :: "jsnum \<Rightarrow> string \<Rightarrow> 'v \<Rightarrow> jsnum \<Rightarrow> 'v recency_list \<Rightarrow> 'v recency_list" where
  "spec_set capacity k v t L =
     (let L' = (k, v, t) # AList.delete k L
      in if map_of L k = None \<and> capacity < of_nat (length L') then butlast L' else L')"

definition spec_has :: "string \<Rightarrow> jsnum \<Rightarrow> 'v recency_list \<Rightarrow> bool \<times> 'v recency_list" where
  "spec_has k now L =
     (case map_of L k of None \<Rightarrow> (False, L) | Some (v, t) \<Rightarrow> if t < now then (False, AList.delete k L) else (True, L))"

definition spec_sweep :: "jsnum \<Rightarrow> 'v recency_list \<Rightarrow> 'v recency_list" where
  "spec_sweep now L = filter (\<lambda>(k, v, t). now \<le> t) L"

locale lru_contract =
  fixes invar :: "'s \<Rightarrow> bool"
    and contents :: "'s \<Rightarrow> 'v recency_list"
    and get :: "string \<Rightarrow> jsnum \<Rightarrow> 's \<Rightarrow> 'v option \<times> 's"
    and set_entry :: "string \<Rightarrow> 'v \<Rightarrow> jsnum \<Rightarrow> 's \<Rightarrow> 's"
    and remove :: "string \<Rightarrow> 's \<Rightarrow> bool \<times> 's"
    and has :: "string \<Rightarrow> jsnum \<Rightarrow> 's \<Rightarrow> bool \<times> 's"
    and sweep :: "jsnum \<Rightarrow> 's \<Rightarrow> 's"
    and capacity ttl :: jsnum
  assumes distinct_keys: "invar s \<Longrightarrow> keys_distinct (contents s)"
    and get_law: "invar s \<Longrightarrow> invar (snd (get k now s)) \<and> (fst (get k now s), contents (snd (get k now s))) = spec_get k now (contents s)"
    and set_law: "invar s \<Longrightarrow> invar (set_entry k v now s) \<and> contents (set_entry k v now s) = spec_set capacity k v (now + ttl) (contents s)"
    and remove_law: "invar s \<Longrightarrow> invar (snd (remove k s)) \<and> contents (snd (remove k s)) = AList.delete k (contents s) \<and>
      fst (remove k s) = (map_of (contents s) k \<noteq> None)"
    and has_law: "invar s \<Longrightarrow> invar (snd (has k now s)) \<and> (fst (has k now s), contents (snd (has k now s))) = spec_has k now (contents s)"
    and sweep_law: "invar s \<Longrightarrow> invar (sweep now s) \<and> contents (sweep now s) = spec_sweep now (contents s)"

datatype 'v lru_op = LGet string jsnum | LSet string 'v jsnum | LDelete string | LHas string jsnum | LSweep jsnum

text \<open>An operation that leaves a value of \<open>k\<close> with the expiry \<open>t\<close> alone, and the keys it moves to the front.\<close>

definition leaves :: "string \<Rightarrow> jsnum \<Rightarrow> 'v lru_op \<Rightarrow> bool" where
  "leaves k t op =
     (case op of
        LGet l now \<Rightarrow> l = k \<longrightarrow> now \<le> t | LSet l v now \<Rightarrow> l \<noteq> k | LDelete l \<Rightarrow> l \<noteq> k
      | LHas l now \<Rightarrow> l = k \<longrightarrow> now \<le> t | LSweep now \<Rightarrow> now \<le> t)"

definition fronted :: "'v lru_op \<Rightarrow> string list" where
  "fronted op = (case op of LGet l now \<Rightarrow> [l] | LSet l v now \<Rightarrow> [l] | _ \<Rightarrow> [])"

definition kept :: "string \<Rightarrow> 'v \<Rightarrow> jsnum \<Rightarrow> string set \<Rightarrow> 'v recency_list \<Rightarrow> bool" where
  "kept k v t K L \<longleftrightarrow> (\<exists>A B. L = A @ (k, v, t) # B \<and> fst ` set A \<subseteq> K)"

lemma kept_mono: "kept k v t K L \<Longrightarrow> K \<subseteq> M \<Longrightarrow> kept k v t M L"
  by (fastforce simp: kept_def)

lemma kept_front [simp]: "kept k v t K ((k, v, t) # B)"
  unfolding kept_def by (intro exI [of _ "[]"] exI [of _ B]) simp

lemma kept_delete: "kept k v t K L \<Longrightarrow> l \<noteq> k \<Longrightarrow> kept k v t K (AList.delete l L)"
  unfolding kept_def
  by (elim exE conjE, rule_tac x = "AList.delete l A" in exI, rule_tac x = "AList.delete l B" in exI)
    (use delete_notin_dom in \<open>auto simp: AList.delete_eq\<close>)

lemma kept_Cons: "kept k v t K L \<Longrightarrow> kept k v t (insert (fst p) K) (p # L)"
  unfolding kept_def by (elim exE conjE, rule_tac x = "p # A" in exI) auto

lemma kept_lookup: "kept k v t K L \<Longrightarrow> k \<notin> K \<Longrightarrow> map_of L k = Some (v, t)"
proof -
  assume "kept k v t K L" "k \<notin> K"
  then obtain A B where "L = A @ (k, v, t) # B" "k \<notin> fst ` set A" unfolding kept_def by blast
  then show ?thesis by (simp add: map_add_def map_of_eq_None_iff [THEN iffD2])
qed

lemma kept_get: "kept k v t K L \<Longrightarrow> k \<notin> K \<Longrightarrow> (l = k \<longrightarrow> now \<le> t) \<Longrightarrow> kept k v t ((insert l K) - {k}) (snd (spec_get l now L))"
proof (cases "l = k")
  case True
  assume "kept k v t K L" "k \<notin> K" "l = k \<longrightarrow> now \<le> t"
  then have "snd (spec_get l now L) = (k, v, t) # AList.delete k L" using True kept_lookup [of k v t K L] by (simp add: spec_get_def)
  then show ?thesis by simp
next
  case False
  assume a: "kept k v t K L" "k \<notin> K"
  have k: "kept k v t (insert l K - {k}) L" by (rule kept_mono [OF a(1)]) (use a(2) in blast)
  have cons: "kept k v t (insert l K - {k}) ((l, w) # AList.delete l L)" for w
    by (rule kept_mono [OF kept_Cons [OF kept_delete [OF a(1) False]]]) (use a(2) False in auto)
  show ?thesis
  proof (cases "map_of L l")
    case None
    with k show ?thesis by (simp add: spec_get_def)
  next
    case (Some p)
    then show ?thesis using cons [of p] kept_delete [OF k False] by (cases p) (simp add: spec_get_def)
  qed
qed

lemma kept_set:
  assumes "kept k v t K L" "k \<notin> K" "l \<noteq> k" "finite K" "of_nat (card (insert l K)) + 1 \<le> capacity" "keys_distinct L"
  shows "kept k v t (insert l K) (spec_set capacity l w u L)"
proof -
  define L' where "L' = (l, w, u) # AList.delete l L"
  have d: "distinct (map fst L')" using assms(6) keys_distinct_delete [of L l] by (simp add: L'_def keys_distinct_def delete_keys)
  have "kept k v t (insert l K) L'" using kept_Cons [OF kept_delete [OF assms(1,3)], of "(l, w, u)"] by (simp add: L'_def)
  then obtain A B where s: "L' = A @ (k, v, t) # B" "fst ` set A \<subseteq> insert l K" by (auto simp: kept_def)
  have "kept k v t (insert l K) (butlast L')" if "capacity < of_nat (length L')"
  proof (cases B rule: rev_cases)
    case Nil
    have "length A = card (fst ` set A)" using d s(1) by (metis distinct_append distinct_card length_map map_append set_map)
    also have "\<dots> \<le> card (insert l K)" using s(2) assms(4) by (simp add: card_mono)
    finally have "of_nat (length L') \<le> (of_nat (card (insert l K)) :: jsnum) + 1" using s(1) Nil by simp
    with that assms(5) show ?thesis by simp
  next
    case (snoc ys y)
    with s show ?thesis unfolding kept_def by (intro exI [of _ A] exI [of _ ys]) (simp add: butlast_append)
  qed
  with s show ?thesis by (auto simp: spec_set_def L'_def [symmetric] Let_def kept_def)
qed

lemma kept_spec_set: "1 \<le> capacity \<Longrightarrow> kept k v t {} (spec_set capacity k v t L)"
proof -
  assume "1 \<le> capacity"
  then have "AList.delete k L \<noteq> []" if "capacity < of_nat (length ((k, v, t) # AList.delete k L))"
    using that by auto
  then show ?thesis by (auto simp: spec_set_def Let_def)
qed

lemma kept_sweep: "kept k v t K L \<Longrightarrow> now \<le> t \<Longrightarrow> kept k v t K (spec_sweep now L)"
  unfolding kept_def spec_sweep_def
  by (elim exE conjE, rule_tac x = "filter (\<lambda>(k, v, t). now \<le> t) A" in exI, rule_tac x = "filter (\<lambda>(k, v, t). now \<le> t) B" in exI) auto

lemma kept_has: "kept k v t K L \<Longrightarrow> k \<notin> K \<Longrightarrow> (l = k \<longrightarrow> now \<le> t) \<Longrightarrow> kept k v t K (snd (spec_has l now L))"
  using kept_delete [of k v t K L l] kept_lookup [of k v t K L] by (cases "l = k") (auto simp: spec_has_def split: option.split)

lemma spec_get_length: "keys_distinct L \<Longrightarrow> length (snd (spec_get k now L)) \<le> length L"
  by (auto simp: spec_get_def length_delete split: option.split) (cases L; auto)

lemma spec_has_length: "length (snd (spec_has k now L)) \<le> length L"
  by (auto simp: spec_has_def length_delete_le split: option.split)

lemma spec_sweep_length: "length (spec_sweep now L) \<le> length L"
  by (simp add: spec_sweep_def)

lemma spec_set_length:
  assumes "keys_distinct L" "of_nat (length L) \<le> (capacity :: jsnum)"
  shows "of_nat (length (spec_set capacity k v t L)) \<le> capacity"
proof (cases "map_of L k")
  case None
  with assms show ?thesis by (auto simp: spec_set_def Let_def delete_absent)
next
  case (Some p)
  then have "0 < length L" by (cases L) auto
  with Some assms show ?thesis by (simp add: spec_set_def Let_def length_delete)
qed

context lru_contract
begin

definition step :: "'v lru_op \<Rightarrow> 's \<Rightarrow> 's" where
  "step op s =
     (case op of
        LGet k now \<Rightarrow> snd (get k now s) | LSet k v now \<Rightarrow> set_entry k v now s | LDelete k \<Rightarrow> snd (remove k s)
      | LHas k now \<Rightarrow> snd (has k now s) | LSweep now \<Rightarrow> sweep now s)"

lemma step_invar: "invar s \<Longrightarrow> invar (step op s)"
  by (cases op) (simp_all add: step_def get_law set_law remove_law has_law sweep_law)

lemma step_contents:
  assumes "invar s"
  shows "contents (step op s) =
    (case op of
       LGet k now \<Rightarrow> snd (spec_get k now (contents s)) | LSet k v now \<Rightarrow> spec_set capacity k v (now + ttl) (contents s)
     | LDelete k \<Rightarrow> AList.delete k (contents s) | LHas k now \<Rightarrow> snd (spec_has k now (contents s))
     | LSweep now \<Rightarrow> spec_sweep now (contents s))"
  using get_law [OF assms] set_law [OF assms] remove_law [OF assms] has_law [OF assms] sweep_law [OF assms]
  by (cases op) (simp_all add: step_def prod_eq_iff)

lemma size_bound:
  assumes "invar s" "of_nat (length (contents s)) \<le> capacity"
  shows "of_nat (length (contents (step op s))) \<le> capacity"
proof -
  note d = distinct_keys [OF assms(1)]
  note le = order_trans [OF of_nat_mono assms(2)]
  show ?thesis
    using spec_set_length [OF d assms(2)]
    by (cases op) (simp_all add: step_contents [OF assms(1)] le spec_get_length [OF d] spec_has_length length_delete_le spec_sweep_length)
qed

text \<open>A value survives as long as fewer keys than the capacity are used since it was, and its time is not over.\<close>

lemma survives_step:
  assumes "invar s" "kept k v t K (contents s)" "k \<notin> K" "finite K" "leaves k t op"
    "of_nat (card ((K \<union> set (fronted op)) - {k})) + 1 \<le> capacity"
  shows "kept k v t ((K \<union> set (fronted op)) - {k}) (contents (step op s))"
proof (cases op)
  case (LGet l now)
  with assms kept_get [OF assms(2,3)] show ?thesis by (simp add: step_contents leaves_def fronted_def)
next
  case (LSet l w now)
  then have "l \<noteq> k" using assms(5) by (simp add: leaves_def)
  then have e: "K \<union> set (fronted op) - {k} = insert l K" using assms(3) LSet by (auto simp: fronted_def)
  show ?thesis unfolding e
    using kept_set [OF assms(2,3) \<open>l \<noteq> k\<close> assms(4) _ distinct_keys [OF assms(1)]] assms(6) e LSet
    by (simp add: step_contents [OF assms(1)])
next
  case (LDelete l)
  with assms kept_delete [OF assms(2)] show ?thesis by (simp add: step_contents leaves_def fronted_def)
next
  case (LHas l now)
  with assms kept_has [OF assms(2,3)] show ?thesis by (simp add: step_contents leaves_def fronted_def)
next
  case (LSweep now)
  with assms kept_sweep [OF assms(2)] show ?thesis by (simp add: step_contents leaves_def fronted_def)
qed

lemma survives_steps:
  "invar s \<Longrightarrow> kept k v t K (contents s) \<Longrightarrow> k \<notin> K \<Longrightarrow> finite K \<Longrightarrow> list_all (leaves k t) ops \<Longrightarrow>
   of_nat (card ((K \<union> set (concat (map fronted ops))) - {k})) + 1 \<le> capacity \<Longrightarrow>
   invar (foldl (\<lambda>s op. step op s) s ops) \<and>
   kept k v t ((K \<union> set (concat (map fronted ops))) - {k}) (contents (foldl (\<lambda>s op. step op s) s ops))"
proof (induction ops arbitrary: s K)
  case Nil
  then show ?case by (simp add: Diff_insert_absorb)
next
  case (Cons op ops)
  define M where "M = (K \<union> set (fronted op)) - {k}"
  have sub: "(M \<union> set (concat (map fronted ops))) - {k} = (K \<union> set (concat (map fronted (op # ops)))) - {k}" by (auto simp: M_def)
  have "card M \<le> card ((K \<union> set (concat (map fronted (op # ops)))) - {k})"
    using Cons.prems(4) by (intro card_mono) (auto simp: M_def)
  then have "(of_nat (card M) :: jsnum) + 1 \<le> of_nat (card ((K \<union> set (concat (map fronted (op # ops)))) - {k})) + 1" by simp
  also have "\<dots> \<le> capacity" by (rule Cons.prems(6))
  finally have m: "kept k v t M (contents (step op s))"
    using survives_step [OF Cons.prems(1-4)] Cons.prems(5) by (simp add: M_def)
  have "invar (foldl (\<lambda>s op. step op s) (step op s) ops) \<and>
      kept k v t ((M \<union> set (concat (map fronted ops))) - {k}) (contents (foldl (\<lambda>s op. step op s) (step op s) ops))"
    using Cons.prems(4,5,6) sub m by (intro Cons.IH step_invar [OF Cons.prems(1)]) (auto simp: M_def)
  then show ?case by (simp only: sub foldl.simps)
qed

lemma hit:
  assumes "invar s" "list_all (leaves k (now + ttl)) ops" "later \<le> now + ttl"
    "of_nat (card (set (concat (map fronted ops)) - {k})) + 1 \<le> capacity"
  shows "fst (get k later (foldl (\<lambda>s op. step op s) (set_entry k v now s) ops)) = Some v"
proof -
  define start where "start = set_entry k v now s"
  define final where "final = foldl (\<lambda>s op. step op s) start ops"
  have "1 \<le> capacity" using assms(4) order_trans [of "1::jsnum" "of_nat (card (set (concat (map fronted ops)) - {k})) + 1" capacity] by simp
  then have "kept k v (now + ttl) {} (contents start)"
    using set_law [OF assms(1), of k v now] kept_spec_set by (simp add: start_def)
  then have "invar final \<and> kept k v (now + ttl) (({} \<union> set (concat (map fronted ops))) - {k}) (contents final)"
    unfolding final_def using assms(2,4) set_law [OF assms(1)] by (intro survives_steps) (simp_all add: start_def)
  then have "invar final" "map_of (contents final) k = Some (v, now + ttl)" by (auto intro: kept_lookup)
  with get_law [of final k later] assms(3) show ?thesis by (simp add: spec_get_def final_def start_def)
qed

end

section \<open>The code keeps the promise\<close>

fun walk :: "nat \<Rightarrow> (nat \<Rightarrow> 'v cache_entry option) \<Rightarrow> nat option \<Rightarrow> nat list" where
  "walk 0 h p = []"
| "walk (Suc n) h None = []"
| "walk (Suc n) h (Some a) = a # walk n h (Option.bind (h a) en_next)"

definition lru_order :: "'v lru_cache \<Rightarrow> nat list" where
  "lru_order s = walk (length (lr_map s)) (lr_heap s) (lr_head s)"

definition lru_ok :: "jsnum \<Rightarrow> jsnum \<Rightarrow> 'v lru_cache \<Rightarrow> bool" where
  "lru_ok capacity ttl s \<longleftrightarrow> represents s (lru_order s) \<and> lr_maxEntries s = capacity \<and> lr_ttlMs s = ttl"

definition lru_contents :: "'v lru_cache \<Rightarrow> 'v recency_list" where
  "lru_contents s = recency s (lru_order s)"

lemma walk_chain: "entry_chain h p xs None \<Longrightarrow> walk (length xs) h (first_of xs None) = xs"
  by (induction xs arbitrary: p) auto

lemma order_unique: "represents s xs \<Longrightarrow> lru_order s = xs"
  using recency_size [of s xs] walk_chain [of "lr_heap s" None xs] by (simp add: lru_order_def represents_def linked_def)

lemma lru_okI: "represents s xs \<Longrightarrow> lr_maxEntries s = capacity \<Longrightarrow> lr_ttlMs s = ttl \<Longrightarrow> lru_ok capacity ttl s \<and> lru_contents s = recency s xs"
  using order_unique [of s xs] by (simp add: lru_ok_def lru_contents_def)

lemma lru_okE:
  assumes "lru_ok capacity ttl s"
  obtains xs where "represents s xs" "lru_contents s = recency s xs" "lr_maxEntries s = capacity" "lr_ttlMs s = ttl"
  using assms by (auto simp: lru_ok_def lru_contents_def)

lemma lookup_cases:
  assumes "lru_ok capacity ttl s"
  obtains "map_of (lr_map s) k = None" "map_of (lru_contents s) k = None"
  | a v t ys zs where "map_of (lr_map s) k = Some a" "map_of (lru_contents s) k = Some (v, t)" "represents s (ys @ a # zs)"
      "entry_data s a = Some (k, v, t)" "AList.delete k (lru_contents s) = recency s (ys @ zs)" "lru_contents s = recency s (ys @ a # zs)"
      "lr_maxEntries s = capacity" "lr_ttlMs s = ttl"
proof -
  from assms obtain xs where r: "represents s xs" "lru_contents s = recency s xs" "lr_maxEntries s = capacity" "lr_ttlMs s = ttl"
    by (rule lru_okE)
  show thesis
  proof (cases "map_of (lr_map s) k")
    case None
    with lru_absent [OF r(1)] r(2) that(1) show thesis by simp
  next
    case (Some a)
    from lru_found [OF r(1) this] obtain ys zs v t where "xs = ys @ a # zs" "entry_data s a = Some (k, v, t)"
      "map_of (recency s xs) k = Some (v, t)" "AList.delete k (recency s xs) = recency s (ys @ zs)" .
    with that(2) Some r show thesis by simp
  qed
qed

lemma removed_ok:
  assumes "represents s (ys @ a # zs)" "entry_data s a = Some (k, v, t)" "lr_maxEntries s = capacity" "lr_ttlMs s = ttl"
  shows "lru_ok capacity ttl (remove_entry a s)" "lru_contents (remove_entry a s) = recency s (ys @ zs)"
  using lru_okI [OF remove_represents(1) [OF assms(1,2)]] remove_represents [OF assms(1,2)] assms(3,4) by simp_all

lemma moved_ok:
  assumes "represents s (ys @ a # zs)" "entry_data s a = Some (k, v, t)" "lr_maxEntries s = capacity" "lr_ttlMs s = ttl"
  shows "lru_ok capacity ttl (move_to_head a s)" "lru_contents (move_to_head a s) = (k, v, t) # recency s (ys @ zs)"
  using lru_okI [OF move_represents(1) [OF assms(1)]] move_represents [OF assms(1)] assms(2,3,4) by (simp_all add: recency_def)

lemma get_refines:
  assumes "lru_ok capacity ttl s"
  shows "lru_ok capacity ttl (snd (lru_get k now s)) \<and>
    (fst (lru_get k now s), lru_contents (snd (lru_get k now s))) = spec_get k now (lru_contents s)"
  using assms
proof (cases rule: lookup_cases [where k = k])
  case 1
  with assms show ?thesis by (simp add: lru_get_def spec_get_def)
next
  case (2 a v t ys zs)
  note ok = removed_ok [OF 2(3,4,7,8)] moved_ok [OF 2(3,4,7,8)]
  have "map_option en_value (lr_heap (move_to_head a s) a) = Some v"
    using move_represents(5) [OF 2(3), of a] 2(4) by (intro data_value) simp
  with 2 ok data_expired [OF 2(4), of now] show ?thesis by (simp add: lru_get_def spec_get_def Let_def)
qed

lemma has_refines:
  assumes "lru_ok capacity ttl s"
  shows "lru_ok capacity ttl (snd (lru_has k now s)) \<and>
    (fst (lru_has k now s), lru_contents (snd (lru_has k now s))) = spec_has k now (lru_contents s)"
  using assms
proof (cases rule: lookup_cases [where k = k])
  case 1
  with assms show ?thesis by (simp add: lru_has_def spec_has_def)
next
  case (2 a v t ys zs)
  with assms removed_ok [OF 2(3,4,7,8)] data_expired [OF 2(4), of now] show ?thesis by (simp add: lru_has_def spec_has_def)
qed

lemma delete_refines:
  assumes "lru_ok capacity ttl s"
  shows "lru_ok capacity ttl (snd (lru_delete k s)) \<and> lru_contents (snd (lru_delete k s)) = AList.delete k (lru_contents s) \<and>
    fst (lru_delete k s) = (map_of (lru_contents s) k \<noteq> None)"
  using assms
proof (cases rule: lookup_cases [where k = k])
  case 1
  with assms show ?thesis by (simp add: lru_delete_def delete_absent)
next
  case (2 a v t ys zs)
  with removed_ok [OF 2(3,4,7,8)] show ?thesis by (simp add: lru_delete_def)
qed

lemma change_value_represents:
  assumes "represents s xs" "entry_data s a = Some (k, v, t)"
  shows "represents (change_entry a (\<lambda>e. e\<lparr>en_value := w, en_expiresAt := u\<rparr>) s) xs"
    "entry_data (change_entry a (\<lambda>e. e\<lparr>en_value := w, en_expiresAt := u\<rparr>) s) b = (if b = a then Some (k, w, u) else entry_data s b)"
proof -
  let ?f = "\<lambda>e. e\<lparr>en_value := w, en_expiresAt := u\<rparr>"
  obtain e where e: "lr_heap s a = Some e" "en_key e = k" using assms(2) by (auto simp: entry_data_def)
  show d: "entry_data (change_entry a ?f s) b = (if b = a then Some (k, w, u) else entry_data s b)" for b
    using e by (simp add: entry_data_def)
  have c: "entry_chain ((lr_heap s)(a \<mapsto> ?f e)) p xs n = entry_chain (lr_heap s) p xs n" for p n
    using e by (induction xs arbitrary: p) auto
  have "linked (change_entry a ?f s) xs" using assms(1) e by (simp add: represents_def linked_def c)
  moreover have "indexed (change_entry a ?f s) xs"
  proof -
    have "map_option fst (entry_data (change_entry a ?f s) b) = map_option fst (entry_data s b)" for b
      using assms(2) by (simp add: d)
    moreover have "lr_heap (change_entry a ?f s) b = None \<longleftrightarrow> lr_heap s b = None" for b by simp
    ultimately show ?thesis using assms(1) unfolding represents_def indexed_def by (simp add: change_entry_def)
  qed
  ultimately show "represents (change_entry a ?f s) xs" by (simp add: represents_def)
qed

lemma new_entry_represents:
  fixes s :: "'v lru_cache" and v :: 'v and t :: jsnum
  assumes r: "represents s xs" and none: "map_of (lr_map s) k = None"
  defines "a \<equiv> lr_fresh s"
  defines "s' \<equiv> set_head a (s\<lparr>lr_heap := (lr_heap s)(a \<mapsto> \<lparr>en_key = k, en_value = v, en_expiresAt = t, en_prev = None, en_next = lr_head s\<rparr>),
    lr_fresh := Suc a, lr_map := AList.update k a (lr_map s)\<rparr>)"
  shows "represents s' (a # xs)" "recency s' (a # xs) = (k, v, t) # recency s xs"
    "lr_maxEntries s' = lr_maxEntries s" "lr_ttlMs s' = lr_ttlMs s" "length (lr_map s') = Suc (length xs)"
proof -
  define m where "m = s\<lparr>lr_heap := (lr_heap s)(a \<mapsto> \<lparr>en_key = k, en_value = v, en_expiresAt = t, en_prev = None, en_next = lr_head s\<rparr>),
    lr_fresh := Suc a, lr_map := AList.update k a (lr_map s)\<rparr>"
  have s': "s' = set_head a m" by (simp add: s'_def m_def)
  have same: "same_data s' m" unfolding s' by (rule set_head_data)
  have "lr_heap s a = None" using r by (simp add: represents_def indexed_def a_def)
  then have fresh: "a \<notin> set xs" using r chain_allocated [of "lr_heap s" None xs None a] by (auto simp: represents_def linked_def)
  have dm: "entry_data m b = (if b = a then Some (k, v, t) else entry_data s b)" for b by (simp add: m_def entry_data_def)
  have "linked m xs" using r fresh by (simp add: m_def represents_def linked_def)
  then have l: "linked s' (a # xs)" unfolding s' using fresh by (rule push_linked) (simp add: m_def)+
  have ns: "entry_data s b \<noteq> Some (k, w, u)" if "b \<in> set xs" for b w u
    using represented_keys(2) [OF r that] none by auto
  have lm: "lr_map m = AList.update k a (lr_map s)" by (simp add: m_def)
  have "indexed m (a # xs)" unfolding indexed_def
  proof (intro conjI allI impI)
    show "keys_distinct (lr_map m)" using r by (simp add: m_def represents_def indexed_def)
    fix b assume "lr_fresh m \<le> b"
    then show "lr_heap m b = None" using r by (simp add: m_def represents_def indexed_def a_def)
  next
    fix l b
    have "map_of (lr_map s) l = Some b \<longleftrightarrow> b \<in> set xs \<and> map_option fst (entry_data s b) = Some l" using r by (simp add: represents_def indexed_def)
    then show "map_of (lr_map m) l = Some b \<longleftrightarrow> b \<in> set (a # xs) \<and> map_option fst (entry_data m b) = Some l"
      using fresh ns [of b] by (auto simp: dm lm)
  qed
  then have "indexed s' (a # xs)" using same_data_indexed [OF same] by simp
  with l show rep: "represents s' (a # xs)" by (simp add: represents_def)
  show "recency s' (a # xs) = (k, v, t) # recency s xs"
    unfolding same_data_recency [OF same] using fresh by (auto simp: recency_def dm intro!: map_cong)
  show "lr_maxEntries s' = lr_maxEntries s" "lr_ttlMs s' = lr_ttlMs s" using same by (simp_all add: same_data_def m_def)
  show "length (lr_map s') = Suc (length xs)" using recency_size [OF rep] by simp
qed

lemma set_refines:
  assumes "lru_ok capacity ttl s"
  shows "lru_ok capacity ttl (lru_set k v now s) \<and>
    lru_contents (lru_set k v now s) = spec_set capacity k v (now + ttl) (lru_contents s)"
  using assms
proof (cases rule: lookup_cases [where k = k])
  case 1
  from assms obtain xs where r: "represents s xs" "lru_contents s = recency s xs" "lr_maxEntries s = capacity" "lr_ttlMs s = ttl"
    by (rule lru_okE)
  define a where "a = lr_fresh s"
  define s' where "s' = set_head a (s\<lparr>lr_heap := (lr_heap s)(a \<mapsto> \<lparr>en_key = k, en_value = v, en_expiresAt = now + ttl, en_prev = None, en_next = lr_head s\<rparr>),
    lr_fresh := Suc a, lr_map := AList.update k a (lr_map s)\<rparr>)"
  note n = new_entry_represents [OF r(1) 1(1), where v = v and t = "now + ttl", folded a_def, folded s'_def]
  have code: "lru_set k v now s = (if capacity < of_nat (Suc (length xs)) then evict_tail s' else s')"
    using 1(1) n(3,5) r(3,4) by (simp add: lru_set_def Let_def a_def s'_def)
  have ok: "lru_ok capacity ttl s' \<and> lru_contents s' = (k, v, now + ttl) # recency s xs"
    using lru_okI [OF n(1)] n r by simp
  have spec: "spec_set capacity k v (now + ttl) (lru_contents s) =
      (if capacity < of_nat (Suc (length xs)) then butlast ((k, v, now + ttl) # recency s xs) else (k, v, now + ttl) # recency s xs)"
    using 1(2) r(2) by (simp add: spec_set_def Let_def delete_absent recency_def)
  obtain ys z where split: "a # xs = ys @ [z]" by (metis append_butlast_last_id list.distinct(1))
  have z: "evict_tail s' = remove_entry z s'" using n(1) unfolding split by (simp add: evict_tail_def represents_def linked_def)
  obtain l w u where d: "entry_data s' z = Some (l, w, u)"
    using linked_data [of s' "a # xs" z] n(1) unfolding represents_def split by auto
  have "represents s' (ys @ z # [])" using n(1) unfolding split by simp
  from removed_ok [OF this d, of capacity ttl] have "lru_ok capacity ttl (evict_tail s')" "lru_contents (evict_tail s') = recency s' ys"
    using n(3,4) r(3,4) by (simp_all add: z)
  moreover have "recency s' ys = butlast (recency s' (a # xs))" unfolding split by (simp add: recency_def butlast_append)
  ultimately show ?thesis using ok by (simp only: code spec n(2)) simp
next
  case (2 a w u ys zs)
  let ?s = "change_entry a (\<lambda>e. e\<lparr>en_value := v, en_expiresAt := now + ttl\<rparr>) s"
  note c = change_value_represents [OF 2(3,4), where w = v and u = "now + ttl"]
  have "a \<notin> set (ys @ zs)" using 2(3) by (auto simp: represents_def linked_def)
  then have rest: "recency ?s (ys @ zs) = recency s (ys @ zs)" by (auto simp: recency_def c(2) intro!: map_cong)
  have "entry_data ?s a = Some (k, v, now + ttl)" by (simp add: c(2))
  from moved_ok [OF c(1) this, of capacity ttl] 2 rest show ?thesis
    by (simp add: lru_set_def spec_set_def Let_def change_entry_def)
qed


lemma filter_others:
  "k \<notin> fst ` set L \<Longrightarrow>
   filter (\<lambda>(l, v, t). now \<le> t \<or> l \<notin> fst ` set ((k, a) # ps)) L = filter (\<lambda>(l, v, t). now \<le> t \<or> l \<notin> fst ` set ps) L"
  by (rule filter_cong) (auto simp: image_iff)

lemma sweep_fold:
  "represents s xs \<Longrightarrow> keys_distinct ps \<Longrightarrow> (\<forall>(k, a) \<in> set ps. map_of (lr_map s) k = Some a) \<Longrightarrow>
   \<exists>ys. represents (foldl (\<lambda>s (k, a). if entry_expired now a s then remove_entry a s else s) s ps) ys \<and>
     recency (foldl (\<lambda>s (k, a). if entry_expired now a s then remove_entry a s else s) s ps) ys =
       filter (\<lambda>(k, v, t). now \<le> t \<or> k \<notin> fst ` set ps) (recency s xs) \<and>
     lr_maxEntries (foldl (\<lambda>s (k, a). if entry_expired now a s then remove_entry a s else s) s ps) = lr_maxEntries s \<and>
     lr_ttlMs (foldl (\<lambda>s (k, a). if entry_expired now a s then remove_entry a s else s) s ps) = lr_ttlMs s"
proof (induction ps arbitrary: s xs)
  case Nil
  then show ?case by (auto simp: case_prod_beta)
next
  case (Cons p ps)
  obtain k a where p: "p = (k, a)" by (cases p)
  have m: "map_of (lr_map s) k = Some a" "keys_distinct ps" "k \<notin> fst ` set ps" "\<forall>(k, a) \<in> set ps. map_of (lr_map s) k = Some a"
    using Cons.prems by (auto simp: p keys_distinct_def)
  obtain ys zs v t where f: "xs = ys @ a # zs" "entry_data s a = Some (k, v, t)"
    "map_of (recency s xs) k = Some (v, t)" "AList.delete k (recency s xs) = recency s (ys @ zs)"
    using lru_found [OF Cons.prems(1) m(1)] .
  have rec: "recency s xs = recency s ys @ (k, v, t) # recency s zs" using f(2) by (simp add: f(1) recency_def)
  have kk: "k \<in> fst ` set ((k, a) # ps)" by simp
  have rec2: "recency s (ys @ zs) = recency s ys @ recency s zs" by (simp add: recency_def)
  have d: "k \<notin> fst ` set (recency s ys)" "k \<notin> fst ` set (recency s zs)" using recency_distinct [OF Cons.prems(1)] by (auto simp: rec)
  show ?case
  proof (cases "t < now")
    case True
    note r = remove_represents [OF Cons.prems(1) [unfolded f(1)] f(2)]
    have "\<forall>(l, b) \<in> set ps. map_of (lr_map (remove_entry a s)) l = Some b" 
    proof clarify
      fix l b assume lb: "(l, b) \<in> set ps"
      then have "l \<noteq> k" using m(3) by force
      then show "map_of (lr_map (remove_entry a s)) l = Some b" using m(4) lb by (auto simp: r(5))
    qed
    from Cons.IH [OF r(1) m(2) this] r(2,3,4)
    have "\<exists>ws. represents (foldl (\<lambda>s (k, a). if entry_expired now a s then remove_entry a s else s) (remove_entry a s) ps) ws \<and>
      recency (foldl (\<lambda>s (k, a). if entry_expired now a s then remove_entry a s else s) (remove_entry a s) ps) ws =
        filter (\<lambda>(k, v, t). now \<le> t \<or> k \<notin> fst ` set ps) (recency s (ys @ zs)) \<and>
      lr_maxEntries (foldl (\<lambda>s (k, a). if entry_expired now a s then remove_entry a s else s) (remove_entry a s) ps) = lr_maxEntries s \<and>
      lr_ttlMs (foldl (\<lambda>s (k, a). if entry_expired now a s then remove_entry a s else s) (remove_entry a s) ps) = lr_ttlMs s" by simp
    moreover have "filter (\<lambda>(k, v, t). now \<le> t \<or> k \<notin> fst ` set ps) (recency s (ys @ zs)) =
        filter (\<lambda>(l, v, t). now \<le> t \<or> l \<notin> fst ` set (p # ps)) (recency s xs)"
      using True by (simp add: rec rec2 p kk filter_others [OF d(1)] filter_others [OF d(2)] del: list.set)
    ultimately show ?thesis using data_expired [OF f(2), of now] True by (simp add: p)
  next
    case False
    have "filter (\<lambda>(k, v, t). now \<le> t \<or> k \<notin> fst ` set ps) (recency s xs) =
        filter (\<lambda>(l, v, t). now \<le> t \<or> l \<notin> fst ` set (p # ps)) (recency s xs)"
      using False by (simp add: rec p kk filter_others [OF d(1)] filter_others [OF d(2)] del: list.set)
    with Cons.IH [OF Cons.prems(1) m(2,4)] data_expired [OF f(2), of now] False show ?thesis by (simp add: p)
  qed
qed

lemma sweep_refines:
  assumes "lru_ok capacity ttl s"
  shows "lru_ok capacity ttl (sweep_expired now s) \<and> lru_contents (sweep_expired now s) = spec_sweep now (lru_contents s)"
proof -
  from assms obtain xs where r: "represents s xs" "lru_contents s = recency s xs" "lr_maxEntries s = capacity" "lr_ttlMs s = ttl"
    by (rule lru_okE)
  have d: "keys_distinct (lr_map s)" using r(1) by (simp add: represents_def indexed_def)
  then have "\<forall>(k, a) \<in> set (lr_map s). map_of (lr_map s) k = Some a" by (auto simp: keys_distinct_def)
  from sweep_fold [OF r(1) d this, of now, folded sweep_expired_def] obtain ys where
    s: "represents (sweep_expired now s) ys" "lr_maxEntries (sweep_expired now s) = capacity" "lr_ttlMs (sweep_expired now s) = ttl"
    "recency (sweep_expired now s) ys = filter (\<lambda>(k, v, t). now \<le> t \<or> k \<notin> fst ` set (lr_map s)) (recency s xs)"
    using r(3,4) by auto
  have "fst p \<in> fst ` set (lr_map s)" if "p \<in> set (recency s xs)" for p
    using recency_keys [OF r(1), of "fst p"] that by (auto simp: map_of_eq_None_iff)
  then have "filter (\<lambda>(k, v, t). now \<le> t \<or> k \<notin> fst ` set (lr_map s)) (recency s xs) = spec_sweep now (lru_contents s)"
    unfolding r(2) spec_sweep_def by (intro filter_cong) auto
  with lru_okI [OF s(1-3)] s(4) show ?thesis by simp
qed

lemma clear_refines: "lru_ok capacity ttl s \<Longrightarrow> lru_ok capacity ttl (lru_clear s) \<and> lru_contents (lru_clear s) = []"
proof -
  assume "lru_ok capacity ttl s"
  then have s: "represents s (lru_order s)" "lr_maxEntries s = capacity" "lr_ttlMs s = ttl" by (simp_all add: lru_ok_def)
  then have "represents (lru_clear s) []"
    by (auto simp: represents_def linked_def indexed_def lru_clear_def)
  from lru_okI [OF this] s show ?thesis by (simp add: lru_clear_def recency_def)
qed

lemma new_refines: "new_lru capacity ttl = Inr s \<Longrightarrow> lru_ok capacity ttl s \<and> lru_contents s = []"
proof -
  assume n: "new_lru capacity ttl = Inr s"
  then have "represents s []" by (auto simp: new_lru_def represents_def linked_def indexed_def split: if_splits)
  from lru_okI [OF this] n show ?thesis by (auto simp: new_lru_def recency_def split: if_splits)
qed

lemma size_contents: "lru_ok capacity ttl s \<Longrightarrow> lru_size s = length (lru_contents s)"
  by (erule lru_okE) (simp add: lru_size_def recency_size recency_def)

interpretation lc: lru_contract "lru_ok capacity ttl" lru_contents lru_get lru_set lru_delete lru_has sweep_expired capacity ttl
  for capacity ttl
proof (unfold_locales, goal_cases)
  case (1 s)
  then show ?case by (elim lru_okE) (simp add: keys_distinct_def recency_distinct)
next
  case (2 s k now)
  then show ?case by (rule get_refines)
next
  case (3 s k v now)
  then show ?case by (rule set_refines)
next
  case (4 s k)
  then show ?case by (rule delete_refines)
next
  case (5 s k now)
  then show ?case by (rule has_refines)
next
  case (6 s now)
  then show ?case by (rule sweep_refines)
qed

section \<open>Sequences of operations\<close>

definition lru_apply :: "'v lru_op \<Rightarrow> 'v lru_cache \<Rightarrow> 'v lru_cache" where
  "lru_apply op s =
     (case op of
        LGet k now \<Rightarrow> snd (lru_get k now s) | LSet k v now \<Rightarrow> lru_set k v now s | LDelete k \<Rightarrow> snd (lru_delete k s)
      | LHas k now \<Rightarrow> snd (lru_has k now s) | LSweep now \<Rightarrow> sweep_expired now s)"

definition spec_apply :: "jsnum \<Rightarrow> jsnum \<Rightarrow> 'v lru_op \<Rightarrow> 'v recency_list \<Rightarrow> 'v recency_list" where
  "spec_apply capacity ttl op L =
     (case op of
        LGet k now \<Rightarrow> snd (spec_get k now L) | LSet k v now \<Rightarrow> spec_set capacity k v (now + ttl) L
      | LDelete k \<Rightarrow> AList.delete k L | LHas k now \<Rightarrow> snd (spec_has k now L) | LSweep now \<Rightarrow> spec_sweep now L)"

definition lru_run :: "'v lru_op list \<Rightarrow> 'v lru_cache \<Rightarrow> 'v lru_cache" where
  "lru_run ops s = foldl (\<lambda>s op. lru_apply op s) s ops"

definition spec_run :: "jsnum \<Rightarrow> jsnum \<Rightarrow> 'v lru_op list \<Rightarrow> 'v recency_list \<Rightarrow> 'v recency_list" where
  "spec_run capacity ttl ops L = foldl (\<lambda>L op. spec_apply capacity ttl op L) L ops"

lemma lru_apply_step: "lru_apply op s = lru_contract.step lru_get lru_set lru_delete lru_has sweep_expired op s"
  by (cases op) (simp_all add: lru_apply_def lc.step_def)

lemma lru_run_steps: "lru_run ops s = foldl (\<lambda>s op. lru_contract.step lru_get lru_set lru_delete lru_has sweep_expired op s) s ops"
  by (simp add: lru_run_def lru_apply_step)

lemma lru_run_simps [simp]: "lru_run [] s = s" "lru_run (op # ops) s = lru_run ops (lru_apply op s)"
  "spec_run c t [] L = L" "spec_run c t (op # ops) L = spec_run c t ops (spec_apply c t op L)"
  by (simp_all add: lru_run_def spec_run_def)

lemma lru_run_refines:
  "lru_ok capacity ttl s \<Longrightarrow>
   lru_ok capacity ttl (lru_run ops s) \<and> lru_contents (lru_run ops s) = spec_run capacity ttl ops (lru_contents s)"
proof (induction ops arbitrary: s)
  case (Cons op ops)
  have "lru_ok capacity ttl (lru_apply op s)" "lru_contents (lru_apply op s) = spec_apply capacity ttl op (lru_contents s)"
    using lc.step_invar [OF Cons.prems, of op] lc.step_contents [OF Cons.prems, of op] by (simp_all add: lru_apply_step spec_apply_def)
  with Cons.IH show ?case by simp
qed simp

lemma lru_run_bounded:
  "lru_ok capacity ttl s \<Longrightarrow> of_nat (lru_size s) \<le> capacity \<Longrightarrow> of_nat (lru_size (lru_run ops s)) \<le> capacity"
proof (induction ops arbitrary: s)
  case (Cons op ops)
  have ok: "lru_ok capacity ttl (lru_apply op s)" using lc.step_invar [OF Cons.prems(1), of op] by (simp add: lru_apply_step)
  moreover have "of_nat (lru_size (lru_apply op s)) \<le> capacity"
    using lc.size_bound [OF Cons.prems(1), of op] Cons.prems(2)
    by (simp only: size_contents [OF Cons.prems(1)] size_contents [OF ok]) (simp add: lru_apply_step)
  ultimately show ?case using Cons.IH by simp
qed simp

end
