(* ===== verification/WorkflowTypes.thy ===== *)
theory WorkflowTypes
  imports Prelude
begin

text \<open>
  The data models of \<open>packages/workflow/src/types.ts\<close> and the in-memory store of \<open>store.ts\<close>.

  Values of the program (results, inputs, payloads, metadata) have the type \<open>'v\<close>.  A serialised error is a
  \<open>js_error\<close>: its \<open>stack\<close> is not modelled.  The store maps run identifiers to snapshots; snapshots are values, which is what
  \<open>structuredClone\<close> makes of them, and cloning does not fail.

  \<open>wenv\<close> is what a drive shares with the rest of the process: the store, the clock and the world the activities act on.
  The clock is a function of the number of times it has been read.  \<open>we_captured\<close> is the array in which a drive collects the
  compensations of the activities it runs: the sequence number, the compensation (functions are referred to by a name) and
  the output it is bound to.
\<close>

section \<open>Run status, commands and history\<close>

datatype run_status = Running | WaitingRun | Paused | CompletedRun | FailedRun | Compensating | Compensated | Cancelled

definition TERMINAL :: "run_status list" where
  "TERMINAL = [CompletedRun, FailedRun, Compensated, Cancelled]"

datatype command_kind =
  Activity | ParallelAll | ParallelRace | ParallelMap | Sleep | WaitUntil | Cron | Interval
  | QueueDispatch | QueueExecute | EventsPublish | EventsWaitFor | EventsSubscribe
  | StoragePut | StorageGet | StorageDelete | StorageMove | StorageCopy | RealtimeBroadcast | StateSet

datatype command_status = CsCompleted | CsFailed | CsWaiting

record 'v command_record =
  cr_seq :: nat
  cr_kind :: command_kind
  cr_status :: command_status
  cr_attempts :: nat
  cr_result :: "'v option"
  cr_error :: "js_error option"
  cr_metadata :: "'v option"
  cr_compensated :: "bool option"
  cr_nextAttemptAt :: "jsnum option"
  cr_timerExpiresAt :: "jsnum option"
  cr_waitingFor :: "string option"
  cr_startedAt :: "jsnum option"
  cr_completedAt :: "jsnum option"

datatype 'v history_event =
  RunStarted jsnum 'v
  | RunStatusChanged jsnum run_status run_status
  | ActivityStarted jsnum nat nat "'v option"
  | ActivityCompleted jsnum nat 'v
  | ActivityFailed jsnum nat nat js_error
  | RetryScheduled jsnum nat nat jsnum jsnum
  | CompensationStarted jsnum nat
  | CompensationCompleted jsnum nat
  | CompensationFailed jsnum nat js_error
  | SignalReceived jsnum string 'v
  | TimerSet jsnum nat jsnum
  | TimerFired jsnum nat
  | PublishFailed jsnum string js_error

record 'v recorded_signal =
  sg_name :: string
  sg_payload :: 'v
  sg_receivedAt :: jsnum
  sg_consumed :: bool

record 'v workflow_run =
  wr_runId :: string
  wr_definition :: string
  wr_status :: run_status
  wr_input :: 'v
  wr_output :: "'v option"
  wr_commands :: "'v command_record list"
  wr_nextSeq :: nat
  wr_state :: "(string, 'v) jsmap"
  wr_pendingSignals :: "'v recorded_signal list"
  wr_history :: "'v history_event list"
  wr_createdAt :: jsnum
  wr_updatedAt :: jsnum

section \<open>The store and the environment of a drive\<close>

type_synonym 'v workflow_store = "(string, 'v workflow_run) jsmap"

definition store_save :: "'v workflow_run \<Rightarrow> 'v workflow_store \<Rightarrow> 'v workflow_store" where
  "store_save run st = AList.update (wr_runId run) run st"

definition store_load :: "string \<Rightarrow> 'v workflow_store \<Rightarrow> 'v workflow_run option" where
  "store_load runId st = map_of st runId"

definition persistence_error :: js_error where
  "persistence_error = JsError ''PersistenceError'' ''Cannot append history: no such run is persisted.''"

definition store_append :: "string \<Rightarrow> 'v history_event \<Rightarrow> 'v workflow_store \<Rightarrow> js_error + 'v workflow_store" where
  "store_append runId event st =
     (case map_of st runId of
        None \<Rightarrow> Inl persistence_error
      | Some stored \<Rightarrow> Inr (AList.update runId (stored\<lparr>wr_history := wr_history stored @ [event]\<rparr>) st))"

definition store_list :: "'v workflow_store \<Rightarrow> (string \<times> string \<times> run_status) list" where
  "store_list st = map (\<lambda>(_, run). (wr_runId run, wr_definition run, wr_status run)) st"

definition store_list_incomplete :: "'v workflow_store \<Rightarrow> 'v workflow_run list" where
  "store_list_incomplete st = filter (\<lambda>run. wr_status run \<notin> set TERMINAL) (map snd st)"

record ('v, 'w) wenv =
  we_store :: "'v workflow_store"
  we_times :: "nat \<Rightarrow> jsnum"
  we_reads :: nat
  we_world :: 'w
  we_captured :: "(nat \<times> string \<times> 'v) list"

definition read_clock :: "('v, 'w) wenv \<Rightarrow> jsnum \<times> ('v, 'w) wenv" where
  "read_clock e = (we_times e (we_reads e), e\<lparr>we_reads := Suc (we_reads e)\<rparr>)"

definition persist :: "'v workflow_run \<Rightarrow> ('v, 'w) wenv \<Rightarrow> ('v, 'w) wenv" where
  "persist run e = e\<lparr>we_store := store_save run (we_store e)\<rparr>"

lemma persist_load [simp]: "store_load (wr_runId run) (we_store (persist run e)) = Some run"
  by (simp add: persist_def store_save_def store_load_def)

lemma persist_frame [simp]:
  "we_world (persist run e) = we_world e" "we_times (persist run e) = we_times e" "we_reads (persist run e) = we_reads e"
  "we_captured (persist run e) = we_captured e"
  "runId \<noteq> wr_runId run \<Longrightarrow> store_load runId (we_store (persist run e)) = store_load runId (we_store e)"
  by (simp_all add: persist_def store_save_def store_load_def)

lemma read_clock_frame [simp]:
  "fst (read_clock e) = we_times e (we_reads e)" "we_store (snd (read_clock e)) = we_store e"
  "we_world (snd (read_clock e)) = we_world e" "we_times (snd (read_clock e)) = we_times e"
  "we_reads (snd (read_clock e)) = Suc (we_reads e)" "we_captured (snd (read_clock e)) = we_captured e"
  by (simp_all add: read_clock_def)

end
