(* ===== verification/WorkflowJournal.thy ===== *)
theory WorkflowJournal
  imports WorkflowTypes
begin

text \<open>
  \<open>packages/workflow/src/journal.ts\<close>: the journal that records the outcome of every effectful command of a workflow function
  and replays it when the function is run again.

  The effect of a command is a function of its \<open>seq\<close>, the time, the journal's snapshot and the environment; it
  returns an outcome or throws, and may change the environment in any way.  \<open>Unsettled\<close> is not thrown by anything: it is the
  result of an effect whose promise never settles, after which the function does not go on.  Whatever else the process does while the effect is
  awaited (a signal delivered, a run cancelled) is part of that change.

  A workflow function is a tree (\<open>workflow\<close>): it returns, throws, reads the durable state, or issues a command and goes on with
  what the command returned or threw.  What it computes between commands is in the continuations.  Every path of the tree is
  finite; its branching is arbitrary.  The texts of the integrity errors are abbreviated.
\<close>

section \<open>Commands and outcomes\<close>

datatype thrown = Thrown js_error | Suspension nat command_kind "string option" "jsnum option" | Unsettled

datatype 'v settlement = SCompleted 'v | SFailed js_error | SWaiting "string option" "jsnum option"

record 'v command_outcome =
  oc_settled :: "'v settlement"
  oc_attempts :: "nat option"
  oc_history :: "'v history_event list option"
  oc_runStatus :: "run_status option"
  oc_statePatch :: "(string, 'v) jsmap option"
  oc_record :: "'v command_record \<Rightarrow> 'v command_record"

definition plain_outcome :: "'v settlement \<Rightarrow> 'v command_outcome" where
  "plain_outcome s = \<lparr>oc_settled = s, oc_attempts = None, oc_history = None, oc_runStatus = None, oc_statePatch = None, oc_record = id\<rparr>"

type_synonym ('v, 'w) effect = "nat \<Rightarrow> jsnum \<Rightarrow> 'v workflow_run \<Rightarrow> ('v, 'w) wenv \<Rightarrow> (thrown + 'v command_outcome) \<times> ('v, 'w) wenv"

record ('v, 'w) command_spec =
  sp_kind :: command_kind
  sp_metadata :: "'v option"
  sp_execute :: "('v, 'w) effect"

record 'v journal =
  j_run :: "'v workflow_run"
  j_cursor :: nat

definition new_journal :: "'v workflow_run \<Rightarrow> 'v journal" where
  "new_journal run = \<lparr>j_run = run, j_cursor = 0\<rparr>"

definition replaying :: "'v journal \<Rightarrow> bool" where
  "replaying j \<longleftrightarrow> j_cursor j < length (wr_commands (j_run j))"

definition deserialize_error :: "js_error option \<Rightarrow> js_error" where
  "deserialize_error err = nullish err (JsError ''Error'' ''Workflow command failed.'')"

definition integrity_error :: "string \<Rightarrow> nat \<Rightarrow> string \<Rightarrow> thrown" where
  "integrity_error runId seq what =
     Thrown (JsError ''ResumeIntegrityError'' (''Workflow run '' @ runId @ '' cannot be resumed at seq '' @ show_nat seq @ '': '' @ what))"

section \<open>The journal\<close>

definition read_state :: "string \<Rightarrow> 'v journal \<Rightarrow> 'v option" where
  "read_state k j = map_of (wr_state (j_run j)) k"

record 'v run_patch =
  rp_status :: "run_status option"
  rp_output :: "'v option"
  rp_history :: "'v history_event list option"

definition commit :: "'v run_patch \<Rightarrow> 'v journal \<Rightarrow> ('v, 'w) wenv \<Rightarrow> 'v journal \<times> ('v, 'w) wenv" where
  "commit patch j e =
     (let (now, e) = read_clock e;
          run = j_run j;
          persisted = run\<lparr>wr_status := nullish (rp_status patch) (wr_status run),
                          wr_output := (case rp_output patch of None \<Rightarrow> wr_output run | Some out \<Rightarrow> Some out),
                          wr_history := wr_history run @ nullish (rp_history patch) [],
                          wr_updatedAt := now\<rparr>
      in (j\<lparr>j_run := persisted\<rparr>, persist persisted e))"

definition build_record ::
    "('v, 'w) command_spec \<Rightarrow> nat \<Rightarrow> jsnum \<Rightarrow> jsnum \<Rightarrow> 'v command_outcome \<Rightarrow> 'v command_record option \<Rightarrow> 'v command_record" where
  "build_record spec seq startedAt settledAt oc previous =
     oc_record oc
       \<lparr>cr_seq = seq,
        cr_kind = sp_kind spec,
        cr_status = (case oc_settled oc of SCompleted _ \<Rightarrow> CsCompleted | SFailed _ \<Rightarrow> CsFailed | SWaiting _ _ \<Rightarrow> CsWaiting),
        cr_attempts = (case oc_attempts oc of
            Some n \<Rightarrow> n
          | None \<Rightarrow> (case oc_settled oc of SWaiting _ _ \<Rightarrow> (case previous of Some p \<Rightarrow> cr_attempts p | None \<Rightarrow> 0) | _ \<Rightarrow> 1)),
        cr_result = (case oc_settled oc of SCompleted v \<Rightarrow> Some v | _ \<Rightarrow> None),
        cr_error = (case oc_settled oc of SFailed err \<Rightarrow> Some err | _ \<Rightarrow> None),
        cr_metadata = (case sp_metadata spec of Some m \<Rightarrow> Some m | None \<Rightarrow> Option.bind previous cr_metadata),
        cr_compensated = None,
        cr_nextAttemptAt = None,
        cr_timerExpiresAt = (case oc_settled oc of SWaiting _ t \<Rightarrow> t | _ \<Rightarrow> None),
        cr_waitingFor = (case oc_settled oc of SWaiting w _ \<Rightarrow> w | _ \<Rightarrow> None),
        cr_startedAt = Some (nullish (Option.bind previous cr_startedAt) startedAt),
        cr_completedAt = (case oc_settled oc of SWaiting _ _ \<Rightarrow> None | _ \<Rightarrow> Some settledAt)\<rparr>"

definition replay_command ::
    "('v, 'w) command_spec \<Rightarrow> 'v command_record \<Rightarrow> 'v journal \<Rightarrow> thrown + 'v" where
  "replay_command spec recorded j =
     (if cr_kind recorded \<noteq> sp_kind spec
      then Inl (integrity_error (wr_runId (j_run j)) (cr_seq recorded) ''the workflow function is non-deterministic'')
      else if cr_status recorded = CsCompleted
      then (case cr_result recorded of
              None \<Rightarrow> Inl (integrity_error (wr_runId (j_run j)) (cr_seq recorded) ''missing its recorded result'')
            | Some v \<Rightarrow> Inr v)
      else Inl (Thrown (deserialize_error (cr_error recorded))))"

definition settle_live ::
    "('v, 'w) command_spec \<Rightarrow> nat \<Rightarrow> jsnum \<Rightarrow> 'v command_record option \<Rightarrow> 'v command_outcome \<Rightarrow> 'v journal \<Rightarrow> ('v, 'w) wenv \<Rightarrow>
     (thrown + 'v) \<times> 'v journal \<times> ('v, 'w) wenv" where
  "settle_live spec seq startedAt parked oc j e =
     (let index = j_cursor j;
          run = j_run j;
          (settledAt, e) = read_clock e;
          nextRecord = build_record spec seq startedAt settledAt oc parked;
          persisted = run\<lparr>wr_status := nullish (oc_runStatus oc) (wr_status run),
                          wr_commands := (if parked \<noteq> None then (wr_commands run)[index := nextRecord] else wr_commands run @ [nextRecord]),
                          wr_nextSeq := (if parked \<noteq> None then wr_nextSeq run else wr_nextSeq run + 1),
                          wr_state := (case oc_statePatch oc of
                              None \<Rightarrow> wr_state run
                            | Some patch \<Rightarrow> foldl (\<lambda>m (k, v). AList.update k v m) (wr_state run) patch),
                          wr_history := wr_history run @ nullish (oc_history oc) [],
                          wr_updatedAt := settledAt\<rparr>;
          e = persist persisted e
      in case oc_settled oc of
           SCompleted v \<Rightarrow> (Inr v, \<lparr>j_run = persisted, j_cursor = index + 1\<rparr>, e)
         | SFailed err \<Rightarrow> (Inl (Thrown (deserialize_error (Some err))), \<lparr>j_run = persisted, j_cursor = index + 1\<rparr>, e)
         | SWaiting w t \<Rightarrow> (Inl (Suspension seq (sp_kind spec) w t), \<lparr>j_run = persisted, j_cursor = index\<rparr>, e))"

definition process ::
    "('v, 'w) command_spec \<Rightarrow> 'v journal \<Rightarrow> ('v, 'w) wenv \<Rightarrow> (thrown + 'v) \<times> 'v journal \<times> ('v, 'w) wenv" where
  "process spec j e =
     (let index = j_cursor j;
          recorded = (if index < length (wr_commands (j_run j)) then Some (wr_commands (j_run j) ! index) else None)
      in case recorded of
           Some r \<Rightarrow>
             if cr_status r \<noteq> CsWaiting then (replay_command spec r j, j\<lparr>j_cursor := index + 1\<rparr>, e)
             else (let (startedAt, e) = read_clock e
                   in case sp_execute spec (cr_seq r) startedAt (j_run j) e of
                        (Inl t, e) \<Rightarrow> (Inl t, j, e)
                      | (Inr oc, e) \<Rightarrow> settle_live spec (cr_seq r) startedAt (Some r) oc j e)
         | None \<Rightarrow>
             (let (startedAt, e) = read_clock e
              in case sp_execute spec (wr_nextSeq (j_run j)) startedAt (j_run j) e of
                   (Inl t, e) \<Rightarrow> (Inl t, j, e)
                 | (Inr oc, e) \<Rightarrow> settle_live spec (wr_nextSeq (j_run j)) startedAt None oc j e))"

text \<open>\<open>setState\<close>; \<open>metadata\<close> is the value \<open>{ key }\<close> and \<open>undefined_value\<close> is \<open>undefined\<close>.\<close>

definition journal_set_state :: "'v \<Rightarrow> 'v \<Rightarrow> string \<Rightarrow> 'v \<Rightarrow> ('v, 'w) command_spec" where
  "journal_set_state undefined_value metadata k v =
     \<lparr>sp_kind = StateSet, sp_metadata = Some metadata,
      sp_execute = (\<lambda>seq now run e. (Inr ((plain_outcome (SCompleted undefined_value))\<lparr>oc_statePatch := Some [(k, v)]\<rparr>), e))\<rparr>"

section \<open>Workflow functions\<close>

datatype ('v, 'w) workflow =
  Finish 'v
| Raise thrown
| ReadState string "'v option \<Rightarrow> ('v, 'w) workflow"
| Command "('v, 'w) command_spec" "thrown + 'v \<Rightarrow> ('v, 'w) workflow"

definition never_settles :: "thrown + 'v \<Rightarrow> bool" where
  "never_settles r \<longleftrightarrow> (case r of Inl Unsettled \<Rightarrow> True | _ \<Rightarrow> False)"

lemma never_settles_simps [simp]:
  "never_settles (Inl t) \<longleftrightarrow> t = Unsettled" "\<not> never_settles (Inr v)"
  by (simp_all add: never_settles_def split: thrown.split)

primrec run_workflow ::
    "('v, 'w) workflow \<Rightarrow> 'v journal \<Rightarrow> ('v, 'w) wenv \<Rightarrow> (thrown + 'v) \<times> 'v journal \<times> ('v, 'w) wenv" where
  "run_workflow (Finish v) = (\<lambda>j e. (Inr v, j, e))"
| "run_workflow (Raise t) = (\<lambda>j e. (Inl t, j, e))"
| "run_workflow (ReadState k f) = (\<lambda>j e. run_workflow (f (read_state k j)) j e)"
| "run_workflow (Command spec f) = (\<lambda>j e. case process spec j e of (r, j, e) \<Rightarrow> if never_settles r then (Inl Unsettled, j, e) else run_workflow (f r) j e)"


section \<open>Replay\<close>

text \<open>
  What is left of a function after the recorded commands \<open>cs\<close>: undefined when a record does not belong to the command at
  its place.  \<open>durable\<close> is the discipline replay relies on: the function does not read the state (a read sees the state as last
  saved, not as it was), lets suspensions pass, and its effects settle instead of throwing.
\<close>

definition settled :: "'v command_record \<Rightarrow> bool" where
  "settled c \<longleftrightarrow> cr_status c \<noteq> CsWaiting"

definition recorded_result :: "'v command_record \<Rightarrow> thrown + 'v" where
  "recorded_result c =
     (if cr_status c = CsCompleted then Inr (the (cr_result c)) else Inl (Thrown (deserialize_error (cr_error c))))"

definition record_matches :: "('v, 'w) command_spec \<Rightarrow> 'v command_record \<Rightarrow> bool" where
  "record_matches spec c \<longleftrightarrow> settled c \<and> cr_kind c = sp_kind spec \<and> (cr_status c = CsCompleted \<longrightarrow> cr_result c \<noteq> None)"

primrec residual :: "('v, 'w) workflow \<Rightarrow> 'v command_record list \<Rightarrow> ('v, 'w) workflow option" where
  "residual (Finish v) = (\<lambda>cs. if cs = [] then Some (Finish v) else None)"
| "residual (Raise t) = (\<lambda>cs. if cs = [] then Some (Raise t) else None)"
| "residual (ReadState k f) = (\<lambda>cs. if cs = [] then Some (ReadState k f) else None)"
| "residual (Command spec f) =
     (\<lambda>cs. case cs of [] \<Rightarrow> Some (Command spec f)
             | c # cs \<Rightarrow> if record_matches spec c then residual (f (recorded_result c)) cs else None)"

definition effect_settles :: "('v, 'w) command_spec \<Rightarrow> bool" where
  "effect_settles spec \<longleftrightarrow> (\<forall>seq now run e. \<exists>oc e'. sp_execute spec seq now run e = (Inr oc, e') \<and> oc_record oc = id)"

primrec durable :: "('v, 'w) workflow \<Rightarrow> bool" where
  "durable (Finish v) = True"
| "durable (Raise t) = True"
| "durable (ReadState k f) = False"
| "durable (Command spec f) =
     (effect_settles spec \<and> (\<forall>seq k w t. f (Inl (Suspension seq k w t)) = Raise (Suspension seq k w t)) \<and> (\<forall>r. durable (f r)))"

lemma recorded_result_settles [simp]: "\<not> never_settles (recorded_result c)"
  by (simp add: recorded_result_def)

lemma process_replays:
  assumes "j_cursor j < length (wr_commands (j_run j))" "record_matches spec (wr_commands (j_run j) ! j_cursor j)"
  shows "process spec j e = (recorded_result (wr_commands (j_run j) ! j_cursor j), j\<lparr>j_cursor := j_cursor j + 1\<rparr>, e)"
  using assms by (auto simp: process_def Let_def record_matches_def settled_def replay_command_def recorded_result_def split: option.split)

lemma replay_skips:
  "residual p cs = Some q \<Longrightarrow> wr_commands run = pre @ cs @ rest \<Longrightarrow>
   run_workflow p \<lparr>j_run = run, j_cursor = length pre\<rparr> e = run_workflow q \<lparr>j_run = run, j_cursor = length pre + length cs\<rparr> e"
proof (induction p arbitrary: cs pre)
  case (Command spec f)
  show ?case
  proof (cases cs)
    case Nil
    with Command.prems show ?thesis by simp
  next
    case (Cons c cs')
    then have m: "record_matches spec c" "residual (f (recorded_result c)) cs' = Some q"
      using Command.prems(1) by (simp_all split: if_splits)
    have "process spec \<lparr>j_run = run, j_cursor = length pre\<rparr> e =
        (recorded_result c, \<lparr>j_run = run, j_cursor = length (pre @ [c])\<rparr>, e)"
      using m(1) Command.prems(2) Cons by (subst process_replays) (simp_all add: nth_append)
    with Command.IH [OF _ m(2), of "pre @ [c]"] Command.prems(2) Cons show ?thesis by simp
  qed
qed (auto split: if_splits)

lemma residual_Nil [simp]: "residual p [] = Some p"
  by (cases p) simp_all

lemma residual_append:
  "residual p cs = Some q \<Longrightarrow> residual p (cs @ ds) = residual q ds"
proof (induction p arbitrary: cs)
  case (Command spec f)
  then show ?case by (cases cs) (auto split: if_splits)
qed (auto split: if_splits)

lemma residual_durable: "durable p \<Longrightarrow> residual p cs = Some q \<Longrightarrow> durable q"
proof (induction p arbitrary: cs)
  case (Command spec f)
  show ?case
  proof (cases cs)
    case Nil
    with Command.prems show ?thesis by auto
  next
    case (Cons c ds)
    then have "residual (f (recorded_result c)) ds = Some q" using Command.prems(2) by (simp split: if_splits)
    with Command.IH [of "f (recorded_result c)" ds] Command.prems(1) show ?thesis by simp
  qed
qed (auto split: if_splits)

text \<open>A snapshot belongs to a function: its settled commands are those of a run of it, and at most the last one is parked.\<close>

definition follows :: "('v, 'w) workflow \<Rightarrow> 'v workflow_run \<Rightarrow> 'v command_record list \<Rightarrow> ('v, 'w) workflow \<Rightarrow> bool" where
  "follows p run cs q \<longleftrightarrow> residual p cs = Some q \<and>
     (wr_commands run = cs \<or> (\<exists>spec f c. q = Command spec f \<and> wr_commands run = cs @ [c] \<and> \<not> settled c))"

lemma resume_at: "follows p run cs q \<Longrightarrow> run_workflow p (new_journal run) e = run_workflow q \<lparr>j_run = run, j_cursor = length cs\<rparr> e"
  using replay_skips [of p cs q run "[]"] by (auto simp: follows_def new_journal_def)

text \<open>The steps of a drive: the function, its journal and the environment.\<close>

type_synonym ('v, 'w) config = "('v, 'w) workflow \<times> 'v journal \<times> ('v, 'w) wenv"

inductive drive_step :: "('v, 'w) config \<Rightarrow> ('v, 'w) config \<Rightarrow> bool" where
  reads: "drive_step (ReadState k f, j, e) (f (read_state k j), j, e)"
| issues: "process spec j e = (r, j', e') \<Longrightarrow> \<not> never_settles r \<Longrightarrow> drive_step (Command spec f, j, e) (f r, j', e')"

inductive_cases drive_step_command: "drive_step (Command spec f, j, e) c"
inductive_simps drive_step_done: "drive_step (Finish v, j, e) c" "drive_step (Raise t, j, e) c" "drive_step (ReadState k f, j, e) c"

lemma drive_step_run: "drive_step (p, j, e) (p', j', e') \<Longrightarrow> run_workflow p j e = run_workflow p' j' e'"
  by (auto elim: drive_step.cases)

lemma drive_steps_run: "drive_step\<^sup>*\<^sup>* c c' \<Longrightarrow> (case c of (p, j, e) \<Rightarrow> run_workflow p j e) = (case c' of (p, j, e) \<Rightarrow> run_workflow p j e)"
  by (induction rule: rtranclp_induct) (auto simp: drive_step_run)

text \<open>Where a drive is: replaying a snapshot, at its frontier, or suspended.\<close>

definition at_position :: "('v, 'w) workflow \<Rightarrow> ('v, 'w) config \<Rightarrow> bool" where
  "at_position p0 c = (case c of (p, j, e) \<Rightarrow>
     \<exists>cs ds q. follows p0 (j_run j) (cs @ ds) q \<and> j_cursor j = length cs \<and>
       (residual p0 cs = Some p \<or> (ds = [] \<and> wr_commands (j_run j) \<noteq> cs \<and> (\<exists>n k w t. p = Raise (Suspension n k w t)))))"

lemma live_record:
  assumes "sp_execute spec n now run e = (Inr oc, e')" "oc_record oc = id"
  shows "\<not> (\<exists>w t. oc_settled oc = SWaiting w t) \<Longrightarrow>
      record_matches spec (build_record spec n t0 t1 oc prev) \<and>
      recorded_result (build_record spec n t0 t1 oc prev) =
        (case oc_settled oc of SCompleted v \<Rightarrow> Inr v | SFailed err \<Rightarrow> Inl (Thrown (deserialize_error (Some err))))"
    and "\<exists>w t. oc_settled oc = SWaiting w t \<Longrightarrow> \<not> settled (build_record spec n t0 t1 oc prev)"
  using assms by (auto simp: build_record_def record_matches_def settled_def recorded_result_def split: settlement.splits)


lemma process_live:
  assumes f: "follows p0 (j_run j) cs (Command spec f)" and c: "j_cursor j = length cs" and s: "effect_settles spec"
    and p: "process spec j e = (r, j', e')"
  shows "(\<exists>d. follows p0 (j_run j') (cs @ [d]) (f r) \<and> j_cursor j' = length (cs @ [d])) \<or>
    ((\<exists>n k w t. r = Inl (Suspension n k w t)) \<and> follows p0 (j_run j') cs (Command spec f) \<and>
     wr_commands (j_run j') \<noteq> cs \<and> j_cursor j' = length cs)"
proof -
  define parked where "parked = (if length cs < length (wr_commands (j_run j)) then Some (wr_commands (j_run j) ! length cs) else None)"
  have cmds: "wr_commands (j_run j) = cs @ (case parked of None \<Rightarrow> [] | Some c \<Rightarrow> [c])" "parked = None \<or> (\<exists>c. parked = Some c \<and> \<not> settled c)"
    using f by (auto simp: follows_def parked_def)
  define n where "n = (case parked of Some c \<Rightarrow> cr_seq c | None \<Rightarrow> wr_nextSeq (j_run j))"
  obtain t0 e0 where t0: "read_clock e = (t0, e0)" by (cases "read_clock e")
  obtain oc e1 where x: "sp_execute spec n t0 (j_run j) e0 = (Inr oc, e1)" "oc_record oc = id"
    using s by (fastforce simp: effect_settles_def)
  have proc: "process spec j e = settle_live spec n t0 parked oc j e1"
    using cmds(2) x t0 c by (auto simp: process_def Let_def parked_def n_def settled_def split: if_splits)
  obtain t1 e2 where t1: "read_clock e1 = (t1, e2)" by (cases "read_clock e1")
  define d where "d = build_record spec n t0 t1 oc parked"
  have new: "wr_commands (j_run j') = cs @ [d]"
    using p cmds(1) c unfolding proc by (cases parked; cases "oc_settled oc") (auto simp: settle_live_def Let_def t1 d_def)
  show ?thesis
  proof (cases "\<exists>w t. oc_settled oc = SWaiting w t")
    case True
    then obtain w t where w: "oc_settled oc = SWaiting w t" by blast
    then have r: "r = Inl (Suspension n (sp_kind spec) w t)" "j_cursor j' = length cs"
      using p c unfolding proc by (auto simp: settle_live_def Let_def t1)
    have "\<not> settled d" using live_record(2) [OF x] True by (simp add: d_def)
    then have "follows p0 (j_run j') cs (Command spec f)" using f new by (auto simp: follows_def)
    with r new show ?thesis by auto
  next
    case False
    have m: "record_matches spec d" "recorded_result d = (case oc_settled oc of SCompleted v \<Rightarrow> Inr v | SFailed err \<Rightarrow> Inl (Thrown (deserialize_error (Some err))))"
      using live_record(1) [OF x False] by (simp_all add: d_def)
    have r: "r = recorded_result d" "j_cursor j' = length (cs @ [d])"
      using p c False unfolding proc m(2) by (auto simp: settle_live_def Let_def t1 split: settlement.splits)
    have "residual p0 (cs @ [d]) = Some (f r)"
      using f m(1) r(1) by (simp add: follows_def residual_append)
    with r new show ?thesis by (auto simp: follows_def)
  qed
qed

lemma position_step:
  assumes at: "at_position p0 (p, j, e)" and d: "durable p0" and step: "drive_step (p, j, e) (p', j', e')"
  shows "at_position p0 (p', j', e')"
proof -
  obtain cs ds q where f: "follows p0 (j_run j) (cs @ ds) q" "j_cursor j = length cs"
      "residual p0 cs = Some p \<or> (\<exists>n k w t. p = Raise (Suspension n k w t))"
    using at unfolding at_position_def prod.case by blast
  from step have r: "residual p0 cs = Some p" using f(3) by (auto simp: drive_step_done)
  have dp: "durable p" by (rule residual_durable [OF d r])
  from step dp obtain spec g where p: "p = Command spec g" by (cases rule: drive_step.cases) auto
  from step obtain r' where pr: "process spec j e = (r', j', e')" "p' = g r'" unfolding p by (auto elim: drive_step_command)
  show ?thesis
  proof (cases ds)
    case Nil
    then have fc: "follows p0 (j_run j) cs (Command spec g)" using f(1) r p by (simp add: follows_def)
    have "effect_settles spec" using dp p by simp
    from process_live [OF fc f(2) this pr(1)] show ?thesis
    proof
      assume "\<exists>d. follows p0 (j_run j') (cs @ [d]) (g r') \<and> j_cursor j' = length (cs @ [d])"
      then obtain d where "follows p0 (j_run j') (cs @ [d]) (g r')" "j_cursor j' = length (cs @ [d])" by blast
      then have "follows p0 (j_run j') ((cs @ [d]) @ []) (g r') \<and> j_cursor j' = length (cs @ [d]) \<and> residual p0 (cs @ [d]) = Some (g r')"
        by (simp add: follows_def)
      then show ?thesis unfolding at_position_def pr(2) prod.case by blast
    next
      assume s: "(\<exists>n k w t. r' = Inl (Suspension n k w t)) \<and> follows p0 (j_run j') cs (Command spec g) \<and>
        wr_commands (j_run j') \<noteq> cs \<and> j_cursor j' = length cs"
      then have "\<exists>n k w t. g r' = Raise (Suspension n k w t)" using dp p by auto
      with s have "follows p0 (j_run j') (cs @ []) (Command spec g) \<and> j_cursor j' = length cs \<and>
          (residual p0 cs = Some (g r') \<or> ([] = [] \<and> wr_commands (j_run j') \<noteq> cs \<and> (\<exists>n k w t. g r' = Raise (Suspension n k w t))))"
        by simp
      then show ?thesis unfolding at_position_def pr(2) prod.case by blast
    qed
  next
    case (Cons c cs')
    have "residual p (c # cs') = Some q" using f(1) r residual_append [of p0 cs p "c # cs'"] Cons by (simp add: follows_def)
    then have m: "record_matches spec c" by (simp add: p split: if_splits)
    have idx: "j_cursor j < length (wr_commands (j_run j))" "wr_commands (j_run j) ! j_cursor j = c"
      using f(1,2) Cons by (auto simp: follows_def nth_append)
    from process_replays [OF idx(1), of spec e] m idx(2) pr(1)
    have j': "r' = recorded_result c" "j' = j\<lparr>j_cursor := j_cursor j + 1\<rparr>" by simp_all
    have "residual p0 (cs @ [c]) = Some (g (recorded_result c))" using residual_append [OF r, of "[c]"] m by (simp add: p)
    with f Cons have "follows p0 (j_run j) ((cs @ [c]) @ cs') q \<and> j_cursor j + 1 = length (cs @ [c]) \<and>
        residual p0 (cs @ [c]) = Some (g (recorded_result c))" by simp
    moreover have "j_run (j\<lparr>j_cursor := j_cursor j + 1\<rparr>) = j_run j" "j_cursor (j\<lparr>j_cursor := j_cursor j + 1\<rparr>) = j_cursor j + 1" by simp_all
    ultimately show ?thesis unfolding at_position_def pr(2) j' prod.case by metis
  qed
qed

lemma position_steps:
  "drive_step\<^sup>*\<^sup>* c c' \<Longrightarrow> at_position p0 c \<Longrightarrow> durable p0 \<Longrightarrow> at_position p0 c'"
  by (induction rule: rtranclp_induct) (auto intro: position_step)

lemma position_start: "follows p0 run cs q \<Longrightarrow> at_position p0 (p0, new_journal run, e)"
proof -
  assume "follows p0 run cs q"
  then show ?thesis unfolding at_position_def
    by (auto intro!: exI [of _ "[]"] exI [of _ cs] simp: new_journal_def)
qed

lemma position_resume:
  assumes "at_position p0 (p, j, e)" "\<nexists>n k w t. p = Raise (Suspension n k w t)"
  shows "run_workflow p0 (new_journal (j_run j)) e' = run_workflow p j e'"
proof -
  obtain cs ds q where f: "follows p0 (j_run j) (cs @ ds) q" "j_cursor j = length cs" "residual p0 cs = Some p"
    using assms by (auto simp: at_position_def)
  then have "wr_commands (j_run j) = [] @ cs @ drop (length cs) (wr_commands (j_run j))" by (auto simp: follows_def)
  from replay_skips [OF f(3) this, of e'] f(2) show ?thesis by (cases j) (simp add: new_journal_def)
qed

text \<open>A suspended drive is taken up at the command that parked it.\<close>

lemma position_suspended:
  assumes "at_position p0 (Raise t, j, e)" "j_cursor j < length (wr_commands (j_run j))"
  shows "\<exists>spec f. \<not> settled (wr_commands (j_run j) ! j_cursor j) \<and>
    run_workflow p0 (new_journal (j_run j)) e' = run_workflow (Command spec f) j e'"
proof -
  obtain cs ds q where f: "follows p0 (j_run j) (cs @ ds) q" "j_cursor j = length cs"
      "residual p0 cs = Some (Raise t) \<or> ds = []"
    using assms(1) unfolding at_position_def prod.case by blast
  have "ds = []"
  proof (rule ccontr)
    assume "ds \<noteq> []"
    with f(3) have "residual p0 (cs @ ds) = None" using residual_append [of p0 cs "Raise t" ds] by simp
    with f(1) show False by (simp add: follows_def)
  qed
  with f assms(2) obtain spec g c where q: "q = Command spec g" "wr_commands (j_run j) = cs @ [c]" "\<not> settled c"
    by (auto simp: follows_def)
  have "run_workflow p0 (new_journal (j_run j)) e' = run_workflow q \<lparr>j_run = j_run j, j_cursor = length cs\<rparr> e'"
    using resume_at f(1) \<open>ds = []\<close> by fastforce
  then show ?thesis using q f(2) by (cases j) (auto simp: nth_append)
qed

end
