(* ===== verification/HttpValidation.thy ===== *)
theory HttpValidation
  imports Utf8
begin

text \<open>
  \<open>validateObject\<close> and the checks of \<open>createValidationMiddleware\<close> in \<open>packages/router/src/router.ts\<close>.

  A string is its list of code points; its JavaScript length counts UTF-16 units (\<open>utf16_length\<close>).  A validated object is the
  function \<open>data[field]\<close>.  A value that is neither a string nor a boolean, null or undefined is \<open>VOther s nan\<close>: what
  \<open>String(value)\<close> gives and whether \<open>Number(value)\<close> is \<open>NaN\<close>; one of which \<open>String(value)\<close>
  throws (in JSON: an object with a field \<open>toString\<close>, or an array with one in it) is \<open>VThrows\<close>, and the validation throws with it.  \<open>rule.pattern.test\<close> is a predicate (a pattern without the
  stateful flags).  An error is a constructor for each message of the source.

  \<open>validate_object_ok\<close>: no error is reported exactly when every rule holds of its field.
\<close>

section \<open>Strings and values\<close>

definition codes :: "string \<Rightarrow> code_points" where
  "codes s = map of_char s"

definition utf16_length :: "code_points \<Rightarrow> nat" where
  "utf16_length s = sum_list (map (\<lambda>c. if c < 0x10000 then 1 else 2) s)"

definition js_space :: "nat \<Rightarrow> bool" where
  "js_space c \<longleftrightarrow>
     (9 \<le> c \<and> c \<le> 13) \<or> c = 32 \<or> c = 160 \<or> c = 0x1680 \<or> (0x2000 \<le> c \<and> c \<le> 0x200A) \<or>
     c \<in> {0x2028, 0x2029, 0x202F, 0x205F, 0x3000, 0xFEFF}"

definition digit_point :: "nat \<Rightarrow> bool" where
  "digit_point c \<longleftrightarrow> 48 \<le> c \<and> c \<le> 57"

definition hex_point :: "nat \<Rightarrow> bool" where
  "hex_point c \<longleftrightarrow> digit_point c \<or> (65 \<le> c \<and> c \<le> 70) \<or> (97 \<le> c \<and> c \<le> 102)"

datatype field_value = VUndefined | VNull | VString code_points | VBool bool | VOther code_points bool | VThrows js_error

text \<open>Of \<open>VThrows\<close> there is no string; \<open>check_rule\<close> does not ask for it.\<close>

definition string_of :: "field_value \<Rightarrow> code_points" where
  "string_of v =
     (case v of
        VUndefined \<Rightarrow> codes ''undefined''
      | VNull \<Rightarrow> codes ''null''
      | VString s \<Rightarrow> s
      | VBool b \<Rightarrow> codes (if b then ''true'' else ''false'')
      | VOther s n \<Rightarrow> s
      | VThrows e \<Rightarrow> [])"

section \<open>Number of a string\<close>

text \<open>The grammar of \<open>Number(string)\<close>: white space around, then nothing, a decimal literal with an optional sign,
  \<open>Infinity\<close>, or an unsigned literal with the prefix \<open>0x\<close>, \<open>0o\<close> or \<open>0b\<close>.\<close>

definition trim_points :: "code_points \<Rightarrow> code_points" where
  "trim_points s = rev (dropWhile js_space (rev (dropWhile js_space s)))"

definition strip_sign :: "code_points \<Rightarrow> code_points" where
  "strip_sign s = (case s of [] \<Rightarrow> [] | c # cs \<Rightarrow> if c = 43 \<or> c = 45 then cs else s)"

definition exponent_part :: "code_points \<Rightarrow> bool" where
  "exponent_part s =
     (case s of [] \<Rightarrow> True
      | c # cs \<Rightarrow> (c = 101 \<or> c = 69) \<and> strip_sign cs \<noteq> [] \<and> list_all digit_point (strip_sign cs))"

definition decimal_literal :: "code_points \<Rightarrow> bool" where
  "decimal_literal s =
     (let whole = takeWhile digit_point s; rest = dropWhile digit_point s
      in case rest of
           [] \<Rightarrow> whole \<noteq> []
         | c # cs \<Rightarrow>
             if c = 46
             then (whole \<noteq> [] \<or> takeWhile digit_point cs \<noteq> []) \<and> exponent_part (dropWhile digit_point cs)
             else whole \<noteq> [] \<and> exponent_part rest)"

definition radix_literal :: "code_points \<Rightarrow> bool" where
  "radix_literal s =
     (case s of
        z # x # ds \<Rightarrow>
          z = 48 \<and> ds \<noteq> [] \<and>
          ((x = 120 \<or> x = 88) \<and> list_all hex_point ds \<or>
           (x = 111 \<or> x = 79) \<and> list_all (\<lambda>d. 48 \<le> d \<and> d \<le> 55) ds \<or>
           (x = 98 \<or> x = 66) \<and> list_all (\<lambda>d. d = 48 \<or> d = 49) ds)
      | _ \<Rightarrow> False)"

definition number_is_nan :: "field_value \<Rightarrow> bool" where
  "number_is_nan v =
     (case v of
        VUndefined \<Rightarrow> True
      | VNull \<Rightarrow> False
      | VBool b \<Rightarrow> False
      | VOther s nan \<Rightarrow> nan
      | VThrows e \<Rightarrow> True
      | VString s \<Rightarrow>
          (let t = trim_points s
           in \<not> (t = [] \<or> decimal_literal (strip_sign t) \<or> strip_sign t = codes ''Infinity'' \<or> radix_literal t)))"

section \<open>Formats\<close>

fun split_points :: "nat \<Rightarrow> code_points \<Rightarrow> code_points list" where
  "split_points c [] = [[]]"
| "split_points c (x # xs) =
     (if x = c then [] # split_points c xs
      else (case split_points c xs of [] \<Rightarrow> [[x]] | w # ws \<Rightarrow> (x # w) # ws))"

definition valid_email :: "code_points \<Rightarrow> bool" where
  "valid_email s =
     (\<not> list_ex js_space s \<and>
      (case split_points 64 s of
         [u, d] \<Rightarrow> u \<noteq> [] \<and> list_ex (\<lambda>i. d ! i = 46) [1..<length d - 1]
       | _ \<Rightarrow> False))"

definition valid_uuid :: "code_points \<Rightarrow> bool" where
  "valid_uuid s =
     (let groups = split_points 45 s
      in map length groups = [8, 4, 4, 4, 12] \<and> list_all (list_all hex_point) groups)"

section \<open>Rules\<close>

datatype rule_type = TString | TNumber | TBoolean | TEmail | TUuid

record http_rule =
  fr_type :: rule_type
  fr_required :: bool
  fr_min :: "jsnum option"
  fr_max :: "jsnum option"
  fr_pattern :: "(code_points \<Rightarrow> bool) option"

datatype location = InBody | InQuery | InParams

datatype validation_error =
    IsRequired location string
  | MustBeString location string
  | AtLeastChars location string jsnum
  | AtMostChars location string jsnum
  | InvalidFormat location string
  | MustBeNumber location string
  | MustBeBoolean location string
  | MustBeEmail location string
  | MustBeUuid location string

definition check_string :: "location \<Rightarrow> string \<Rightarrow> http_rule \<Rightarrow> field_value \<Rightarrow> validation_error list" where
  "check_string loc f r v =
     (case v of VString s \<Rightarrow> [] | _ \<Rightarrow> [MustBeString loc f]) @
     (case fr_min r of Some m \<Rightarrow> if of_nat (utf16_length (string_of v)) < m then [AtLeastChars loc f m] else [] | None \<Rightarrow> []) @
     (case fr_max r of Some m \<Rightarrow> if m < of_nat (utf16_length (string_of v)) then [AtMostChars loc f m] else [] | None \<Rightarrow> []) @
     (case fr_pattern r of Some p \<Rightarrow> if p (string_of v) then [] else [InvalidFormat loc f] | None \<Rightarrow> [])"

definition boolean_like :: "field_value \<Rightarrow> bool" where
  "boolean_like v = (case v of VBool b \<Rightarrow> True | VString s \<Rightarrow> s = codes ''true'' \<or> s = codes ''false'' | _ \<Rightarrow> False)"

definition check_value :: "location \<Rightarrow> string \<Rightarrow> http_rule \<Rightarrow> field_value \<Rightarrow> validation_error list" where
  "check_value loc f r v =
     (case fr_type r of
        TString \<Rightarrow> check_string loc f r v
      | TNumber \<Rightarrow> if number_is_nan v then [MustBeNumber loc f] else []
      | TBoolean \<Rightarrow> if boolean_like v then [] else [MustBeBoolean loc f]
      | TEmail \<Rightarrow> if valid_email (string_of v) then [] else [MustBeEmail loc f]
      | TUuid \<Rightarrow> if valid_uuid (string_of v) then [] else [MustBeUuid loc f])"

definition check_rule :: "location \<Rightarrow> (string \<Rightarrow> field_value) \<Rightarrow> string \<times> http_rule \<Rightarrow> js_error + validation_error list" where
  "check_rule loc data fr =
     (case fr of (f, r) \<Rightarrow>
        let v = data f
        in if fr_required r \<and> (v = VUndefined \<or> v = VNull \<or> v = VString []) then Inr [IsRequired loc f]
           else if v = VUndefined \<or> v = VNull then Inr []
           else (case v of VThrows e \<Rightarrow> Inl e | _ \<Rightarrow> Inr (check_value loc f r v)))"

text \<open>\<open>validateObject\<close> goes through the rules in order and appends to the errors it is given.\<close>

fun validate_object ::
  "(string \<times> http_rule) list \<Rightarrow> (string \<Rightarrow> field_value) \<Rightarrow> location \<Rightarrow> validation_error list \<Rightarrow> js_error + validation_error list" where
  "validate_object [] data loc errors = Inr errors"
| "validate_object (fr # rules) data loc errors =
     and_then (check_rule loc data fr) (\<lambda>es. validate_object rules data loc (errors @ es))"

section \<open>What a rule demands\<close>

definition has_type :: "http_rule \<Rightarrow> field_value \<Rightarrow> bool" where
  "has_type r v =
     (case fr_type r of
        TString \<Rightarrow>
          (\<exists>s. v = VString s \<and>
             (\<forall>m. fr_min r = Some m \<longrightarrow> m \<le> of_nat (utf16_length s)) \<and>
             (\<forall>m. fr_max r = Some m \<longrightarrow> of_nat (utf16_length s) \<le> m) \<and>
             (\<forall>p. fr_pattern r = Some p \<longrightarrow> p s))
      | TNumber \<Rightarrow> \<not> number_is_nan v
      | TBoolean \<Rightarrow> v \<in> {VBool True, VBool False, VString (codes ''true''), VString (codes ''false'')}
      | TEmail \<Rightarrow> valid_email (string_of v)
      | TUuid \<Rightarrow> valid_uuid (string_of v))"

definition satisfies :: "(string \<Rightarrow> field_value) \<Rightarrow> string \<times> http_rule \<Rightarrow> bool" where
  "satisfies data fr =
     (case fr of (f, r) \<Rightarrow>
        if data f = VUndefined \<or> data f = VNull then \<not> fr_required r
        else (fr_required r \<longrightarrow> data f \<noteq> VString []) \<and> has_type r (data f))"

lemma check_value_ok: "check_value loc f r v = [] \<longleftrightarrow> has_type r v"
proof (cases "fr_type r")
  case TString
  then show ?thesis
    by (cases v)
      (auto simp: check_value_def check_string_def has_type_def string_of_def not_less split: option.splits if_splits)
next
  case TBoolean
  then show ?thesis by (cases v) (auto simp: check_value_def has_type_def boolean_like_def)
qed (auto simp: check_value_def has_type_def)

lemma check_rule_ok: "check_rule loc data fr = Inr [] \<longleftrightarrow> satisfies data fr"
proof -
  have "\<not> has_type r (VThrows e)" for r e
    by (cases "fr_type r") (auto simp: has_type_def number_is_nan_def string_of_def valid_email_def valid_uuid_def)
  then show ?thesis
    by (cases fr) (auto simp: check_rule_def satisfies_def Let_def check_value_ok split: field_value.splits)
qed

lemma check_rule_throws: "check_rule loc data fr = Inl e \<Longrightarrow> data (fst fr) = VThrows e"
  by (cases fr) (auto simp: check_rule_def Let_def split: if_splits field_value.splits)

lemma validate_object_grows: "validate_object rules data loc errors = Inr es \<Longrightarrow> \<exists>more. es = errors @ more"
proof (induction rules arbitrary: errors)
  case (Cons fr rules)
  then obtain xs where x: "check_rule loc data fr = Inr xs" "validate_object rules data loc (errors @ xs) = Inr es"
    by (auto simp: and_then_Inr)
  from Cons.IH [OF x(2)] show ?case by auto
qed simp

lemma validate_object_extends:
  "validate_object rules data loc errors = Inr [] \<longleftrightarrow> errors = [] \<and> list_all (satisfies data) rules"
proof (induction rules arbitrary: errors)
  case (Cons fr rules)
  show ?case
  proof
    assume v: "validate_object (fr # rules) data loc errors = Inr []"
    then obtain xs where x: "check_rule loc data fr = Inr xs" "validate_object rules data loc (errors @ xs) = Inr []"
      by (auto simp: and_then_Inr)
    from Cons.IH x(2) have "errors @ xs = []" "list_all (satisfies data) rules" by blast+
    with x(1) check_rule_ok [of loc data fr] show "errors = [] \<and> list_all (satisfies data) (fr # rules)" by simp
  next
    assume "errors = [] \<and> list_all (satisfies data) (fr # rules)"
    with Cons.IH [of "[]"] check_rule_ok [of loc data fr] show "validate_object (fr # rules) data loc errors = Inr []" by simp
  qed
qed simp

lemma validate_object_ok: "validate_object rules data loc [] = Inr [] \<longleftrightarrow> list_all (satisfies data) rules"
  by (simp add: validate_object_extends)

lemma validate_object_throws: "validate_object rules data loc errors = Inl e \<Longrightarrow> \<exists>fr \<in> set rules. data (fst fr) = VThrows e"
proof (induction rules arbitrary: errors)
  case (Cons fr rules)
  then show ?case
    by (cases "check_rule loc data fr") (auto dest: check_rule_throws)
qed simp

text \<open>\<open>min\<close> and \<open>max\<close> bound the length of a \<open>string\<close> only: not the value of a number, and not the length of an e-mail address.\<close>

lemma bounds_ignored:
  "fr_type r \<noteq> TString \<Longrightarrow> check_value loc f (r\<lparr>fr_min := a, fr_max := b\<rparr>) v = check_value loc f r v"
  by (simp add: check_value_def split: rule_type.split)

text \<open>The e-mail test is the regular expression: something, an at sign, something, a dot, something, without white
  space or a further at sign.\<close>

lemma split_points_nonempty: "split_points c s \<noteq> []"
  by (induction s) (auto split: list.splits)

lemma split_points_absent: "c \<notin> set s \<Longrightarrow> split_points c s = [s]"
  by (induction s) auto

lemma split_points_append: "c \<notin> set w \<Longrightarrow> split_points c (w @ c # s) = w # split_points c s"
  by (induction w) auto

lemma split_points_pair: "split_points c s = [u, d] \<Longrightarrow> s = u @ c # d \<and> c \<notin> set u \<and> c \<notin> set d"
proof (induction s arbitrary: u d)
  case Nil
  then show ?case by simp
next
  case (Cons x xs)
  have one: "xs = d \<and> c \<notin> set d" if "split_points c xs = [d]" for d xs
    using that
  proof (induction xs arbitrary: d)
    case (Cons y ys)
    then show ?case using split_points_nonempty [of c ys] by (auto split: if_splits list.splits)
  qed auto
  show ?case
  proof (cases "x = c")
    case True
    with Cons.prems have "u = []" "split_points c xs = [d]" by auto
    with one True show ?thesis by auto
  next
    case False
    with Cons.prems obtain w where "u = x # w" "split_points c xs = [w, d]"
      by (auto split: list.splits)
    with Cons.IH False show ?thesis by auto
  qed
qed

lemma valid_email_iff:
  "valid_email s \<longleftrightarrow>
   (\<exists>u a b. s = u @ 64 # a @ 46 # b \<and> u \<noteq> [] \<and> a \<noteq> [] \<and> b \<noteq> [] \<and>
      (\<forall>c \<in> set (u @ a @ b). \<not> js_space c \<and> c \<noteq> 64))" (is "?l \<longleftrightarrow> ?r")
proof
  assume ?l
  then obtain u d where s: "split_points 64 s = [u, d]" "u \<noteq> []" "\<not> list_ex js_space s"
    and e: "list_ex (\<lambda>i. d ! i = 46) [1..<length d - 1]"
    by (auto simp: valid_email_def split: list.splits)
  from e obtain i where i: "1 \<le> i" "i < length d - 1" "d ! i = 46" by (auto simp: list_ex_iff)
  then have d: "d = take i d @ 46 # drop (Suc i) d" using id_take_nth_drop [of i d] by simp
  have "take i d \<noteq> []" "drop (Suc i) d \<noteq> []" using i by auto
  moreover have "s = u @ 64 # take i d @ 46 # drop (Suc i) d" "64 \<notin> set u" "64 \<notin> set d"
    using split_points_pair [OF s(1)] d by simp_all
  moreover have "\<forall>c \<in> set s. \<not> js_space c" using s(3) by (simp add: list_ex_iff)
  moreover have "set u \<subseteq> set s" "set (take i d) \<subseteq> set d" "set (drop (Suc i) d) \<subseteq> set d" "set d \<subseteq> set s"
    using split_points_pair [OF s(1)] by (auto dest: in_set_takeD in_set_dropD)
  ultimately have "\<forall>c \<in> set (u @ take i d @ drop (Suc i) d). \<not> js_space c \<and> c \<noteq> 64"
    unfolding set_append by blast
  with \<open>take i d \<noteq> []\<close> \<open>drop (Suc i) d \<noteq> []\<close> \<open>s = u @ 64 # take i d @ 46 # drop (Suc i) d\<close> s(2) show ?r by blast
next
  assume ?r
  then obtain u a b where s: "s = u @ 64 # a @ 46 # b" "u \<noteq> []" "a \<noteq> []" "b \<noteq> []"
    and c: "\<forall>c \<in> set (u @ a @ b). \<not> js_space c \<and> c \<noteq> 64" by blast
  have "64 \<notin> set u" "64 \<notin> set (a @ 46 # b)" using c by auto
  then have "split_points 64 s = [u, a @ 46 # b]" unfolding s(1) by (simp add: split_points_append split_points_absent)
  moreover have "\<not> list_ex js_space s" using c by (auto simp: s(1) list_ex_iff js_space_def)
  moreover have "list_ex (\<lambda>i. (a @ 46 # b) ! i = 46) [1..<length (a @ 46 # b) - 1]"
    using s(3,4) by (auto simp: list_ex_iff Suc_le_eq intro!: bexI [of _ "length a"])
  ultimately show ?l using s(2) by (simp add: valid_email_def)
qed

end
