(* ===== verification/JsNumber.thy ===== *)
theory JsNumber
  imports HttpValidation
begin

text \<open>
  \<open>Number(string)\<close> with its value, over the grammar of \<open>HttpValidation\<close>; the sum and the comparisons of numbers that may be
  \<open>NaN\<close> or infinite.  A literal is taken exactly: rounding to a double and its overflow are not modelled.
\<close>

definition points_value :: "nat \<Rightarrow> code_points \<Rightarrow> nat" where
  "points_value base s = foldl (\<lambda>a d. a * base + (if d \<le> 57 then d - 48 else if d \<le> 70 then d - 55 else d - 87)) 0 s"

definition signed_value :: "code_points \<Rightarrow> (code_points \<Rightarrow> jsnum) \<Rightarrow> jsnum" where
  "signed_value s f = (case s of c # cs \<Rightarrow> if c = 45 then - f cs else f (strip_sign s) | [] \<Rightarrow> f [])"

definition exponent_value :: "code_points \<Rightarrow> jsnum" where
  "exponent_value s =
     (case s of [] \<Rightarrow> 1
      | e # cs \<Rightarrow> (let n = int (points_value 10 (strip_sign cs))
                  in power_int 10 (case cs of c # _ \<Rightarrow> if c = 45 then - n else n | [] \<Rightarrow> n)))"

definition decimal_value :: "code_points \<Rightarrow> jsnum" where
  "decimal_value s =
     (let whole = takeWhile digit_point s; rest = dropWhile digit_point s
      in case rest of
           [] \<Rightarrow> of_nat (points_value 10 whole)
         | c # cs \<Rightarrow>
             if c = 46
             then (let frac = takeWhile digit_point cs
                   in (of_nat (points_value 10 whole) + of_nat (points_value 10 frac) / 10 ^ length frac) * exponent_value (dropWhile digit_point cs))
             else of_nat (points_value 10 whole) * exponent_value rest)"

definition radix_value :: "code_points \<Rightarrow> jsnum" where
  "radix_value s =
     (case s of
        z # x # ds \<Rightarrow> of_nat (points_value (if x = 120 \<or> x = 88 then 16 else if x = 111 \<or> x = 79 then 8 else 2) ds)
      | _ \<Rightarrow> 0)"

definition to_number :: "code_points \<Rightarrow> jsvalue" where
  "to_number s =
     (let t = trim_points s
      in if t = [] then Fin 0
         else if decimal_literal (strip_sign t) then Fin (signed_value t decimal_value)
         else if strip_sign t = codes ''Infinity'' then (if hd t = 45 then NegInf else PosInf)
         else if radix_literal t then Fin (radix_value t)
         else NaN)"

lemma to_number_nan: "to_number s = NaN \<longleftrightarrow> number_is_nan (VString s)"
  by (auto simp: to_number_def number_is_nan_def Let_def)

section \<open>Arithmetic\<close>

fun js_add :: "jsvalue \<Rightarrow> jsvalue \<Rightarrow> jsvalue" where
  "js_add NaN y = NaN"
| "js_add x NaN = NaN"
| "js_add (Fin a) (Fin b) = Fin (a + b)"
| "js_add PosInf NegInf = NaN"
| "js_add NegInf PosInf = NaN"
| "js_add PosInf y = PosInf"
| "js_add NegInf y = NegInf"
| "js_add x PosInf = PosInf"
| "js_add x NegInf = NegInf"

fun js_less :: "jsvalue \<Rightarrow> jsvalue \<Rightarrow> bool" where
  "js_less NaN y \<longleftrightarrow> False"
| "js_less x NaN \<longleftrightarrow> False"
| "js_less (Fin a) (Fin b) \<longleftrightarrow> a < b"
| "js_less PosInf y \<longleftrightarrow> False"
| "js_less x NegInf \<longleftrightarrow> False"
| "js_less NegInf y \<longleftrightarrow> True"
| "js_less x PosInf \<longleftrightarrow> True"

definition js_le :: "jsvalue \<Rightarrow> jsvalue \<Rightarrow> bool" where
  "js_le x y \<longleftrightarrow> js_less x y \<or> x = y \<and> x \<noteq> NaN"

abbreviation js_int :: "int \<Rightarrow> jsvalue" where
  "js_int i \<equiv> Fin (of_int i)"

text \<open>Decimal digits.\<close>

lemma points_value_snoc [simp]:
  "points_value b (s @ [d]) = points_value b s * b + (if d \<le> 57 then d - 48 else if d \<le> 70 then d - 55 else d - 87)"
  by (simp add: points_value_def)

definition nat_points :: "nat \<Rightarrow> code_points" where
  "nat_points n = codes (show_nat n)"

lemma nat_points_digits: "list_all digit_point (nat_points n) \<and> nat_points n \<noteq> [] \<and> points_value 10 (nat_points n) = n"
proof (induction n rule: show_nat.induct)
  case (1 n)
  show ?case
  proof (cases "n < 10")
    case True
    then show ?thesis by (simp add: nat_points_def codes_def show_nat.simps [of n] digit_point_def points_value_def)
  next
    case False
    then have s: "nat_points n = nat_points (n div 10) @ [48 + n mod 10]"
      by (simp add: nat_points_def codes_def show_nat.simps [of n])
    have "n mod 10 \<le> 9" by simp
    with 1 [OF False] s show ?thesis by (simp add: digit_point_def)
  qed
qed

definition int_points :: "int \<Rightarrow> code_points" where
  "int_points i = (if i < 0 then 45 # nat_points (nat (- i)) else nat_points (nat i))"

lemma trim_digits:
  assumes "list_all (\<lambda>c. \<not> js_space c) s"
  shows "trim_points s = s"
proof -
  have d: "dropWhile js_space t = t" if "list_all (\<lambda>c. \<not> js_space c) t" for t using that by (cases t) simp_all
  show ?thesis using d [of s] d [of "rev s"] assms by (simp add: trim_points_def)
qed

lemma to_number_nat:
  assumes "list_all digit_point ds" "ds \<noteq> []"
  shows "to_number ds = Fin (of_nat (points_value 10 ds))" "to_number (45 # ds) = Fin (- of_nat (points_value 10 ds))"
proof -
  have sp: "list_all (\<lambda>c. \<not> js_space c) ds" using assms(1) by (auto simp: list_all_iff digit_point_def js_space_def)
  have all: "takeWhile digit_point ds = ds" "dropWhile digit_point ds = []"
    using assms(1) by (simp_all add: list_all_iff takeWhile_eq_all_conv dropWhile_eq_Nil_conv)
  then have lit: "decimal_literal ds" "decimal_value ds = of_nat (points_value 10 ds)"
    unfolding decimal_literal_def decimal_value_def all Let_def using assms(2) by simp_all
  obtain d ds' where ds: "ds = d # ds'" using assms(2) by (cases ds) simp_all
  then have "d \<noteq> 43" "d \<noteq> 45" using assms(1) by (simp_all add: digit_point_def)
  then have "strip_sign ds = ds" "signed_value ds decimal_value = decimal_value ds"
    by (simp_all add: strip_sign_def signed_value_def ds)
  then show "to_number ds = Fin (of_nat (points_value 10 ds))"
    using trim_digits [OF sp] lit assms(2) by (simp add: to_number_def Let_def)
  have "trim_points (45 # ds) = 45 # ds" using sp by (intro trim_digits) (simp add: js_space_def)
  then show "to_number (45 # ds) = Fin (- of_nat (points_value 10 ds))"
    using lit by (simp add: to_number_def strip_sign_def signed_value_def Let_def)
qed

lemma to_number_int: "to_number (int_points i) = js_int i"
  using to_number_nat [of "nat_points (nat i)"] to_number_nat [of "nat_points (nat (- i))"]
    nat_points_digits [of "nat i"] nat_points_digits [of "nat (- i)"]
  by (simp add: int_points_def)

end
