(* ===== verification/WorkflowExecutor.thy ===== *)
theory WorkflowExecutor
  imports WorkflowJournal JsNumber
begin

text \<open>
  \<open>packages/workflow/src/backoff.ts\<close>, \<open>executor.ts\<close> and the activity and parallel commands of \<open>context.ts\<close>.

  An attempt of an activity is a function of the environment that returns, throws or never settles (\<open>None\<close>).  Whether the timer of an
  attempt wins the race against an activity that settles, and whether the run is aborted after a backoff, are the functions
  \<open>ex_timer_first\<close> and \<open>ex_aborted\<close> of the attempt number: they stand for the timers and \<open>AbortController\<close>s of the runtime.  An activity
  the timer overtakes keeps running, so its effects count.  \<open>viaQueue\<close> is in the activity: both paths give the same result.
  Waiting a delay is not a step of the model.  \<open>maxAttempts\<close> is any number of the language, so the loop is a
  partial function: \<open>None\<close> when it retries for ever.
\<close>

section \<open>Backoff\<close>

datatype workflow_backoff =
  WfFixed jsnum | WfLinear jsnum jsnum | WfExponential jsnum jsnum jsnum | WfJitter jsnum

definition workflow_backoff_delay :: "workflow_backoff \<Rightarrow> nat \<Rightarrow> jsnum \<Rightarrow> jsnum" where
  "workflow_backoff_delay policy attempt rng =
     (case policy of
        WfFixed delay_ms \<Rightarrow> delay_ms
      | WfLinear base_ms max_delay \<Rightarrow> math_min (base_ms * of_nat attempt) max_delay
      | WfExponential base_ms multiplier max_delay \<Rightarrow> math_min (base_ms * multiplier ^ (attempt - 1)) max_delay
      | WfJitter max_delay \<Rightarrow> math_min (rng * max_delay) max_delay)"

section \<open>Attempts\<close>

type_synonym ('v, 'w) attempt = "('v, 'w) wenv \<Rightarrow> (js_error + 'v) option \<times> ('v, 'w) wenv"
type_synonym ('v, 'w) activity_middleware = "('v, 'w) attempt \<Rightarrow> nat \<Rightarrow> ('v, 'w) attempt"

record activity_retry =
  ar_maxAttempts :: jsvalue
  ar_backoff :: workflow_backoff

record ('v, 'w) activity_options =
  ao_timeout :: "jsnum option"
  ao_retry :: "activity_retry option"
  ao_metadata :: "'v option"
  ao_compensate :: "string option"
  ao_middleware :: "('v, 'w) activity_middleware list"

record executor =
  ex_rng :: "nat \<Rightarrow> jsnum"
  ex_timer_first :: "nat \<Rightarrow> bool"
  ex_aborted :: "nat \<Rightarrow> bool"

definition activity_timeout_error :: js_error where
  "activity_timeout_error = JsError ''ActivityTimeoutError'' ''Activity attempt exceeded its timeout and was aborted.''"

definition wrap_middleware :: "('v, 'w) activity_middleware list \<Rightarrow> nat \<Rightarrow> ('v, 'w) attempt \<Rightarrow> ('v, 'w) attempt" where
  "wrap_middleware layers attempt base = foldr (\<lambda>layer inner. layer inner attempt) layers base"

text \<open>With a timeout the attempt is raced against the timer, which wins against an activity that does not settle.\<close>

definition run_attempt :: "executor \<Rightarrow> ('v, 'w) activity_options \<Rightarrow> ('v, 'w) attempt \<Rightarrow> nat \<Rightarrow> ('v, 'w) attempt" where
  "run_attempt ex opts activity attempt e =
     (case wrap_middleware (ao_middleware opts) attempt activity e of
        (r, e) \<Rightarrow>
          (if ao_timeout opts = None then r
           else (case r of
                   None \<Rightarrow> Some (Inl activity_timeout_error)
                 | Some r \<Rightarrow> Some (if ex_timer_first ex attempt then Inl activity_timeout_error else r)), e))"

text \<open>\<open>Math.max(1, x)\<close>.\<close>

definition at_least_one :: "jsvalue \<Rightarrow> jsvalue" where
  "at_least_one x = (case x of Fin a \<Rightarrow> Fin (math_max 1 a) | NegInf \<Rightarrow> Fin 1 | _ \<Rightarrow> x)"

definition max_attempts_of :: "('v, 'w) activity_options \<Rightarrow> jsvalue" where
  "max_attempts_of opts = (case ao_retry opts of None \<Rightarrow> Fin 1 | Some r \<Rightarrow> at_least_one (ar_maxAttempts r))"

definition attempts_left :: "nat \<Rightarrow> jsvalue \<Rightarrow> bool" where
  "attempts_left attempt limit \<longleftrightarrow> js_less (Fin (of_nat attempt)) limit"

definition failed_outcome :: "js_error \<Rightarrow> nat \<Rightarrow> 'v history_event list \<Rightarrow> 'v command_outcome" where
  "failed_outcome err attempt history = (plain_outcome (SFailed err))\<lparr>oc_attempts := Some attempt, oc_history := Some history\<rparr>"

text \<open>
  The loop from attempt \<open>attempt + 1\<close> on, with the history so far.  The inner \<open>None\<close>: an attempt never settles, and
  with it the call.
\<close>

partial_function (option) attempt_loop ::
    "executor \<Rightarrow> nat \<Rightarrow> ('v, 'w) activity_options \<Rightarrow> ('v, 'w) attempt \<Rightarrow> nat \<Rightarrow> 'v history_event list \<Rightarrow> js_error option \<Rightarrow>
     ('v, 'w) wenv \<Rightarrow> ('v command_outcome option \<times> ('v, 'w) wenv) option" where
  "attempt_loop ex seq opts activity n history lastError e =
     (if attempts_left n (max_attempts_of opts)
      then
        (let attempt = Suc n;
             started = read_clock e;
             history = history @ [ActivityStarted (fst started) seq attempt (ao_metadata opts)];
             tried = run_attempt ex opts activity attempt (snd started);
             ended = read_clock (snd tried)
         in case fst tried of
              None \<Rightarrow> Some (None, snd tried)
            | Some (Inr v) \<Rightarrow>
                Some (Some ((plain_outcome (SCompleted v))\<lparr>oc_attempts := Some attempt,
                        oc_history := Some (history @ [ActivityCompleted (fst ended) seq v])\<rparr>), snd ended)
            | Some (Inl err) \<Rightarrow>
                (let history = history @ [ActivityFailed (fst ended) seq attempt err]
                 in case ao_retry opts of
                      Some r \<Rightarrow>
                        if attempts_left attempt (max_attempts_of opts)
                        then (let delayMs = workflow_backoff_delay (ar_backoff r) attempt (ex_rng ex attempt);
                                  history = history @ [RetryScheduled (fst ended) seq attempt delayMs (fst ended + delayMs)]
                              in if ex_aborted ex attempt
                                 then Some (Some (failed_outcome err attempt history), snd ended)
                                 else attempt_loop ex seq opts activity attempt history (Some err) (snd ended))
                        else Some (Some (failed_outcome err attempt history), snd ended)
                    | None \<Rightarrow> Some (Some (failed_outcome err attempt history), snd ended)))
      else Some (Some (failed_outcome (nullish lastError (JsError ''Error'' ''Activity failed with no recorded error.'')) n history), e))"

definition execute_activity ::
    "executor \<Rightarrow> nat \<Rightarrow> ('v, 'w) activity_options \<Rightarrow> ('v, 'w) attempt \<Rightarrow> ('v, 'w) wenv \<Rightarrow>
     ('v command_outcome option \<times> ('v, 'w) wenv) option" where
  "execute_activity ex seq opts activity e = attempt_loop ex seq opts activity 0 [] None e"

section \<open>The commands that run activities\<close>

text \<open>
  The adapter of \<open>runtime.ts\<close>: a completed activity that declares a compensation is captured.  What the executor's call
  becomes for its caller: an outcome, or nothing ever.  (Of an executor that retries for ever no last environment exists; the
  model then keeps the first.)
\<close>

definition run_activity ::
    "executor \<Rightarrow> ('v, 'w) attempt \<Rightarrow> ('v, 'w) activity_options \<Rightarrow> nat \<Rightarrow> ('v, 'w) wenv \<Rightarrow>
     'v command_outcome option \<times> ('v, 'w) wenv" where
  "run_activity ex activity opts seq e =
     (case execute_activity ex seq opts activity e of
        None \<Rightarrow> (None, e)
      | Some (None, e) \<Rightarrow> (None, e)
      | Some (Some oc, e) \<Rightarrow>
          (Some oc, case (oc_settled oc, ao_compensate opts) of
                 (SCompleted v, Some c) \<Rightarrow> e\<lparr>we_captured := we_captured e @ [(seq, c, v)]\<rparr>
               | _ \<Rightarrow> e))"

definition settled_or_not :: "'v command_outcome option \<Rightarrow> thrown + 'v command_outcome" where
  "settled_or_not oc = (case oc of None \<Rightarrow> Inl Unsettled | Some oc \<Rightarrow> Inr oc)"

definition activity_command :: "executor \<Rightarrow> ('v, 'w) attempt \<Rightarrow> ('v, 'w) activity_options \<Rightarrow> ('v, 'w) command_spec" where
  "activity_command ex activity opts =
     \<lparr>sp_kind = Activity, sp_metadata = ao_metadata opts,
      sp_execute = (\<lambda>seq now run e. case run_activity ex activity opts seq e of (oc, e) \<Rightarrow> (settled_or_not oc, e))\<rparr>"

definition no_activity_options :: "('v, 'w) activity_options" where
  "no_activity_options = \<lparr>ao_timeout = None, ao_retry = None, ao_metadata = None, ao_compensate = None, ao_middleware = []\<rparr>"

text \<open>
  The children of a parallel command; this schedule runs them one after the other.  \<open>Promise.all\<close> over them settles only when
  every child has, and the children run on when one of them does not.
\<close>

fun run_children ::
    "executor \<Rightarrow> nat \<Rightarrow> ('v, 'w) attempt list \<Rightarrow> ('v, 'w) wenv \<Rightarrow> 'v command_outcome list option \<times> ('v, 'w) wenv" where
  "run_children ex seq [] e = (Some [], e)"
| "run_children ex seq (a # as) e =
     (case run_activity ex a no_activity_options seq e of
        (oc, e) \<Rightarrow>
          (case run_children ex seq as e of
             (ocs, e) \<Rightarrow> (case (oc, ocs) of (Some oc, Some ocs) \<Rightarrow> Some (oc # ocs) | _ \<Rightarrow> None, e)))"

definition combined_history :: "'v command_outcome list \<Rightarrow> 'v history_event list option" where
  "combined_history ocs = (let h = concat (map (\<lambda>oc. nullish (oc_history oc) []) ocs) in if h = [] then None else Some h)"

definition first_failure :: "'v command_outcome list \<Rightarrow> js_error option" where
  "first_failure ocs =
     (case filter (\<lambda>oc. case oc_settled oc of SFailed _ \<Rightarrow> True | _ \<Rightarrow> False) ocs of
        oc # _ \<Rightarrow> (case oc_settled oc of SFailed err \<Rightarrow> Some err | _ \<Rightarrow> None)
      | [] \<Rightarrow> None)"

definition completed_values :: "'v command_outcome list \<Rightarrow> 'v list" where
  "completed_values ocs = concat (map (\<lambda>oc. case oc_settled oc of SCompleted v \<Rightarrow> [v] | _ \<Rightarrow> []) ocs)"

text \<open>\<open>parallel.all\<close> and \<open>parallel.map\<close> share this outcome; \<open>pack\<close> makes the array of the results.\<close>

definition parallel_outcome :: "('v list \<Rightarrow> 'v) \<Rightarrow> 'v command_outcome list \<Rightarrow> 'v command_outcome" where
  "parallel_outcome pack ocs =
     (case first_failure ocs of
        Some err \<Rightarrow> (plain_outcome (SFailed err))\<lparr>oc_history := combined_history ocs\<rparr>
      | None \<Rightarrow> (plain_outcome (SCompleted (pack (completed_values ocs))))\<lparr>oc_history := combined_history ocs\<rparr>)"

definition parallel_all :: "executor \<Rightarrow> ('v list \<Rightarrow> 'v) \<Rightarrow> ('v, 'w) attempt list \<Rightarrow> ('v, 'w) command_spec" where
  "parallel_all ex pack activities =
     \<lparr>sp_kind = ParallelAll, sp_metadata = None,
      sp_execute = (\<lambda>seq now run e. case run_children ex seq activities e of
        (ocs, e) \<Rightarrow> (settled_or_not (map_option (parallel_outcome pack) ocs), e))\<rparr>"

definition parallel_map :: "executor \<Rightarrow> ('v list \<Rightarrow> 'v) \<Rightarrow> 'a list \<Rightarrow> ('a \<Rightarrow> nat \<Rightarrow> ('v, 'w) attempt) \<Rightarrow> ('v, 'w) command_spec" where
  "parallel_map ex pack items mapper =
     \<lparr>sp_kind = ParallelMap, sp_metadata = None,
      sp_execute = (\<lambda>seq now run e.
        case run_children ex seq (map (\<lambda>(i, x). mapper x i) (List.enumerate 0 items)) e of
          (ocs, e) \<Rightarrow> (settled_or_not (map_option (parallel_outcome pack) ocs), e))\<rparr>"

section \<open>What the executor does\<close>

definition started :: "'v history_event list \<Rightarrow> nat list" where
  "started h = concat (map (\<lambda>ev. case ev of ActivityStarted _ _ n _ \<Rightarrow> [n] | _ \<Rightarrow> []) h)"

lemma started_simps [simp]:
  "started [] = []" "started (h @ h') = started h @ started h'"
  "started (ActivityStarted t s n m # h) = n # started h" "started (ActivityCompleted t s v # h) = started h"
  "started (ActivityFailed t s n err # h) = started h" "started (RetryScheduled t s n d w # h) = started h"
  by (simp_all add: started_def)

definition settled_outcome :: "nat \<Rightarrow> jsnum \<Rightarrow> (nat \<Rightarrow> bool) \<Rightarrow> 'v history_event list \<Rightarrow> 'v command_outcome \<Rightarrow> bool" where
  "settled_outcome attempt limit aborted history oc \<longleftrightarrow>
     (\<exists>n h. oc_attempts oc = Some n \<and> oc_history oc = Some h \<and> attempt < n \<and> of_nat n < limit + 1 \<and>
       started h = started history @ [Suc attempt..<Suc n] \<and> oc_record oc = id \<and> oc_runStatus oc = None \<and> oc_statePatch oc = None \<and>
       ((\<exists>v. oc_settled oc = SCompleted v) \<or> (\<exists>err. oc_settled oc = SFailed err \<and> (limit \<le> of_nat n \<or> aborted n))))"

lemma settled_outcome_step:
  assumes "settled_outcome (Suc a) limit ab h oc" "started h = started h0 @ [Suc a]"
  shows "settled_outcome a limit ab h0 oc"
proof -
  obtain n g where g: "oc_attempts oc = Some n" "oc_history oc = Some g" "Suc a < n" "started g = started h @ [Suc (Suc a)..<Suc n]"
    and rest: "of_nat n < limit + 1" "oc_record oc = id" "oc_runStatus oc = None" "oc_statePatch oc = None"
      "(\<exists>v. oc_settled oc = SCompleted v) \<or> (\<exists>err. oc_settled oc = SFailed err \<and> (limit \<le> of_nat n \<or> ab n))"
    using assms(1) unfolding settled_outcome_def by blast
  have "[Suc a..<Suc n] = Suc a # [Suc (Suc a)..<Suc n]" using g(3) by (simp add: upt_conv_Cons del: upt_Suc)
  then have "started g = started h0 @ [Suc a..<Suc n]" using g(4) assms(2) by simp
  with g(1,2,3) rest show ?thesis unfolding settled_outcome_def by (intro exI [of _ n] exI [of _ g]) simp
qed

text \<open>An attempt settles when it has a timeout, or when the wrapped activity does.\<close>

definition attempts_settle :: "('v, 'w) activity_options \<Rightarrow> ('v, 'w) attempt \<Rightarrow> bool" where
  "attempts_settle opts activity \<longleftrightarrow>
     ao_timeout opts \<noteq> None \<or> (\<forall>n e. fst (wrap_middleware (ao_middleware opts) n activity e) \<noteq> None)"

lemma run_attempt_settles: "attempts_settle opts activity \<Longrightarrow> fst (run_attempt ex opts activity n e) \<noteq> None"
  by (auto simp: run_attempt_def attempts_settle_def split: option.split prod.split) (metis fst_conv option.distinct(1))

lemma attempts_left_Fin [simp]: "attempts_left n (Fin m) \<longleftrightarrow> of_nat n < m"
  by (simp add: attempts_left_def)

lemma attempt_loop_settles:
  "max_attempts_of opts = Fin m \<Longrightarrow> attempts_settle opts activity \<Longrightarrow> of_nat attempt < m \<Longrightarrow>
   \<exists>oc e'. attempt_loop ex seq opts activity attempt history lastError e = Some (Some oc, e') \<and>
     settled_outcome attempt m (ex_aborted ex) history oc"
proof (induction "nat \<lceil>m\<rceil> - attempt" arbitrary: attempt history lastError e rule: less_induct)
  case (less attempt history lastError e)
  define t0 e0 where "t0 = fst (read_clock e)" and "e0 = snd (read_clock e)"
  define h where "h = history @ [ActivityStarted t0 seq (Suc attempt) (ao_metadata opts)]"
  obtain r e1 where a: "run_attempt ex opts activity (Suc attempt) e0 = (Some r, e1)"
    using run_attempt_settles [OF less.prems(2), of ex "Suc attempt" e0] by (cases "run_attempt ex opts activity (Suc attempt) e0") auto
  have lim: "of_nat (Suc attempt) < m + 1" using less.prems(3) by simp
  have left: "attempts_left attempt (max_attempts_of opts)" using less.prems by simp
  note unfold = attempt_loop.simps [of ex seq opts activity attempt history lastError e]
  note loop = unfold [unfolded Let_def, folded t0_def e0_def, folded h_def, unfolded a fst_conv snd_conv,
      simplified left if_True option.case]
  have s: "started h = started history @ [Suc attempt]" by (simp add: h_def)
  show ?case
  proof (cases r)
    case (Inr v)
    then show ?thesis using lim s by (simp add: loop settled_outcome_def plain_outcome_def)
  next
    case (Inl err)
    define h' where "h' = h @ [ActivityFailed (fst (read_clock e1)) seq (Suc attempt) err]"
    have s': "started h' = started history @ [Suc attempt]" by (simp add: h'_def s)
    show ?thesis
    proof (cases "\<exists>r. ao_retry opts = Some r \<and> of_nat (Suc attempt) < m")
      case False
      then have "m \<le> of_nat (Suc attempt)"
        using less.prems(1) by (cases "ao_retry opts") (auto simp: max_attempts_of_def)
      with Inl False lim s' less.prems(1) show ?thesis
        by (cases "ao_retry opts") (auto simp: loop settled_outcome_def plain_outcome_def failed_outcome_def h'_def)
    next
      case True
      then obtain p where p: "ao_retry opts = Some p" "of_nat (Suc attempt) < m" by blast
      define d where "d = workflow_backoff_delay (ar_backoff p) (Suc attempt) (ex_rng ex (Suc attempt))"
      define h'' where "h'' = h' @ [RetryScheduled (fst (read_clock e1)) seq (Suc attempt) d (fst (read_clock e1) + d)]"
      have s'': "started h'' = started history @ [Suc attempt]" by (simp add: h''_def s')
      show ?thesis
      proof (cases "ex_aborted ex (Suc attempt)")
        case True
        with Inl p lim s'' less.prems(1) show ?thesis
          by (auto simp: loop settled_outcome_def plain_outcome_def failed_outcome_def h''_def h'_def d_def)
      next
        case False
        have next_loop: "attempt_loop ex seq opts activity attempt history lastError e =
            attempt_loop ex seq opts activity (Suc attempt) h'' (Some err) (snd (read_clock e1))"
          using Inl p False less.prems(1) by (simp add: loop h''_def h'_def d_def)
        have "int (Suc attempt) < \<lceil>m\<rceil>" using p(2) by (simp add: less_ceiling_iff)
        then have "nat \<lceil>m\<rceil> - Suc attempt < nat \<lceil>m\<rceil> - attempt" by simp
        from less.hyps [OF this less.prems(1,2) p(2), of h'' "Some err" "snd (read_clock e1)"]
        obtain oc e' where "attempt_loop ex seq opts activity (Suc attempt) h'' (Some err) (snd (read_clock e1)) = Some (Some oc, e')"
          "settled_outcome (Suc attempt) m (ex_aborted ex) h'' oc" by blast
        with settled_outcome_step [OF _ s''] show ?thesis by (simp add: next_loop)
      qed
    qed
  qed
qed

text \<open>Where the call does not return: an attempt without a timeout that never settles, and failures without a limit.\<close>

lemma hung_attempt_hangs:
  assumes "attempts_left 0 (max_attempts_of opts)" "ao_timeout opts = None"
    "wrap_middleware (ao_middleware opts) 1 activity (snd (read_clock e)) = (None, e')"
  shows "execute_activity ex seq opts activity e = Some (None, e')"
  using assms by (simp add: execute_activity_def attempt_loop.simps [of ex seq opts activity 0] Let_def run_attempt_def)

definition endless :: "executor \<Rightarrow> ('v, 'w) activity_options \<Rightarrow> ('v, 'w) attempt \<Rightarrow> bool" where
  "endless ex opts activity \<longleftrightarrow> max_attempts_of opts = PosInf \<and> (\<forall>n. \<not> ex_aborted ex n) \<and>
     (\<forall>n e. \<exists>err. fst (run_attempt ex opts activity n e) = Some (Inl err))"

lemma attempt_loop_endless:
  "attempt_loop ex seq opts activity n h l e = Some r \<Longrightarrow> \<not> endless ex opts activity"
proof (induct rule: attempt_loop.raw_induct [where P = "\<lambda>ex seq opts activity n h l e r. \<not> endless ex opts activity", rotated 1, consumes 1])
  case (1 loop ex seq opts activity n h l e r)
  have left: "attempts_left m PosInf" for m by (simp add: attempts_left_def)
  show ?case
  proof
    assume c: "endless ex opts activity"
    then obtain err where err: "fst (run_attempt ex opts activity (Suc n) (snd (read_clock e))) = Some (Inl err)"
      unfolding endless_def by blast
    obtain p where p: "ao_retry opts = Some p" using c by (cases "ao_retry opts") (auto simp: max_attempts_of_def endless_def)
    from 1(2) c err p left obtain h' l' e' where "loop ex seq opts activity (Suc n) h' l' e' = Some r"
      by (auto simp: Let_def endless_def)
    from 1(1) [OF this] c show False by simp
  qed
qed

lemma unbounded_retries_never_end:
  assumes "max_attempts_of opts = PosInf" "\<And>n e. \<exists>err. fst (run_attempt ex opts activity n e) = Some (Inl err)"
    "\<And>n. \<not> ex_aborted ex n"
  shows "execute_activity ex seq opts activity e = None"
  using attempt_loop_endless [of ex seq opts activity 0 "[]" None e] assms
  by (cases "execute_activity ex seq opts activity e") (auto simp: execute_activity_def endless_def)

text \<open>With \<open>NaN\<close> for \<open>maxAttempts\<close> no attempt is made at all.\<close>

lemma nan_makes_no_attempt:
  assumes "max_attempts_of opts = NaN"
  shows "execute_activity ex seq opts activity e =
    Some (Some (failed_outcome (JsError ''Error'' ''Activity failed with no recorded error.'') 0 []), e)"
  using assms by (simp add: execute_activity_def attempt_loop.simps [of ex seq opts activity 0] attempts_left_def)

end
