(* ===== verification/WorkflowCoordinator.thy ===== *)
theory WorkflowCoordinator
  imports WorkflowJournal
begin

text \<open>
  \<open>packages/workflow/src/coordinator.ts\<close> and the waiting commands of \<open>context.ts\<close>: timers, signals, and the resumption of
  parked runs exactly once.

  The coordinator's state is its set of resume tokens, pairs of a run and a sequence number; \<open>on_resume\<close> is the
  callback that drives the run again.  Abort controllers are not modelled.
\<close>

section \<open>Timers\<close>

record timer_decision =
  td_expired :: bool
  td_expiresAt :: jsnum

definition evaluate_sleep :: "jsnum \<Rightarrow> jsnum \<Rightarrow> timer_decision" where
  "evaluate_sleep now durationMs = \<lparr>td_expired = durationMs \<le> 0, td_expiresAt = now + durationMs\<rparr>"

definition evaluate_wait_until :: "jsnum \<Rightarrow> jsnum \<Rightarrow> timer_decision" where
  "evaluate_wait_until now atEpochMs = \<lparr>td_expired = atEpochMs \<le> now, td_expiresAt = atEpochMs\<rparr>"

definition timer_outcome :: "nat \<Rightarrow> jsnum \<Rightarrow> jsnum \<Rightarrow> 'v \<Rightarrow> 'v command_outcome" where
  "timer_outcome seq now expiresAt undefined_value =
     (if expiresAt \<le> now
      then (plain_outcome (SCompleted undefined_value))\<lparr>oc_history := Some [TimerFired now seq]\<rparr>
      else (plain_outcome (SWaiting None (Some expiresAt)))
             \<lparr>oc_runStatus := Some WaitingRun, oc_history := Some [TimerSet now seq expiresAt]\<rparr>)"

definition sleep_command :: "'v \<Rightarrow> jsnum \<Rightarrow> ('v, 'w) command_spec" where
  "sleep_command undefined_value durationMs =
     \<lparr>sp_kind = Sleep, sp_metadata = None,
      sp_execute = (\<lambda>seq now run e. (Inr (timer_outcome seq now (now + durationMs) undefined_value), e))\<rparr>"

definition wait_until_command :: "'v \<Rightarrow> jsnum \<Rightarrow> ('v, 'w) command_spec" where
  "wait_until_command undefined_value atEpochMs =
     \<lparr>sp_kind = WaitUntil, sp_metadata = None,
      sp_execute = (\<lambda>seq now run e. (Inr (timer_outcome seq now atEpochMs undefined_value), e))\<rparr>"

definition interval_command :: "'v \<Rightarrow> jsnum \<Rightarrow> ('v, 'w) command_spec" where
  "interval_command undefined_value durationMs =
     \<lparr>sp_kind = Interval, sp_metadata = None,
      sp_execute = (\<lambda>seq now run e. (Inr (timer_outcome seq now (now + durationMs) undefined_value), e))\<rparr>"

section \<open>Signals\<close>

definition pending_signal :: "string \<Rightarrow> 'v workflow_run \<Rightarrow> 'v recorded_signal option" where
  "pending_signal name run = List.find (\<lambda>s. sg_name s = name \<and> \<not> sg_consumed s) (wr_pendingSignals run)"

definition wait_for_command :: "string \<Rightarrow> ('v \<Rightarrow> 'v) \<Rightarrow> ('v, 'w) command_spec" where
  "wait_for_command event parse =
     \<lparr>sp_kind = EventsWaitFor, sp_metadata = None,
      sp_execute = (\<lambda>seq now run e.
        (Inr (case pending_signal event run of
                Some s \<Rightarrow> plain_outcome (SCompleted (parse (sg_payload s)))
              | None \<Rightarrow> (plain_outcome (SWaiting (Some event) None))\<lparr>oc_runStatus := Some WaitingRun\<rparr>), e))\<rparr>"

definition active_wait :: "'v workflow_run \<Rightarrow> 'v command_record option" where
  "active_wait run = List.find (\<lambda>c. cr_status c = CsWaiting) (rev (wr_commands run))"

definition preserved_expiry :: "'v workflow_run \<Rightarrow> jsnum option" where
  "preserved_expiry run = Option.bind (active_wait run) cr_timerExpiresAt"

datatype wait_spec = TimerWait command_kind nat jsnum | SignalWait command_kind nat string

definition wait_seq :: "wait_spec \<Rightarrow> nat" where
  "wait_seq w = (case w of TimerWait k n t \<Rightarrow> n | SignalWait k n name \<Rightarrow> n)"

definition to_suspension :: "wait_spec \<Rightarrow> thrown" where
  "to_suspension w =
     (case w of TimerWait k n t \<Rightarrow> Suspension n k None (Some t) | SignalWait k n name \<Rightarrow> Suspension n k (Some name) None)"

definition parked_record :: "wait_spec \<Rightarrow> 'v command_record" where
  "parked_record w =
     \<lparr>cr_seq = wait_seq w, cr_kind = (case w of TimerWait k n t \<Rightarrow> k | SignalWait k n name \<Rightarrow> k), cr_status = CsWaiting, cr_attempts = 0,
      cr_result = None, cr_error = None, cr_metadata = None, cr_compensated = None, cr_nextAttemptAt = None,
      cr_timerExpiresAt = (case w of TimerWait k n t \<Rightarrow> Some t | SignalWait k n name \<Rightarrow> None),
      cr_waitingFor = (case w of TimerWait k n t \<Rightarrow> None | SignalWait k n name \<Rightarrow> Some name),
      cr_startedAt = None, cr_completedAt = None\<rparr>"

definition park :: "'v workflow_run \<Rightarrow> wait_spec \<Rightarrow> ('v, 'w) wenv \<Rightarrow> 'v workflow_run \<times> ('v, 'w) wenv" where
  "park run w e =
     (let (now, e) = read_clock e;
          hasCommand = list_ex (\<lambda>c. cr_seq c = wait_seq w) (wr_commands run);
          patch = (\<lambda>c. case w of TimerWait k n t \<Rightarrow> c\<lparr>cr_status := CsWaiting, cr_timerExpiresAt := Some t\<rparr>
                             | SignalWait k n name \<Rightarrow> c\<lparr>cr_status := CsWaiting, cr_waitingFor := Some name\<rparr>);
          parked = run\<lparr>wr_status := WaitingRun,
                       wr_commands := (if hasCommand
                          then map (\<lambda>c. if cr_seq c = wait_seq w then patch c else c) (wr_commands run)
                          else wr_commands run @ [parked_record w]),
                       wr_nextSeq := (if hasCommand then wr_nextSeq run else max (wr_nextSeq run) (wait_seq w + 1)),
                       wr_history := (case w of TimerWait k n t \<Rightarrow> wr_history run @ [TimerSet now n t] | SignalWait k n name \<Rightarrow> wr_history run),
                       wr_updatedAt := now\<rparr>
      in (parked, persist parked e))"

definition try_consume_pending ::
    "'v workflow_run \<Rightarrow> string \<Rightarrow> ('v, 'w) wenv \<Rightarrow> 'v option \<times> 'v workflow_run \<times> ('v, 'w) wenv" where
  "try_consume_pending run name e =
     (let pending = (\<lambda>s. sg_name s = name \<and> \<not> sg_consumed s);
          before = takeWhile (\<lambda>s. \<not> pending s) (wr_pendingSignals run)
      in case dropWhile (\<lambda>s. \<not> pending s) (wr_pendingSignals run) of
           [] \<Rightarrow> (None, run, e)
         | s # after \<Rightarrow>
             (let (now, e) = read_clock e;
                  updated = run\<lparr>wr_pendingSignals := before @ s\<lparr>sg_consumed := True\<rparr> # after, wr_updatedAt := now\<rparr>
              in (Some (sg_payload s), updated, persist updated e)))"

section \<open>Resumption\<close>

type_synonym resume_token = "string \<times> nat"
type_synonym ('v, 'w) coordinated = "resume_token list \<times> ('v, 'w) wenv"

definition resume_wait ::
    "(string \<Rightarrow> ('v, 'w) wenv \<Rightarrow> ('v, 'w) wenv) \<Rightarrow> string \<Rightarrow> nat \<Rightarrow> ('v, 'w) coordinated \<Rightarrow> bool \<times> ('v, 'w) coordinated" where
  "resume_wait on_resume runId seq c =
     (case c of (resumed, e) \<Rightarrow>
        if (runId, seq) \<in> set resumed then (False, c) else (True, (runId, seq) # resumed, on_resume runId e))"

datatype delivery_outcome = Resumed | Buffered | Ignored

definition deliver_signal ::
    "(string \<Rightarrow> ('v, 'w) wenv \<Rightarrow> ('v, 'w) wenv) \<Rightarrow> string \<Rightarrow> string \<Rightarrow> 'v \<Rightarrow> ('v, 'w) coordinated \<Rightarrow>
     (delivery_outcome \<times> 'v workflow_run option) \<times> ('v, 'w) coordinated" where
  "deliver_signal on_resume runId name payload c =
     (case c of (resumed, e) \<Rightarrow>
        (case store_load runId (we_store e) of
           None \<Rightarrow> ((Ignored, None), c)
         | Some loaded \<Rightarrow>
             if wr_status loaded \<in> set TERMINAL then ((Ignored, Some loaded), c)
             else
               (let (now, e) = read_clock e;
                    updated = loaded\<lparr>wr_pendingSignals := wr_pendingSignals loaded @
                                       [\<lparr>sg_name = name, sg_payload = payload, sg_receivedAt = now, sg_consumed = False\<rparr>],
                                     wr_history := wr_history loaded @ [SignalReceived now name payload],
                                     wr_updatedAt := now\<rparr>;
                    e = persist updated e
                in case active_wait updated of
                     Some w \<Rightarrow>
                       if wr_status updated = WaitingRun \<and> cr_waitingFor w = Some name
                       then (case resume_wait on_resume runId (cr_seq w) (resumed, e) of
                               (did, c) \<Rightarrow> ((if did then Resumed else Ignored, Some updated), c))
                       else ((Buffered, Some updated), (resumed, e))
                   | None \<Rightarrow> ((Buffered, Some updated), (resumed, e)))))"

definition due_timer :: "jsnum \<Rightarrow> 'v workflow_run \<Rightarrow> (string \<times> nat \<times> jsnum) option" where
  "due_timer now run =
     (case active_wait run of
        None \<Rightarrow> None
      | Some w \<Rightarrow> (case cr_timerExpiresAt w of
                    None \<Rightarrow> None
                  | Some t \<Rightarrow> if t \<le> now then Some (wr_runId run, cr_seq w, t) else None))"

text \<open>The clock is read in \<open>dueTimer\<close>, only for a run parked on a timer.\<close>

fun resume_due_timers ::
    "(string \<Rightarrow> ('v, 'w) wenv \<Rightarrow> ('v, 'w) wenv) \<Rightarrow> 'v workflow_run list \<Rightarrow> ('v, 'w) coordinated \<Rightarrow>
     (string \<times> nat \<times> jsnum) list \<times> ('v, 'w) coordinated" where
  "resume_due_timers on_resume [] c = ([], c)"
| "resume_due_timers on_resume (run # runs) c =
     (if wr_status run \<noteq> WaitingRun \<or> preserved_expiry run = None then resume_due_timers on_resume runs c
      else (let (now, e) = read_clock (snd c); c = (fst c, e)
            in case due_timer now run of
                 None \<Rightarrow> resume_due_timers on_resume runs c
               | Some due \<Rightarrow>
                   (case resume_wait on_resume (fst due) (fst (snd due)) c of
                      (did, c) \<Rightarrow>
                        (case resume_due_timers on_resume runs c of
                           (fired, c) \<Rightarrow> (if did then due # fired else fired, c)))))"

section \<open>Waiting commands\<close>

text \<open>What a waiting command does when it is (re-)executed: at the end of the journal or parked there.\<close>

definition at_frontier :: "'v journal \<Rightarrow> bool" where
  "at_frontier j \<longleftrightarrow> (j_cursor j = length (wr_commands (j_run j)) \<or>
     (j_cursor j < length (wr_commands (j_run j)) \<and> cr_status (wr_commands (j_run j) ! j_cursor j) = CsWaiting))"

lemma process_frontier:
  assumes "at_frontier j" "\<And>seq now run e. sp_execute spec seq now run e = (Inr (out seq now run), e)"
  shows "\<exists>seq e' j'. process spec j e =
     (case oc_settled (out seq (we_times e (we_reads e)) (j_run j)) of
        SCompleted v \<Rightarrow> Inr v | SFailed err \<Rightarrow> Inl (Thrown (deserialize_error (Some err)))
      | SWaiting w t \<Rightarrow> Inl (Suspension seq (sp_kind spec) w t), j', e') \<and>
      wr_pendingSignals (j_run j') = wr_pendingSignals (j_run j)"
proof -
  define t e0 where "t = we_times e (we_reads e)" and "e0 = snd (read_clock e)"
  have clock: "read_clock e = (t, e0)" by (simp add: t_def e0_def read_clock_def)
  have "\<exists>seq prev. process spec j e = settle_live spec seq t prev (out seq t (j_run j)) j e0"
  proof (cases "j_cursor j < length (wr_commands (j_run j))")
    case True
    then have "process spec j e = settle_live spec (cr_seq (wr_commands (j_run j) ! j_cursor j)) t (Some (wr_commands (j_run j) ! j_cursor j))
        (out (cr_seq (wr_commands (j_run j) ! j_cursor j)) t (j_run j)) j e0"
      using assms(1) by (simp add: at_frontier_def process_def clock assms(2) Let_def)
    then show ?thesis by blast
  next
    case False
    then have "process spec j e = settle_live spec (wr_nextSeq (j_run j)) t None (out (wr_nextSeq (j_run j)) t (j_run j)) j e0"
      by (simp add: process_def clock assms(2) Let_def)
    then show ?thesis by blast
  qed
  then obtain seq prev where p: "process spec j e = settle_live spec seq t prev (out seq t (j_run j)) j e0" by blast
  have "\<exists>e' j'. settle_live spec seq t prev (out seq t (j_run j)) j e0 = (case oc_settled (out seq t (j_run j)) of
        SCompleted v \<Rightarrow> Inr v | SFailed err \<Rightarrow> Inl (Thrown (deserialize_error (Some err)))
      | SWaiting w t \<Rightarrow> Inl (Suspension seq (sp_kind spec) w t), j', e') \<and>
      wr_pendingSignals (j_run j') = wr_pendingSignals (j_run j)"
    by (cases "oc_settled (out seq t (j_run j))") (simp_all add: settle_live_def Let_def case_prod_beta)
  with p show ?thesis unfolding t_def by metis
qed

lemma sleep_parks:
  assumes "at_frontier j" "0 < d"
  shows "\<exists>seq j' e'. process (sleep_command u d) j e = (Inl (Suspension seq Sleep None (Some (we_times e (we_reads e) + d))), j', e')"
proof -
  from process_frontier [OF assms(1), of "sleep_command u d" "\<lambda>seq now run. timer_outcome seq now (now + d) u" e]
  show ?thesis using assms(2) by (fastforce simp: sleep_command_def timer_outcome_def plain_outcome_def)
qed

lemma wait_until_resumes:
  assumes "at_frontier j"
  shows "\<exists>seq j' e'. process (wait_until_command u t) j e =
    (if t \<le> we_times e (we_reads e) then Inr u else Inl (Suspension seq WaitUntil None (Some t)), j', e')"
proof -
  from process_frontier [OF assms(1), of "wait_until_command u t" "\<lambda>seq now run. timer_outcome seq now t u" e]
  show ?thesis by (fastforce simp: wait_until_command_def timer_outcome_def plain_outcome_def)
qed

lemma wait_for_resumes:
  assumes "at_frontier j"
  shows "\<exists>seq j' e'. process (wait_for_command ev parse) j e =
    (case pending_signal ev (j_run j) of Some s \<Rightarrow> Inr (parse (sg_payload s)) | None \<Rightarrow> Inl (Suspension seq EventsWaitFor (Some ev) None), j', e') \<and>
    wr_pendingSignals (j_run j') = wr_pendingSignals (j_run j)"
proof -
  have "sp_execute (wait_for_command ev parse) seq now run e =
      (Inr (case pending_signal ev run of
                Some s \<Rightarrow> plain_outcome (SCompleted (parse (sg_payload s)))
              | None \<Rightarrow> (plain_outcome (SWaiting (Some ev) None))\<lparr>oc_runStatus := Some WaitingRun\<rparr>), e)" for seq now run e
    by (simp add: wait_for_command_def)
  from process_frontier [OF assms this, of e]
  show ?thesis by (cases "pending_signal ev (j_run j)") (auto simp: wait_for_command_def plain_outcome_def)
qed

end
