(* ===== verification/WorkflowCompensator.thy ===== *)
theory WorkflowCompensator
  imports WorkflowTypes
begin

text \<open>
  \<open>packages/workflow/src/compensator.ts\<close>: the rollback of the completed activities of a run.

  A registration holds the sequence number, the name of the rollback and the output it is bound to; \<open>undo\<close> gives the functions
  their names stand for: a rollback changes the environment and may throw.  \<open>we_world\<close> is what rollbacks act on.
\<close>

section \<open>The compensator\<close>

type_synonym 'v registration = "nat \<times> string \<times> 'v"
type_synonym ('v, 'w) rollback = "'v \<Rightarrow> ('v, 'w) wenv \<Rightarrow> js_error option \<times> ('v, 'w) wenv"

record 'v compensator =
  cp_run :: "'v workflow_run"
  cp_registrations :: "'v registration list"

definition new_compensator :: "'v workflow_run \<Rightarrow> 'v compensator" where
  "new_compensator run = \<lparr>cp_run = run, cp_registrations = []\<rparr>"

definition register :: "nat \<Rightarrow> string \<Rightarrow> 'v \<Rightarrow> 'v compensator \<Rightarrow> 'v compensator" where
  "register seq rollback output c =
     (if list_ex (\<lambda>r. fst r = seq) (cp_registrations c) then c
      else c\<lparr>cp_registrations := cp_registrations c @ [(seq, rollback, output)]\<rparr>)"

definition completion_key :: "'v command_record \<Rightarrow> jsnum" where
  "completion_key command = nullish (cr_completedAt command) (of_nat (cr_seq command))"

text \<open>The comparator of the sort: negative when \<open>a\<close> goes before \<open>b\<close>.\<close>

definition compare_completion :: "'v command_record \<Rightarrow> 'v command_record \<Rightarrow> jsnum" where
  "compare_completion a b =
     (if completion_key b \<noteq> completion_key a then completion_key b - completion_key a
      else of_nat (cr_seq b) - of_nat (cr_seq a))"

primrec insert_command :: "'v command_record \<Rightarrow> 'v command_record list \<Rightarrow> 'v command_record list" where
  "insert_command x [] = [x]"
| "insert_command x (y # ys) = (if compare_completion x y \<le> 0 then x # y # ys else y # insert_command x ys)"

definition sort_commands :: "'v command_record list \<Rightarrow> 'v command_record list" where
  "sort_commands cs = foldr insert_command cs []"

definition is_target :: "'v registration list \<Rightarrow> 'v command_record \<Rightarrow> bool" where
  "is_target regs command \<longleftrightarrow>
     cr_status command = CsCompleted \<and> cr_compensated command \<noteq> Some True \<and> map_has regs (cr_seq command)"

definition targets_of :: "'v compensator \<Rightarrow> 'v command_record list" where
  "targets_of c = sort_commands (filter (is_target (cp_registrations c)) (wr_commands (cp_run c)))"

definition cp_transition :: "run_status \<Rightarrow> 'v compensator \<Rightarrow> ('v, 'w) wenv \<Rightarrow> 'v compensator \<times> ('v, 'w) wenv" where
  "cp_transition to c e =
     (let run = cp_run c in
      if wr_status run = to then (c, e)
      else (let (now, e) = read_clock e;
                run = run\<lparr>wr_status := to, wr_history := wr_history run @ [RunStatusChanged now (wr_status run) to], wr_updatedAt := now\<rparr>
            in (c\<lparr>cp_run := run\<rparr>, persist run e)))"

text \<open>\<open>appendHistory\<close>: the event is built by the caller, before the clock is read again.\<close>

definition append_history :: "'v history_event \<Rightarrow> 'v compensator \<Rightarrow> ('v, 'w) wenv \<Rightarrow> 'v compensator \<times> ('v, 'w) wenv" where
  "append_history event c e =
     (let (now, e) = read_clock e;
          run = (cp_run c)\<lparr>wr_history := wr_history (cp_run c) @ [event], wr_updatedAt := now\<rparr>
      in (c\<lparr>cp_run := run\<rparr>, persist run e))"

definition mark_compensated :: "nat \<Rightarrow> 'v compensator \<Rightarrow> ('v, 'w) wenv \<Rightarrow> 'v compensator \<times> ('v, 'w) wenv" where
  "mark_compensated seq c e =
     (let (now, e) = read_clock e;
          run = (cp_run c)\<lparr>wr_commands := map (\<lambda>command. if cr_seq command = seq then command\<lparr>cr_compensated := Some True\<rparr> else command)
                                            (wr_commands (cp_run c)),
                           wr_updatedAt := now\<rparr>
      in (c\<lparr>cp_run := run\<rparr>, e))"

text \<open>One iteration of the loop of \<open>compensate\<close>.\<close>

definition compensate_one ::
    "(string \<Rightarrow> ('v, 'w) rollback) \<Rightarrow> 'v command_record \<Rightarrow> 'v compensator \<times> ('v, 'w) wenv \<Rightarrow> 'v compensator \<times> ('v, 'w) wenv" where
  "compensate_one undo command ce =
     (case map_of (cp_registrations (fst ce)) (cr_seq command) of
        None \<Rightarrow> ce
      | Some (rollback, output) \<Rightarrow>
          (let (c, e) = ce;
               (now, e) = read_clock e;
               (c, e) = append_history (CompensationStarted now (cr_seq command)) c e;
               (failure, e) = undo rollback output e;
               (c, e) = mark_compensated (cr_seq command) c e;
               (now, e) = read_clock e
           in append_history (case failure of None \<Rightarrow> CompensationCompleted now (cr_seq command)
                                            | Some err \<Rightarrow> CompensationFailed now (cr_seq command) err) c e))"

definition compensate ::
    "(string \<Rightarrow> ('v, 'w) rollback) \<Rightarrow> 'v compensator \<Rightarrow> ('v, 'w) wenv \<Rightarrow> 'v compensator \<times> ('v, 'w) wenv" where
  "compensate undo c e =
     (let targets = targets_of c in
      if targets = [] then (c, e)
      else (let ce = foldl (\<lambda>ce command. compensate_one undo command ce) (cp_transition Compensating c e) targets
            in cp_transition Compensated (fst ce) (snd ce)))"

section \<open>Sagas\<close>

text \<open>\<open>run\<close> executes an activity of the saga and returns its output and its sequence number, or throws.\<close>

type_synonym ('v, 'w) saga_runner = "('v, 'w) wenv \<Rightarrow> (js_error + 'v \<times> nat) \<times> ('v, 'w) wenv"

definition saga_step ::
    "('v, 'w) saga_runner \<Rightarrow> string option \<Rightarrow> 'v compensator \<Rightarrow> ('v, 'w) wenv \<Rightarrow> (js_error + 'v) \<times> 'v compensator \<times> ('v, 'w) wenv" where
  "saga_step run declared c e =
     (case run e of
        (Inl err, e) \<Rightarrow> (Inl err, c, e)
      | (Inr (output, seq), e) \<Rightarrow>
          (Inr output, (case declared of None \<Rightarrow> c | Some rollback \<Rightarrow> register seq rollback output c), e))"

definition saga_compensate ::
    "('v, 'w) saga_runner \<Rightarrow> string \<Rightarrow> 'v compensator \<Rightarrow> ('v, 'w) wenv \<Rightarrow> (js_error + 'v) \<times> 'v compensator \<times> ('v, 'w) wenv" where
  "saga_compensate run rollback c e =
     (case run e of
        (Inl err, e) \<Rightarrow> (Inl err, c, e)
      | (Inr (output, seq), e) \<Rightarrow> (Inr output, register seq rollback output c, e))"

definition saga_rollback ::
    "(string \<Rightarrow> ('v, 'w) rollback) \<Rightarrow> 'v compensator \<Rightarrow> ('v, 'w) wenv \<Rightarrow> 'v compensator \<times> ('v, 'w) wenv" where
  "saga_rollback undo c e = compensate undo c e"

section \<open>The order of the rollbacks\<close>

definition completed_after :: "'v command_record \<Rightarrow> 'v command_record \<Rightarrow> bool" where
  "completed_after a b \<longleftrightarrow> completion_key b < completion_key a \<or> (completion_key a = completion_key b \<and> cr_seq b \<le> cr_seq a)"

lemma compare_completion_le: "compare_completion a b \<le> 0 \<longleftrightarrow> completed_after a b"
  by (auto simp: compare_completion_def completed_after_def)

lemma completed_after_total: "\<not> completed_after a b \<Longrightarrow> completed_after b a"
  by (auto simp: completed_after_def)

lemma completed_after_trans: "completed_after a b \<Longrightarrow> completed_after b c \<Longrightarrow> completed_after a c"
  by (auto simp: completed_after_def)

lemma mset_insert_command [simp]: "mset (insert_command x ys) = add_mset x (mset ys)"
  by (induction ys) simp_all

lemma mset_sort_commands [simp]: "mset (sort_commands cs) = mset cs"
  by (induction cs) (simp_all add: sort_commands_def)

lemma set_sort_commands [simp]: "set (sort_commands cs) = set cs"
  by (metis mset_sort_commands set_mset_mset)

lemma sorted_insert_command: "sorted_wrt completed_after ys \<Longrightarrow> sorted_wrt completed_after (insert_command x ys)"
proof (induction ys)
  case (Cons y ys)
  have "set (insert_command x ys) = insert x (set ys)" by (metis mset_insert_command set_mset_add_mset_insert set_mset_mset)
  with Cons show ?case
    by (auto simp: compare_completion_le intro: completed_after_trans dest: completed_after_total)
qed simp

lemma sorted_sort_commands: "sorted_wrt completed_after (sort_commands cs)"
  by (induction cs) (simp_all add: sort_commands_def sorted_insert_command)

lemma sort_commands_Nil [simp]: "sort_commands cs = [] \<longleftrightarrow> cs = []"
  by (metis mset_sort_commands mset_zero_iff mset_zero_iff_right)

section \<open>What compensating does\<close>

definition rollbacks_started :: "'v history_event list \<Rightarrow> nat list" where
  "rollbacks_started h = concat (map (\<lambda>ev. case ev of CompensationStarted _ n \<Rightarrow> [n] | _ \<Rightarrow> []) h)"

definition rollbacks_ended :: "'v history_event list \<Rightarrow> (nat \<times> bool) list" where
  "rollbacks_ended h =
     concat (map (\<lambda>ev. case ev of CompensationCompleted _ n \<Rightarrow> [(n, True)] | CompensationFailed _ n _ \<Rightarrow> [(n, False)] | _ \<Rightarrow> []) h)"

lemma rollbacks_simps [simp]:
  "rollbacks_started (h @ h') = rollbacks_started h @ rollbacks_started h'" "rollbacks_started [] = []"
  "rollbacks_started (CompensationStarted t n # h) = n # rollbacks_started h"
  "rollbacks_started (CompensationCompleted t n # h) = rollbacks_started h"
  "rollbacks_started (CompensationFailed t n err # h) = rollbacks_started h"
  "rollbacks_started (RunStatusChanged t s s' # h) = rollbacks_started h"
  "rollbacks_ended (h @ h') = rollbacks_ended h @ rollbacks_ended h'" "rollbacks_ended [] = []"
  "rollbacks_ended (CompensationStarted t n # h) = rollbacks_ended h"
  "rollbacks_ended (CompensationCompleted t n # h) = (n, True) # rollbacks_ended h"
  "rollbacks_ended (CompensationFailed t n err # h) = (n, False) # rollbacks_ended h"
  "rollbacks_ended (RunStatusChanged t s s' # h) = rollbacks_ended h"
  by (simp_all add: rollbacks_started_def rollbacks_ended_def)

text \<open>The rollback of a command, with its output; \<open>logs\<close>: the world is the list of the rollbacks that ran.\<close>

definition rollback_of :: "'v registration list \<Rightarrow> 'v command_record \<Rightarrow> string \<times> 'v" where
  "rollback_of regs command = the (map_of regs (cr_seq command))"

definition logs :: "(string \<Rightarrow> ('v, (string \<times> 'v) list) rollback) \<Rightarrow> (string \<times> 'v \<Rightarrow> js_error option) \<Rightarrow> bool" where
  "logs undo fails \<longleftrightarrow> (\<forall>r out e. fst (undo r out e) = fails (r, out) \<and> we_world (snd (undo r out e)) = we_world e @ [(r, out)])"

definition flag :: "nat set \<Rightarrow> 'v command_record \<Rightarrow> 'v command_record" where
  "flag ns command = (if cr_seq command \<in> ns then command\<lparr>cr_compensated := Some True\<rparr> else command)"

lemma flag_simps [simp]:
  "cr_seq (flag ns c) = cr_seq c" "cr_status (flag ns c) = cr_status c" "flag ns (flag ms c) = flag (ns \<union> ms) c"
  "cr_compensated (flag ns c) = (if cr_seq c \<in> ns then Some True else cr_compensated c)"
  "cr_result (flag ns c) = cr_result c" "cr_kind (flag ns c) = cr_kind c" "flag {} c = c"
  by (auto simp: flag_def)

lemma compensate_one_step:
  assumes "map_has (cp_registrations c) (cr_seq k)" "logs undo fails" "compensate_one undo k (c, e) = (c', e')"
  shows "cp_registrations c' = cp_registrations c"
    "wr_commands (cp_run c') = map (flag {cr_seq k}) (wr_commands (cp_run c))" "wr_status (cp_run c') = wr_status (cp_run c)"
    "wr_runId (cp_run c') = wr_runId (cp_run c)"
    "rollbacks_started (wr_history (cp_run c')) = rollbacks_started (wr_history (cp_run c)) @ [cr_seq k]"
    "rollbacks_ended (wr_history (cp_run c')) = rollbacks_ended (wr_history (cp_run c)) @
       [(cr_seq k, fails (rollback_of (cp_registrations c) k) = None)]"
    "we_world e' = we_world e @ [rollback_of (cp_registrations c) k]"
    "store_load (wr_runId (cp_run c')) (we_store e') = Some (cp_run c')"
proof -
  obtain r out where r: "map_of (cp_registrations c) (cr_seq k) = Some (r, out)" using assms(1) by (auto simp: map_has_def)
  note defs = compensate_one_def append_history_def mark_compensated_def Let_def case_prod_beta r rollback_of_def
  have f: "flag {cr_seq k} = (\<lambda>x. if cr_seq x = cr_seq k then x\<lparr>cr_compensated := Some True\<rparr> else x)" by (auto simp: flag_def)
  have u: "fst (undo r out e) = fails (r, out)" "we_world (snd (undo r out e)) = we_world e @ [(r, out)]" for e
    using assms(2) by (simp_all add: logs_def)
  have c': "c' = fst (compensate_one undo k (c, e))" "e' = snd (compensate_one undo k (c, e))" using assms(3) by simp_all
  show "cp_registrations c' = cp_registrations c"
    "wr_commands (cp_run c') = map (flag {cr_seq k}) (wr_commands (cp_run c))" "wr_status (cp_run c') = wr_status (cp_run c)"
    "wr_runId (cp_run c') = wr_runId (cp_run c)"
    "rollbacks_started (wr_history (cp_run c')) = rollbacks_started (wr_history (cp_run c)) @ [cr_seq k]"
    "rollbacks_ended (wr_history (cp_run c')) = rollbacks_ended (wr_history (cp_run c)) @
       [(cr_seq k, fails (rollback_of (cp_registrations c) k) = None)]"
    "we_world e' = we_world e @ [rollback_of (cp_registrations c) k]"
    "store_load (wr_runId (cp_run c')) (we_store e') = Some (cp_run c')"
    unfolding c' by (simp_all add: defs f u persist_def store_save_def store_load_def split: option.split)
qed

lemma compensate_all_steps:
  assumes "logs undo fails" "\<forall>k \<in> set ks. map_has (cp_registrations c) (cr_seq k)"
    "foldl (\<lambda>ce k. compensate_one undo k ce) (c, e) ks = (c', e')"
  shows "cp_registrations c' = cp_registrations c \<and>
    wr_commands (cp_run c') = map (flag (cr_seq ` set ks)) (wr_commands (cp_run c)) \<and> wr_status (cp_run c') = wr_status (cp_run c) \<and>
    wr_runId (cp_run c') = wr_runId (cp_run c) \<and>
    rollbacks_started (wr_history (cp_run c')) = rollbacks_started (wr_history (cp_run c)) @ map cr_seq ks \<and>
    rollbacks_ended (wr_history (cp_run c')) = rollbacks_ended (wr_history (cp_run c)) @
       map (\<lambda>k. (cr_seq k, fails (rollback_of (cp_registrations c) k) = None)) ks \<and>
    we_world e' = we_world e @ map (rollback_of (cp_registrations c)) ks"
  using assms(2,3)
proof (induction ks arbitrary: c e)
  case Nil
  then show ?case by (auto simp: comp_def)
next
  case (Cons k ks)
  obtain c1 e1 where one: "compensate_one undo k (c, e) = (c1, e1)" by fastforce
  note step = compensate_one_step [OF _ assms(1) one]
  have "map_has (cp_registrations c) (cr_seq k)" using Cons.prems(1) by simp
  note step = step [OF this]
  show ?case using Cons.IH [of c1 e1] Cons.prems one step by (simp add: comp_def)
qed

lemma cp_transition_simps [simp]:
  "wr_status (cp_run (fst (cp_transition to c e))) = to" "cp_registrations (fst (cp_transition to c e)) = cp_registrations c"
  "wr_commands (cp_run (fst (cp_transition to c e))) = wr_commands (cp_run c)"
  "wr_runId (cp_run (fst (cp_transition to c e))) = wr_runId (cp_run c)"
  "rollbacks_started (wr_history (cp_run (fst (cp_transition to c e)))) = rollbacks_started (wr_history (cp_run c))"
  "rollbacks_ended (wr_history (cp_run (fst (cp_transition to c e)))) = rollbacks_ended (wr_history (cp_run c))"
  "we_world (snd (cp_transition to c e)) = we_world e"
  by (auto simp: cp_transition_def Let_def case_prod_beta)

lemma cp_transition_persists:
  "wr_status (cp_run c) \<noteq> to \<Longrightarrow>
   store_load (wr_runId (cp_run c)) (we_store (snd (cp_transition to c e))) = Some (cp_run (fst (cp_transition to c e)))"
  by (simp add: cp_transition_def Let_def case_prod_beta persist_def store_save_def store_load_def)

lemma targets_of_iff: "k \<in> set (targets_of c) \<longleftrightarrow> k \<in> set (wr_commands (cp_run c)) \<and> is_target (cp_registrations c) k"
  by (auto simp: targets_of_def)

lemma flagged_no_targets:
  assumes "cp_registrations c' = cp_registrations c"
    "wr_commands (cp_run c') = map (flag (cr_seq ` set (targets_of c))) (wr_commands (cp_run c))"
  shows "targets_of c' = []"
proof -
  have "\<not> is_target (cp_registrations c') k'" if k': "k' \<in> set (wr_commands (cp_run c'))" for k'
  proof
    assume t: "is_target (cp_registrations c') k'"
    obtain k where k: "k \<in> set (wr_commands (cp_run c))" "k' = flag (cr_seq ` set (targets_of c)) k" using k' assms(2) by auto
    with t have "cr_seq k \<notin> cr_seq ` set (targets_of c)" "is_target (cp_registrations c) k"
      by (auto simp: is_target_def assms(1) split: if_splits)
    with k(1) show False by (auto simp: targets_of_iff)
  qed
  then show ?thesis by (simp add: targets_of_def filter_empty_conv)
qed

lemma compensate_rolls_back:
  assumes "targets_of c \<noteq> []" "logs undo fails" and run: "compensate undo c e = (c', e')"
  shows "wr_status (cp_run c') = Compensated" "cp_registrations c' = cp_registrations c"
    "wr_commands (cp_run c') = map (flag (cr_seq ` set (targets_of c))) (wr_commands (cp_run c))"
    "rollbacks_started (wr_history (cp_run c')) = rollbacks_started (wr_history (cp_run c)) @ map cr_seq (targets_of c)"
    "rollbacks_ended (wr_history (cp_run c')) = rollbacks_ended (wr_history (cp_run c)) @
       map (\<lambda>k. (cr_seq k, fails (rollback_of (cp_registrations c) k) = None)) (targets_of c)"
    "we_world e' = we_world e @ map (rollback_of (cp_registrations c)) (targets_of c)"
    "store_load (wr_runId (cp_run c)) (we_store e') = Some (cp_run c')"
proof -
  obtain c1 e1 where s: "cp_transition Compensating c e = (c1, e1)" by fastforce
  obtain c2 e2 where f: "foldl (\<lambda>ce k. compensate_one undo k ce) (c1, e1) (targets_of c) = (c2, e2)" by fastforce
  have c1: "c1 = fst (cp_transition Compensating c e)" "e1 = snd (cp_transition Compensating c e)" using s by simp_all
  have reg: "\<forall>k \<in> set (targets_of c). map_has (cp_registrations c1) (cr_seq k)"
    by (auto simp: c1 targets_of_iff is_target_def)
  note steps = compensate_all_steps [OF assms(2) reg f]
  have c': "c' = fst (cp_transition Compensated c2 e2)" "e' = snd (cp_transition Compensated c2 e2)"
    using run assms(1) s f by (simp_all add: compensate_def Let_def)
  have "wr_status (cp_run c2) \<noteq> Compensated" "wr_runId (cp_run c2) = wr_runId (cp_run c)" using steps by (simp_all add: c1)
  with cp_transition_persists [of c2 Compensated e2]
  show "store_load (wr_runId (cp_run c)) (we_store e') = Some (cp_run c')" by (simp add: c')
  show "wr_status (cp_run c') = Compensated" "cp_registrations c' = cp_registrations c"
    "wr_commands (cp_run c') = map (flag (cr_seq ` set (targets_of c))) (wr_commands (cp_run c))"
    "rollbacks_started (wr_history (cp_run c')) = rollbacks_started (wr_history (cp_run c)) @ map cr_seq (targets_of c)"
    "rollbacks_ended (wr_history (cp_run c')) = rollbacks_ended (wr_history (cp_run c)) @
       map (\<lambda>k. (cr_seq k, fails (rollback_of (cp_registrations c) k) = None)) (targets_of c)"
    "we_world e' = we_world e @ map (rollback_of (cp_registrations c)) (targets_of c)"
    using steps by (simp_all add: c' c1)
qed

lemma targets_sorted: "sorted_wrt completed_after (targets_of c)"
  by (simp add: targets_of_def sorted_sort_commands)

lemma distinct_targets: "distinct (map cr_seq (wr_commands (cp_run c))) \<Longrightarrow> distinct (map cr_seq (targets_of c))"
proof -
  assume "distinct (map cr_seq (wr_commands (cp_run c)))"
  then have "distinct (map cr_seq (filter (is_target (cp_registrations c)) (wr_commands (cp_run c))))"
    by (induction "wr_commands (cp_run c)" rule: list.induct) (simp_all add: distinct_map_filter)
  moreover have "mset (map cr_seq (targets_of c)) = mset (map cr_seq (filter (is_target (cp_registrations c)) (wr_commands (cp_run c))))"
    unfolding targets_of_def mset_map by simp
  ultimately show ?thesis by (metis mset_eq_imp_distinct_iff)
qed

lemma compensate_nothing: "targets_of c = [] \<Longrightarrow> compensate undo c e = (c, e)"
  by (simp add: compensate_def)

end
