(* ===== verification/WorkflowEngine.thy ===== *)
theory WorkflowEngine
  imports WorkflowExecutor WorkflowCoordinator WorkflowCompensator
begin

text \<open>
  \<open>packages/workflow/src/runtime.ts\<close> and \<open>engine.ts\<close>: driving a run to its next disposition, and the engine's operations.

  A definition maps the input to a \<open>workflow\<close>.  \<open>undo\<close> resolves the names of the compensations.  The process's part of
  the state is the engine's registry, the runs it has resumed on its own and the coordinator's tokens.  Promises
  returned by \<open>result()\<close>, the statistics, metrics and broadcasts, and the abort signals are not modelled.
\<close>

section \<open>The runtime\<close>

record 'v drive_result =
  dr_run :: "'v workflow_run"
  dr_status :: run_status
  dr_output :: "'v option"
  dr_error :: "js_error option"

definition status_patch :: "run_status \<Rightarrow> 'v option \<Rightarrow> jsnum \<Rightarrow> run_status \<Rightarrow> 'v run_patch" where
  "status_patch to out at_time from_status =
     \<lparr>rp_status = Some to, rp_output = out, rp_history = Some [RunStatusChanged at_time from_status to]\<rparr>"

definition finalize_completed :: "'v journal \<Rightarrow> 'v \<Rightarrow> ('v, 'w) wenv \<Rightarrow> 'v drive_result \<times> ('v, 'w) wenv" where
  "finalize_completed j v e =
     (let (now, e) = read_clock e;
          (j, e) = commit (status_patch CompletedRun (Some v) now (wr_status (j_run j))) j e
      in (\<lparr>dr_run = j_run j, dr_status = CompletedRun, dr_output = Some v, dr_error = None\<rparr>, e))"

definition fail_run :: "'v journal \<Rightarrow> js_error \<Rightarrow> ('v, 'w) wenv \<Rightarrow> 'v drive_result \<times> ('v, 'w) wenv" where
  "fail_run j err e =
     (let (now, e) = read_clock e;
          (j, e) = commit (status_patch FailedRun None now (wr_status (j_run j))) j e
      in (\<lparr>dr_run = j_run j, dr_status = FailedRun, dr_output = None, dr_error = Some err\<rparr>, e))"

definition finalize_failure ::
    "(string \<Rightarrow> ('v, 'w) rollback) \<Rightarrow> 'v journal \<Rightarrow> 'v registration list \<Rightarrow> js_error \<Rightarrow> ('v, 'w) wenv \<Rightarrow>
     'v drive_result \<times> ('v, 'w) wenv" where
  "finalize_failure undo j compensations err e =
     (if compensations = [] then fail_run j err e
      else (let c = foldl (\<lambda>c (seq, rollback, output). register seq rollback output c) (new_compensator (j_run j)) compensations;
                (c, e) = compensate undo c e
            in if wr_status (cp_run c) = Compensated \<or> wr_status (cp_run c) = Compensating
               then (\<lparr>dr_run = cp_run c, dr_status = wr_status (cp_run c), dr_output = None, dr_error = None\<rparr>, e)
               else fail_run j err e))"

definition resume_status :: "'v journal \<Rightarrow> ('v, 'w) wenv \<Rightarrow> 'v journal \<times> ('v, 'w) wenv" where
  "resume_status j e =
     (if wr_status (j_run j) \<noteq> Running
      then (let (now, e) = read_clock e in commit (status_patch Running None now (wr_status (j_run j))) j e)
      else (j, e))"

text \<open>
  The array of the compensations belongs to the drive: it is empty at its start, and the caller's is restored at its end.  A drive
  one of whose commands never settles does not return; its run stays as it was last saved (the result is then only the run as
  it stands, which nobody receives).
\<close>

definition drive ::
    "(string \<Rightarrow> ('v, 'w) rollback) \<Rightarrow> ('v \<Rightarrow> ('v, 'w) workflow) \<Rightarrow> 'v workflow_run \<Rightarrow> ('v, 'w) wenv \<Rightarrow>
     'v drive_result \<times> ('v, 'w) wenv" where
  "drive undo fn run e =
     (let outer = we_captured e;
          (j, e) = resume_status (new_journal run) e;
          (result, j, e) = run_workflow (fn (wr_input (j_run j))) j (e\<lparr>we_captured := []\<rparr>);
          compensations = we_captured e;
          e = e\<lparr>we_captured := outer\<rparr>
      in case result of
           Inr v \<Rightarrow> finalize_completed j v e
         | Inl (Suspension seq k w t) \<Rightarrow> (\<lparr>dr_run = j_run j, dr_status = wr_status (j_run j), dr_output = None, dr_error = None\<rparr>, e)
         | Inl (Thrown err) \<Rightarrow> finalize_failure undo j compensations err e
         | Inl Unsettled \<Rightarrow> (\<lparr>dr_run = j_run j, dr_status = wr_status (j_run j), dr_output = None, dr_error = None\<rparr>, e))"

section \<open>The engine\<close>

record ('v, 'w) engine =
  eg_registry :: "(string, 'v \<Rightarrow> ('v, 'w) workflow) jsmap"
  eg_autoResume :: bool
  eg_autoResumed :: "string list"
  eg_resumed :: "resume_token list"
  eg_env :: "('v, 'w) wenv"

definition drive_existing ::
    "(string \<Rightarrow> ('v, 'w) rollback) \<Rightarrow> (string, 'v \<Rightarrow> ('v, 'w) workflow) jsmap \<Rightarrow> string \<Rightarrow> ('v, 'w) wenv \<Rightarrow> ('v, 'w) wenv" where
  "drive_existing undo registry runId e =
     (case store_load runId (we_store e) of
        None \<Rightarrow> e
      | Some run \<Rightarrow>
          if wr_status run \<in> set TERMINAL \<or> wr_status run = Paused then e
          else (case map_of registry (wr_definition run) of
                  None \<Rightarrow> e
                | Some fn \<Rightarrow> snd (drive undo fn run e)))"

text \<open>One run of \<open>autoResumeDefinition\<close>.\<close>

definition auto_resume ::
    "(string \<Rightarrow> ('v, 'w) rollback) \<Rightarrow> string \<Rightarrow> ('v, 'w) engine \<Rightarrow> 'v workflow_run \<Rightarrow> ('v, 'w) engine" where
  "auto_resume undo name g run =
     (if wr_definition run \<noteq> name \<or> wr_runId run \<in> set (eg_autoResumed g) \<or> wr_status run = Cancelled then g
      else g\<lparr>eg_autoResumed := wr_runId run # eg_autoResumed g,
             eg_env := drive_existing undo (eg_registry g) (wr_runId run) (eg_env g)\<rparr>)"

definition define_workflow ::
    "(string \<Rightarrow> ('v, 'w) rollback) \<Rightarrow> string \<Rightarrow> ('v \<Rightarrow> ('v, 'w) workflow) \<Rightarrow> ('v, 'w) engine \<Rightarrow> (js_error + unit) \<times> ('v, 'w) engine" where
  "define_workflow undo name fn g =
     (if map_has (eg_registry g) name
      then (Inl (JsError ''RegistrationError'' (''A workflow named \"'' @ name @ ''\" is already registered; the previously registered definition is retained.'')), g)
      else (let g = g\<lparr>eg_registry := AList.update name fn (eg_registry g)\<rparr>
            in (Inr (), if eg_autoResume g then foldl (auto_resume undo name) g (store_list_incomplete (we_store (eg_env g))) else g)))"

definition workflow_error :: "string \<Rightarrow> string \<Rightarrow> js_error" where
  "workflow_error runId what = JsError ''WorkflowError'' (''No workflow run \"'' @ runId @ ''\" is persisted; '' @ what)"

text \<open>\<open>runId\<close> is the option or a random UUID.  The handle \<open>run\<close>, \<open>resume\<close> and \<open>restart\<close> return is the run's identifier.\<close>

definition engine_run ::
    "(string \<Rightarrow> ('v, 'w) rollback) \<Rightarrow> string \<Rightarrow> 'v \<Rightarrow> string \<Rightarrow> ('v, 'w) engine \<Rightarrow> (js_error + string) \<times> ('v, 'w) engine" where
  "engine_run undo name input runId g =
     (case map_of (eg_registry g) name of
        None \<Rightarrow> (Inl (JsError ''WorkflowNotFoundError'' (''No workflow named \"'' @ name @ ''\" is registered; no run was created.'')), g)
      | Some fn \<Rightarrow>
          (let (now, e) = read_clock (eg_env g);
               initial = \<lparr>wr_runId = runId, wr_definition = name, wr_status = Running, wr_input = input, wr_output = None,
                          wr_commands = [], wr_nextSeq = 0, wr_state = [], wr_pendingSignals = [], wr_history = [RunStarted now input],
                          wr_createdAt = now, wr_updatedAt = now\<rparr>
           in (Inr runId, g\<lparr>eg_env := snd (drive undo fn initial (persist initial e))\<rparr>)))"

definition engine_resume ::
    "(string \<Rightarrow> ('v, 'w) rollback) \<Rightarrow> string \<Rightarrow> ('v, 'w) engine \<Rightarrow> (js_error + string) \<times> ('v, 'w) engine" where
  "engine_resume undo runId g =
     (case store_load runId (we_store (eg_env g)) of
        None \<Rightarrow> (Inl (workflow_error runId ''nothing to resume.''), g)
      | Some run \<Rightarrow>
          if wr_status run = Cancelled then (Inl (JsError ''CancelledResumeError''
            (''Workflow run \"'' @ runId @ ''\" was cancelled and cannot be resumed; no activity will be invoked.'')), g)
          else (Inr runId,
                if wr_status run \<in> set TERMINAL then g
                else g\<lparr>eg_env := drive_existing undo (eg_registry g) runId (eg_env g)\<rparr>))"

definition engine_transition :: "'v workflow_run \<Rightarrow> run_status \<Rightarrow> ('v, 'w) wenv \<Rightarrow> ('v, 'w) wenv" where
  "engine_transition run to e =
     (let (now, e) = read_clock e
      in persist (run\<lparr>wr_status := to, wr_history := wr_history run @ [RunStatusChanged now (wr_status run) to], wr_updatedAt := now\<rparr>) e)"

definition pause_run :: "string \<Rightarrow> ('v, 'w) engine \<Rightarrow> ('v, 'w) engine" where
  "pause_run runId g =
     (case store_load runId (we_store (eg_env g)) of
        None \<Rightarrow> g
      | Some run \<Rightarrow> if wr_status run \<noteq> Running then g else g\<lparr>eg_env := engine_transition run Paused (eg_env g)\<rparr>)"

definition cancel_run :: "string \<Rightarrow> ('v, 'w) engine \<Rightarrow> ('v, 'w) engine" where
  "cancel_run runId g =
     (case store_load runId (we_store (eg_env g)) of
        None \<Rightarrow> g
      | Some run \<Rightarrow> if wr_status run \<in> set TERMINAL then g else g\<lparr>eg_env := engine_transition run Cancelled (eg_env g)\<rparr>)"

definition restart_run ::
    "(string \<Rightarrow> ('v, 'w) rollback) \<Rightarrow> string \<Rightarrow> string \<Rightarrow> ('v, 'w) engine \<Rightarrow> (js_error + string) \<times> ('v, 'w) engine" where
  "restart_run undo runId newId g =
     (case store_load runId (we_store (eg_env g)) of
        None \<Rightarrow> (Inl (workflow_error runId ''nothing to restart.''), g)
      | Some run \<Rightarrow> engine_run undo (wr_definition run) (wr_input run) newId g)"

definition run_status_of :: "string \<Rightarrow> ('v, 'w) engine \<Rightarrow> run_status option" where
  "run_status_of runId g = map_option wr_status (store_load runId (we_store (eg_env g)))"

definition run_history :: "string \<Rightarrow> ('v, 'w) engine \<Rightarrow> 'v history_event list" where
  "run_history runId g = (case store_load runId (we_store (eg_env g)) of None \<Rightarrow> [] | Some run \<Rightarrow> wr_history run)"

text \<open>\<open>settle\<close>: what \<open>result()\<close> gives for a terminal run.\<close>

definition run_result :: "'v workflow_run \<Rightarrow> js_error + 'v option" where
  "run_result run =
     (if wr_status run = CompletedRun then Inr (wr_output run)
      else Inl (JsError ''WorkflowError'' (''Workflow run \"'' @ wr_runId run @ ''\" did not complete successfully.'')))"

definition signal_run ::
    "(string \<Rightarrow> ('v, 'w) rollback) \<Rightarrow> string \<Rightarrow> string \<Rightarrow> 'v \<Rightarrow> ('v, 'w) engine \<Rightarrow> (js_error + unit) \<times> ('v, 'w) engine" where
  "signal_run undo runId name payload g =
     (case deliver_signal (drive_existing undo (eg_registry g)) runId name payload (eg_resumed g, eg_env g) of
        ((outcome, run), (resumed, e)) \<Rightarrow>
          ((if run = None then Inl (workflow_error runId (''cannot deliver signal '' @ name)) else Inr ()), g\<lparr>eg_resumed := resumed, eg_env := e\<rparr>))"

section \<open>Dispositions\<close>

lemma commit_run [simp]:
  "wr_status (j_run (fst (commit p j e))) = nullish (rp_status p) (wr_status (j_run j))"
  "wr_commands (j_run (fst (commit p j e))) = wr_commands (j_run j)"
  "wr_input (j_run (fst (commit p j e))) = wr_input (j_run j)"
  "wr_runId (j_run (fst (commit p j e))) = wr_runId (j_run j)"
  "wr_output (j_run (fst (commit p j e))) = (case rp_output p of None \<Rightarrow> wr_output (j_run j) | Some v \<Rightarrow> Some v)"
  "wr_history (j_run (fst (commit p j e))) = wr_history (j_run j) @ nullish (rp_history p) []"
  "j_cursor (fst (commit p j e)) = j_cursor j"
  "store_load (wr_runId (j_run j)) (we_store (snd (commit p j e))) = Some (j_run (fst (commit p j e)))"
  "we_world (snd (commit p j e)) = we_world e" "we_captured (snd (commit p j e)) = we_captured e"
  by (simp_all add: commit_def Let_def case_prod_beta persist_def store_save_def store_load_def split: option.split)

lemma status_patch_simps [simp]:
  "rp_status (status_patch to out t s) = Some to" "rp_output (status_patch to out t s) = out"
  "rp_history (status_patch to out t s) = Some [RunStatusChanged t s to]"
  by (simp_all add: status_patch_def)

lemma resume_status_simps [simp]:
  "wr_commands (j_run (fst (resume_status j e))) = wr_commands (j_run j)"
  "wr_input (j_run (fst (resume_status j e))) = wr_input (j_run j)"
  "wr_runId (j_run (fst (resume_status j e))) = wr_runId (j_run j)"
  "wr_status (j_run (fst (resume_status j e))) = Running"
  "j_cursor (fst (resume_status j e)) = j_cursor j"
  "we_world (snd (resume_status j e)) = we_world e"
  by (simp_all add: resume_status_def case_prod_beta)

lemma finalize_completed_simps [simp]:
  "dr_status (fst (finalize_completed j v e)) = CompletedRun" "wr_status (dr_run (fst (finalize_completed j v e))) = CompletedRun"
  "dr_output (fst (finalize_completed j v e)) = Some v" "wr_output (dr_run (fst (finalize_completed j v e))) = Some v"
  "wr_commands (dr_run (fst (finalize_completed j v e))) = wr_commands (j_run j)"
  "wr_runId (dr_run (fst (finalize_completed j v e))) = wr_runId (j_run j)"
  "store_load (wr_runId (j_run j)) (we_store (snd (finalize_completed j v e))) = Some (dr_run (fst (finalize_completed j v e)))"
  "we_world (snd (finalize_completed j v e)) = we_world e"
  by (simp_all add: finalize_completed_def Let_def case_prod_beta)

lemma fail_run_simps [simp]:
  "dr_status (fst (fail_run j err e)) = FailedRun" "wr_status (dr_run (fst (fail_run j err e))) = FailedRun"
  "dr_error (fst (fail_run j err e)) = Some err"
  "wr_commands (dr_run (fst (fail_run j err e))) = wr_commands (j_run j)"
  "wr_runId (dr_run (fst (fail_run j err e))) = wr_runId (j_run j)"
  "wr_history (dr_run (fst (fail_run j err e))) = wr_history (j_run j) @ [RunStatusChanged (we_times e (we_reads e)) (wr_status (j_run j)) FailedRun]"
  "store_load (wr_runId (j_run j)) (we_store (snd (fail_run j err e))) = Some (dr_run (fst (fail_run j err e)))"
  "we_world (snd (fail_run j err e)) = we_world e"
  by (simp_all add: fail_run_def Let_def case_prod_beta)

section \<open>Replayed runs\<close>

lemma resume_status_history:
  "rollbacks_started (wr_history (j_run (fst (resume_status j e)))) = rollbacks_started (wr_history (j_run j))"
  by (simp add: resume_status_def case_prod_beta)

lemma new_journal_simps [simp]: "j_run (new_journal run) = run" "j_cursor (new_journal run) = 0"
  by (simp_all add: new_journal_def)

lemma run_from_start:
  assumes "residual p (wr_commands (j_run j)) = Some q" "j_cursor j = 0"
  shows "run_workflow p j e = run_workflow q (j\<lparr>j_cursor := length (wr_commands (j_run j))\<rparr>) e"
  using replay_skips [OF assms(1), of "j_run j" "[]" "[]" e] assms(2) by (cases j) simp

lemma drive_replayed:
  assumes "residual (fn (wr_input run)) (wr_commands run) = Some (Raise (Thrown err))" "drive undo fn run e = (r, e')"
  shows "dr_status r = FailedRun" "dr_error r = Some err" "we_world e' = we_world e"
    "rollbacks_started (wr_history (dr_run r)) = rollbacks_started (wr_history run)"
    "wr_commands (dr_run r) = wr_commands run" "store_load (wr_runId run) (we_store e') = Some (dr_run r)"
proof -
  obtain j e1 where s: "resume_status (new_journal run) e = (j, e1)" by fastforce
  then have j: "j = fst (resume_status (new_journal run) e)" "e1 = snd (resume_status (new_journal run) e)" by simp_all
  have res: "residual (fn (wr_input (j_run j))) (wr_commands (j_run j)) = Some (Raise (Thrown err))" "j_cursor j = 0"
    using assms(1) by (simp_all add: j)
  have d: "drive undo fn run e = fail_run (j\<lparr>j_cursor := length (wr_commands (j_run j))\<rparr>) err (e1\<lparr>we_captured := we_captured e\<rparr>)"
    by (simp add: drive_def s Let_def run_from_start [OF res] finalize_failure_def)
  define j1 e2 where "j1 = j\<lparr>j_cursor := length (wr_commands (j_run j))\<rparr>" and "e2 = e1\<lparr>we_captured := we_captured e\<rparr>"
  have r: "r = fst (fail_run j1 err e2)" "e' = snd (fail_run j1 err e2)" using assms(2) d by (simp_all add: j1_def e2_def)
  have j1: "j_run j1 = j_run j" "we_world e2 = we_world e" "wr_runId (j_run j) = wr_runId run" "wr_commands (j_run j) = wr_commands run"
    by (simp_all add: j1_def e2_def j)
  show "dr_status r = FailedRun" "dr_error r = Some err" "we_world e' = we_world e" "wr_commands (dr_run r) = wr_commands run"
    by (simp_all add: r j1)
  show "rollbacks_started (wr_history (dr_run r)) = rollbacks_started (wr_history run)"
    using resume_status_history [of "new_journal run" e] by (simp add: r j1 j)
  show "store_load (wr_runId run) (we_store e') = Some (dr_run r)"
    using fail_run_simps(7) [of j1 err e2] by (simp add: r j1)
qed

lemma drive_replayed_completion:
  assumes "residual (fn (wr_input run)) (wr_commands run) = Some (Finish v)" "drive undo fn run e = (r, e')"
  shows "dr_status r = CompletedRun" "dr_output r = Some v" "we_world e' = we_world e" "wr_commands (dr_run r) = wr_commands run"
    "store_load (wr_runId run) (we_store e') = Some (dr_run r)" "run_result (dr_run r) = Inr (Some v)"
proof -
  obtain j e1 where s: "resume_status (new_journal run) e = (j, e1)" by fastforce
  then have j: "j = fst (resume_status (new_journal run) e)" "e1 = snd (resume_status (new_journal run) e)" by simp_all
  have res: "residual (fn (wr_input (j_run j))) (wr_commands (j_run j)) = Some (Finish v)" "j_cursor j = 0"
    using assms(1) by (simp_all add: j)
  define j1 e2 where "j1 = j\<lparr>j_cursor := length (wr_commands (j_run j))\<rparr>" and "e2 = e1\<lparr>we_captured := we_captured e\<rparr>"
  have d: "drive undo fn run e = finalize_completed j1 v e2"
    by (simp add: drive_def s Let_def run_from_start [OF res] j1_def e2_def)
  have r: "r = fst (finalize_completed j1 v e2)" "e' = snd (finalize_completed j1 v e2)" using assms(2) d by simp_all
  have j1: "j_run j1 = j_run j" "we_world e2 = we_world e" "wr_runId (j_run j) = wr_runId run" "wr_commands (j_run j) = wr_commands run"
    by (simp_all add: j1_def e2_def j)
  show "dr_status r = CompletedRun" "dr_output r = Some v" "we_world e' = we_world e" "wr_commands (dr_run r) = wr_commands run"
    "run_result (dr_run r) = Inr (Some v)"
    by (simp_all add: r j1 run_result_def)
  show "store_load (wr_runId run) (we_store e') = Some (dr_run r)"
    using finalize_completed_simps(7) [of j1 v e2] by (simp add: r j1)
qed

section \<open>Failing with compensations\<close>

lemma register_one: "map_of (cp_registrations (register n r v c)) = map_of [(n, (r, v))] ++ map_of (cp_registrations c)"
proof (cases "list_ex (\<lambda>r. fst r = n) (cp_registrations c)")
  case True
  then have "n \<in> dom (map_of (cp_registrations c))" by (auto simp: list_ex_iff dom_map_of_conv_image_fst)
  with True show ?thesis by (auto simp: register_def map_add_def fun_eq_iff split: option.split)
next
  case False
  then have "n \<notin> dom (map_of (cp_registrations c))" by (auto simp: list_ex_iff dom_map_of_conv_image_fst)
  with False show ?thesis by (auto simp: register_def map_add_def fun_eq_iff split: option.split)
qed

definition registered :: "'v compensator \<Rightarrow> 'v registration list \<Rightarrow> 'v compensator" where
  "registered c rs = foldl (\<lambda>c (seq, rollback, output). register seq rollback output c) c rs"

lemma register_all:
  "map_of (cp_registrations (registered c rs)) = map_of rs ++ map_of (cp_registrations c) \<and> cp_run (registered c rs) = cp_run c"
proof (induction rs arbitrary: c)
  case (Cons x rs)
  obtain n r v where x: "x = (n, r, v)" by (cases x)
  have "cp_run (register n r v c) = cp_run c" by (simp add: register_def)
  then show ?case using Cons [of "register n r v c"]
    by (simp add: registered_def x register_one map_add_def fun_eq_iff split: option.split)
qed (simp add: registered_def)

lemma finalize_rolls_back:
  assumes "logs undo fails" "\<exists>k \<in> set (wr_commands (j_run j)). is_target compensations k"
    and run: "finalize_failure undo j compensations err e = (r, e')"
  shows "dr_status r = Compensated"
    "we_world e' = we_world e @ map (rollback_of compensations) (sort_commands (filter (is_target compensations) (wr_commands (j_run j))))"
    "store_load (wr_runId (j_run j)) (we_store e') = Some (dr_run r)" "wr_status (dr_run r) = Compensated"
proof -
  define c where "c = registered (new_compensator (j_run j)) compensations"
  have m: "map_of (cp_registrations c) = map_of compensations" "cp_run c = j_run j"
    using register_all [of "new_compensator (j_run j)" compensations] by (simp_all add: c_def new_compensator_def)
  have t: "is_target (cp_registrations c) = is_target compensations" "rollback_of (cp_registrations c) = rollback_of compensations"
    by (simp_all add: fun_eq_iff is_target_def map_has_def rollback_of_def m)
  have ts: "targets_of c = sort_commands (filter (is_target compensations) (wr_commands (j_run j)))"
    by (simp add: targets_of_def t m)
  have ne: "targets_of c \<noteq> []" using assms(2) by (auto simp: ts filter_empty_conv)
  have "compensations \<noteq> []" using assms(2) by (auto simp: is_target_def map_has_def)
  moreover obtain c' e1 where k: "compensate undo c e = (c', e1)" by fastforce
  ultimately have r: "r = \<lparr>dr_run = cp_run c', dr_status = Compensated, dr_output = None, dr_error = None\<rparr>" "e' = e1"
    using run compensate_rolls_back(1) [OF ne assms(1) k] by (simp_all add: finalize_failure_def c_def registered_def Let_def)
  note rolled = compensate_rolls_back [OF ne assms(1) k]
  show "dr_status r = Compensated" "wr_status (dr_run r) = Compensated"
    "we_world e' = we_world e @ map (rollback_of compensations) (sort_commands (filter (is_target compensations) (wr_commands (j_run j))))"
    "store_load (wr_runId (j_run j)) (we_store e') = Some (dr_run r)"
    using rolled by (simp_all add: r ts t m)
qed

section \<open>The engine's guards\<close>

lemma drive_existing_skips:
  "store_load runId (we_store e) = Some run \<Longrightarrow> wr_status run \<in> set TERMINAL \<or> wr_status run = Paused \<Longrightarrow>
   drive_existing undo registry runId e = e"
  by (auto simp: drive_existing_def)

lemma terminal_stays:
  assumes "store_load runId (we_store (eg_env g)) = Some run" "wr_status run \<in> set TERMINAL"
  shows "snd (engine_resume undo runId g) = g" "pause_run runId g = g" "cancel_run runId g = g"
    "snd (signal_run undo runId name payload g) = g" "drive_existing undo registry runId (eg_env g) = eg_env g"
  using assms drive_existing_skips [OF assms(1), of undo registry]
  by (auto simp: engine_resume_def pause_run_def cancel_run_def signal_run_def deliver_signal_def TERMINAL_def)

lemma paused_stays:
  assumes "store_load runId (we_store (eg_env g)) = Some run" "wr_status run = Paused"
  shows "engine_resume undo runId g = (Inr runId, g)"
  using assms drive_existing_skips [OF assms(1), of undo "eg_registry g"]
  by (simp add: engine_resume_def TERMINAL_def)

text \<open>A live command persists the journal's snapshot, whatever was saved while its effect ran.\<close>

lemma live_command_overwrites:
  assumes "sp_execute spec (wr_nextSeq (j_run j)) (fst (read_clock e)) (j_run j) (snd (read_clock e)) = (Inr oc, e1)"
    "length (wr_commands (j_run j)) \<le> j_cursor j" "process spec j e = (r, j', e')"
  shows "store_load (wr_runId (j_run j)) (we_store e') = Some (j_run j')"
    "wr_status (j_run j') = nullish (oc_runStatus oc) (wr_status (j_run j))"
    "wr_pendingSignals (j_run j') = wr_pendingSignals (j_run j)"
proof -
  have p: "process spec j e = settle_live spec (wr_nextSeq (j_run j)) (fst (read_clock e)) None oc j e1"
    using assms(1,2) by (simp add: process_def Let_def case_prod_beta)
  show "store_load (wr_runId (j_run j)) (we_store e') = Some (j_run j')"
    "wr_status (j_run j') = nullish (oc_runStatus oc) (wr_status (j_run j))"
    "wr_pendingSignals (j_run j') = wr_pendingSignals (j_run j)"
    using assms(3) unfolding p
    by (cases "oc_settled oc"; auto simp: settle_live_def Let_def case_prod_beta persist_def store_save_def store_load_def)+
qed

section \<open>A run that sleeps\<close>

text \<open>The drives of a run, one after the other, each from the snapshot the one before it left.\<close>

fun redrive ::
    "(string \<Rightarrow> ('v, 'w) rollback) \<Rightarrow> ('v \<Rightarrow> ('v, 'w) workflow) \<Rightarrow> nat \<Rightarrow> 'v workflow_run \<times> ('v, 'w) wenv \<Rightarrow>
     'v workflow_run \<times> ('v, 'w) wenv" where
  "redrive undo fn 0 c = c"
| "redrive undo fn (Suc n) c =
     redrive undo fn n (dr_run (fst (drive undo fn (fst c) (snd c))), snd (drive undo fn (fst c) (snd c)))"

definition asleep :: "'v workflow_run \<Rightarrow> bool" where
  "asleep run \<longleftrightarrow> wr_commands run = [] \<or> (\<exists>c. wr_commands run = [c] \<and> cr_status c = CsWaiting)"

lemma sleep_parks_again:
  assumes "asleep (j_run j)" "j_cursor j = 0" "0 < d"
  shows "\<exists>seq t j' e'. process (sleep_command u d) j e = (Inl (Suspension seq Sleep None t), j', e') \<and>
    asleep (j_run j') \<and> wr_status (j_run j') = WaitingRun \<and> we_world e' = we_world e"
  using assms
  by (auto simp: asleep_def process_def Let_def case_prod_beta sleep_command_def timer_outcome_def settle_live_def plain_outcome_def
      build_record_def)

lemma drive_sleeps:
  assumes "asleep run" "0 < d" "\<And>seq k w t. f (Inl (Suspension seq k w t)) = Raise (Suspension seq k w t)"
  shows "asleep (dr_run (fst (drive undo (\<lambda>i. Command (sleep_command u d) f) run e)))"
    "wr_status (dr_run (fst (drive undo (\<lambda>i. Command (sleep_command u d) f) run e))) = WaitingRun"
    "we_world (snd (drive undo (\<lambda>i. Command (sleep_command u d) f) run e)) = we_world e"
proof -
  obtain j e1 where s: "resume_status (new_journal run) e = (j, e1)" by fastforce
  then have j: "j = fst (resume_status (new_journal run) e)" "e1 = snd (resume_status (new_journal run) e)" by simp_all
  have "asleep (j_run j)" "j_cursor j = 0" using assms(1) by (simp_all add: j asleep_def)
  from sleep_parks_again [OF this assms(2), of u "e1\<lparr>we_captured := []\<rparr>"] obtain seq t j' e' where
    p: "process (sleep_command u d) j (e1\<lparr>we_captured := []\<rparr>) = (Inl (Suspension seq Sleep None t), j', e')"
      "asleep (j_run j')" "wr_status (j_run j') = WaitingRun" "we_world e' = we_world e1" by auto
  have "we_world e1 = we_world e" by (simp add: j)
  with p show "asleep (dr_run (fst (drive undo (\<lambda>i. Command (sleep_command u d) f) run e)))"
    "wr_status (dr_run (fst (drive undo (\<lambda>i. Command (sleep_command u d) f) run e))) = WaitingRun"
    "we_world (snd (drive undo (\<lambda>i. Command (sleep_command u d) f) run e)) = we_world e"
    by (simp_all add: drive_def s Let_def assms(3))
qed

lemma redrive_sleeps:
  assumes "0 < d" "\<And>seq k w t. f (Inl (Suspension seq k w t)) = Raise (Suspension seq k w t)"
  shows "asleep (fst c) \<Longrightarrow> 0 < n \<Longrightarrow>
    wr_status (fst (redrive undo (\<lambda>i. Command (sleep_command u d) f) n c)) = WaitingRun \<and>
    we_world (snd (redrive undo (\<lambda>i. Command (sleep_command u d) f) n c)) = we_world (snd c)"
proof (induction n arbitrary: c)
  case (Suc n)
  let ?fn = "\<lambda>i. Command (sleep_command u d) f"
  let ?c = "(dr_run (fst (drive undo ?fn (fst c) (snd c))), snd (drive undo ?fn (fst c) (snd c)))"
  note d = drive_sleeps [OF Suc.prems(1) assms, of undo u "snd c"]
  show ?case
  proof (cases n)
    case 0
    with d show ?thesis by simp
  next
    case (Suc m)
    with Suc.IH [of ?c] d show ?thesis by simp
  qed
qed simp

end
