(* ===== verification/Durations.thy ===== *)
theory Durations
  imports Prelude
begin

text \<open>
  Human-readable durations: \<open>parseWindow\<close> of \<open>packages/ratelimit/src/ratelimit.ts\<close>, which the queue, the
  rate limiters and the worker options share.  A finite \<open>number | string\<close> argument is a \<open>duration\<close>.  The pattern
  \<open>WINDOW_RE\<close> is deterministic (a unit starts with neither a digit nor a dot), so its match is the function
  \<open>window_match\<close>.  \<open>Number.parseFloat\<close> is taken exactly; a literal too large for a double is not modelled.
\<close>

datatype duration = Ms jsnum | Human string

definition invalid_window :: js_error where
  "invalid_window = JsError ''Error'' ''Invalid rate-limit window''"

definition window_unit_ms :: "string \<Rightarrow> jsnum option" where
  "window_unit_ms u =
     (if u = ''ms'' then Some 1
      else if u = ''s'' then Some 1000
      else if u = ''m'' then Some 60000
      else if u = ''h'' then Some 3600000
      else if u = ''d'' then Some 86400000
      else None)"

definition window_match :: "string \<Rightarrow> (jsnum \<times> jsnum) option" where
  "window_match s =
     (let ds = takeWhile is_digit s; r1 = dropWhile is_digit s;
          (frac, r2) = (case r1 of
             CHR ''.'' # r \<Rightarrow>
               (if takeWhile is_digit r = [] then ([], r1) else (takeWhile is_digit r, dropWhile is_digit r))
           | _ \<Rightarrow> ([], r1));
          v = of_nat (digits_value 0 ds) + of_nat (digits_value 0 frac) / 10 ^ length frac
      in if ds = [] then None
         else if r2 = [] then Some (v, 1)
         else map_option (\<lambda>u. (v, u)) (window_unit_ms (to_lower r2)))"

definition parse_window_number :: "jsvalue \<Rightarrow> js_error + int" where
  "parse_window_number w =
     (case w of
        Fin x \<Rightarrow> if x \<le> 0 then Inl invalid_window else Inr (floor x)
      | _ \<Rightarrow> Inl invalid_window)"

definition parse_window_string :: "string \<Rightarrow> js_error + int" where
  "parse_window_string s =
     (case window_match (trim s) of
        None \<Rightarrow> Inl invalid_window
      | Some (v, u) \<Rightarrow> (let ms = v * u in if ms \<le> 0 then Inl invalid_window else Inr (floor ms)))"

definition parse_window :: "duration \<Rightarrow> js_error + int" where
  "parse_window w =
     (case w of Ms x \<Rightarrow> parse_window_number (Fin x) | Human s \<Rightarrow> parse_window_string s)"

lemma window_unit_pos: "window_unit_ms u = Some m \<Longrightarrow> 1 \<le> m"
  by (auto simp: window_unit_ms_def split: if_splits)

lemma window_match_nonneg:
  assumes "window_match s = Some (v, u)"
  shows "0 \<le> v \<and> 1 \<le> u"
proof -
  have nn: "0 \<le> (of_nat a + of_nat b / 10 ^ c :: jsnum)" for a b c :: nat by simp
  show ?thesis
    using assms window_unit_pos nn
    by (auto simp: window_match_def Let_def split: if_splits prod.splits list.splits)
qed

text \<open>A parsed window is never negative; sub-millisecond windows such as \<open>0.5ms\<close> become 0.\<close>

lemma parse_window_nonneg: "parse_window w = Inr n \<Longrightarrow> 0 \<le> n"
  by (auto simp: parse_window_def parse_window_number_def parse_window_string_def Let_def
      split: duration.splits jsvalue.splits if_splits option.splits)

lemma parse_window_examples:
  "parse_window (Human ''5m'') = Inr 300000"
  "parse_window (Human ''1.5h'') = Inr 5400000"
  "parse_window (Human '' 500ms '') = Inr 500"
  "parse_window (Human ''1000'') = Inr 1000"
  "parse_window (Human ''0s'') = Inl invalid_window"
  "parse_window (Human ''1.h'') = Inl invalid_window"
  "parse_window_number NaN = Inl invalid_window"
  by (simp_all add: parse_window_def parse_window_number_def parse_window_string_def window_match_def window_unit_ms_def str_eval)

end
