(* ===== verification/BinaryHeap.thy ===== *)
theory BinaryHeap
  imports Prelude
begin

text \<open>
  The binary heap of the in-process queue driver, \<open>packages/queue/src/drivers/memory.ts\<close>, class
  \<open>BinaryHeap\<close>: an array \<open>items\<close> in which position \<open>i\<close> has its children at \<open>2i + 1\<close> and \<open>2i + 2\<close>, ordered by a
  comparator with \<open>compare a b < 0\<close> when \<open>a\<close> leaves first.  The loops of \<open>push\<close> and \<open>siftDown\<close> are the
  functions \<open>sift_up\<close> and \<open>sift_down\<close>.

  The locale \<open>comparator\<close> is the contract a comparator has to meet (its sign is a total preorder); inside it the
  heap order is an invariant of \<open>push\<close> and \<open>pop\<close>, and \<open>pop\<close> takes a least element of the multiset of
  items.  The driver's two comparators interpret it in theory \<open>MemoryDriver\<close>.
\<close>

section \<open>Model\<close>

type_synonym 'a comparison = "'a \<Rightarrow> 'a \<Rightarrow> jsnum"

definition swap :: "'a list \<Rightarrow> nat \<Rightarrow> nat \<Rightarrow> 'a list" where
  "swap xs i j = xs[i := xs ! j, j := xs ! i]"

definition heap_size :: "'a list \<Rightarrow> nat" where
  "heap_size items = length items"

definition heap_peek :: "'a list \<Rightarrow> 'a option" where
  "heap_peek items = (case items of [] \<Rightarrow> None | x # _ \<Rightarrow> Some x)"

fun sift_up :: "'a comparison \<Rightarrow> 'a list \<Rightarrow> nat \<Rightarrow> 'a list" where
  "sift_up compare items i =
     (if 0 < i then
        let parent = (i - 1) div 2 in
        if compare (items ! i) (items ! parent) < 0
        then sift_up compare (swap items i parent) parent
        else items
      else items)"

definition heap_push :: "'a comparison \<Rightarrow> 'a \<Rightarrow> 'a list \<Rightarrow> 'a list" where
  "heap_push compare x items = sift_up compare (items @ [x]) (length items)"

definition smallest_child :: "'a comparison \<Rightarrow> 'a list \<Rightarrow> nat \<Rightarrow> nat" where
  "smallest_child compare items i =
     (let n = length items; left = 2 * i + 1; right = 2 * i + 2;
          smallest = (if left < n \<and> compare (items ! left) (items ! i) < 0 then left else i)
      in if right < n \<and> compare (items ! right) (items ! smallest) < 0 then right else smallest)"

lemma smallest_child_bounds:
  "smallest_child c xs i = i \<or> i < smallest_child c xs i \<and> smallest_child c xs i < length xs"
  by (auto simp: smallest_child_def Let_def)

lemma length_swap [simp]: "length (swap xs i j) = length xs"
  by (simp add: swap_def)

function sift_down :: "'a comparison \<Rightarrow> 'a list \<Rightarrow> nat \<Rightarrow> 'a list" where
  "sift_down compare items i =
     (let smallest = smallest_child compare items i in
      if smallest = i then items
      else sift_down compare (swap items i smallest) smallest)"
  by pat_completeness auto
termination
proof (relation "measure (\<lambda>(c, xs, i). length xs - i)", goal_cases)
  case 1
  then show ?case by simp
next
  case (2 c xs i s)
  then show ?case using smallest_child_bounds [of c xs i] by auto
qed

definition heap_pop :: "'a comparison \<Rightarrow> 'a list \<Rightarrow> ('a \<times> 'a list) option" where
  "heap_pop compare items =
     (case items of
        [] \<Rightarrow> None
      | x # _ \<Rightarrow>
          (let rest = butlast items in
           Some (x, if rest \<noteq> [] then sift_down compare (rest[0 := last items]) 0 else rest)))"

declare sift_up.simps [simp del] sift_down.simps [simp del]

lemma length_sift_down [simp]: "length (sift_down c xs i) = length xs"
proof (induction c xs i rule: sift_down.induct)
  case (1 c xs i)
  then show ?case by (subst sift_down.simps) (simp add: Let_def)
qed

lemma heap_pop_shorter: "heap_pop c xs = Some (x, ys) \<Longrightarrow> length ys < length xs"
  by (auto simp: heap_pop_def Let_def split: list.splits if_splits)

function heap_drain_while :: "'a comparison \<Rightarrow> ('a \<Rightarrow> bool) \<Rightarrow> 'a list \<Rightarrow> 'a list \<times> 'a list" where
  "heap_drain_while compare p items =
     (case items of
        [] \<Rightarrow> ([], [])
      | x # _ \<Rightarrow>
          if p x then
            (case heap_pop compare items of
               None \<Rightarrow> ([], items)
             | Some (y, rest) \<Rightarrow>
                 (let (drained, rest') = heap_drain_while compare p rest in (y # drained, rest')))
          else ([], items))"
  by pat_completeness auto
termination
  by (relation "measure (\<lambda>(c, p, xs). length xs)") (auto dest: heap_pop_shorter)

declare heap_drain_while.simps [simp del]

section \<open>Lengths and contents\<close>

lemma swap_mset: "i < length xs \<Longrightarrow> j < length xs \<Longrightarrow> mset (swap xs i j) = mset xs"
  unfolding swap_def by (rule list_update_swap_mset)

lemma swap_nth:
  "i < length xs \<Longrightarrow> j < length xs \<Longrightarrow>
   swap xs i j ! k = (if k = j then xs ! i else if k = i then xs ! j else xs ! k)"
  by (simp add: swap_def nth_list_update)

lemma length_sift_up [simp]: "length (sift_up c xs i) = length xs"
proof (induction c xs i rule: sift_up.induct)
  case (1 c xs i)
  then show ?case by (subst sift_up.simps) (simp add: Let_def)
qed

lemma mset_sift_up: "i < length xs \<Longrightarrow> mset (sift_up c xs i) = mset xs"
proof (induction c xs i rule: sift_up.induct)
  case (1 c xs i)
  have p: "(i - 1) div 2 < length xs" using 1(2) by linarith
  show ?case
    using 1 p by (subst sift_up.simps) (auto simp: Let_def swap_mset)
qed

lemma mset_heap_push [simp]: "mset (heap_push c x xs) = add_mset x (mset xs)"
  by (simp add: heap_push_def mset_sift_up)

lemma length_heap_push [simp]: "length (heap_push c x xs) = Suc (length xs)"
  by (simp add: heap_push_def)

lemma mset_sift_down: "mset (sift_down c xs i) = mset xs"
proof (induction c xs i rule: sift_down.induct)
  case (1 c xs i)
  show ?case
  proof (cases "smallest_child c xs i = i")
    case True
    then show ?thesis by (subst sift_down.simps) simp
  next
    case False
    then have "smallest_child c xs i < length xs" "i < length xs"
      using smallest_child_bounds [of c xs i] by auto
    with False 1 show ?thesis by (subst sift_down.simps) (simp add: Let_def swap_mset)
  qed
qed

lemma heap_pop_None [simp]: "heap_pop c xs = None \<longleftrightarrow> xs = []"
  by (auto simp: heap_pop_def Let_def split: list.splits)

lemma heap_pop_Nil [simp]: "heap_pop c [] = None"
  by simp

lemma mset_butlast_last: "xs \<noteq> [] \<Longrightarrow> mset xs = add_mset (last xs) (mset (butlast xs))"
  by (metis append_butlast_last_id mset.simps(1) mset.simps(2) mset_append union_mset_add_mset_right add.right_neutral)

lemma mset_heap_pop: "heap_pop c xs = Some (x, ys) \<Longrightarrow> mset xs = add_mset x (mset ys)"
proof -
  assume "heap_pop c xs = Some (x, ys)"
  then obtain zs where xs: "xs = x # zs"
    and ys: "ys = (if butlast xs \<noteq> [] then sift_down c ((butlast xs)[0 := last xs]) 0 else butlast xs)"
    by (auto simp: heap_pop_def Let_def split: list.splits)
  show ?thesis
  proof (cases "zs = []")
    case True
    with xs ys show ?thesis by simp
  next
    case False
    then have "butlast xs = x # butlast zs" "last xs = last zs" by (simp_all add: xs)
    with ys have "mset ys = add_mset (last zs) (mset (butlast zs))" by (simp add: mset_sift_down)
    with False show ?thesis by (simp add: xs mset_butlast_last [of zs])
  qed
qed

lemma heap_pop_top: "heap_pop c xs = Some (x, ys) \<Longrightarrow> x = xs ! 0"
  by (auto simp: heap_pop_def Let_def split: list.splits)

section \<open>Comparators and the heap order\<close>

text \<open>
  The heap order at a position says that the comparator does not put the item before its parent.
  \<open>heap_up_to\<close> is the order with one position exempt, the invariant of the loop of \<open>push\<close>.
\<close>

definition heap_ok :: "'a comparison \<Rightarrow> 'a list \<Rightarrow> bool" where
  "heap_ok c xs \<longleftrightarrow> (\<forall>k. 0 < k \<and> k < length xs \<longrightarrow> \<not> c (xs ! k) (xs ! ((k - 1) div 2)) < 0)"

definition heap_up_to :: "'a comparison \<Rightarrow> 'a list \<Rightarrow> nat \<Rightarrow> bool" where
  "heap_up_to c xs i \<longleftrightarrow>
     (\<forall>k. 0 < k \<and> k < length xs \<and> k \<noteq> i \<longrightarrow> \<not> c (xs ! k) (xs ! ((k - 1) div 2)) < 0) \<and>
     (0 < i \<longrightarrow> (\<forall>k. k < length xs \<and> 0 < k \<and> (k - 1) div 2 = i \<longrightarrow> \<not> c (xs ! k) (xs ! ((i - 1) div 2)) < 0))"

definition heap_down_from :: "'a comparison \<Rightarrow> 'a list \<Rightarrow> nat \<Rightarrow> bool" where
  "heap_down_from c xs i \<longleftrightarrow>
     (\<forall>k. 0 < k \<and> k < length xs \<and> (k - 1) div 2 \<noteq> i \<longrightarrow> \<not> c (xs ! k) (xs ! ((k - 1) div 2)) < 0) \<and>
     (0 < i \<longrightarrow> (\<forall>k. k < length xs \<and> 0 < k \<and> (k - 1) div 2 = i \<longrightarrow> \<not> c (xs ! k) (xs ! ((i - 1) div 2)) < 0))"

lemma heap_ok_Nil [simp]: "heap_ok c []"
  by (simp add: heap_ok_def)

lemma heap_ok_butlast: "heap_ok c xs \<Longrightarrow> heap_down_from c ((butlast xs)[0 := x]) 0"
  by (auto simp: heap_ok_def heap_down_from_def nth_butlast nth_list_update)

lemma heap_ok_append: "heap_ok c xs \<Longrightarrow> heap_up_to c (xs @ [x]) (length xs)"
  unfolding heap_ok_def heap_up_to_def
proof (intro conjI allI impI, goal_cases)
  case (1 k)
  then have "k < length xs" "(k - 1) div 2 < length xs" by auto
  with 1 show ?case by (simp add: nth_append)
next
  case (2 k)
  then show ?case by auto
qed

locale comparator =
  fixes compare :: "'a comparison"
  assumes asym: "compare a b < 0 \<Longrightarrow> \<not> compare b a < 0"
    and trans: "\<not> compare b a < 0 \<Longrightarrow> \<not> compare c b < 0 \<Longrightarrow> \<not> compare c a < 0"
begin

lemma up_swap:
  assumes "0 < i" "i < length xs" "heap_up_to compare xs i" "compare (xs ! i) (xs ! ((i - 1) div 2)) < 0"
  shows "heap_up_to compare (swap xs i ((i - 1) div 2)) ((i - 1) div 2)"
proof -
  define p where "p = (i - 1) div 2"
  have p: "p < i" "p < length xs" using assms(1,2) by (auto simp: p_def)
  have pp: "(i - Suc 0) div 2 = p" by (simp add: p_def)
  note nth = swap_nth [OF assms(2) p(2)]
  have lt: "compare (xs ! i) (xs ! p) < 0" using assms(4) by (simp add: p_def)
  have ord: "\<not> compare (xs ! k) (xs ! ((k - 1) div 2)) < 0" if "0 < k" "k < length xs" "k \<noteq> i" for k
    using assms(3) that by (auto simp: heap_up_to_def)
  have chl: "\<not> compare (xs ! k) (xs ! p) < 0" if "0 < k" "k < length xs" "(k - 1) div 2 = i" for k
    using assms(1,3) that by (auto simp: heap_up_to_def p_def)
  have le: "\<not> compare (xs ! p) (xs ! i) < 0" using lt by (rule asym)
  show ?thesis
    unfolding p_def [symmetric] heap_up_to_def length_swap
  proof (intro conjI allI impI, goal_cases)
    case (1 k)
    consider "k = i" | "k \<noteq> i" "(k - 1) div 2 = i" | "k \<noteq> i" "(k - 1) div 2 = p"
      | "k \<noteq> i" "(k - 1) div 2 \<noteq> i" "(k - 1) div 2 \<noteq> p" by blast
    then show ?case
    proof cases
      case 1
      then show ?thesis using le p pp by (simp add: nth)
    next
      case 2
      then show ?thesis using 1 chl p by (auto simp: nth)
    next
      case 3
      then have "\<not> compare (xs ! k) (xs ! p) < 0" using 1 ord by auto
      with asym [OF lt] have "\<not> compare (xs ! k) (xs ! i) < 0" by (metis trans asym lt)
      then show ?thesis using 1 3 p by (auto simp: nth)
    next
      case 4
      then show ?thesis using 1 ord by (auto simp: nth)
    qed
  next
    case (2 k)
    define q where "q = (p - 1) div 2"
    have q: "q < p" "(p - Suc 0) div 2 = q" using 2(1) by (auto simp: q_def)
    have pq: "\<not> compare (xs ! p) (xs ! q) < 0" using ord [of p] 2(1) p by (auto simp: q_def)
    show ?case
    proof (cases "k = i")
      case True
      then show ?thesis using pq q p by (simp add: nth)
    next
      case False
      then have "\<not> compare (xs ! k) (xs ! p) < 0" using 2 ord [of k] by auto
      with pq have "\<not> compare (xs ! k) (xs ! q) < 0" by (rule trans)
      then show ?thesis using False 2 q p by (auto simp: nth)
    qed
  qed
qed

lemma heap_ok_sift_up: "i < length xs \<Longrightarrow> heap_up_to compare xs i \<Longrightarrow> heap_ok compare (sift_up compare xs i)"
proof (induction i arbitrary: xs rule: less_induct)
  case (less i)
  show ?case
  proof (cases "0 < i \<and> compare (xs ! i) (xs ! ((i - 1) div 2)) < 0")
    case True
    then have "heap_up_to compare (swap xs i ((i - 1) div 2)) ((i - 1) div 2)"
      using less.prems up_swap by blast
    moreover have "(i - 1) div 2 < i" "(i - 1) div 2 < length xs" using True less.prems(1) by auto
    ultimately show ?thesis
      using True less.IH [of "(i - 1) div 2" "swap xs i ((i - 1) div 2)"]
      by (subst sift_up.simps) (simp add: Let_def)
  next
    case False
    then have "sift_up compare xs i = xs" by (subst sift_up.simps) (auto simp: Let_def)
    moreover have "heap_ok compare xs"
      using False less.prems(2) by (auto simp: heap_ok_def heap_up_to_def)
    ultimately show ?thesis by simp
  qed
qed

lemma heap_ok_push: "heap_ok compare xs \<Longrightarrow> heap_ok compare (heap_push compare x xs)"
  unfolding heap_push_def by (rule heap_ok_sift_up) (auto intro: heap_ok_append)

lemma child_cases: "0 < (k::nat) \<Longrightarrow> (k - 1) div 2 = i \<Longrightarrow> k = 2 * i + 1 \<or> k = 2 * i + 2"
  by arith

lemma smallest_self:
  "smallest_child compare xs i = i \<Longrightarrow> 0 < k \<Longrightarrow> k < length xs \<Longrightarrow> (k - 1) div 2 = i \<Longrightarrow>
   \<not> compare (xs ! k) (xs ! i) < 0"
  by (drule child_cases, assumption) (auto simp: smallest_child_def Let_def split: if_splits)

lemma smallest_lt:
  "smallest_child compare xs i \<noteq> i \<Longrightarrow> compare (xs ! smallest_child compare xs i) (xs ! i) < 0"
proof -
  assume ne: "smallest_child compare xs i \<noteq> i"
  have "compare (xs ! b) (xs ! a) < 0 \<Longrightarrow> compare (xs ! a) (xs ! i) < 0 \<Longrightarrow> compare (xs ! b) (xs ! i) < 0" for a b
    using asym trans by blast
  with ne show ?thesis by (auto simp: smallest_child_def Let_def split: if_splits)
qed

lemma smallest_le:
  "smallest_child compare xs i \<noteq> i \<Longrightarrow> 0 < k \<Longrightarrow> k < length xs \<Longrightarrow> (k - 1) div 2 = i \<Longrightarrow>
   \<not> compare (xs ! k) (xs ! smallest_child compare xs i) < 0"
proof (drule child_cases, assumption)
  assume "k = 2 * i + 1 \<or> k = 2 * i + 2" "k < length xs" and ne: "smallest_child compare xs i \<noteq> i"
  moreover have "\<not> compare y y < 0" for y using asym by blast
  moreover have "\<not> compare (xs ! (2 * i + 1)) (xs ! (2 * i + 2)) < 0"
    if "compare (xs ! (2 * i + 2)) (xs ! (2 * i + 1)) < 0" using asym that by blast
  moreover have "\<not> compare (xs ! (2 * i + 1)) (xs ! (2 * i + 2)) < 0"
    if "\<not> compare (xs ! (2 * i + 1)) (xs ! i) < 0" "compare (xs ! (2 * i + 2)) (xs ! i) < 0"
    using asym trans that by blast
  ultimately show ?thesis by (auto simp: smallest_child_def Let_def split: if_splits)
qed

lemma down_swap:
  assumes "heap_down_from compare xs i" "smallest_child compare xs i \<noteq> i"
  shows "heap_down_from compare (swap xs i (smallest_child compare xs i)) (smallest_child compare xs i)"
proof -
  define s where "s = smallest_child compare xs i"
  have s: "i < s" "s < length xs" using smallest_child_bounds [of compare xs i] assms(2) by (auto simp: s_def)
  have si: "0 < s" "(s - 1) div 2 = i"
    using s assms(2) by (auto simp: s_def smallest_child_def Let_def split: if_splits)
  have "i < length xs" using s by simp
  note nth = swap_nth [OF this s(2)]
  have ord: "\<not> compare (xs ! k) (xs ! ((k - 1) div 2)) < 0" if "0 < k" "k < length xs" "(k - 1) div 2 \<noteq> i" for k
    using assms(1) that by (auto simp: heap_down_from_def)
  have chl: "\<not> compare (xs ! k) (xs ! ((i - 1) div 2)) < 0" if "0 < i" "0 < k" "k < length xs" "(k - 1) div 2 = i" for k
    using assms(1) that by (auto simp: heap_down_from_def)
  have lt: "\<not> compare (xs ! i) (xs ! s) < 0" unfolding s_def by (rule asym) (rule smallest_lt [OF assms(2)])
  have le: "\<not> compare (xs ! k) (xs ! s) < 0" if "0 < k" "k < length xs" "(k - 1) div 2 = i" for k
    using smallest_le [OF assms(2) that] by (simp add: s_def)
  show ?thesis
    unfolding s_def [symmetric] heap_down_from_def length_swap
  proof (intro conjI allI impI, goal_cases)
    case (1 k)
    consider "k = s" | "k = i" | "k \<noteq> s" "k \<noteq> i" "(k - 1) div 2 = i" | "k \<noteq> s" "k \<noteq> i" "(k - 1) div 2 \<noteq> i" by blast
    then show ?case
    proof cases
      case 1
      then show ?thesis using lt si s by (simp add: nth)
    next
      case 2
      then have q: "0 < i" "(i - 1) div 2 < i" using 1 by auto
      then show ?thesis using 2 chl [of s] si s by (simp add: nth)
    next
      case 3
      then show ?thesis using 1 le s by (auto simp: nth)
    next
      case 4
      then show ?thesis using 1 ord [of k] by (auto simp: nth)
    qed
  next
    case (2 k)
    then have "s < k" by auto
    moreover have "\<not> compare (xs ! k) (xs ! s) < 0" using ord [of k] 2 s by auto
    ultimately show ?case using 2 si s by (auto simp: nth)
  qed
qed

lemma heap_ok_sift_down: "heap_down_from compare xs i \<Longrightarrow> heap_ok compare (sift_down compare xs i)"
proof (induction "length xs - i" arbitrary: xs i rule: less_induct)
  case less
  let ?s = "smallest_child compare xs i"
  show ?case
  proof (cases "?s = i")
    case True
    have "heap_ok compare xs"
      unfolding heap_ok_def
    proof (intro allI impI)
      fix k
      assume k: "0 < k \<and> k < length xs"
      show "\<not> compare (xs ! k) (xs ! ((k - 1) div 2)) < 0"
      proof (cases "(k - 1) div 2 = i")
        case True
        then show ?thesis using k smallest_self [OF \<open>?s = i\<close>] by simp
      next
        case False
        then show ?thesis using k less.prems by (simp add: heap_down_from_def)
      qed
    qed
    with True show ?thesis by (subst sift_down.simps) simp
  next
    case False
    then have "i < ?s" "?s < length xs" using smallest_child_bounds [of compare xs i] by auto
    then have "heap_ok compare (sift_down compare (swap xs i ?s) ?s)"
      by (intro less.hyps down_swap less.prems False) auto
    with False show ?thesis by (subst sift_down.simps) (simp add: Let_def)
  qed
qed

lemma heap_ok_singleton [simp]: "length xs \<le> 1 \<Longrightarrow> heap_ok compare xs"
  by (auto simp: heap_ok_def)

lemma heap_ok_pop:
  assumes "heap_ok compare xs" "heap_pop compare xs = Some (x, ys)"
  shows "heap_ok compare ys"
proof (cases "butlast xs = []")
  case True
  then have "ys = []" using assms(2) by (cases xs) (simp_all add: heap_pop_def)
  then show ?thesis by simp
next
  case False
  then have "ys = sift_down compare ((butlast xs)[0 := last xs]) 0"
    using assms(2) by (cases xs) (simp_all add: heap_pop_def)
  with heap_ok_butlast [OF assms(1)] show ?thesis by (simp add: heap_ok_sift_down)
qed

lemma heap_first_least: "heap_ok compare xs \<Longrightarrow> k < length xs \<Longrightarrow> \<not> compare (xs ! k) (xs ! 0) < 0"
proof (induction k rule: less_induct)
  case (less k)
  show ?case
  proof (cases "k = 0")
    case True
    then show ?thesis using asym by blast
  next
    case False
    then have "\<not> compare (xs ! ((k - 1) div 2)) (xs ! 0) < 0" using less by auto
    moreover have "\<not> compare (xs ! k) (xs ! ((k - 1) div 2)) < 0"
      using less.prems False by (auto simp: heap_ok_def)
    ultimately show ?thesis by (rule trans)
  qed
qed

lemma heap_pop_least:
  assumes "heap_ok compare xs" "heap_pop compare xs = Some (x, ys)" "y \<in># mset xs"
  shows "\<not> compare y x < 0"
  using assms heap_first_least [OF assms(1)] heap_pop_top [OF assms(2)] by (auto simp: in_set_conv_nth)

text \<open>
  \<open>drainWhile\<close> with a predicate that holds of everything the comparator puts before an element it holds of
  takes out exactly the elements that satisfy it.
\<close>

lemma drain_while_filter:
  assumes "heap_ok compare xs"
    and "\<And>a b. p b \<Longrightarrow> \<not> compare b a < 0 \<Longrightarrow> p a"
  shows "heap_drain_while compare p xs = (ds, ys) \<Longrightarrow>
    heap_ok compare ys \<and> mset ds = filter_mset p (mset xs) \<and> mset ys = filter_mset (\<lambda>x. \<not> p x) (mset xs)"
  using assms(1)
proof (induction "length xs" arbitrary: xs ds ys rule: less_induct)
  case less
  show ?case
  proof (cases xs)
    case Nil
    with less.prems show ?thesis by (auto simp: heap_drain_while.simps)
  next
    case (Cons x zs)
    show ?thesis
    proof (cases "p x")
      case False
      have "\<not> p y" if "y \<in># mset xs" for y
        using assms(2) heap_first_least [OF less.prems(2)] that False Cons by (force simp: in_set_conv_nth)
      then have "filter_mset p (mset xs) = {#}" "filter_mset (\<lambda>x. \<not> p x) (mset xs) = mset xs"
        by (auto simp: filter_mset_eq_conv)
      with less.prems Cons False show ?thesis by (auto simp: heap_drain_while.simps)
    next
      case True
      obtain y rest where pop: "heap_pop compare xs = Some (y, rest)"
        using Cons by (cases "heap_pop compare xs") auto
      obtain ds' ys' where rec: "heap_drain_while compare p rest = (ds', ys')" by (cases "heap_drain_while compare p rest")
      have eq: "ds = y # ds'" "ys = ys'" "p y"
        using less.prems(1) True pop rec Cons heap_pop_top [OF pop] by (auto simp: heap_drain_while.simps [of _ _ "x # zs"])
      have "heap_ok compare rest" by (rule heap_ok_pop [OF less.prems(2) pop])
      with rec have "heap_ok compare ys' \<and> mset ds' = filter_mset p (mset rest) \<and> mset ys' = filter_mset (\<lambda>x. \<not> p x) (mset rest)"
        by (intro less.hyps heap_pop_shorter [OF pop])
      with eq mset_heap_pop [OF pop] show ?thesis by simp
    qed
  qed
qed

end

end
