(* ===== verification/QueueJob.thy ===== *)
theory QueueJob
  imports Durations
begin

text \<open>
  Jobs of \<open>packages/queue\<close>: the options, envelope and dead-letter shapes and \<open>buildEnvelope\<close> of
  \<open>src/job.ts\<close>, and the retry engine of \<open>src/retry.ts\<close>.  An optional property is an \<open>option\<close>
  (\<open>None\<close> is \<open>undefined\<close>).  \<open>randomUUID()\<close>, \<open>clock()\<close> and \<open>rng()\<close> are arguments.
\<close>

section \<open>Data\<close>

datatype strategy = Fixed | Exponential

record backoff_policy =
  strategy :: strategy
  bp_delay :: duration
  multiplier :: "jsnum option"
  maxDelay :: "duration option"
  jitter :: "jsnum option"

record job_options =
  opt_queue :: "string option"
  opt_delay :: "duration option"
  opt_runAt :: "jsnum option"
  opt_priority :: "jsnum option"
  opt_maxAttempts :: "jsnum option"
  opt_retries :: "jsnum option"
  opt_backoff :: "backoff_policy option"
  opt_timeout :: "duration option"
  opt_dedupeKey :: "string option"

record 'p job =
  job_type :: string
  job_payload :: 'p
  job_opts :: "job_options option"

record 'p envelope =
  env_id :: string
  env_type :: string
  env_queue :: string
  payload :: 'p
  priority :: jsnum
  attempts :: int
  maxAttempts :: jsnum
  backoff :: "backoff_policy option"
  timeoutMs :: "jsnum option"
  enqueuedAt :: jsnum
  env_seq :: nat
  dedupeKey :: "string option"
  tenantId :: "string option"

record 'p dead_letter =
  dl_id :: string
  dl_type :: string
  dl_queue :: string
  dl_payload :: 'p
  dl_attempts :: int
  dl_maxAttempts :: jsnum
  dl_backoff :: "backoff_policy option"
  dl_error :: js_error
  dl_enqueuedAt :: jsnum
  dl_failedAt :: jsnum

section \<open>Building an envelope\<close>

definition DEFAULT_QUEUE :: string where
  "DEFAULT_QUEUE = ''default''"

definition DEFAULT_PRIORITY :: jsnum where
  "DEFAULT_PRIORITY = 0"

definition DEFAULT_MAX_ATTEMPTS :: jsnum where
  "DEFAULT_MAX_ATTEMPTS = 1"

definition no_options :: job_options where
  "no_options = \<lparr>opt_queue = None, opt_delay = None, opt_runAt = None, opt_priority = None,
     opt_maxAttempts = None, opt_retries = None, opt_backoff = None, opt_timeout = None, opt_dedupeKey = None\<rparr>"

definition override :: "'a option \<Rightarrow> 'a option \<Rightarrow> 'a option" where
  "override base over = (case over of None \<Rightarrow> base | Some v \<Rightarrow> Some v)"

definition merge_options :: "job_options option \<Rightarrow> job_options option \<Rightarrow> job_options" where
  "merge_options job_o dispatch_o =
     (let j = nullish job_o no_options; d = nullish dispatch_o no_options in
      \<lparr>opt_queue = override (opt_queue j) (opt_queue d),
       opt_delay = override (opt_delay j) (opt_delay d),
       opt_runAt = override (opt_runAt j) (opt_runAt d),
       opt_priority = override (opt_priority j) (opt_priority d),
       opt_maxAttempts = override (opt_maxAttempts j) (opt_maxAttempts d),
       opt_retries = override (opt_retries j) (opt_retries d),
       opt_backoff = override (opt_backoff j) (opt_backoff d),
       opt_timeout = override (opt_timeout j) (opt_timeout d),
       opt_dedupeKey = override (opt_dedupeKey j) (opt_dedupeKey d)\<rparr>)"

definition resolve_max_attempts :: "job_options \<Rightarrow> jsnum" where
  "resolve_max_attempts opts =
     (case opt_retries opts of
        Some r \<Rightarrow> r + 1
      | None \<Rightarrow> (case opt_maxAttempts opts of Some m \<Rightarrow> m | None \<Rightarrow> DEFAULT_MAX_ATTEMPTS))"

text \<open>\<open>parseDuration\<close>: a number is taken as it is, a string goes through \<open>parseWindow\<close> and may throw.\<close>

definition parse_duration :: "duration \<Rightarrow> js_error + jsnum" where
  "parse_duration d =
     (case d of
        Ms x \<Rightarrow> Inr x
      | Human s \<Rightarrow> (case parse_window (Human s) of Inl e \<Rightarrow> Inl e | Inr n \<Rightarrow> Inr (of_int n)))"

definition resolve_duration_ms :: "duration option \<Rightarrow> js_error + jsnum option" where
  "resolve_duration_ms d =
     (case d of
        None \<Rightarrow> Inr None
      | Some x \<Rightarrow> (case parse_duration x of Inl e \<Rightarrow> Inl e | Inr n \<Rightarrow> Inr (Some n)))"

definition build_envelope ::
  "string \<Rightarrow> 'p job \<Rightarrow> job_options option \<Rightarrow> jsnum \<Rightarrow> nat \<Rightarrow> js_error + 'p envelope" where
  "build_envelope uuid j dispatch_o now sq =
     (let merged = merge_options (job_opts j) dispatch_o in
      case resolve_duration_ms (opt_timeout merged) of
        Inl e \<Rightarrow> Inl e
      | Inr t \<Rightarrow> Inr
          \<lparr>env_id = uuid,
           env_type = job_type j,
           env_queue = nullish (opt_queue merged) DEFAULT_QUEUE,
           payload = job_payload j,
           priority = nullish (opt_priority merged) DEFAULT_PRIORITY,
           attempts = 0,
           maxAttempts = resolve_max_attempts merged,
           backoff = opt_backoff merged,
           timeoutMs = t,
           enqueuedAt = now,
           env_seq = sq,
           dedupeKey = opt_dedupeKey merged,
           tenantId = None\<rparr>)"

section \<open>The retry engine\<close>

datatype retry_decision = Retry jsnum | DeadLetter

definition DEFAULT_BACKOFF :: backoff_policy where
  "DEFAULT_BACKOFF =
     \<lparr>strategy = Exponential, bp_delay = Ms 1000, multiplier = Some 2, maxDelay = Some (Ms 30000), jitter = None\<rparr>"

definition apply_jitter :: "jsnum \<Rightarrow> jsnum option \<Rightarrow> jsnum \<Rightarrow> jsnum" where
  "apply_jitter capped jit rng = (let fraction = nullish jit 0 in capped * (1 + (2 * rng - 1) * fraction))"

definition raw_backoff :: "int \<Rightarrow> backoff_policy \<Rightarrow> jsnum \<Rightarrow> jsnum" where
  "raw_backoff att b base =
     (case strategy b of
        Exponential \<Rightarrow> base * power_int (nullish (multiplier b) 2) (att - 1)
      | Fixed \<Rightarrow> base)"

definition compute_backoff_delay :: "int \<Rightarrow> backoff_policy \<Rightarrow> jsnum \<Rightarrow> js_error + jsnum" where
  "compute_backoff_delay att b rng =
     (case parse_duration (bp_delay b) of
        Inl e \<Rightarrow> Inl e
      | Inr base \<Rightarrow>
          (let raw = raw_backoff att b base in
           case maxDelay b of
             None \<Rightarrow> Inr (apply_jitter raw (jitter b) rng)
           | Some m \<Rightarrow>
               (case parse_duration m of
                  Inl e \<Rightarrow> Inl e
                | Inr cap \<Rightarrow> Inr (apply_jitter (math_min raw cap) (jitter b) rng))))"

definition on_failure ::
  "'p envelope \<Rightarrow> backoff_policy option \<Rightarrow> backoff_policy option \<Rightarrow> jsnum \<Rightarrow> jsnum \<Rightarrow> js_error + retry_decision" where
  "on_failure env options_backoff default_backoff rng now =
     (if maxAttempts env \<le> of_int (attempts env) then Inr DeadLetter
      else
        (let b = nullish options_backoff (nullish (backoff env) (nullish default_backoff DEFAULT_BACKOFF)) in
         case compute_backoff_delay (attempts env) b rng of
           Inl e \<Rightarrow> Inl e
         | Inr delay \<Rightarrow> Inr (Retry (now + delay))))"

section \<open>Lemmas\<close>

lemma resolve_max_attempts_cases:
  "opt_retries opts = Some r \<Longrightarrow> resolve_max_attempts opts = r + 1"
  "opt_retries opts = None \<Longrightarrow> opt_maxAttempts opts = Some m \<Longrightarrow> resolve_max_attempts opts = m"
  "opt_retries opts = None \<Longrightarrow> opt_maxAttempts opts = None \<Longrightarrow> resolve_max_attempts opts = 1"
  by (simp_all add: resolve_max_attempts_def DEFAULT_MAX_ATTEMPTS_def)

lemma build_envelope_fields:
  assumes "build_envelope u j d now sq = Inr e"
  shows "env_id e = u" "env_type e = job_type j" "payload e = job_payload j" "attempts e = 0" "env_seq e = sq"
    "enqueuedAt e = now" "maxAttempts e = resolve_max_attempts (merge_options (job_opts j) d)"
    "dedupeKey e = opt_dedupeKey (merge_options (job_opts j) d)"
    "env_queue e = nullish (opt_queue (merge_options (job_opts j) d)) ''default''"
  using assms by (auto simp: build_envelope_def Let_def DEFAULT_QUEUE_def split: sum.splits)

lemma apply_jitter_zero [simp]: "apply_jitter c None r = c" "apply_jitter c (Some 0) r = c"
  by (simp_all add: apply_jitter_def)

lemma apply_jitter_bounds:
  assumes "0 \<le> c" "0 \<le> j" "0 \<le> r" "r < 1"
  shows "c * (1 - j) \<le> apply_jitter c (Some j) r" "apply_jitter c (Some j) r \<le> c * (1 + j)"
proof -
  have "- 1 \<le> 2 * r - 1" "2 * r - 1 \<le> 1" using assms by simp_all
  then have "- j \<le> (2 * r - 1) * j" "(2 * r - 1) * j \<le> j"
    using mult_right_mono [of "- 1" "2 * r - 1" j] mult_right_mono [of "2 * r - 1" 1 j] assms by simp_all
  then show "c * (1 - j) \<le> apply_jitter c (Some j) r" "apply_jitter c (Some j) r \<le> c * (1 + j)"
    using assms(1) by (auto simp: apply_jitter_def intro!: mult_left_mono)
qed

lemma raw_backoff_mono:
  assumes "0 \<le> base" "1 \<le> nullish (multiplier b) 2" "1 \<le> a" "a \<le> a'"
  shows "base \<le> raw_backoff a b base" "raw_backoff a b base \<le> raw_backoff a' b base"
proof -
  let ?m = "nullish (multiplier b) 2"
  have "power_int ?m 0 \<le> power_int ?m (a - 1)" "power_int ?m (a - 1) \<le> power_int ?m (a' - 1)"
    using assms by (intro power_int_increasing; simp)+
  then show "base \<le> raw_backoff a b base" "raw_backoff a b base \<le> raw_backoff a' b base"
    using assms(1) mult_left_mono [of "power_int ?m (a - 1)" "power_int ?m (a' - 1)" base]
      mult_left_mono [of 1 "power_int ?m (a - 1)" base]
    by (auto simp: raw_backoff_def split: strategy.splits)
qed

lemma math_min_mono: "a \<le> b \<Longrightarrow> math_min a c \<le> math_min b c"
  by (auto simp: math_min_def)

lemma on_failure_dead_letter:
  "on_failure env ob d r now = Inr DeadLetter \<longleftrightarrow> maxAttempts env \<le> of_int (attempts env)"
  by (auto simp: on_failure_def Let_def split: sum.splits if_splits)

lemma on_failure_retry:
  "on_failure env ob d r now = Inr (Retry t) \<Longrightarrow> of_int (attempts env) < maxAttempts env"
  by (auto simp: on_failure_def split: if_splits)

end
