(* ===== verification/QueueDriver.thy ===== *)
theory QueueDriver
  imports QueueJob
begin

text \<open>
  The seam between the worker and a queue backend, interface \<open>QueueDriver\<close> of
  \<open>packages/queue/src/drivers/driver.ts\<close>: the reservation and statistics shapes, and the locale
  \<open>queue_driver\<close> with what a driver promises about the jobs it holds.

  \<open>owed d\<close> is the multiset of ids of the jobs the driver still has to have executed (ready, delayed or leased),
  \<open>buried d\<close> the dead-lettered ones, \<open>lease d t\<close> the job leased under token \<open>t\<close>.  A reservation whose lease has
  been reclaimed is stale: its \<open>ack\<close> and \<open>nack\<close> change nothing.
\<close>

record 'p reservation =
  res_envelope :: "'p envelope"
  res_token :: string
  res_queue :: string
  res_leaseExpiresAt :: jsnum

record queue_stats =
  st_ready :: nat
  st_delayed :: nat
  st_deadLettered :: nat
  st_reserved :: nat

locale queue_driver =
  fixes invar :: "'d \<Rightarrow> bool"
    and owed :: "'d \<Rightarrow> string multiset"
    and buried :: "'d \<Rightarrow> string multiset"
    and lease :: "'d \<Rightarrow> string \<Rightarrow> string option"
    and reserve :: "string list \<Rightarrow> jsnum \<Rightarrow> jsnum \<Rightarrow> string \<Rightarrow> 'd \<Rightarrow> 'p reservation option \<times> 'd"
    and ack :: "'p reservation \<Rightarrow> 'd \<Rightarrow> 'd"
    and nack :: "'p reservation \<Rightarrow> jsnum option \<Rightarrow> 'd \<Rightarrow> 'd"
    and bury :: "'p reservation \<Rightarrow> js_error \<Rightarrow> jsnum \<Rightarrow> 'd \<Rightarrow> 'd"
  assumes reserve_keeps: "invar d \<Longrightarrow> lease d t = None \<Longrightarrow> reserve qs v now t d = (r, d') \<Longrightarrow>
      invar d' \<and> owed d' = owed d \<and> buried d' = buried d"
    and reserve_leases: "invar d \<Longrightarrow> reserve qs v now t d = (Some x, d') \<Longrightarrow>
      res_token x = t \<and> lease d' t = Some (env_id (res_envelope x))"
    and reserve_others: "invar d \<Longrightarrow> reserve qs v now t d = (r, d') \<Longrightarrow> t' \<noteq> t \<Longrightarrow>
      lease d' t' = lease d t' \<or> lease d' t' = None"
    and ack_live: "invar d \<Longrightarrow> lease d (res_token x) = Some (env_id (res_envelope x)) \<Longrightarrow>
      invar (ack x d) \<and> owed d = add_mset (env_id (res_envelope x)) (owed (ack x d)) \<and> buried (ack x d) = buried d"
    and nack_live: "invar d \<Longrightarrow> lease d (res_token x) = Some (env_id (res_envelope x)) \<Longrightarrow>
      invar (nack x due d) \<and> owed (nack x due d) = owed d \<and> buried (nack x due d) = buried d"
    and bury_live: "invar d \<Longrightarrow> lease d (res_token x) = Some (env_id (res_envelope x)) \<Longrightarrow>
      invar (bury x e n d) \<and> owed d = add_mset (env_id (res_envelope x)) (owed (bury x e n d)) \<and>
      buried (bury x e n d) = add_mset (env_id (res_envelope x)) (buried d)"
    and ack_stale: "lease d (res_token x) = None \<Longrightarrow> ack x d = d"
    and nack_stale: "lease d (res_token x) = None \<Longrightarrow> nack x due d = d"
    and bury_stale: "invar d \<Longrightarrow> lease d (res_token x) = None \<Longrightarrow>
      invar (bury x e n d) \<and> owed (bury x e n d) = owed d \<and>
      buried (bury x e n d) = add_mset (env_id (res_envelope x)) (buried d)"
    and settle_others: "t \<noteq> res_token x \<Longrightarrow>
      lease (ack x d) t = lease d t \<and> lease (nack x due d) t = lease d t \<and> lease (bury x e n d) t = lease d t"
begin

text \<open>A reservation is usable when it is live or stale; settling it never loses a job.\<close>

lemma settle_invar:
  assumes "invar d" "lease d (res_token x) = Some (env_id (res_envelope x)) \<or> lease d (res_token x) = None"
  shows "invar (ack x d)" "invar (nack x due d)" "invar (bury x e n d)"
  using assms ack_live nack_live bury_live ack_stale nack_stale bury_stale by metis+

lemma ack_no_loss:
  assumes "invar d" "lease d (res_token x) = Some (env_id (res_envelope x)) \<or> lease d (res_token x) = None"
  shows "owed d + buried d \<subseteq># add_mset (env_id (res_envelope x)) (owed (ack x d) + buried (ack x d))"
  using assms ack_live [of d x] ack_stale [of d x] by auto

lemma nack_no_loss:
  assumes "invar d" "lease d (res_token x) = Some (env_id (res_envelope x)) \<or> lease d (res_token x) = None"
  shows "owed (nack x due d) + buried (nack x due d) = owed d + buried d"
  using assms nack_live [of d x due] nack_stale [of d x due] by auto

lemma bury_no_loss:
  assumes "invar d" "lease d (res_token x) = Some (env_id (res_envelope x)) \<or> lease d (res_token x) = None"
  shows "owed d + buried d \<subseteq># owed (bury x e n d) + buried (bury x e n d)"
  using assms bury_live [of d x e n] bury_stale [of d x e n] by auto

text \<open>Between a reservation and the settlement that follows it, nothing is lost and nothing is duplicated.\<close>

lemma reserve_then_ack:
  assumes "invar d" "lease d t = None" "reserve qs v now t d = (Some x, d1)"
  shows "owed d = add_mset (env_id (res_envelope x)) (owed (ack x d1))" "buried (ack x d1) = buried d"
  using reserve_keeps [OF assms] reserve_leases [OF assms(1,3)] ack_live [of d1 x] by auto

lemma reserve_then_nack:
  assumes "invar d" "lease d t = None" "reserve qs v now t d = (Some x, d1)"
  shows "owed (nack x due d1) = owed d" "buried (nack x due d1) = buried d"
  using reserve_keeps [OF assms] reserve_leases [OF assms(1,3)] nack_live [of d1 x due] by auto

lemma reserve_then_bury:
  assumes "invar d" "lease d t = None" "reserve qs v now t d = (Some x, d1)"
  shows "owed d = add_mset (env_id (res_envelope x)) (owed (bury x e n d1))"
    "buried (bury x e n d1) = add_mset (env_id (res_envelope x)) (buried d)"
  using reserve_keeps [OF assms] reserve_leases [OF assms(1,3)] bury_live [of d1 x e n] by auto

end

end
