(* ===== verification/MemoryDriver.thy ===== *)
theory MemoryDriver
  imports BinaryHeap QueueDriver
begin

text \<open>
  The in-process queue driver, class \<open>MemoryDriver\<close> of \<open>packages/queue/src/drivers/memory.ts\<close>: per-queue ready
  and delayed heaps, the lease map and the per-queue dead-letter lists, one definition per method.

  A fresh reservation token (\<open>randomUUID\<close>) and \<open>Date.now()\<close> are arguments.  The code shares one envelope object
  between a lease and the reservations handed out for it; the model passes the envelope inside the
  reservation, with the value it has when the method is called.

  \<open>driver_jobs\<close> abstracts the state to the multiset of jobs the driver still owes an execution; the
  laws about it are the contract of theory \<open>QueueDriver\<close>, which the driver interprets at the end.
\<close>

section \<open>Model\<close>

record 'p delayed_entry =
  de_envelope :: "'p envelope"
  de_runAt :: jsnum

record 'p lease_record =
  lease_envelope :: "'p envelope"
  lease_queue :: string
  leaseExpiresAt :: jsnum

record 'p memory_driver =
  ready :: "(string, 'p envelope list) jsmap"
  delayed :: "(string, 'p delayed_entry list) jsmap"
  reserved :: "(string, 'p lease_record) jsmap"
  dead :: "(string, 'p dead_letter list) jsmap"

definition empty_driver :: "'p memory_driver" where
  "empty_driver = \<lparr>ready = [], delayed = [], reserved = [], dead = []\<rparr>"

definition compare_ready :: "'p envelope \<Rightarrow> 'p envelope \<Rightarrow> jsnum" where
  "compare_ready a b =
     (if priority a \<noteq> priority b then priority b - priority a
      else of_nat (env_seq a) - of_nat (env_seq b))"

definition compare_delayed :: "'p delayed_entry \<Rightarrow> 'p delayed_entry \<Rightarrow> jsnum" where
  "compare_delayed a b =
     (if de_runAt a \<noteq> de_runAt b then de_runAt a - de_runAt b
      else of_nat (env_seq (de_envelope a)) - of_nat (env_seq (de_envelope b)))"

definition ready_heap :: "'p memory_driver \<Rightarrow> string \<Rightarrow> 'p envelope list" where
  "ready_heap d q = nullish (map_of (ready d) q) []"

definition delayed_heap :: "'p memory_driver \<Rightarrow> string \<Rightarrow> 'p delayed_entry list" where
  "delayed_heap d q = nullish (map_of (delayed d) q) []"

definition dead_list :: "'p memory_driver \<Rightarrow> string \<Rightarrow> 'p dead_letter list" where
  "dead_list d q = nullish (map_of (dead d) q) []"

definition enqueue :: "string \<Rightarrow> 'p envelope \<Rightarrow> 'p memory_driver \<Rightarrow> 'p memory_driver" where
  "enqueue q e d = d\<lparr>ready := AList.update q (heap_push compare_ready e (ready_heap d q)) (ready d)\<rparr>"

definition enqueue_delayed :: "string \<Rightarrow> 'p envelope \<Rightarrow> jsnum \<Rightarrow> 'p memory_driver \<Rightarrow> 'p memory_driver" where
  "enqueue_delayed q e t d =
     d\<lparr>delayed := AList.update q
        (heap_push compare_delayed \<lparr>de_envelope = e, de_runAt = t\<rparr> (delayed_heap d q)) (delayed d)\<rparr>"

fun reclaim_leases :: "jsnum \<Rightarrow> (string \<times> 'p lease_record) list \<Rightarrow> 'p memory_driver \<Rightarrow> 'p memory_driver" where
  "reclaim_leases now [] d = d"
| "reclaim_leases now ((token, l) # ls) d =
     reclaim_leases now ls
       (if leaseExpiresAt l \<le> now
        then enqueue (lease_queue l) (lease_envelope l) (d\<lparr>reserved := AList.delete token (reserved d)\<rparr>)
        else d)"

definition reclaim_expired_leases :: "jsnum \<Rightarrow> 'p memory_driver \<Rightarrow> 'p memory_driver" where
  "reclaim_expired_leases now d = reclaim_leases now (reserved d) d"

fun pop_first :: "string list \<Rightarrow> 'p memory_driver \<Rightarrow> (string \<times> 'p envelope \<times> 'p memory_driver) option" where
  "pop_first [] d = None"
| "pop_first (q # qs) d =
     (case map_of (ready d) q of
        None \<Rightarrow> pop_first qs d
      | Some heap \<Rightarrow>
          (case heap_pop compare_ready heap of
             None \<Rightarrow> pop_first qs d
           | Some (e, rest) \<Rightarrow> Some (q, e, d\<lparr>ready := AList.update q rest (ready d)\<rparr>)))"

definition reserve ::
  "string list \<Rightarrow> jsnum \<Rightarrow> jsnum \<Rightarrow> string \<Rightarrow> 'p memory_driver \<Rightarrow> 'p reservation option \<times> 'p memory_driver" where
  "reserve queues visibilityMs now token d =
     (let d1 = reclaim_expired_leases now d in
      case pop_first queues d1 of
        None \<Rightarrow> (None, d1)
      | Some (q, e, d2) \<Rightarrow>
          (let e' = e\<lparr>attempts := attempts e + 1\<rparr>; t = now + visibilityMs in
           (Some \<lparr>res_envelope = e', res_token = token, res_queue = q, res_leaseExpiresAt = t\<rparr>,
            d2\<lparr>reserved := AList.update token
                 \<lparr>lease_envelope = e', lease_queue = q, leaseExpiresAt = t\<rparr> (reserved d2)\<rparr>)))"

definition ack :: "'p reservation \<Rightarrow> 'p memory_driver \<Rightarrow> 'p memory_driver" where
  "ack r d = d\<lparr>reserved := AList.delete (res_token r) (reserved d)\<rparr>"

definition nack :: "'p reservation \<Rightarrow> jsnum option \<Rightarrow> 'p memory_driver \<Rightarrow> 'p memory_driver" where
  "nack r runAt d =
     (let d1 = d\<lparr>reserved := AList.delete (res_token r) (reserved d)\<rparr> in
      if \<not> map_has (reserved d) (res_token r) then d1
      else (case runAt of
              Some t \<Rightarrow> enqueue_delayed (res_queue r) (res_envelope r) t d1
            | None \<Rightarrow> enqueue (res_queue r) (res_envelope r) d1))"

fun push_all :: "string \<Rightarrow> 'p delayed_entry list \<Rightarrow> 'p memory_driver \<Rightarrow> 'p memory_driver" where
  "push_all q [] d = d"
| "push_all q (x # xs) d = push_all q xs (enqueue q (de_envelope x) d)"

fun promote_queues ::
  "jsnum \<Rightarrow> (string \<times> 'p delayed_entry list) list \<Rightarrow> 'p memory_driver \<Rightarrow> nat \<times> 'p memory_driver" where
  "promote_queues now [] d = (0, d)"
| "promote_queues now ((q, heap) # qs) d =
     (let (due, rest) = heap_drain_while compare_delayed (\<lambda>x. de_runAt x \<le> now) heap;
          d1 = push_all q due (d\<lparr>delayed := AList.update q rest (delayed d)\<rparr>);
          (n, d2) = promote_queues now qs d1
      in (length due + n, d2))"

definition promote_due :: "jsnum \<Rightarrow> 'p memory_driver \<Rightarrow> nat \<times> 'p memory_driver" where
  "promote_due now d = promote_queues now (delayed d) d"

definition to_dead_letter :: "'p reservation \<Rightarrow> js_error \<Rightarrow> jsnum \<Rightarrow> 'p dead_letter" where
  "to_dead_letter r err date_now =
     (let e = res_envelope r in
      \<lparr>dl_id = env_id e, dl_type = env_type e, dl_queue = res_queue r, dl_payload = payload e,
       dl_attempts = attempts e, dl_maxAttempts = maxAttempts e, dl_backoff = backoff e, dl_error = err,
       dl_enqueuedAt = enqueuedAt e, dl_failedAt = date_now\<rparr>)"

definition move_to_dead_letter ::
  "'p reservation \<Rightarrow> js_error \<Rightarrow> jsnum \<Rightarrow> 'p memory_driver \<Rightarrow> 'p memory_driver" where
  "move_to_dead_letter r err date_now d =
     d\<lparr>reserved := AList.delete (res_token r) (reserved d),
       dead := AList.update (res_queue r) (dead_list d (res_queue r) @ [to_dead_letter r err date_now]) (dead d)\<rparr>"

definition list_dead_letters :: "string option \<Rightarrow> int \<Rightarrow> 'p memory_driver \<Rightarrow> 'p dead_letter list" where
  "list_dead_letters q limit d =
     (let records = (case q of Some k \<Rightarrow> dead_list d k | None \<Rightarrow> concat (map snd (dead d)))
      in if 0 \<le> limit then take (nat limit) records else records)"

fun remove_first :: "string \<Rightarrow> 'p dead_letter list \<Rightarrow> ('p dead_letter \<times> 'p dead_letter list) option" where
  "remove_first jid [] = None"
| "remove_first jid (r # rs) =
     (if dl_id r = jid then Some (r, rs)
      else map_option (\<lambda>(x, ys). (x, r # ys)) (remove_first jid rs))"

fun remove_in ::
  "string \<Rightarrow> (string \<times> 'p dead_letter list) list \<Rightarrow> ('p dead_letter \<times> (string \<times> 'p dead_letter list) list) option" where
  "remove_in jid [] = None"
| "remove_in jid ((q, rs) # m) =
     (case remove_first jid rs of
        Some (x, ys) \<Rightarrow> Some (x, (q, ys) # m)
      | None \<Rightarrow> map_option (\<lambda>(x, m'). (x, (q, rs) # m')) (remove_in jid m))"

definition remove_dead_letter :: "string \<Rightarrow> 'p memory_driver \<Rightarrow> 'p dead_letter option \<times> 'p memory_driver" where
  "remove_dead_letter jid d =
     (case remove_in jid (dead d) of
        None \<Rightarrow> (None, d)
      | Some (x, m) \<Rightarrow> (Some x, d\<lparr>dead := m\<rparr>))"

definition flush_dead_letters :: "string option \<Rightarrow> 'p memory_driver \<Rightarrow> nat \<times> 'p memory_driver" where
  "flush_dead_letters q d =
     (case q of
        Some k \<Rightarrow>
          (length (dead_list d k),
           if map_has (dead d) k then d\<lparr>dead := AList.update k [] (dead d)\<rparr> else d)
      | None \<Rightarrow>
          (sum_list (map (length \<circ> snd) (dead d)), d\<lparr>dead := map (\<lambda>(k, rs). (k, [])) (dead d)\<rparr>))"

definition count_reserved :: "string \<Rightarrow> 'p memory_driver \<Rightarrow> nat" where
  "count_reserved q d = length (filter (\<lambda>(t, l). lease_queue l = q) (reserved d))"

definition stats :: "string option \<Rightarrow> 'p memory_driver \<Rightarrow> queue_stats" where
  "stats q d =
     (case q of
        Some k \<Rightarrow>
          \<lparr>st_ready = length (ready_heap d k), st_delayed = length (delayed_heap d k),
           st_deadLettered = length (dead_list d k), st_reserved = count_reserved k d\<rparr>
      | None \<Rightarrow>
          \<lparr>st_ready = sum_list (map (length \<circ> snd) (ready d)),
           st_delayed = sum_list (map (length \<circ> snd) (delayed d)),
           st_deadLettered = sum_list (map (length \<circ> snd) (dead d)),
           st_reserved = length (reserved d)\<rparr>)"

definition purge :: "string option \<Rightarrow> 'p memory_driver \<Rightarrow> nat \<times> 'p memory_driver" where
  "purge q d =
     (case q of
        Some k \<Rightarrow>
          (length (ready_heap d k) + length (delayed_heap d k),
           d\<lparr>ready := AList.delete k (ready d), delayed := AList.delete k (delayed d)\<rparr>)
      | None \<Rightarrow>
          (sum_list (map (length \<circ> snd) (ready d)) + sum_list (map (length \<circ> snd) (delayed d)),
           d\<lparr>ready := [], delayed := []\<rparr>))"

section \<open>The jobs the driver accounts for\<close>

definition ready_jobs :: "'p memory_driver \<Rightarrow> string multiset" where
  "ready_jobs d = image_mset env_id (bag (ready d))"

definition delayed_jobs :: "'p memory_driver \<Rightarrow> string multiset" where
  "delayed_jobs d = image_mset (\<lambda>x. env_id (de_envelope x)) (bag (delayed d))"

definition leased_jobs :: "'p memory_driver \<Rightarrow> string multiset" where
  "leased_jobs d = image_mset (\<lambda>(t, l). env_id (lease_envelope l)) (mset (reserved d))"

definition driver_jobs :: "'p memory_driver \<Rightarrow> string multiset" where
  "driver_jobs d = ready_jobs d + delayed_jobs d + leased_jobs d"

definition dead_jobs :: "'p memory_driver \<Rightarrow> string multiset" where
  "dead_jobs d = image_mset dl_id (bag (dead d))"

definition lease_of :: "'p memory_driver \<Rightarrow> string \<Rightarrow> string option" where
  "lease_of d t = map_option (\<lambda>l. env_id (lease_envelope l)) (map_of (reserved d) t)"

definition driver_ok :: "'p memory_driver \<Rightarrow> bool" where
  "driver_ok d \<longleftrightarrow>
     keys_distinct (ready d) \<and> keys_distinct (delayed d) \<and> keys_distinct (reserved d) \<and> keys_distinct (dead d) \<and>
     (\<forall>q h. map_of (ready d) q = Some h \<longrightarrow> heap_ok compare_ready h) \<and>
     (\<forall>q h. map_of (delayed d) q = Some h \<longrightarrow> heap_ok compare_delayed h)"

lemmas driver_account = driver_jobs_def ready_jobs_def delayed_jobs_def leased_jobs_def dead_jobs_def lease_of_def

interpretation rc: comparator "compare_ready :: 'p envelope comparison"
  by unfold_locales (auto simp: compare_ready_def split: if_splits)

interpretation dc: comparator "compare_delayed :: 'p delayed_entry comparison"
  by unfold_locales (auto simp: compare_delayed_def split: if_splits)

lemma driver_ok_empty: "driver_ok empty_driver"
  by (simp add: driver_ok_def empty_driver_def)

lemma ready_heap_ok: "driver_ok d \<Longrightarrow> heap_ok compare_ready (ready_heap d q)"
  by (auto simp: driver_ok_def ready_heap_def nullish_def split: option.splits)

lemma delayed_heap_ok: "driver_ok d \<Longrightarrow> heap_ok compare_delayed (delayed_heap d q)"
  by (auto simp: driver_ok_def delayed_heap_def nullish_def split: option.splits)

subsection \<open>Enqueueing\<close>

lemma enqueue_ok: "driver_ok d \<Longrightarrow> driver_ok (enqueue q e d)"
  using ready_heap_ok [of d q] by (auto simp: driver_ok_def enqueue_def rc.heap_ok_push)

lemma enqueue_delayed_ok: "driver_ok d \<Longrightarrow> driver_ok (enqueue_delayed q e t d)"
  using delayed_heap_ok [of d q] by (auto simp: driver_ok_def enqueue_delayed_def dc.heap_ok_push)

lemma enqueue_bag: "bag (ready (enqueue q e d)) = add_mset e (bag (ready d))"
  by (simp add: enqueue_def ready_heap_def bag_update_add [where a = "{#e#}"])

lemma enqueue_delayed_bag:
  "bag (delayed (enqueue_delayed q e t d)) = add_mset \<lparr>de_envelope = e, de_runAt = t\<rparr> (bag (delayed d))"
  by (simp add: enqueue_delayed_def delayed_heap_def bag_update_add [where a = "{#\<lparr>de_envelope = e, de_runAt = t\<rparr>#}"])

lemma enqueue_frame [simp]:
  "delayed (enqueue q e d) = delayed d" "reserved (enqueue q e d) = reserved d" "dead (enqueue q e d) = dead d"
  by (simp_all add: enqueue_def)

lemma enqueue_delayed_frame [simp]:
  "ready (enqueue_delayed q e t d) = ready d" "reserved (enqueue_delayed q e t d) = reserved d"
  "dead (enqueue_delayed q e t d) = dead d"
  by (simp_all add: enqueue_delayed_def)

lemma enqueue_jobs: "driver_jobs (enqueue q e d) = add_mset (env_id e) (driver_jobs d)"
  by (simp add: driver_account enqueue_bag)

lemma enqueue_delayed_jobs: "driver_jobs (enqueue_delayed q e t d) = add_mset (env_id e) (driver_jobs d)"
  by (simp add: driver_account enqueue_delayed_bag)

subsection \<open>Leases\<close>

lemma drop_lease_ok: "driver_ok d \<Longrightarrow> driver_ok (d\<lparr>reserved := AList.delete t (reserved d)\<rparr>)"
  by (simp add: driver_ok_def)

lemma drop_lease_jobs:
  assumes "driver_ok d" "lease_of d t = Some j"
  shows "driver_jobs d = add_mset j (driver_jobs (d\<lparr>reserved := AList.delete t (reserved d)\<rparr>))"
proof -
  from assms(2) obtain l where l: "map_of (reserved d) t = Some l" "env_id (lease_envelope l) = j"
    by (auto simp: lease_of_def)
  have "keys_distinct (reserved d)" using assms(1) by (simp add: driver_ok_def)
  from mset_delete_split [OF this l(1)] l(2) show ?thesis by (simp add: driver_account)
qed

lemma drop_lease_absent:
  "lease_of d t = None \<Longrightarrow> d\<lparr>reserved := AList.delete t (reserved d)\<rparr> = d"
  by (simp add: lease_of_def delete_absent)

lemma reclaim_step:
  assumes "driver_ok d" "map_of (reserved d) t = Some l"
  defines "d1 \<equiv> enqueue (lease_queue l) (lease_envelope l) (d\<lparr>reserved := AList.delete t (reserved d)\<rparr>)"
  shows "driver_ok d1" "driver_jobs d1 = driver_jobs d" "dead d1 = dead d"
    "map_of (reserved d1) = (map_of (reserved d))(t := None)"
proof -
  have "lease_of d t = Some (env_id (lease_envelope l))" using assms(2) by (simp add: lease_of_def)
  from drop_lease_jobs [OF assms(1) this]
  show "driver_jobs d1 = driver_jobs d" by (simp add: d1_def enqueue_jobs)
  show "driver_ok d1" by (simp add: d1_def enqueue_ok drop_lease_ok assms(1))
  show "dead d1 = dead d" "map_of (reserved d1) = (map_of (reserved d))(t := None)" by (simp_all add: d1_def)
qed

lemma reclaim_leases_spec:
  assumes "driver_ok d" "keys_distinct ls" "\<And>t l. map_of ls t = Some l \<Longrightarrow> map_of (reserved d) t = Some l"
  shows "driver_ok (reclaim_leases now ls d) \<and> driver_jobs (reclaim_leases now ls d) = driver_jobs d \<and>
    dead (reclaim_leases now ls d) = dead d \<and>
    (\<forall>t. map_of (reserved (reclaim_leases now ls d)) t =
       (case map_of ls t of
          Some l \<Rightarrow> if leaseExpiresAt l \<le> now then None else Some l
        | None \<Rightarrow> map_of (reserved d) t))"
  using assms
proof (induction now ls d rule: reclaim_leases.induct)
  case (1 now d)
  then show ?case by simp
next
  case (2 now token l ls d)
  have l: "map_of (reserved d) token = Some l" using 2(4) [of token l] by simp
  have kd: "keys_distinct ls" and nt: "map_of ls token = None" using 2(3) by (simp_all add: keys_distinct_Cons)
  have other: "map_of (reserved d) t = Some l'" if "map_of ls t = Some l'" for t l'
    using 2(4) [of t l'] that nt by (cases "t = token") auto
  show ?case
  proof (cases "leaseExpiresAt l \<le> now")
    case True
    note st = reclaim_step [OF 2(2) l]
    have other': "map_of (reserved (enqueue (lease_queue l) (lease_envelope l) (d\<lparr>reserved := AList.delete token (reserved d)\<rparr>))) t = Some l'"
      if "map_of ls t = Some l'" for t l'
      using other [OF that] that nt by (auto simp del: enqueue_frame simp: st(4))
    show ?thesis
      using 2(1) [OF _ kd] other' st True nt by (auto split: option.splits)
  next
    case False
    then show ?thesis using 2(1) [OF _ kd] other nt 2(2) l by (auto split: option.splits)
  qed
qed

lemma reclaim_expired_spec:
  assumes "driver_ok d"
  shows "driver_ok (reclaim_expired_leases now d)"
    "driver_jobs (reclaim_expired_leases now d) = driver_jobs d"
    "dead (reclaim_expired_leases now d) = dead d"
    "map_of (reserved (reclaim_expired_leases now d)) t =
       (case map_of (reserved d) t of
          Some l \<Rightarrow> if leaseExpiresAt l \<le> now then None else Some l
        | None \<Rightarrow> None)"
  using reclaim_leases_spec [OF assms, of "reserved d" now] assms
  by (auto simp: reclaim_expired_leases_def driver_ok_def split: option.splits)

subsection \<open>Reserving\<close>

lemma pop_first_spec:
  assumes "driver_ok d" "pop_first qs d = Some (q, e, d')"
  shows "driver_ok d'" "bag (ready d) = add_mset e (bag (ready d'))"
    "delayed d' = delayed d" "reserved d' = reserved d" "dead d' = dead d"
    "\<exists>us vs. qs = us @ q # vs \<and> (\<forall>u \<in> set us. ready_heap d u = [])"
    "heap_pop compare_ready (ready_heap d q) = Some (e, ready_heap d' q)"
  using assms(2)
proof (atomize (full), induction qs)
  case Nil
  then show ?case by simp
next
  case (Cons k ks)
  show ?case
  proof (cases "heap_pop compare_ready (ready_heap d k)")
    case None
    then have "pop_first (k # ks) d = pop_first ks d"
      by (auto simp: ready_heap_def split: option.splits)
    with Cons obtain us vs where "ks = us @ q # vs" "\<forall>u \<in> set us. ready_heap d u = []"
      and rest: "driver_ok d' \<and> bag (ready d) = add_mset e (bag (ready d')) \<and> delayed d' = delayed d \<and>
        reserved d' = reserved d \<and> dead d' = dead d \<and>
        heap_pop compare_ready (ready_heap d q) = Some (e, ready_heap d' q)"
      by auto
    moreover have "ready_heap d k = []" using None by simp
    ultimately have "k # ks = (k # us) @ q # vs \<and> (\<forall>u \<in> set (k # us). ready_heap d u = [])" by simp
    with rest show ?thesis by blast
  next
    case (Some p)
    obtain x rest where p: "p = (x, rest)" by (cases p)
    then obtain h where h: "map_of (ready d) k = Some h" "ready_heap d k = h"
      using Some by (cases "map_of (ready d) k") (auto simp: ready_heap_def)
    with Some p Cons.prems have eq: "q = k" "e = x" "d' = d\<lparr>ready := AList.update k rest (ready d)\<rparr>"
      by auto
    have "bag (ready d) = add_mset x (bag (AList.update k rest (ready d)))"
      using bag_update_sub [of "ready d" k rest "{#x#}"] mset_heap_pop [of compare_ready h x rest] Some p h by simp
    moreover have "heap_ok compare_ready rest"
      using rc.heap_ok_pop [of h x rest] ready_heap_ok [OF assms(1), of k] Some p h by simp
    moreover have "\<exists>us vs. k # ks = us @ q # vs \<and> (\<forall>u \<in> set us. ready_heap d u = [])"
      by (rule exI [of _ "[]"]) (simp add: eq)
    ultimately show ?thesis
      using assms(1) Some p h eq by (simp add: driver_ok_def ready_heap_def)
  qed
qed

lemma pop_first_None: "pop_first qs d = None \<longleftrightarrow> (\<forall>q \<in> set qs. ready_heap d q = [])"
  by (induction qs) (auto simp: ready_heap_def split: option.splits)

lemma reserve_spec:
  assumes "driver_ok d" "lease_of d token = None" "reserve qs v now token d = (r, d')"
  shows "driver_ok d'" "driver_jobs d' = driver_jobs d" "dead d' = dead d"
proof -
  define d1 where "d1 = reclaim_expired_leases now d"
  note d1 = reclaim_expired_spec [OF assms(1), of now, folded d1_def]
  have fresh: "map_of (reserved d1) token = None"
    using assms(2) by (simp add: d1(4) lease_of_def)
  have "driver_ok d' \<and> driver_jobs d' = driver_jobs d \<and> dead d' = dead d"
  proof (cases "pop_first qs d1")
    case None
    then show ?thesis using assms(3) d1 by (simp add: reserve_def d1_def)
  next
    case (Some x)
    obtain q e d2 where x: "x = (q, e, d2)" by (cases x)
    note sp = pop_first_spec [OF d1(1) Some [unfolded x]]
    have d': "d' = d2\<lparr>reserved := AList.update token
        \<lparr>lease_envelope = e\<lparr>attempts := attempts e + 1\<rparr>, lease_queue = q, leaseExpiresAt = now + v\<rparr> (reserved d2)\<rparr>"
      using assms(3) Some x by (simp add: reserve_def d1_def Let_def)
    have "driver_jobs d' = driver_jobs d1"
      using sp(2-4) fresh by (simp add: driver_account d' update_absent)
    with sp d1 show ?thesis by (simp add: d' driver_ok_def)
  qed
  then show "driver_ok d'" "driver_jobs d' = driver_jobs d" "dead d' = dead d" by simp_all
qed

lemma reserve_lease:
  assumes "driver_ok d" "reserve qs v now token d = (Some r, d')"
  shows "res_token r = token" "lease_of d' token = Some (env_id (res_envelope r))"
  using assms(2) by (auto simp: reserve_def Let_def lease_of_def split: option.splits prod.splits)

text \<open>Reserving keeps the leases of others, unless they have expired.\<close>

lemma reserve_keeps_leases:
  assumes "driver_ok d" "reserve qs v now token d = (r, d')" "t \<noteq> token"
  shows "lease_of d' t = lease_of d t \<or> lease_of d' t = None"
proof -
  define d1 where "d1 = reclaim_expired_leases now d"
  note d1 = reclaim_expired_spec [OF assms(1), of now, folded d1_def]
  have "lease_of d1 t = lease_of d t \<or> lease_of d1 t = None"
    using d1(4) [of t] by (auto simp: lease_of_def split: option.splits if_splits)
  moreover have "lease_of d' t = lease_of d1 t"
  proof (cases "pop_first qs d1")
    case None
    then show ?thesis using assms(2) by (simp add: reserve_def d1_def)
  next
    case (Some x)
    obtain q e d2 where x: "x = (q, e, d2)" by (cases x)
    then show ?thesis
      using assms(2,3) Some pop_first_spec(4) [OF d1(1) Some [unfolded x]]
      by (auto simp: reserve_def Let_def lease_of_def d1_def)
  qed
  ultimately show ?thesis by simp
qed

lemma reserve_None_lease:
  assumes "driver_ok d" "reserve qs v now token d = (None, d')" "lease_of d token = None"
  shows "lease_of d' token = None"
proof -
  have "d' = reclaim_expired_leases now d"
    using assms(2) by (auto simp: reserve_def Let_def split: option.splits prod.splits)
  then show ?thesis using reclaim_expired_spec(4) [OF assms(1), of now token] assms(3) by (simp add: lease_of_def)
qed

text \<open>
  Which job is reserved: queues are tried in the order given, and within the first queue with ready work the
  reserved job has the highest priority and, among those, the lowest enqueue sequence.
\<close>

lemma reserve_order:
  assumes "driver_ok d" "reserve qs v now token d = (Some r, d')"
  defines "d1 \<equiv> reclaim_expired_leases now d"
  shows "\<exists>us vs. qs = us @ res_queue r # vs \<and> (\<forall>u \<in> set us. ready_heap d1 u = [])"
    "\<exists>e \<in> set (ready_heap d1 (res_queue r)). res_envelope r = e\<lparr>attempts := attempts e + 1\<rparr> \<and>
       (\<forall>x \<in> set (ready_heap d1 (res_queue r)).
          priority x < priority e \<or> priority x = priority e \<and> env_seq e \<le> env_seq x)"
proof -
  obtain q e d2 where p: "pop_first qs d1 = Some (q, e, d2)"
    using assms(2) by (auto simp: reserve_def Let_def d1_def split: option.splits)
  then have r: "res_queue r = q" "res_envelope r = e\<lparr>attempts := attempts e + 1\<rparr>"
    using assms(2) by (auto simp: reserve_def Let_def d1_def)
  have ok: "driver_ok d1" using reclaim_expired_spec(1) [OF assms(1)] by (simp add: d1_def)
  note sp = pop_first_spec [OF ok p]
  show "\<exists>us vs. qs = us @ res_queue r # vs \<and> (\<forall>u \<in> set us. ready_heap d1 u = [])"
    using sp(6) r by simp
  have ms: "mset (ready_heap d1 q) = add_mset e (mset (ready_heap d2 q))"
    using mset_heap_pop [OF sp(7)] .
  then have mem: "e \<in> set (ready_heap d1 q)"
    by (metis set_mset_mset union_single_eq_member)
  have "priority x < priority e \<or> priority x = priority e \<and> env_seq e \<le> env_seq x"
    if "x \<in> set (ready_heap d1 q)" for x
    using rc.heap_pop_least [OF ready_heap_ok [OF ok] sp(7), of x] that
    by (auto simp: compare_ready_def split: if_splits)
  with mem r show "\<exists>e \<in> set (ready_heap d1 (res_queue r)). res_envelope r = e\<lparr>attempts := attempts e + 1\<rparr> \<and>
       (\<forall>x \<in> set (ready_heap d1 (res_queue r)).
          priority x < priority e \<or> priority x = priority e \<and> env_seq e \<le> env_seq x)"
    by blast
qed

subsection \<open>Settling a reservation\<close>

definition holds_lease :: "'p reservation \<Rightarrow> 'p memory_driver \<Rightarrow> bool" where
  "holds_lease r d \<longleftrightarrow> lease_of d (res_token r) = Some (env_id (res_envelope r))"

lemma ack_spec:
  assumes "driver_ok d" "holds_lease r d"
  shows "driver_ok (ack r d)" "driver_jobs d = add_mset (env_id (res_envelope r)) (driver_jobs (ack r d))"
    "dead (ack r d) = dead d"
  using drop_lease_jobs [OF assms(1)] drop_lease_ok [OF assms(1)] assms(2) by (simp_all add: ack_def holds_lease_def)

lemma nack_spec:
  assumes "driver_ok d" "holds_lease r d"
  shows "driver_ok (nack r t d)" "driver_jobs (nack r t d) = driver_jobs d" "dead (nack r t d) = dead d"
proof -
  have l: "lease_of d (res_token r) = Some (env_id (res_envelope r))" using assms(2) by (simp add: holds_lease_def)
  then have "map_has (reserved d) (res_token r)" by (auto simp: map_has_def lease_of_def)
  with drop_lease_jobs [OF assms(1) l] drop_lease_ok [OF assms(1)]
  show "driver_ok (nack r t d)" "driver_jobs (nack r t d) = driver_jobs d" "dead (nack r t d) = dead d"
    by (simp_all add: nack_def Let_def enqueue_ok enqueue_delayed_ok enqueue_jobs enqueue_delayed_jobs split: option.split)
qed

lemma nack_stale: "lease_of d (res_token r) = None \<Longrightarrow> nack r t d = d"
  by (auto simp: nack_def map_has_def lease_of_def delete_absent)

lemma ack_stale: "lease_of d (res_token r) = None \<Longrightarrow> ack r d = d"
  by (simp add: ack_def drop_lease_absent)

lemma move_to_dead_letter_spec:
  assumes "driver_ok d"
  shows "driver_ok (move_to_dead_letter r err n d)"
    "dead_jobs (move_to_dead_letter r err n d) = add_mset (env_id (res_envelope r)) (dead_jobs d)"
    "holds_lease r d \<Longrightarrow>
       driver_jobs d = add_mset (env_id (res_envelope r)) (driver_jobs (move_to_dead_letter r err n d))"
    "lease_of d (res_token r) = None \<Longrightarrow> driver_jobs (move_to_dead_letter r err n d) = driver_jobs d"
proof -
  have "bag (dead (move_to_dead_letter r err n d)) = bag (dead d) + {#to_dead_letter r err n#}"
    by (simp add: move_to_dead_letter_def dead_list_def bag_update_add)
  then show "dead_jobs (move_to_dead_letter r err n d) = add_mset (env_id (res_envelope r)) (dead_jobs d)"
    by (simp add: dead_jobs_def to_dead_letter_def Let_def)
  show "driver_ok (move_to_dead_letter r err n d)" using assms by (simp add: move_to_dead_letter_def driver_ok_def)
  show "holds_lease r d \<Longrightarrow>
       driver_jobs d = add_mset (env_id (res_envelope r)) (driver_jobs (move_to_dead_letter r err n d))"
    using drop_lease_jobs [OF assms] by (simp add: holds_lease_def move_to_dead_letter_def driver_account)
  show "lease_of d (res_token r) = None \<Longrightarrow> driver_jobs (move_to_dead_letter r err n d) = driver_jobs d"
    by (simp add: move_to_dead_letter_def driver_account delete_absent)
qed

subsection \<open>Promotion of delayed jobs\<close>

lemma push_all_spec:
  "driver_ok d \<Longrightarrow> driver_ok (push_all q xs d) \<and>
   bag (ready (push_all q xs d)) = mset (map de_envelope xs) + bag (ready d) \<and>
   delayed (push_all q xs d) = delayed d \<and> reserved (push_all q xs d) = reserved d \<and> dead (push_all q xs d) = dead d"
  by (induction q xs d rule: push_all.induct) (simp_all add: enqueue_ok enqueue_bag)

abbreviation due :: "jsnum \<Rightarrow> 'p delayed_entry \<Rightarrow> bool" where
  "due now x \<equiv> de_runAt x \<le> now"

lemma drain_due:
  assumes "heap_ok compare_delayed h" "heap_drain_while compare_delayed (due now) h = (ds, rest)"
  shows "heap_ok compare_delayed rest" "mset ds = filter_mset (due now) (mset h)"
    "mset h = mset rest + mset ds"
proof -
  have mono: "due now a" if "due now b" "\<not> compare_delayed b a < 0" for a b :: "'p delayed_entry"
    using that by (auto simp: compare_delayed_def split: if_splits)
  have sp: "heap_ok compare_delayed rest \<and> mset ds = filter_mset (due now) (mset h) \<and>
      mset rest = filter_mset (\<lambda>x. \<not> due now x) (mset h)"
    by (rule dc.drain_while_filter [OF assms(1) mono assms(2)])
  then show "heap_ok compare_delayed rest" "mset ds = filter_mset (due now) (mset h)" by simp_all
  show "mset h = mset rest + mset ds"
    using sp multiset_partition [of "mset h" "due now"] by (simp add: union_commute)
qed

lemma promote_queues_spec:
  assumes "driver_ok d" "keys_distinct qs" "\<And>q h. map_of qs q = Some h \<Longrightarrow> map_of (delayed d) q = Some h"
    "promote_queues now qs d = (n, d')"
  shows "driver_ok d' \<and> bag (delayed d) = bag (delayed d') + filter_mset (due now) (bag qs) \<and>
    bag (ready d') = bag (ready d) + image_mset de_envelope (filter_mset (due now) (bag qs)) \<and>
    n = size (filter_mset (due now) (bag qs)) \<and> reserved d' = reserved d \<and> dead d' = dead d"
  using assms
proof (induction qs arbitrary: d n d')
  case Nil
  then show ?case by simp
next
  case (Cons p qs)
  obtain q heap where p: "p = (q, heap)" by (cases p)
  obtain ds rest where dr: "heap_drain_while compare_delayed (due now) heap = (ds, rest)"
    by (cases "heap_drain_while compare_delayed (due now) heap") auto
  define d0 where "d0 = d\<lparr>delayed := AList.update q rest (delayed d)\<rparr>"
  define d1 where "d1 = push_all q ds d0"
  obtain m d2 where rec: "promote_queues now qs d1 = (m, d2)" by (cases "promote_queues now qs d1")
  have res: "n = length ds + m" "d' = d2"
    using Cons.prems(4) dr rec by (simp_all add: p d0_def d1_def)
  have h: "map_of (delayed d) q = Some heap" using Cons.prems(3) [of q heap] by (simp add: p)
  note dd = drain_due [OF _ dr]
  have hok: "heap_ok compare_delayed heap" using Cons.prems(1) h by (simp add: driver_ok_def)
  have "driver_ok d0" using Cons.prems(1) dd(1) [OF hok] by (simp add: driver_ok_def d0_def)
  note pa = push_all_spec [OF this, of q ds, folded d1_def]
  have kd: "keys_distinct qs" "map_of qs q = None" using Cons.prems(2) by (simp_all add: p keys_distinct_Cons)
  have look: "map_of (delayed d1) k = Some h'" if "map_of qs k = Some h'" for k h'
    using Cons.prems(3) [of k h'] that kd(2) pa by (cases "k = q") (auto simp: d0_def p)
  have "bag (delayed d) = bag (delayed d0) + mset ds"
    using bag_update_sub [of "delayed d" q rest "mset ds"] h dd(3) [OF hok] by (simp add: d0_def)
  with Cons.IH [OF _ kd(1) look rec] pa
  show ?case
    by (simp add: p res dd(2) [OF hok] d0_def ac_simps flip: size_mset)
qed

lemma promote_due_spec:
  assumes "driver_ok d" "promote_due now d = (n, d')"
  shows "driver_ok d'" "driver_jobs d' = driver_jobs d" "dead d' = dead d" "reserved d' = reserved d"
    "bag (delayed d') = filter_mset (\<lambda>x. \<not> due now x) (bag (delayed d))"
    "bag (ready d') = bag (ready d) + image_mset de_envelope (filter_mset (due now) (bag (delayed d)))"
    "n = size (filter_mset (due now) (bag (delayed d)))"
proof -
  have "keys_distinct (delayed d)" using assms(1) by (simp add: driver_ok_def)
  note sp = promote_queues_spec [OF assms(1) this _ assms(2) [unfolded promote_due_def]]
  then show "driver_ok d'" "dead d' = dead d" "reserved d' = reserved d"
    "bag (ready d') = bag (ready d) + image_mset de_envelope (filter_mset (due now) (bag (delayed d)))"
    "n = size (filter_mset (due now) (bag (delayed d)))" by simp_all
  have eq: "bag (delayed d) = bag (delayed d') + filter_mset (due now) (bag (delayed d))" using sp by simp
  with multiset_partition [of "bag (delayed d)" "due now"]
  show "bag (delayed d') = filter_mset (\<lambda>x. \<not> due now x) (bag (delayed d))"
    by (metis add.commute add_right_cancel)
  have "delayed_jobs d = delayed_jobs d' +
      image_mset (\<lambda>x. env_id (de_envelope x)) (filter_mset (due now) (bag (delayed d)))"
    unfolding delayed_jobs_def by (metis eq image_mset_union)
  moreover have "ready_jobs d' = ready_jobs d +
      image_mset (\<lambda>x. env_id (de_envelope x)) (filter_mset (due now) (bag (delayed d)))"
    using sp by (simp add: ready_jobs_def image_mset.compositionality comp_def)
  ultimately show "driver_jobs d' = driver_jobs d"
    using sp by (simp add: driver_jobs_def leased_jobs_def ac_simps)
qed

section \<open>The driver meets the contract\<close>

interpretation md: queue_driver driver_ok driver_jobs dead_jobs lease_of reserve ack nack move_to_dead_letter
proof (unfold_locales, goal_cases)
  case (1 d t qs v now r d')
  then show ?case using reserve_spec [of d t qs v now r d'] by (simp add: dead_jobs_def)
next
  case (2 d qs v now t r d')
  then show ?case using reserve_lease [of d qs v now t r d'] by simp
next
  case (3 d qs v now t r d' t')
  then show ?case by (rule reserve_keeps_leases)
next
  case (4 d r)
  then show ?case using ack_spec [of d r] by (simp add: holds_lease_def dead_jobs_def)
next
  case (5 d r t)
  then show ?case using nack_spec [of d r t] by (simp add: holds_lease_def dead_jobs_def)
next
  case (6 d r e n)
  then show ?case using move_to_dead_letter_spec [of d r e n] by (simp add: holds_lease_def)
next
  case (7 d r)
  then show ?case by (rule ack_stale)
next
  case (8 d r t)
  then show ?case by (rule nack_stale)
next
  case (9 d r e n)
  then show ?case using move_to_dead_letter_spec [of d r e n] by simp
next
  case (10 d r t e n t')
  then show ?case
    by (auto simp: ack_def nack_def move_to_dead_letter_def lease_of_def Let_def enqueue_def enqueue_delayed_def
        split: option.splits)
qed

end
