(* ===== verification/Middleware.thy ===== *)
theory Middleware
  imports Prelude
begin

text \<open>
  Middleware as seen by a composer.  A middleware is user code; all the composer sees of it is when it calls \<open>next\<close>,
  what it does with the outcome and how it changes the shared context.  \<open>mw\<close> is that behaviour as a tree:
  change the context, call \<open>next\<close> and continue with its outcome, or settle with an outcome of its own.

  \<open>run_mw\<close> runs the tree in a state of type \<open>'s\<close> that holds the context (\<open>upd\<close> changes it there); it is shared by the
  composers of the queue and of the gateway.
\<close>

datatype ('c, 'e, 'r) mw =
    MwSettle "'e + 'r"
  | MwChange "'c \<Rightarrow> 'c" "('c, 'e, 'r) mw"
  | MwNext "'e + 'r \<Rightarrow> ('c, 'e, 'r) mw"

primrec run_mw ::
  "('c, 'e, 'r) mw \<Rightarrow> (('c \<Rightarrow> 'c) \<Rightarrow> 's \<Rightarrow> 's) \<Rightarrow> ('s \<Rightarrow> ('e + 'r) \<times> 's) \<Rightarrow> 's \<Rightarrow> ('e + 'r) \<times> 's" where
  "run_mw (MwSettle r) upd nxt s = (r, s)"
| "run_mw (MwChange f m) upd nxt s = run_mw m upd nxt (upd f s)"
| "run_mw (MwNext k) upd nxt s = (case nxt s of (r, s') \<Rightarrow> run_mw (k r) upd nxt s')"

definition passing :: "('c \<Rightarrow> 'c) \<Rightarrow> ('c, 'e, 'r) mw" where
  "passing f = MwChange f (MwNext MwSettle)"

text \<open>A relation the context updates and \<open>next\<close> keep is kept by a middleware, and the outcomes agree.\<close>

lemma run_mw_related:
  assumes "\<And>f s t. R s t \<Longrightarrow> R (upd f s) (upd' f t)"
    "\<And>s t. R s t \<Longrightarrow> fst (nxt s) = fst (nxt' t) \<and> R (snd (nxt s)) (snd (nxt' t))"
  shows "R s t \<Longrightarrow> fst (run_mw m upd nxt s) = fst (run_mw m upd' nxt' t) \<and>
    R (snd (run_mw m upd nxt s)) (snd (run_mw m upd' nxt' t))"
proof (induction m arbitrary: s t)
  case (MwSettle r)
  then show ?case by simp
next
  case (MwChange f m)
  then show ?case using assms(1) by simp
next
  case (MwNext k)
  obtain r s' where n: "nxt s = (r, s')" by (cases "nxt s")
  obtain r' t' where n': "nxt' t = (r', t')" by (cases "nxt' t")
  from assms(2) [OF MwNext.prems] have "r' = r" "R s' t'" by (simp_all add: n n')
  with MwNext.IH [of "k r" s' t'] show ?case by (simp add: n n')
qed

text \<open>A property the context updates and \<open>next\<close> keep is kept by a middleware.\<close>

lemma run_mw_keeps:
  assumes "\<And>f s. P s \<Longrightarrow> P (upd f s)" "\<And>s. P s \<Longrightarrow> P (snd (nxt s))"
  shows "P s \<Longrightarrow> P (snd (run_mw m upd nxt s))"
  using run_mw_related [of "\<lambda>s t. s = t \<and> P s" upd upd nxt nxt s s m] assms by auto

end
