(* ===== verification/QueueMiddleware.thy ===== *)
theory QueueMiddleware
  imports Middleware
begin

text \<open>
  The middleware pipeline of the queue, \<open>composeMiddleware\<close> of \<open>packages/queue/src/middleware.ts\<close>.

  An outcome of a promise is \<open>js_error + unit\<close>, and the handler is a function of the context.  \<open>cs_trace\<close> is a
  history variable: the indices \<open>invoke\<close> has let through its guard.
\<close>

type_synonym outcome = "js_error + unit"

type_synonym 'c queue_mw = "('c, js_error, unit) mw"

record 'c chain_state =
  cs_ctx :: 'c
  cs_lastIndex :: int
  cs_trace :: "nat list"

definition change_ctx :: "('c \<Rightarrow> 'c) \<Rightarrow> 'c chain_state \<Rightarrow> 'c chain_state" where
  "change_ctx f s = s\<lparr>cs_ctx := f (cs_ctx s)\<rparr>"

definition next_twice :: js_error where
  "next_twice = JsError ''Error'' ''next() called multiple times in a queue middleware.''"

text \<open>\<open>invoke i\<close>, whose guard throws \<open>twice\<close>, with the part of the chain from index \<open>i\<close> on; an empty rest is the terminal handler.\<close>

fun invoke ::
  "js_error \<Rightarrow> ('c \<Rightarrow> outcome \<times> 'c) \<Rightarrow> 'c queue_mw list \<Rightarrow> nat \<Rightarrow> 'c chain_state \<Rightarrow> outcome \<times> 'c chain_state" where
  "invoke twice handler chain i s =
     (if int i \<le> cs_lastIndex s then (Inl twice, s)
      else
        (let s1 = s\<lparr>cs_lastIndex := int i, cs_trace := cs_trace s @ [i]\<rparr> in
         case chain of
           m # rest \<Rightarrow> run_mw m change_ctx (invoke twice handler rest (Suc i)) s1
         | [] \<Rightarrow> (case handler (cs_ctx s1) of (r, c) \<Rightarrow> (r, s1\<lparr>cs_ctx := c\<rparr>))))"

definition compose_middleware ::
  "'c queue_mw list \<Rightarrow> ('c \<Rightarrow> outcome \<times> 'c) \<Rightarrow> 'c \<Rightarrow> outcome \<times> 'c chain_state" where
  "compose_middleware chain handler ctx =
     invoke next_twice handler chain 0 \<lparr>cs_ctx = ctx, cs_lastIndex = - 1, cs_trace = []\<rparr>"

declare invoke.simps [simp del]

text \<open>The guard: a stage that has been entered is not entered again, and the refused call changes nothing.\<close>

lemma invoke_again: "int i \<le> cs_lastIndex s \<Longrightarrow> invoke tw h chain i s = (Inl tw, s)"
  by (simp add: invoke.simps)

text \<open>\<open>ran k s\<close>: exactly the stages \<open>0, \<dots>, k - 1\<close> have been entered, in this order.\<close>

definition ran :: "nat \<Rightarrow> 'c chain_state \<Rightarrow> bool" where
  "ran k s \<longleftrightarrow> cs_lastIndex s = int k - 1 \<and> cs_trace s = [0..<k]"

lemma ran_ctx [simp]: "ran k (s\<lparr>cs_ctx := c\<rparr>) = ran k s"
  by (simp add: ran_def)

lemma ran_enter: "ran k s \<Longrightarrow> ran (Suc k) (s\<lparr>cs_lastIndex := int k, cs_trace := cs_trace s @ [k]\<rparr>)"
  by (simp add: ran_def)

lemma run_mw_ran:
  assumes "\<And>s k. ran k s \<Longrightarrow> Suc i \<le> k \<Longrightarrow> k \<le> n \<Longrightarrow> \<exists>k'. ran k' (snd (nxt s)) \<and> k \<le> k' \<and> k' \<le> n"
    and "ran k s" "Suc i \<le> k" "k \<le> n"
  shows "\<exists>k'. ran k' (snd (run_mw m change_ctx nxt s)) \<and> k \<le> k' \<and> k' \<le> n"
proof (rule run_mw_keeps [where P = "\<lambda>s. \<exists>k'. ran k' s \<and> k \<le> k' \<and> k' \<le> n"], goal_cases)
  case (1 f s)
  then show ?case by (simp add: change_ctx_def)
next
  case (2 s)
  then obtain k' where k': "ran k' s" "k \<le> k'" "k' \<le> n" by blast
  with assms(1) [OF k'(1) order_trans [OF assms(3) k'(2)] k'(3)] show ?case by (meson order_trans)
next
  case 3
  then show ?case using assms(2,4) by blast
qed

lemma invoke_ran:
  "ran k s \<Longrightarrow> i \<le> k \<Longrightarrow> k \<le> i + Suc (length chain) \<Longrightarrow>
   \<exists>k'. ran k' (snd (invoke tw h chain i s)) \<and> k \<le> k' \<and> k' \<le> i + Suc (length chain)"
proof (induction chain arbitrary: i k s)
  case Nil
  show ?case
  proof (cases "k = i")
    case True
    then show ?thesis
      using Nil.prems ran_enter [of i s]
      by (auto simp: invoke.simps [of tw h "[]" i s] Let_def ran_def split: prod.split intro!: exI [of _ "Suc i"])
  next
    case False
    then have "int i \<le> cs_lastIndex s" using Nil.prems by (simp add: ran_def)
    then show ?thesis using Nil.prems by (auto simp: invoke_again)
  qed
next
  case (Cons m chain)
  show ?case
  proof (cases "k = i")
    case True
    define s1 where "s1 = s\<lparr>cs_lastIndex := int i, cs_trace := cs_trace s @ [i]\<rparr>"
    have s1: "ran (Suc i) s1" using ran_enter [of i s] Cons.prems(1) True by (simp add: s1_def)
    have nx: "\<exists>k'. ran k' (snd (invoke tw h chain (Suc i) t)) \<and> j \<le> k' \<and> k' \<le> i + Suc (length (m # chain))"
      if "ran j t" "Suc i \<le> j" "j \<le> i + Suc (length (m # chain))" for t j
      using Cons.IH [of j t "Suc i"] that by simp
    have "\<exists>k'. ran k' (snd (run_mw m change_ctx (invoke tw h chain (Suc i)) s1)) \<and> Suc i \<le> k' \<and> k' \<le> i + Suc (length (m # chain))"
      using run_mw_ran [of i "i + Suc (length (m # chain))", OF nx s1] by simp
    moreover have "invoke tw h (m # chain) i s = run_mw m change_ctx (invoke tw h chain (Suc i)) s1"
      using Cons.prems(1) True by (simp add: invoke.simps [of tw h "m # chain"] ran_def s1_def Let_def)
    ultimately show ?thesis using True by (metis Suc_leD)
  next
    case False
    then have "int i \<le> cs_lastIndex s" using Cons.prems by (simp add: ran_def)
    then show ?thesis using Cons.prems by (auto simp: invoke_again)
  qed
qed

lemma compose_trace:
  "\<exists>k \<le> Suc (length chain). cs_trace (snd (compose_middleware chain h ctx)) = [0..<k]"
proof -
  have "ran 0 \<lparr>cs_ctx = ctx, cs_lastIndex = - 1, cs_trace = []\<rparr>" by (simp add: ran_def)
  from invoke_ran [OF this, of 0 chain next_twice h] show ?thesis
    unfolding compose_middleware_def ran_def by auto
qed

text \<open>
  A chain of middleware that each change the context and pass the call on hands the handler the context with all
  changes made in registration order; what the handler returns is the outcome of the pipeline.
\<close>

lemma invoke_passing:
  "cs_lastIndex s < int i \<Longrightarrow>
   fst (invoke tw h (map passing fs) i s) = fst (h (fold (\<lambda>f c. f c) fs (cs_ctx s))) \<and>
   cs_ctx (snd (invoke tw h (map passing fs) i s)) = snd (h (fold (\<lambda>f c. f c) fs (cs_ctx s)))"
proof (induction fs arbitrary: i s)
  case Nil
  then show ?case by (simp add: invoke.simps [of tw h "[]" i s] Let_def split: prod.split)
next
  case (Cons f fs)
  define s1 where "s1 = s\<lparr>cs_lastIndex := int i, cs_trace := cs_trace s @ [i], cs_ctx := f (cs_ctx s)\<rparr>"
  have "invoke tw h (map passing (f # fs)) i s = invoke tw h (map passing fs) (Suc i) s1"
    using Cons.prems
    unfolding list.map(2) by (subst invoke.simps) (simp add: Let_def passing_def change_ctx_def s1_def split: prod.split)
  moreover have "cs_lastIndex s1 < int (Suc i)" by (simp add: s1_def)
  ultimately show ?case using Cons.IH [of s1 "Suc i"] by (simp add: s1_def)
qed

end
