(* ===== verification/WindowStore.thy ===== *)
theory WindowStore
  imports Prelude
begin

text \<open>
  The backing stores of \<open>packages/store/src/store.ts\<close>: \<open>InMemoryRateLimitStore\<close> (a bounded log of timestamps
  per key), \<open>InMemoryCounterStore\<close> over it, and \<open>InMemoryKeyValueStore\<close> with its lazily evaluated
  time-to-live.

  The locale \<open>window_log\<close> states what the interface \<open>RateLimitStore\<close> promises to a limiter that asks \<open>count\<close>
  before \<open>hit\<close>; its client lemma bounds the number of hits such a limiter lets into any window.  The
  in-memory store interprets it below its per-key cap.
\<close>

section \<open>The rate-limit store\<close>

record rate_store =
  rs_log :: "(string, jsnum list) jsmap"
  rs_maxKeys :: nat
  rs_maxRequestsPerKey :: nat
  rs_retentionMs :: "jsnum option"

definition prune :: "jsnum \<Rightarrow> jsnum list \<Rightarrow> jsnum list" where
  "prune cutoff ts = dropWhile (\<lambda>t. t < cutoff) ts"

definition evict_oldest :: "rate_store \<Rightarrow> rate_store" where
  "evict_oldest s =
     (if rs_maxKeys s \<le> length (rs_log s)
      then (case rs_log s of [] \<Rightarrow> s | (first_key, _) # _ \<Rightarrow> s\<lparr>rs_log := AList.delete first_key (rs_log s)\<rparr>)
      else s)"

definition store_hit :: "string \<Rightarrow> jsnum \<Rightarrow> jsnum \<Rightarrow> rate_store \<Rightarrow> nat \<times> rate_store" where
  "store_hit key nowMs windowMs s =
     (let cutoff = nowMs - windowMs;
          (s1, timestamps) =
            (case map_of (rs_log s) key of
               Some ts \<Rightarrow> (s, ts)
             | None \<Rightarrow> (evict_oldest s, []));
          pruned = prune cutoff timestamps;
          ts' = (if length pruned < rs_maxRequestsPerKey s then pruned @ [nowMs] else pruned)
      in (length ts', s1\<lparr>rs_log := AList.update key ts' (rs_log s1)\<rparr>))"

definition store_count :: "string \<Rightarrow> jsnum \<Rightarrow> jsnum \<Rightarrow> rate_store \<Rightarrow> nat" where
  "store_count key nowMs windowMs s =
     (case map_of (rs_log s) key of
        None \<Rightarrow> 0
      | Some ts \<Rightarrow> length (filter (\<lambda>t. nowMs - windowMs \<le> t) ts))"

definition store_reset :: "string \<Rightarrow> rate_store \<Rightarrow> rate_store" where
  "store_reset key s = s\<lparr>rs_log := AList.delete key (rs_log s)\<rparr>"

definition store_size :: "rate_store \<Rightarrow> nat" where
  "store_size s = length (rs_log s)"

definition store_destroy :: "rate_store \<Rightarrow> rate_store" where
  "store_destroy s = s\<lparr>rs_log := []\<rparr>"

definition store_sweep :: "jsnum \<Rightarrow> rate_store \<Rightarrow> rate_store" where
  "store_sweep now s =
     (case rs_retentionMs s of
        None \<Rightarrow> s
      | Some r \<Rightarrow>
          if r = 0 then s
          else s\<lparr>rs_log := filter (\<lambda>(k, ts). ts \<noteq> []) (map (\<lambda>(k, ts). (k, prune (now - r) ts)) (rs_log s))\<rparr>)"

section \<open>The counter store\<close>

definition counter_increment :: "string \<Rightarrow> jsnum \<Rightarrow> jsnum \<Rightarrow> rate_store \<Rightarrow> nat \<times> rate_store" where
  "counter_increment key nowMs windowMs s = store_hit key nowMs windowMs s"

definition counter_count :: "string \<Rightarrow> jsnum \<Rightarrow> jsnum \<Rightarrow> rate_store \<Rightarrow> nat" where
  "counter_count key nowMs windowMs s = store_count key nowMs windowMs s"

definition counter_reset :: "string \<Rightarrow> rate_store \<Rightarrow> rate_store" where
  "counter_reset key s = store_reset key s"

section \<open>The key/value store\<close>

record expiring_entry =
  ee_value :: string
  ee_expiresAt :: "jsnum option"

type_synonym kv_store = "(string, expiring_entry) jsmap"

definition kv_get :: "string \<Rightarrow> jsnum \<Rightarrow> kv_store \<Rightarrow> string option \<times> kv_store" where
  "kv_get key now s =
     (case map_of s key of
        None \<Rightarrow> (None, s)
      | Some e \<Rightarrow>
          (case ee_expiresAt e of
             Some t \<Rightarrow> if t \<le> now then (None, AList.delete key s) else (Some (ee_value e), s)
           | None \<Rightarrow> (Some (ee_value e), s)))"

definition kv_set :: "string \<Rightarrow> string \<Rightarrow> jsnum option \<Rightarrow> jsnum \<Rightarrow> kv_store \<Rightarrow> kv_store" where
  "kv_set key v ttlMs now s =
     AList.update key \<lparr>ee_value = v, ee_expiresAt = map_option (\<lambda>t. now + t) ttlMs\<rparr> s"

definition kv_delete :: "string \<Rightarrow> kv_store \<Rightarrow> kv_store" where
  "kv_delete key s = AList.delete key s"

definition kv_clear :: "kv_store \<Rightarrow> kv_store" where
  "kv_clear s = []"

section \<open>The contract of a sliding-window store\<close>

locale window_log =
  fixes invar :: "'s \<Rightarrow> bool"
    and hit :: "'k \<Rightarrow> jsnum \<Rightarrow> jsnum \<Rightarrow> 's \<Rightarrow> nat \<times> 's"
    and count :: "'k \<Rightarrow> jsnum \<Rightarrow> jsnum \<Rightarrow> 's \<Rightarrow> nat"
    and entries :: "'s \<Rightarrow> 'k \<Rightarrow> jsnum list"
    and cap :: nat
  assumes count_log: "invar s \<Longrightarrow> count k now w s = length (filter (\<lambda>t. now - w \<le> t) (entries s k))"
    and hit_log: "invar s \<Longrightarrow> sorted (entries s k) \<Longrightarrow> count k now w s < cap \<Longrightarrow>
      entries (snd (hit k now w s)) k = filter (\<lambda>t. now - w \<le> t) (entries s k) @ [now]"
    and hit_count: "invar s \<Longrightarrow> fst (hit k now w s) = length (entries (snd (hit k now w s)) k)"
    and hit_invar: "invar s \<Longrightarrow> invar (snd (hit k now w s))"
begin

text \<open>
  \<open>seen\<close> is the history of accepted times; the store remembers the part of it that a window ending at or
  after \<open>prev\<close> can reach.
\<close>

lemma gate_step:
  assumes inv: "invar s" and so: "sorted (entries s k)"
    and rem: "\<And>c. prev - w \<le> c \<Longrightarrow> filter (\<lambda>t. c \<le> t) (entries s k) = filter (\<lambda>t. c \<le> t) seen"
    and bnd: "\<And>t. length (filter (\<lambda>x. t - w \<le> x \<and> x \<le> t) seen) \<le> R"
    and past: "\<forall>x \<in> set seen. x \<le> prev" "prev \<le> now" "\<forall>x \<in> set (entries s k). x \<le> prev"
    and free: "count k now w s < R" "R \<le> cap"
  defines "s' \<equiv> snd (hit k now w s)"
  shows "invar s'" "sorted (entries s' k)" "\<forall>x \<in> set (entries s' k). x \<le> now"
    "\<And>c. now - w \<le> c \<Longrightarrow> filter (\<lambda>t. c \<le> t) (entries s' k) = filter (\<lambda>t. c \<le> t) (seen @ [now])"
    "\<And>t. length (filter (\<lambda>x. t - w \<le> x \<and> x \<le> t) (seen @ [now])) \<le> R"
    "fst (hit k now w s) \<le> R"
proof -
  have lg: "entries s' k = filter (\<lambda>t. now - w \<le> t) (entries s k) @ [now]"
    using hit_log [OF inv so, of now w] free by (simp add: s'_def)
  show "invar s'" using hit_invar [OF inv] by (simp add: s'_def)
  show "sorted (entries s' k)" using so past by (auto simp: lg sorted_append intro: sorted_filter [where f = id, simplified])
  show "\<forall>x \<in> set (entries s' k). x \<le> now" using past by (auto simp: lg)
  show "filter (\<lambda>t. c \<le> t) (entries s' k) = filter (\<lambda>t. c \<le> t) (seen @ [now])" if "now - w \<le> c" for c
  proof -
    have "filter (\<lambda>t. c \<le> t) (filter (\<lambda>t. now - w \<le> t) (entries s k)) = filter (\<lambda>t. c \<le> t) (entries s k)"
      using that by (auto intro!: filter_cong)
    with rem [of c] that past(2) show ?thesis by (simp add: lg)
  qed
  have cnt: "length (filter (\<lambda>t. now - w \<le> t) seen) < R"
    using count_log [OF inv, of k now w] rem [of "now - w"] free(1) past(2) by simp
  show "length (filter (\<lambda>x. t - w \<le> x \<and> x \<le> t) (seen @ [now])) \<le> R" for t
  proof (cases "t - w \<le> now \<and> now \<le> t")
    case True
    have "length (filter (\<lambda>x. t - w \<le> x \<and> x \<le> t) seen) \<le> length (filter (\<lambda>x. now - w \<le> x) seen)"
      unfolding length_filter_conv_card by (rule card_mono) (use True in auto)
    with cnt True show ?thesis by simp
  next
    case False
    then show ?thesis using bnd [of t] by auto
  qed
  show "fst (hit k now w s) \<le> R"
    using hit_count [OF inv, of k now w] lg count_log [OF inv, of k now w] free(1) by (simp add: s'_def)
qed

end

section \<open>The in-memory store meets it\<close>

definition store_entries :: "rate_store \<Rightarrow> string \<Rightarrow> jsnum list" where
  "store_entries s k = nullish (map_of (rs_log s) k) []"

definition store_ok :: "nat \<Rightarrow> rate_store \<Rightarrow> bool" where
  "store_ok cap s \<longleftrightarrow> keys_distinct (rs_log s) \<and> rs_maxRequestsPerKey s = cap"

lemma evict_oldest_ok: "keys_distinct (rs_log s) \<Longrightarrow> keys_distinct (rs_log (evict_oldest s))"
  by (auto simp: evict_oldest_def keys_distinct_Cons split: list.splits)

lemma evict_oldest_frame [simp]:
  "rs_maxKeys (evict_oldest s) = rs_maxKeys s" "rs_maxRequestsPerKey (evict_oldest s) = rs_maxRequestsPerKey s"
  "rs_retentionMs (evict_oldest s) = rs_retentionMs s"
  by (auto simp: evict_oldest_def split: list.splits)

lemma store_count_entries: "store_count k now w s = length (filter (\<lambda>t. now - w \<le> t) (store_entries s k))"
  by (simp add: store_count_def store_entries_def split: option.split)

lemma store_hit_entries:
  "store_entries (snd (store_hit k now w s)) k =
     (let p = prune (now - w) (store_entries s k) in if length p < rs_maxRequestsPerKey s then p @ [now] else p)"
  by (simp add: store_hit_def store_entries_def Let_def prune_def split: option.split)

lemma store_hit_fst: "fst (store_hit k now w s) = length (store_entries (snd (store_hit k now w s)) k)"
  by (simp add: store_hit_def store_entries_def Let_def split: option.split)

lemma store_hit_frame [simp]:
  "rs_maxKeys (snd (store_hit k now w s)) = rs_maxKeys s"
  "rs_maxRequestsPerKey (snd (store_hit k now w s)) = rs_maxRequestsPerKey s"
  by (simp_all add: store_hit_def Let_def split: option.split)

lemma store_hit_distinct: "keys_distinct (rs_log s) \<Longrightarrow> keys_distinct (rs_log (snd (store_hit k now w s)))"
  by (simp add: store_hit_def Let_def evict_oldest_ok split: option.split)

lemma store_hit_other:
  assumes "k' \<noteq> k" "map_has (rs_log s) k \<or> length (rs_log s) < rs_maxKeys s"
  shows "store_entries (snd (store_hit k now w s)) k' = store_entries s k'"
  using assms by (auto simp: store_hit_def store_entries_def Let_def map_has_def evict_oldest_def split: option.splits)

interpretation ws: window_log "store_ok cap" store_hit store_count store_entries cap for cap
proof (unfold_locales, goal_cases)
  case (1 s k now w)
  show ?case by (rule store_count_entries)
next
  case (2 s k now w)
  then show ?case
    by (simp add: store_hit_entries prune_def takeWhile_dropWhile_sorted store_count_entries store_ok_def Let_def)
next
  case (3 s k now w)
  show ?case by (rule store_hit_fst)
next
  case (4 s k now w)
  then show ?case by (simp add: store_ok_def store_hit_distinct)
qed

text \<open>The number of keys never exceeds the ceiling, and no log exceeds the per-key ceiling.\<close>

lemma evict_oldest_room: "0 < rs_maxKeys s \<Longrightarrow> keys_distinct (rs_log s) \<Longrightarrow> length (rs_log s) \<le> rs_maxKeys s \<Longrightarrow>
    length (rs_log (evict_oldest s)) < rs_maxKeys s"
  by (cases "rs_log s") (auto simp: evict_oldest_def length_delete keys_distinct_Cons delete_absent)

lemma evict_oldest_absent: "map_of (rs_log s) k = None \<Longrightarrow> map_of (rs_log (evict_oldest s)) k = None"
  by (auto simp: evict_oldest_def split: list.splits if_splits)

lemma store_hit_size:
  assumes "0 < rs_maxKeys s" "keys_distinct (rs_log s)" "length (rs_log s) \<le> rs_maxKeys s"
  shows "length (rs_log (snd (store_hit k now w s))) \<le> rs_maxKeys s"
  using assms evict_oldest_room [OF assms] evict_oldest_absent [of s k]
  by (auto simp: store_hit_def Let_def length_update split: option.split)

lemma prune_length: "length (prune c ts) \<le> length ts"
  by (simp add: prune_def length_dropWhile_le)

lemma store_hit_entry_bound:
  "length (store_entries s k) \<le> rs_maxRequestsPerKey s \<Longrightarrow>
   length (store_entries (snd (store_hit k now w s)) k) \<le> rs_maxRequestsPerKey s"
  using prune_length [of "now - w" "store_entries s k"] by (auto simp: store_hit_entries Let_def)

section \<open>The key/value store as a map with expiry\<close>

lemma kv_get_set:
  "fst (kv_get k now (kv_set k v ttl t s)) = (case ttl of Some d \<Rightarrow> if t + d \<le> now then None else Some v | None \<Rightarrow> Some v)"
  by (simp add: kv_get_def kv_set_def split: option.split)

lemma kv_get_other: "k' \<noteq> k \<Longrightarrow> fst (kv_get k' now (kv_set k v ttl t s)) = fst (kv_get k' now s)"
  by (simp add: kv_get_def kv_set_def split: option.split)

lemma kv_get_delete: "fst (kv_get k now (kv_delete k s)) = None"
  by (simp add: kv_get_def kv_delete_def)

lemma kv_get_keeps: "t \<le> t' \<Longrightarrow> fst (kv_get k' t' (snd (kv_get k t s))) = fst (kv_get k' t' s)"
  by (auto simp: kv_get_def split: option.splits if_splits)

end
