(* ===== verification/QueueWorker.thy ===== *)
theory QueueWorker
  imports MemoryDriver WindowStore
begin

text \<open>
  The reservation loop of \<open>packages/queue/src/worker.ts\<close>, class \<open>WorkerImpl\<close>, over the in-process driver.

  The event loop interleaves \<open>pump\<close> with the executions in flight, and an execution is suspended while its
  handler runs.  The model has one step per piece of code between two suspensions: \<open>Start\<close>, \<open>Stop\<close>,
  \<open>Pump\<close> (one pass of the \<open>while\<close> of \<open>pump\<close>), \<open>Admit i\<close> (the rate check of the \<open>i\<close>-th execution in
  flight and, if it passes, the emission of \<open>job.started\<close>), \<open>Settle i\<close> (the rest of \<open>executeReservation\<close>, once
  the handler's outcome is known); and the steps of other parties: \<open>Enqueue\<close>, \<open>EnqueueDelayed\<close>, \<open>Promote\<close>.
  Any sequence of steps is a schedule.

  \<open>cf_uuid\<close> stands for \<open>randomUUID\<close>: its \<open>n\<close>-th value is the token of the \<open>n\<close>-th reservation.  Clock and random
  reads are arguments of the steps that make them.
\<close>

section \<open>State\<close>

record rate_limit_spec =
  rl_requests :: jsnum
  rl_windowMs :: jsnum

record worker_cfg =
  cf_queues :: "string list"
  cf_concurrency :: nat
  cf_stopWhenEmpty :: bool
  cf_visibilityMs :: jsnum
  cf_handlers :: "string list"
  cf_defaultBackoff :: "backoff_policy option"
  cf_rateLimits :: "(string, rate_limit_spec) jsmap"
  cf_uuid :: "nat \<Rightarrow> string"

datatype job_event =
    JobStarted string
  | JobCompleted string
  | JobFailed string js_error
  | JobRetry string js_error jsnum int
  | JobTimeout string jsnum

record 'p worker =
  w_cfg :: worker_cfg
  w_running :: bool
  w_inFlight :: nat
  w_processed :: nat
  w_failed :: nat
  w_driver :: "'p memory_driver"
  w_rateStore :: "rate_store option"
  w_executing :: "('p reservation \<times> bool) list"
  w_events :: "job_event list"
  w_released :: "(string \<times> string \<times> string) list"
  w_rejected :: "js_error list"
  w_next :: nat

definition emit :: "job_event \<Rightarrow> 'p worker \<Rightarrow> 'p worker" where
  "emit e w = w\<lparr>w_events := w_events w @ [e]\<rparr>"

definition release_dedupe :: "'p reservation \<Rightarrow> 'p worker \<Rightarrow> 'p worker" where
  "release_dedupe r w =
     (case dedupeKey (res_envelope r) of
        None \<Rightarrow> w
      | Some k \<Rightarrow> w\<lparr>w_released := w_released w @ [(res_queue r, k, env_id (res_envelope r))]\<rparr>)"

section \<open>Lifecycle\<close>

definition worker_start :: "'p worker \<Rightarrow> 'p worker" where
  "worker_start w = (if w_running w then w else w\<lparr>w_running := True\<rparr>)"

definition worker_stop :: "'p worker \<Rightarrow> 'p worker" where
  "worker_stop w = w\<lparr>w_running := False\<rparr>"

definition pump_pass :: "jsnum \<Rightarrow> 'p worker \<Rightarrow> 'p worker" where
  "pump_pass now w =
     (if w_running w \<and> w_inFlight w < cf_concurrency (w_cfg w) then
        (case reserve (cf_queues (w_cfg w)) (cf_visibilityMs (w_cfg w)) now (cf_uuid (w_cfg w) (w_next w)) (w_driver w) of
           (None, d) \<Rightarrow>
             (if cf_stopWhenEmpty (w_cfg w) \<and> w_inFlight w = 0
              then worker_stop (w\<lparr>w_driver := d\<rparr>) else w\<lparr>w_driver := d\<rparr>)
         | (Some r, d) \<Rightarrow>
             w\<lparr>w_driver := d, w_next := Suc (w_next w), w_inFlight := w_inFlight w + 1,
               w_executing := w_executing w @ [(r, False)]\<rparr>)
      else w)"

text \<open>The \<open>finally\<close> of an execution: its slot is free and it leaves \<open>inFlightPromises\<close>.\<close>

definition remove_nth :: "nat \<Rightarrow> 'a list \<Rightarrow> 'a list" where
  "remove_nth i xs = take i xs @ drop (Suc i) xs"

definition finish_execution :: "nat \<Rightarrow> 'p worker \<Rightarrow> 'p worker" where
  "finish_execution i w = w\<lparr>w_inFlight := w_inFlight w - 1, w_executing := remove_nth i (w_executing w)\<rparr>"

section \<open>Rate limiting\<close>

definition admit_under_rate_limit :: "'p reservation \<Rightarrow> jsnum \<Rightarrow> 'p worker \<Rightarrow> bool \<times> 'p worker" where
  "admit_under_rate_limit r now w =
     (case (map_of (cf_rateLimits (w_cfg w)) (res_queue r), w_rateStore w) of
        (Some limit, Some store) \<Rightarrow>
          (if rl_requests limit \<le> of_nat (store_count (res_queue r) now (rl_windowMs limit) store)
           then
             (let e = res_envelope r; r' = r\<lparr>res_envelope := e\<lparr>attempts := attempts e - 1\<rparr>\<rparr> in
              (False, w\<lparr>w_driver := nack r' (Some (now + rl_windowMs limit)) (w_driver w)\<rparr>))
           else (True, w\<lparr>w_rateStore := Some (snd (store_hit (res_queue r) now (rl_windowMs limit) store))\<rparr>))
      | _ \<Rightarrow> (True, w))"

definition admit_execution :: "nat \<Rightarrow> jsnum \<Rightarrow> 'p worker \<Rightarrow> 'p worker" where
  "admit_execution i now w =
     (if i < length (w_executing w) \<and> \<not> snd (w_executing w ! i) then
        (let r = fst (w_executing w ! i) in
         case admit_under_rate_limit r now w of
           (False, w1) \<Rightarrow> finish_execution i w1
         | (True, w1) \<Rightarrow>
             emit (JobStarted (env_id (res_envelope r))) (w1\<lparr>w_executing := (w_executing w1)[i := (r, True)]\<rparr>))
      else w)"

section \<open>Settling an execution\<close>

text \<open>
  \<open>run_with_timeout\<close>: with a per-attempt timeout the handler races a timer; \<open>timer_wins\<close> says who settled
  first.  Without one the timer does not exist.
\<close>

definition timeout_error :: js_error where
  "timeout_error = JsError ''Error'' ''exceeded its per-attempt timeout''"

definition run_with_timeout ::
  "'p reservation \<Rightarrow> js_error + unit \<Rightarrow> bool \<Rightarrow> 'p worker \<Rightarrow> (js_error + unit) \<times> 'p worker" where
  "run_with_timeout r handler_outcome timer_wins w =
     (case timeoutMs (res_envelope r) of
        None \<Rightarrow> (handler_outcome, w)
      | Some t \<Rightarrow>
          if timer_wins then (Inl timeout_error, emit (JobTimeout (env_id (res_envelope r)) t) w)
          else (handler_outcome, w))"

definition dead_letter_permanent :: "'p reservation \<Rightarrow> js_error \<Rightarrow> jsnum \<Rightarrow> 'p worker \<Rightarrow> 'p worker" where
  "dead_letter_permanent r err date_now w =
     emit (JobFailed (env_id (res_envelope r)) err)
       (release_dedupe r
         (w\<lparr>w_driver := move_to_dead_letter r err date_now (w_driver w), w_failed := w_failed w + 1\<rparr>))"

text \<open>A throw of the retry engine (a malformed duration in the backoff policy) rejects the execution.\<close>

definition handle_failure ::
  "'p reservation \<Rightarrow> js_error \<Rightarrow> jsnum \<Rightarrow> jsnum \<Rightarrow> jsnum \<Rightarrow> 'p worker \<Rightarrow> 'p worker" where
  "handle_failure r err rng now date_now w =
     (case on_failure (res_envelope r) None (Some (nullish (cf_defaultBackoff (w_cfg w)) DEFAULT_BACKOFF)) rng now of
        Inl e \<Rightarrow> w\<lparr>w_rejected := w_rejected w @ [e]\<rparr>
      | Inr (Retry runAt) \<Rightarrow>
          emit (JobRetry (env_id (res_envelope r)) err runAt (attempts (res_envelope r) + 1))
            (w\<lparr>w_driver := nack r (Some runAt) (w_driver w)\<rparr>)
      | Inr DeadLetter \<Rightarrow>
          emit (JobFailed (env_id (res_envelope r)) err)
            (release_dedupe r
              (w\<lparr>w_driver := move_to_dead_letter r err date_now (w_driver w), w_failed := w_failed w + 1\<rparr>)))"

definition no_handler :: js_error where
  "no_handler = JsError ''Error'' ''No handler registered for job type''"

definition execute_reservation ::
  "'p reservation \<Rightarrow> js_error + unit \<Rightarrow> bool \<Rightarrow> jsnum \<Rightarrow> jsnum \<Rightarrow> jsnum \<Rightarrow> 'p worker \<Rightarrow> 'p worker" where
  "execute_reservation r handler_outcome timer_wins rng now date_now w =
     (if env_type (res_envelope r) \<notin> set (cf_handlers (w_cfg w))
      then dead_letter_permanent r no_handler date_now w
      else
        (case run_with_timeout r handler_outcome timer_wins w of
           (Inr u, w1) \<Rightarrow>
             emit (JobCompleted (env_id (res_envelope r)))
               (release_dedupe r (w1\<lparr>w_driver := ack r (w_driver w1), w_processed := w_processed w1 + 1\<rparr>))
         | (Inl err, w1) \<Rightarrow> handle_failure r err rng now date_now w1))"

definition settle_execution ::
  "nat \<Rightarrow> js_error + unit \<Rightarrow> bool \<Rightarrow> jsnum \<Rightarrow> jsnum \<Rightarrow> jsnum \<Rightarrow> 'p worker \<Rightarrow> 'p worker" where
  "settle_execution i handler_outcome timer_wins rng now date_now w =
     (if i < length (w_executing w) \<and> snd (w_executing w ! i)
      then finish_execution i
        (execute_reservation (fst (w_executing w ! i)) handler_outcome timer_wins rng now date_now w)
      else w)"

section \<open>The worker as a machine\<close>

datatype 'p worker_event =
    Start
  | Stop
  | Pump jsnum
  | Admit nat jsnum
  | Settle nat "js_error + unit" bool jsnum jsnum jsnum
  | Enqueue string "'p envelope"
  | EnqueueDelayed string "'p envelope" jsnum
  | Promote jsnum

fun worker_step :: "'p worker \<Rightarrow> 'p worker_event \<Rightarrow> 'p worker" where
  "worker_step w Start = worker_start w"
| "worker_step w Stop = worker_stop w"
| "worker_step w (Pump now) = pump_pass now w"
| "worker_step w (Admit i now) = admit_execution i now w"
| "worker_step w (Settle i out tw rng now dn) = settle_execution i out tw rng now dn w"
| "worker_step w (Enqueue q e) = w\<lparr>w_driver := enqueue q e (w_driver w)\<rparr>"
| "worker_step w (EnqueueDelayed q e t) = w\<lparr>w_driver := enqueue_delayed q e t (w_driver w)\<rparr>"
| "worker_step w (Promote now) = w\<lparr>w_driver := snd (promote_due now (w_driver w))\<rparr>"

definition new_worker :: "worker_cfg \<Rightarrow> rate_store option \<Rightarrow> 'p worker" where
  "new_worker cfg store =
     \<lparr>w_cfg = cfg, w_running = False, w_inFlight = 0, w_processed = 0, w_failed = 0, w_driver = empty_driver,
      w_rateStore = store, w_executing = [], w_events = [], w_released = [], w_rejected = [], w_next = 0\<rparr>"

definition completed_jobs :: "'p worker \<Rightarrow> string multiset" where
  "completed_jobs w = mset (concat (map (\<lambda>e. case e of JobCompleted j \<Rightarrow> [j] | _ \<Rightarrow> []) (w_events w)))"

definition accounted_jobs :: "'p worker \<Rightarrow> string multiset" where
  "accounted_jobs w = driver_jobs (w_driver w) + dead_jobs (w_driver w) + completed_jobs w"

definition enqueued_jobs :: "'p worker_event list \<Rightarrow> string multiset" where
  "enqueued_jobs es = mset (concat (map (\<lambda>x. case x of Enqueue q e \<Rightarrow> [env_id e] | EnqueueDelayed q e t \<Rightarrow> [env_id e] | _ \<Rightarrow> []) es))"

section \<open>The invariant of the machine\<close>

definition usable :: "'p memory_driver \<Rightarrow> 'p reservation \<Rightarrow> bool" where
  "usable d r \<longleftrightarrow> lease_of d (res_token r) = Some (env_id (res_envelope r)) \<or> lease_of d (res_token r) = None"

definition in_flight :: "'p worker \<Rightarrow> 'p reservation list" where
  "in_flight w = map fst (w_executing w)"

definition worker_ok :: "'p worker \<Rightarrow> bool" where
  "worker_ok w \<longleftrightarrow>
     driver_ok (w_driver w) \<and> inj (cf_uuid (w_cfg w)) \<and>
     w_inFlight w = length (in_flight w) \<and> w_inFlight w \<le> cf_concurrency (w_cfg w) \<and>
     distinct (map res_token (in_flight w)) \<and>
     (\<forall>r \<in> set (in_flight w). usable (w_driver w) r \<and> res_token r \<in> cf_uuid (w_cfg w) ` {..<w_next w}) \<and>
     (\<forall>t. lease_of (w_driver w) t \<noteq> None \<longrightarrow> t \<in> cf_uuid (w_cfg w) ` {..<w_next w})"

lemma worker_ok_new: "inj (cf_uuid cfg) \<Longrightarrow> worker_ok (new_worker cfg store)"
  by (simp add: worker_ok_def new_worker_def in_flight_def driver_ok_empty) (simp add: lease_of_def empty_driver_def)

text \<open>What settling can do to the driver.\<close>

definition settles :: "'p reservation \<Rightarrow> 'p memory_driver \<Rightarrow> 'p memory_driver \<Rightarrow> bool" where
  "settles r d d' \<longleftrightarrow> d' = d \<or> d' = ack r d \<or> (\<exists>t. d' = nack r t d) \<or> (\<exists>e n. d' = move_to_dead_letter r e n d)"

lemma usable_contract:
  "usable d r \<longleftrightarrow> lease_of d (res_token r) = Some (env_id (res_envelope r)) \<or> lease_of d (res_token r) = None"
  by (simp add: usable_def)

lemma settles_ok: "driver_ok d \<Longrightarrow> usable d r \<Longrightarrow> settles r d d' \<Longrightarrow> driver_ok d'"
  unfolding settles_def usable_def by (auto intro: md.settle_invar)

lemma settles_lease: "settles r d d' \<Longrightarrow> t \<noteq> res_token r \<Longrightarrow> lease_of d' t = lease_of d t"
  unfolding settles_def using md.settle_others by blast

lemma enqueue_lease [simp]: "lease_of (enqueue q e d) = lease_of d"
  by (simp add: lease_of_def fun_eq_iff)

lemma enqueue_delayed_lease [simp]: "lease_of (enqueue_delayed q e t d) = lease_of d"
  by (simp add: lease_of_def fun_eq_iff)

lemma settles_own_lease: "settles r d d' \<Longrightarrow> lease_of d' (res_token r) = lease_of d (res_token r) \<or> lease_of d' (res_token r) = None"
proof -
  have "lease_of (nack r t d) (res_token r) = None" for t
    by (simp add: nack_def Let_def split: option.split) (simp add: lease_of_def)
  moreover have "lease_of (ack r d) (res_token r) = None" by (simp add: ack_def lease_of_def)
  moreover have "lease_of (move_to_dead_letter r e n d) (res_token r) = None" for e n
    by (simp add: move_to_dead_letter_def lease_of_def)
  ultimately show "settles r d d' \<Longrightarrow> ?thesis" unfolding settles_def by metis
qed

lemma settles_lease_None: "settles r d d' \<Longrightarrow> lease_of d t = None \<Longrightarrow> lease_of d' t = None"
  using settles_lease settles_own_lease by metis

lemma emit_frame [simp]:
  "w_cfg (emit e w) = w_cfg w" "w_driver (emit e w) = w_driver w" "w_executing (emit e w) = w_executing w"
  "w_inFlight (emit e w) = w_inFlight w" "w_next (emit e w) = w_next w" "w_rateStore (emit e w) = w_rateStore w"
  by (simp_all add: emit_def)

lemma release_frame [simp]:
  "w_cfg (release_dedupe r w) = w_cfg w" "w_driver (release_dedupe r w) = w_driver w"
  "w_executing (release_dedupe r w) = w_executing w" "w_inFlight (release_dedupe r w) = w_inFlight w"
  "w_next (release_dedupe r w) = w_next w" "w_events (release_dedupe r w) = w_events w"
  by (simp_all add: release_dedupe_def split: option.split)

lemma emit_completed [simp]:
  "completed_jobs (emit (JobCompleted j) w) = add_mset j (completed_jobs w)"
  "completed_jobs (emit (JobStarted j) w) = completed_jobs w"
  "completed_jobs (emit (JobFailed j x) w) = completed_jobs w"
  "completed_jobs (emit (JobRetry j x t n) w) = completed_jobs w"
  "completed_jobs (emit (JobTimeout j t) w) = completed_jobs w"
  by (simp_all add: completed_jobs_def emit_def)

lemma completed_frame [simp]:
  "completed_jobs (w\<lparr>w_driver := d\<rparr>) = completed_jobs w" "completed_jobs (w\<lparr>w_executing := x\<rparr>) = completed_jobs w"
  "completed_jobs (w\<lparr>w_failed := n\<rparr>) = completed_jobs w" "completed_jobs (w\<lparr>w_processed := n\<rparr>) = completed_jobs w"
  "completed_jobs (w\<lparr>w_inFlight := n\<rparr>) = completed_jobs w" "completed_jobs (w\<lparr>w_running := b\<rparr>) = completed_jobs w"
  "completed_jobs (w\<lparr>w_next := n\<rparr>) = completed_jobs w" "completed_jobs (w\<lparr>w_rateStore := s\<rparr>) = completed_jobs w"
  "completed_jobs (w\<lparr>w_rejected := rs\<rparr>) = completed_jobs w" "completed_jobs (release_dedupe r w) = completed_jobs w"
  by (simp_all add: completed_jobs_def)

definition same_frame :: "'p worker \<Rightarrow> 'p worker \<Rightarrow> bool" where
  "same_frame w w' \<longleftrightarrow> w_cfg w' = w_cfg w \<and> w_executing w' = w_executing w \<and> w_inFlight w' = w_inFlight w \<and> w_next w' = w_next w"

definition effect_of :: "'p reservation \<Rightarrow> 'p worker \<Rightarrow> 'p worker \<Rightarrow> bool" where
  "effect_of r w w' \<longleftrightarrow> same_frame w w' \<and>
     (w_driver w' = w_driver w \<and> completed_jobs w' = completed_jobs w \<or>
      w_driver w' = ack r (w_driver w) \<and> completed_jobs w' = add_mset (env_id (res_envelope r)) (completed_jobs w) \<or>
      (\<exists>t. w_driver w' = nack r t (w_driver w)) \<and> completed_jobs w' = completed_jobs w \<or>
      (\<exists>e n. w_driver w' = move_to_dead_letter r e n (w_driver w)) \<and> completed_jobs w' = completed_jobs w)"

lemma effect_dead_letter: "effect_of r w (dead_letter_permanent r e n w)"
  unfolding effect_of_def same_frame_def dead_letter_permanent_def by simp blast

lemma effect_handle_failure: "effect_of r w (handle_failure r err rng now dn w)"
proof (cases "on_failure (res_envelope r) None (Some (nullish (cf_defaultBackoff (w_cfg w)) DEFAULT_BACKOFF)) rng now")
  case (Inl e)
  then show ?thesis by (simp add: handle_failure_def effect_of_def same_frame_def)
next
  case (Inr dec)
  then show ?thesis
    by (cases dec) (auto simp: handle_failure_def effect_of_def same_frame_def simp del: nullish_simps)
qed

lemma effect_completed:
  "effect_of r w (emit (JobCompleted (env_id (res_envelope r)))
     (release_dedupe r (w\<lparr>w_driver := ack r (w_driver w), w_processed := n\<rparr>)))"
  by (simp add: effect_of_def same_frame_def)

lemma effect_emit_timeout: "effect_of r (emit (JobTimeout j t) w) w' \<Longrightarrow> effect_of r w w'"
  by (simp add: effect_of_def same_frame_def)

lemma effect_execute: "effect_of r w (execute_reservation r out tw rng now dn w)"
proof (cases "env_type (res_envelope r) \<in> set (cf_handlers (w_cfg w))")
  case False
  then show ?thesis by (simp add: execute_reservation_def effect_dead_letter)
next
  case True
  show ?thesis
  proof (cases "timeoutMs (res_envelope r) \<noteq> None \<and> tw")
    case True
    with \<open>env_type (res_envelope r) \<in> set (cf_handlers (w_cfg w))\<close> show ?thesis
      by (clarsimp simp: execute_reservation_def run_with_timeout_def)
        (rule effect_emit_timeout, rule effect_handle_failure)
  next
    case False
    then have "run_with_timeout r out tw w = (out, w)" by (auto simp: run_with_timeout_def split: option.splits)
    with True show ?thesis
      by (cases out) (simp_all add: execute_reservation_def effect_handle_failure effect_completed)
  qed
qed

lemma effect_settles: "effect_of r w w' \<Longrightarrow> settles r (w_driver w) (w_driver w') \<and> same_frame w w'"
  by (auto simp: effect_of_def settles_def)

lemmas execute_settles = effect_settles [OF effect_execute, THEN conjunct1]
lemmas execute_frame = effect_settles [OF effect_execute, THEN conjunct2]

lemma effect_accounts:
  assumes "driver_ok (w_driver w)" "usable (w_driver w) r" "effect_of r w w'"
  shows "accounted_jobs w \<subseteq># accounted_jobs w'"
proof -
  let ?d = "w_driver w"
  note u = assms(2) [unfolded usable_def]
  have a: "driver_jobs ?d + dead_jobs ?d + c \<subseteq># driver_jobs (ack r ?d) + dead_jobs (ack r ?d) + add_mset (env_id (res_envelope r)) c"
    for c using subset_mset.add_mono [OF md.ack_no_loss [OF assms(1) u], of c c] by (simp add: ac_simps)
  have n: "driver_jobs (nack r t ?d) + dead_jobs (nack r t ?d) = driver_jobs ?d + dead_jobs ?d" for t
    by (rule md.nack_no_loss [OF assms(1) u])
  have b: "driver_jobs ?d + dead_jobs ?d + c \<subseteq># driver_jobs (move_to_dead_letter r e m ?d) + dead_jobs (move_to_dead_letter r e m ?d) + c"
    for c e m using subset_mset.add_mono [OF md.bury_no_loss [OF assms(1) u, of e m], of c c] by simp
  from assms(3) consider
      "w_driver w' = ?d" "completed_jobs w' = completed_jobs w"
    | "w_driver w' = ack r ?d" "completed_jobs w' = add_mset (env_id (res_envelope r)) (completed_jobs w)"
    | t where "w_driver w' = nack r t ?d" "completed_jobs w' = completed_jobs w"
    | e m where "w_driver w' = move_to_dead_letter r e m ?d" "completed_jobs w' = completed_jobs w"
    unfolding effect_of_def by blast
  then show ?thesis
  proof cases
    case 1
    then show ?thesis by (simp add: accounted_jobs_def)
  next
    case 2
    show ?thesis unfolding accounted_jobs_def 2 by (rule a)
  next
    case 3
    show ?thesis unfolding accounted_jobs_def 3 n by simp
  next
    case 4
    show ?thesis unfolding accounted_jobs_def 4 by (rule b)
  qed
qed

section \<open>Every step keeps the invariant and loses no job\<close>

lemma set_remove_nth: "set (remove_nth i xs) \<subseteq> set xs"
  by (auto simp: remove_nth_def dest: in_set_takeD in_set_dropD)

lemma length_remove_nth: "i < length xs \<Longrightarrow> length (remove_nth i xs) = length xs - 1"
  by (simp add: remove_nth_def)

lemma distinct_remove_nth: "distinct (map f xs) \<Longrightarrow> i < length xs \<Longrightarrow>
    distinct (map f (remove_nth i xs)) \<and> (\<forall>x \<in> set (remove_nth i xs). f x \<noteq> f (xs ! i))"
proof -
  assume d: "distinct (map f xs)" and i: "i < length xs"
  have "xs = take i xs @ xs ! i # drop (Suc i) xs" using i by (rule id_take_nth_drop)
  with d have "distinct (map f (take i xs @ xs ! i # drop (Suc i) xs))" by metis
  then have "distinct (map f (take i xs) @ map f (drop (Suc i) xs))"
    and out: "f (xs ! i) \<notin> f ` set (take i xs)" "f (xs ! i) \<notin> f ` set (drop (Suc i) xs)" by simp_all
  moreover have "f x \<noteq> f (xs ! i)" if "x \<in> set (remove_nth i xs)" for x
    using that out by (metis Un_iff imageI remove_nth_def set_append)
  ultimately show ?thesis by (simp add: remove_nth_def)
qed

lemma worker_okD:
  assumes "worker_ok w"
  shows "driver_ok (w_driver w)" "inj (cf_uuid (w_cfg w))" "w_inFlight w = length (in_flight w)"
    "w_inFlight w \<le> cf_concurrency (w_cfg w)" "distinct (map res_token (in_flight w))"
    "r \<in> set (in_flight w) \<Longrightarrow> usable (w_driver w) r"
    "r \<in> set (in_flight w) \<Longrightarrow> res_token r \<in> cf_uuid (w_cfg w) ` {..<w_next w}"
    "lease_of (w_driver w) t \<noteq> None \<Longrightarrow> t \<in> cf_uuid (w_cfg w) ` {..<w_next w}"
  using assms unfolding worker_ok_def by blast+

lemma worker_okI:
  assumes "driver_ok (w_driver w)" "inj (cf_uuid (w_cfg w))" "w_inFlight w = length (in_flight w)"
    "w_inFlight w \<le> cf_concurrency (w_cfg w)" "distinct (map res_token (in_flight w))"
    "\<And>r. r \<in> set (in_flight w) \<Longrightarrow> usable (w_driver w) r"
    "\<And>r. r \<in> set (in_flight w) \<Longrightarrow> res_token r \<in> cf_uuid (w_cfg w) ` {..<w_next w}"
    "\<And>t. lease_of (w_driver w) t \<noteq> None \<Longrightarrow> t \<in> cf_uuid (w_cfg w) ` {..<w_next w}"
  shows "worker_ok w"
  using assms unfolding worker_ok_def by blast

lemma map_remove_nth: "map f (remove_nth i xs) = remove_nth i (map f xs)"
  by (simp add: remove_nth_def take_map drop_map)

lemma finish_simps [simp]:
  "w_driver (finish_execution i w) = w_driver w" "w_cfg (finish_execution i w) = w_cfg w"
  "w_next (finish_execution i w) = w_next w" "w_inFlight (finish_execution i w) = w_inFlight w - 1"
  "in_flight (finish_execution i w) = remove_nth i (in_flight w)"
  "completed_jobs (finish_execution i w) = completed_jobs w"
  by (simp_all add: finish_execution_def in_flight_def map_remove_nth)

lemma worker_ok_finish:
  assumes ok: "worker_ok w" and i: "i < length (in_flight w)"
    and r: "res_token r = res_token (in_flight w ! i)" "usable (w_driver w) r"
    and st: "settles r (w_driver w) (w_driver w1)" and fr: "same_frame w w1"
  shows "worker_ok (finish_execution i w1)"
proof -
  note okd = worker_okD [OF ok]
  note rm = distinct_remove_nth [OF okd(5) i]
  have fr': "w_cfg w1 = w_cfg w" "in_flight w1 = in_flight w" "w_inFlight w1 = w_inFlight w" "w_next w1 = w_next w"
    using fr by (simp_all add: same_frame_def in_flight_def)
  show ?thesis
  proof (rule worker_okI)
    show "driver_ok (w_driver (finish_execution i w1))"
      using settles_ok [OF okd(1) r(2) st] by simp
    show "w_inFlight (finish_execution i w1) = length (in_flight (finish_execution i w1))"
      "w_inFlight (finish_execution i w1) \<le> cf_concurrency (w_cfg (finish_execution i w1))"
      using okd(3,4) i by (simp_all add: fr' length_remove_nth)
    show "inj (cf_uuid (w_cfg (finish_execution i w1)))" using okd(2) by (simp add: fr'(1))
    show "distinct (map res_token (in_flight (finish_execution i w1)))"
      using conjunct1 [OF rm] by (simp add: fr'(2))
    fix x
    assume "x \<in> set (in_flight (finish_execution i w1))"
    then have x: "x \<in> set (remove_nth i (in_flight w))" by (simp add: fr')
    have x': "x \<in> set (in_flight w)" by (rule subsetD [OF set_remove_nth x])
    have "res_token x \<noteq> res_token r" using rm x r(1) by auto
    then have "lease_of (w_driver w1) (res_token x) = lease_of (w_driver w) (res_token x)"
      by (rule settles_lease [OF st])
    then show "usable (w_driver (finish_execution i w1)) x"
      using okd(6) [OF x'] by (simp add: usable_def)
    show "res_token x \<in> cf_uuid (w_cfg (finish_execution i w1)) ` {..<w_next (finish_execution i w1)}"
      using okd(7) [OF x'] by (simp add: fr')
  next
    fix t
    assume "lease_of (w_driver (finish_execution i w1)) t \<noteq> None"
    then have "lease_of (w_driver w) t \<noteq> None"
      using settles_lease_None [OF st, of t] by (metis finish_simps(1))
    then show "t \<in> cf_uuid (w_cfg (finish_execution i w1)) ` {..<w_next (finish_execution i w1)}"
      using okd(8) [of t] by (simp add: fr')
  qed
qed

lemma in_flight_nth: "i < length (w_executing w) \<Longrightarrow> fst (w_executing w ! i) = in_flight w ! i \<and> i < length (in_flight w) \<and>
    in_flight w ! i \<in> set (in_flight w)"
  by (simp add: in_flight_def)

lemma worker_ok_settle:
  assumes "worker_ok w"
  shows "worker_ok (settle_execution i out tw rng now dn w)"
proof (cases "i < length (w_executing w) \<and> snd (w_executing w ! i)")
  case True
  note nth = in_flight_nth [OF conjunct1 [OF True]]
  with True show ?thesis
    using worker_ok_finish [OF assms _ refl worker_okD(6) [OF assms] execute_settles execute_frame, of i]
    by (simp add: settle_execution_def)
next
  case False
  then show ?thesis using assms by (auto simp: settle_execution_def)
qed

lemma accounted_settle:
  assumes "worker_ok w"
  shows "accounted_jobs w \<subseteq># accounted_jobs (settle_execution i out tw rng now dn w)"
proof (cases "i < length (w_executing w) \<and> snd (w_executing w ! i)")
  case True
  note nth = in_flight_nth [OF conjunct1 [OF True]]
  have "accounted_jobs (finish_execution i w') = accounted_jobs w'" for w' :: "'a worker"
    by (simp add: accounted_jobs_def)
  with True nth show ?thesis
    using effect_accounts [OF worker_okD(1) [OF assms] worker_okD(6) [OF assms] effect_execute]
    by (simp add: settle_execution_def)
next
  case False
  then show ?thesis by (auto simp: settle_execution_def)
qed

text \<open>The deferral of a rate-limited job is a \<open>nack\<close> of the same job; admission leaves the driver alone.\<close>

lemma admit_under_rate_limit_cases:
  assumes "admit_under_rate_limit r now w = (b, w1)"
  shows "same_frame w w1" "completed_jobs w1 = completed_jobs w" "b \<Longrightarrow> w_driver w1 = w_driver w"
    "\<not> b \<Longrightarrow> \<exists>t. w_driver w1 = nack (r\<lparr>res_envelope := (res_envelope r)\<lparr>attempts := attempts (res_envelope r) - 1\<rparr>\<rparr>) (Some t) (w_driver w)"
  using assms by (auto simp: admit_under_rate_limit_def same_frame_def Let_def split: option.splits if_splits)

lemma settles_deferral:
  "d' = nack (r\<lparr>res_envelope := (res_envelope r)\<lparr>attempts := a\<rparr>\<rparr>) t d \<Longrightarrow> usable d r \<Longrightarrow> driver_ok d \<Longrightarrow>
   settles (r\<lparr>res_envelope := (res_envelope r)\<lparr>attempts := a\<rparr>\<rparr>) d d' \<and>
   usable d (r\<lparr>res_envelope := (res_envelope r)\<lparr>attempts := a\<rparr>\<rparr>)"
  by (auto simp: settles_def usable_def)

lemma worker_ok_same:
  assumes "worker_ok w" "w_cfg w' = w_cfg w" "in_flight w' = in_flight w" "w_inFlight w' = w_inFlight w"
    "w_next w' = w_next w" "driver_ok (w_driver w')" "lease_of (w_driver w') = lease_of (w_driver w)"
  shows "worker_ok w'"
  using assms by (simp add: worker_ok_def usable_def)

lemma map_fst_update: "i < length xs \<Longrightarrow> map fst (xs[i := (fst (xs ! i), b)]) = map fst xs"
  by (simp add: map_update) (metis list_update_id nth_map)

lemma worker_ok_admit:
  assumes "worker_ok w"
  shows "worker_ok (admit_execution i now w) \<and> accounted_jobs w \<subseteq># accounted_jobs (admit_execution i now w)"
proof (cases "i < length (w_executing w) \<and> \<not> snd (w_executing w ! i)")
  case True
  note nth = in_flight_nth [OF conjunct1 [OF True]]
  define r where "r = fst (w_executing w ! i)"
  have us: "usable (w_driver w) r" using worker_okD(6) [OF assms] nth by (simp add: r_def)
  obtain b w1 where ad: "admit_under_rate_limit r now w = (b, w1)" by (cases "admit_under_rate_limit r now w")
  note c = admit_under_rate_limit_cases [OF ad]
  show ?thesis
  proof (cases b)
    case True
    have eq: "admit_execution i now w =
        emit (JobStarted (env_id (res_envelope r))) (w1\<lparr>w_executing := (w_executing w1)[i := (r, True)]\<rparr>)"
      using \<open>i < length _ \<and> _\<close> ad True by (simp add: admit_execution_def r_def Let_def)
    have "in_flight (admit_execution i now w) = map fst ((w_executing w)[i := (fst (w_executing w ! i), True)])"
      using c(1) by (simp add: eq in_flight_def same_frame_def r_def)
    also have "\<dots> = in_flight w"
      using map_fst_update [of i "w_executing w" True] \<open>i < length _ \<and> _\<close> by (simp add: in_flight_def)
    finally have "in_flight (admit_execution i now w) = in_flight w" .
    then have "worker_ok (admit_execution i now w)"
      using c True assms worker_okD(1) [OF assms] by (intro worker_ok_same [OF assms]) (simp_all add: eq same_frame_def)
    moreover have "accounted_jobs (admit_execution i now w) = accounted_jobs w"
      using c True by (simp add: eq accounted_jobs_def)
    ultimately show ?thesis by simp
  next
    case False
    then obtain t where d: "w_driver w1 =
        nack (r\<lparr>res_envelope := (res_envelope r)\<lparr>attempts := attempts (res_envelope r) - 1\<rparr>\<rparr>) (Some t) (w_driver w)"
      using c(4) by blast
    let ?r = "r\<lparr>res_envelope := (res_envelope r)\<lparr>attempts := attempts (res_envelope r) - 1\<rparr>\<rparr>"
    have eq: "admit_execution i now w = finish_execution i w1"
      using \<open>i < length _ \<and> _\<close> ad False by (simp add: admit_execution_def r_def Let_def)
    note sd = settles_deferral [OF d us worker_okD(1) [OF assms]]
    have "worker_ok (finish_execution i w1)"
      by (rule worker_ok_finish [OF assms, of i ?r]) (use nth sd c(1) in \<open>simp_all add: r_def\<close>)
    moreover have "accounted_jobs w1 = accounted_jobs w"
      using md.nack_no_loss [OF worker_okD(1) [OF assms], of ?r] sd c(2) by (simp add: accounted_jobs_def d usable_def)
    ultimately show ?thesis by (simp add: eq accounted_jobs_def)
  qed
next
  case False
  then show ?thesis using assms by (auto simp: admit_execution_def)
qed

lemma worker_ok_pump:
  assumes "worker_ok w"
  shows "worker_ok (pump_pass now w) \<and> accounted_jobs (pump_pass now w) = accounted_jobs w"
proof (cases "w_running w \<and> w_inFlight w < cf_concurrency (w_cfg w)")
  case False
  then show ?thesis using assms by (auto simp: pump_pass_def)
next
  case True
  let ?t = "cf_uuid (w_cfg w) (w_next w)"
  note okd = worker_okD [OF assms]
  have fresh: "?t \<notin> cf_uuid (w_cfg w) ` {..<w_next w}" using okd(2) by (auto simp: inj_def)
  then have free: "lease_of (w_driver w) ?t = None" using okd(8) by blast
  obtain ro d where rs: "reserve (cf_queues (w_cfg w)) (cf_visibilityMs (w_cfg w)) now ?t (w_driver w) = (ro, d)"
    by (cases "reserve (cf_queues (w_cfg w)) (cf_visibilityMs (w_cfg w)) now ?t (w_driver w)")
  note keeps = md.reserve_keeps [OF okd(1) free rs]
  have others: "lease_of d t = lease_of (w_driver w) t \<or> lease_of d t = None" if "t \<noteq> ?t" for t
    using md.reserve_others [OF okd(1) rs that] .
  have old: "usable d x" if "x \<in> set (in_flight w)" for x
  proof -
    have "res_token x \<noteq> ?t" using okd(7) [OF that] fresh by auto
    then show ?thesis using okd(6) [OF that] others [of "res_token x"] by (auto simp: usable_def)
  qed
  have acc: "driver_jobs d + dead_jobs d = driver_jobs (w_driver w) + dead_jobs (w_driver w)" using keeps by simp
  show ?thesis
  proof (cases ro)
    case None
    define w' where "w' = pump_pass now w"
    have w': "w_driver w' = d" "w_cfg w' = w_cfg w" "in_flight w' = in_flight w" "w_inFlight w' = w_inFlight w"
      "w_next w' = w_next w" "completed_jobs w' = completed_jobs w"
      using True rs None by (simp_all add: w'_def pump_pass_def worker_stop_def in_flight_def)
    have "lease_of d t \<noteq> None \<Longrightarrow> t \<in> cf_uuid (w_cfg w) ` {..<w_next w}" for t
      using okd(8) [of t] others [of t] reserve_None_lease [OF okd(1) rs [unfolded None] free] by metis
    then have "worker_ok w'"
      using okd(2-5,7) keeps old by (intro worker_okI) (simp_all add: w')
    with acc show ?thesis by (simp add: accounted_jobs_def w' flip: w'_def)
  next
    case (Some r)
    define w' where "w' = pump_pass now w"
    have w': "w_driver w' = d" "w_cfg w' = w_cfg w" "in_flight w' = in_flight w @ [r]" "w_inFlight w' = w_inFlight w + 1"
      "w_next w' = Suc (w_next w)" "completed_jobs w' = completed_jobs w"
      using True rs Some by (simp_all add: w'_def pump_pass_def in_flight_def completed_jobs_def)
    have tok: "res_token r = ?t" "lease_of d ?t = Some (env_id (res_envelope r))"
      using md.reserve_leases [OF okd(1) rs [unfolded Some]] by simp_all
    have "worker_ok w'"
    proof (rule worker_okI)
      show "driver_ok (w_driver w')" "inj (cf_uuid (w_cfg w'))" "w_inFlight w' = length (in_flight w')"
        "w_inFlight w' \<le> cf_concurrency (w_cfg w')"
        using keeps okd(2,3) True by (simp_all add: w')
      show "distinct (map res_token (in_flight w'))" using okd(5,7) fresh by (auto simp: w' tok)
      show "usable (w_driver w') x" if "x \<in> set (in_flight w')" for x
        using that old [of x] tok by (auto simp: w' usable_def)
      show "res_token x \<in> cf_uuid (w_cfg w') ` {..<w_next w'}" if "x \<in> set (in_flight w')" for x
        using that okd(7) tok(1) by (auto simp: w' lessThan_Suc)
      show "t \<in> cf_uuid (w_cfg w') ` {..<w_next w'}" if "lease_of (w_driver w') t \<noteq> None" for t
        using that okd(8) [of t] others [of t] by (cases "t = ?t") (auto simp: w' lessThan_Suc)
    qed
    with acc show ?thesis by (simp add: accounted_jobs_def w' flip: w'_def)
  qed
qed

lemma worker_step_ok:
  assumes "worker_ok w"
  shows "worker_ok (worker_step w e) \<and>
    accounted_jobs w + enqueued_jobs [e] \<subseteq># accounted_jobs (worker_step w e)"
proof (cases e)
  case Start
  then show ?thesis
    using assms worker_ok_same [OF assms, of "worker_start w"] worker_okD(1) [OF assms]
    by (simp add: worker_start_def in_flight_def accounted_jobs_def enqueued_jobs_def)
next
  case Stop
  then show ?thesis
    using worker_ok_same [OF assms, of "worker_stop w"] worker_okD(1) [OF assms]
    by (simp add: worker_stop_def in_flight_def accounted_jobs_def enqueued_jobs_def)
next
  case (Pump now)
  then show ?thesis using worker_ok_pump [OF assms, of now] by (simp add: enqueued_jobs_def)
next
  case (Admit i now)
  then show ?thesis using worker_ok_admit [OF assms, of i now] by (simp add: enqueued_jobs_def)
next
  case (Settle i out tw rng now dn)
  then show ?thesis
    using worker_ok_settle [OF assms, of i out tw rng now dn] accounted_settle [OF assms, of i out tw rng now dn]
    by (simp add: enqueued_jobs_def)
next
  case (Enqueue q x)
  have "worker_ok (worker_step w e)"
    using worker_okD(1) [OF assms] by (intro worker_ok_same [OF assms]) (simp_all add: Enqueue in_flight_def enqueue_ok)
  moreover have "accounted_jobs (worker_step w e) = add_mset (env_id x) (accounted_jobs w)"
    by (simp add: Enqueue accounted_jobs_def enqueue_jobs dead_jobs_def)
  ultimately show ?thesis by (simp add: enqueued_jobs_def Enqueue)
next
  case (EnqueueDelayed q x t)
  have "worker_ok (worker_step w e)"
    using worker_okD(1) [OF assms]
    by (intro worker_ok_same [OF assms]) (simp_all add: EnqueueDelayed in_flight_def enqueue_delayed_ok)
  moreover have "accounted_jobs (worker_step w e) = add_mset (env_id x) (accounted_jobs w)"
    by (simp add: EnqueueDelayed accounted_jobs_def enqueue_delayed_jobs dead_jobs_def)
  ultimately show ?thesis by (simp add: enqueued_jobs_def EnqueueDelayed)
next
  case (Promote now)
  obtain n d where p: "promote_due now (w_driver w) = (n, d)" by (cases "promote_due now (w_driver w)")
  note sp = promote_due_spec [OF worker_okD(1) [OF assms] p]
  have "worker_ok (worker_step w e)"
    using sp(1,4) by (intro worker_ok_same [OF assms]) (simp_all add: Promote p in_flight_def lease_of_def fun_eq_iff)
  moreover have "accounted_jobs (worker_step w e) = accounted_jobs w"
    using sp(2,3) by (simp add: Promote p accounted_jobs_def dead_jobs_def)
  ultimately show ?thesis by (simp add: enqueued_jobs_def Promote)
qed

interpretation wm: machine worker_step worker_ok
  by unfold_locales (simp add: worker_step_ok)

lemma enqueued_Cons: "enqueued_jobs (e # es) = enqueued_jobs [e] + enqueued_jobs es"
  by (simp add: enqueued_jobs_def)

lemma worker_run_accounts:
  "worker_ok w \<Longrightarrow> accounted_jobs w + enqueued_jobs es \<subseteq># accounted_jobs (foldl worker_step w es)"
proof (induction es arbitrary: w)
  case Nil
  then show ?case by (simp add: enqueued_jobs_def)
next
  case (Cons e es)
  note st = worker_step_ok [OF Cons.prems, of e]
  have "accounted_jobs w + enqueued_jobs [e] + enqueued_jobs es \<subseteq># accounted_jobs (worker_step w e) + enqueued_jobs es"
    using st by (simp add: subset_mset.add_mono)
  also have "\<dots> \<subseteq># accounted_jobs (foldl worker_step w (e # es))" using Cons.IH st by simp
  finally show ?case by (simp add: enqueued_Cons [of e es] ac_simps)
qed

lemma worker_run_cfg: "w_cfg (foldl worker_step w es) = w_cfg w"
proof -
  have "w_cfg (worker_step w e) = w_cfg w" for w :: "'a worker" and e
  proof (cases e)
    case (Admit i now)
    then show ?thesis
      by (auto simp: admit_execution_def Let_def same_frame_def split: prod.splits bool.splits
          dest!: admit_under_rate_limit_cases(1))
  next
    case (Settle i out tw rng now dn)
    then show ?thesis by (simp add: settle_execution_def execute_frame [unfolded same_frame_def])
  qed (auto simp: worker_start_def worker_stop_def pump_pass_def split: prod.splits option.splits)
  then show ?thesis by (induction es arbitrary: w) simp_all
qed

section \<open>The deferral of rate-limited jobs\<close>

text \<open>
  A deferred job comes back at \<open>now + W\<close>; the window of the store is closed, so starts recorded at \<open>now\<close> itself
  still count then.
\<close>

lemma hits_now_still_count:
  "length (filter (\<lambda>t. now \<le> t) (store_entries s q)) \<le> store_count q (now + w) w s"
  by (simp add: store_count_entries)

end
