(* ===== verification/RateLimit.thy ===== *)
theory RateLimit
  imports WindowStore Durations
begin

text \<open>
  The rate limiters of \<open>packages/ratelimit/src/ratelimit.ts\<close>: the class \<open>RateLimiter\<close> over nanosecond
  timestamps, the key resolution \<open>defaultKeyFn\<close> and \<open>resolveScopedKey\<close>, and the scoped middleware
  \<open>rateLimit\<close> over a \<open>RateLimitStore\<close>.  A response's rate-limit headers are the record \<open>rl_headers\<close>; the
  thrown \<open>RateLimitException\<close> is the constructor \<open>Limited\<close>, a call of \<open>next()\<close> is \<open>Proceed\<close>.
\<close>

section \<open>The class RateLimiter\<close>

record rl_headers =
  h_limit :: int
  h_reset :: int
  h_remaining :: int
  h_retryAfter :: "int option"

datatype rl_outcome = Proceed rl_headers | Limited rl_headers

record limiter_opts =
  lo_windowMs :: int
  lo_maxRequests :: int

type_synonym limiter = "(string, int list) jsmap"

definition MAX_KEYS :: nat where
  "MAX_KEYS = 100000"

definition MAX_REQUESTS_PER_KEY :: int where
  "MAX_REQUESTS_PER_KEY = 1000"

definition window_cutoff :: "limiter_opts \<Rightarrow> int \<Rightarrow> int" where
  "window_cutoff opts nowNs = nowNs - lo_windowMs opts * 1000000"

definition limiter_check :: "limiter_opts \<Rightarrow> string \<Rightarrow> int \<Rightarrow> limiter \<Rightarrow> bool \<times> limiter" where
  "limiter_check opts key nowNs st =
     (let cutoff = window_cutoff opts nowNs;
          (st1, timestamps) =
            (case map_of st key of
               Some ts \<Rightarrow> (st, ts)
             | None \<Rightarrow>
                 ((if MAX_KEYS \<le> length st then (case st of [] \<Rightarrow> st | (k, _) # _ \<Rightarrow> AList.delete k st) else st), []));
          active = dropWhile (\<lambda>t. t < cutoff) timestamps
      in if lo_maxRequests opts \<le> int (length active) then (False, AList.update key active st1)
         else if MAX_REQUESTS_PER_KEY \<le> int (length active) then (False, AList.update key active st1)
         else (True, AList.update key (active @ [nowNs]) st1))"

definition limiter_remaining :: "limiter_opts \<Rightarrow> string \<Rightarrow> int \<Rightarrow> limiter \<Rightarrow> int" where
  "limiter_remaining opts key nowNs st =
     (let cutoff = window_cutoff opts nowNs; timestamps = nullish (map_of st key) [];
          active = length (filter (\<lambda>t. cutoff \<le> t) timestamps)
      in max 0 (lo_maxRequests opts - int active))"

definition limiter_sweep :: "limiter_opts \<Rightarrow> int \<Rightarrow> limiter \<Rightarrow> limiter" where
  "limiter_sweep opts nowNs st =
     filter (\<lambda>(k, ts). ts \<noteq> [])
       (map (\<lambda>(k, ts). (k, filter (\<lambda>t. window_cutoff opts nowNs \<le> t) ts)) st)"

text \<open>\<open>Math.ceil(ms / 1000)\<close>.\<close>

definition reset_seconds :: "int \<Rightarrow> int" where
  "reset_seconds ms = ceiling (of_int ms / (1000 :: rat))"

text \<open>The middleware reads the clock twice: once in \<open>_check\<close>, once in \<open>_remaining\<close>.\<close>

definition limiter_middleware :: "limiter_opts \<Rightarrow> string \<Rightarrow> int \<Rightarrow> int \<Rightarrow> limiter \<Rightarrow> rl_outcome \<times> limiter" where
  "limiter_middleware opts key now1 now2 st =
     (let (allowed, st1) = limiter_check opts key now1 st; rs = reset_seconds (lo_windowMs opts) in
      if \<not> allowed
      then (Limited \<lparr>h_limit = lo_maxRequests opts, h_reset = rs, h_remaining = 0, h_retryAfter = Some rs\<rparr>, st1)
      else (Proceed \<lparr>h_limit = lo_maxRequests opts, h_reset = rs,
                     h_remaining = limiter_remaining opts key now2 st1, h_retryAfter = None\<rparr>, st1))"

section \<open>Keys\<close>

record request_ctx =
  remoteAddress :: "string option"
  x_forwarded_for :: "string option"
  user_id :: "string option"

text \<open>\<open>VALID_IP_RE\<close>, one or more of the word characters, dot, colon and brackets.\<close>

definition valid_ip_char :: "char \<Rightarrow> bool" where
  "valid_ip_char c \<longleftrightarrow>
     is_digit c \<or> is_digit (upper_char c) \<or> (65 \<le> (of_char (upper_char c) :: nat) \<and> (of_char (upper_char c) :: nat) \<le> 90) \<or>
     c = CHR ''_'' \<or> c = CHR ''.'' \<or> c = CHR '':'' \<or> c = CHR ''['' \<or> c = CHR '']''"

definition valid_ip :: "string \<Rightarrow> bool" where
  "valid_ip s \<longleftrightarrow> s \<noteq> [] \<and> list_all valid_ip_char s"

definition default_key :: "request_ctx \<Rightarrow> bool \<Rightarrow> string" where
  "default_key ctx trustProxy =
     (let addr = nullish (remoteAddress ctx) ''unknown'' in
      if \<not> trustProxy then addr
      else (case x_forwarded_for ctx of
              None \<Rightarrow> addr
            | Some forwarded \<Rightarrow>
                if forwarded = [] then addr
                else (case find valid_ip (rev (map trim (split_on CHR '','' forwarded))) of
                        Some candidate \<Rightarrow> candidate
                      | None \<Rightarrow> addr)))"

datatype rate_scope = ScopeGlobal | ScopeIp | ScopeUser

record scoped_cfg =
  sc_scope :: rate_scope
  sc_max :: nat
  sc_windowMs :: int
  sc_trustProxy :: bool

type_synonym user_key_fn = "(request_ctx \<Rightarrow> string option) option"

definition user_key :: "user_key_fn \<Rightarrow> request_ctx \<Rightarrow> string option" where
  "user_key fn ctx =
     (case (case fn of None \<Rightarrow> None | Some f \<Rightarrow> f ctx) of
        Some u \<Rightarrow> Some u
      | None \<Rightarrow> user_id ctx)"

definition resolve_scoped_key :: "scoped_cfg \<Rightarrow> user_key_fn \<Rightarrow> request_ctx \<Rightarrow> string" where
  "resolve_scoped_key cfg fn ctx =
     (case sc_scope cfg of
        ScopeGlobal \<Rightarrow> ''global:__global__''
      | ScopeIp \<Rightarrow> ''ip:'' @ default_key ctx (sc_trustProxy cfg)
      | ScopeUser \<Rightarrow>
          (case user_key fn ctx of
             Some u \<Rightarrow> if u \<noteq> [] then ''user:'' @ u else ''user:ip:'' @ default_key ctx (sc_trustProxy cfg)
           | None \<Rightarrow> ''user:ip:'' @ default_key ctx (sc_trustProxy cfg)))"

section \<open>The scoped middleware\<close>

definition rate_limit_config :: "rate_scope \<Rightarrow> jsvalue \<Rightarrow> duration \<Rightarrow> bool \<Rightarrow> js_error + scoped_cfg" where
  "rate_limit_config scope requests window trustProxy =
     (case requests of
        Fin x \<Rightarrow>
          if of_int (floor x) = x \<and> 0 < x then
            (case parse_window window of
               Inl e \<Rightarrow> Inl e
             | Inr w \<Rightarrow> Inr \<lparr>sc_scope = scope, sc_max = nat (floor x), sc_windowMs = w, sc_trustProxy = trustProxy\<rparr>)
          else Inl (JsError ''Error'' ''rateLimit requires a positive integer'')
      | _ \<Rightarrow> Inl (JsError ''Error'' ''rateLimit requires a positive integer''))"

text \<open>
  The middleware awaits \<open>store.count\<close> and then \<open>store.hit\<close>.  Up to the first await it resolves the key, reads the
  clock and counts; \<open>rate_limit_decide\<close> is what runs when that count is delivered.  Between the two any number of
  other requests may count, and hit.
\<close>

definition rate_limit_peek :: "scoped_cfg \<Rightarrow> user_key_fn \<Rightarrow> request_ctx \<Rightarrow> jsnum \<Rightarrow> rate_store \<Rightarrow> string \<times> nat" where
  "rate_limit_peek cfg fn ctx now s =
     (let key = resolve_scoped_key cfg fn ctx in (key, store_count key now (of_int (sc_windowMs cfg)) s))"

definition rate_limit_decide :: "scoped_cfg \<Rightarrow> string \<Rightarrow> jsnum \<Rightarrow> nat \<Rightarrow> rate_store \<Rightarrow> rl_outcome \<times> rate_store" where
  "rate_limit_decide cfg key now current s =
     (let rs = max 1 (reset_seconds (sc_windowMs cfg)) in
      if sc_max cfg \<le> current
      then (Limited \<lparr>h_limit = int (sc_max cfg), h_reset = rs, h_remaining = 0, h_retryAfter = Some rs\<rparr>, s)
      else
        (let (n, s') = store_hit key now (of_int (sc_windowMs cfg)) s in
         (Proceed \<lparr>h_limit = int (sc_max cfg), h_reset = rs,
                   h_remaining = max 0 (int (sc_max cfg) - int n), h_retryAfter = None\<rparr>, s')))"

text \<open>
  The middleware at work: the requests whose count is on its way, oldest first (the promises of one store are
  delivered in the order in which they were made), and the requests let through so far, with their times.
\<close>

record rl_gate =
  rg_store :: rate_store
  rg_waiting :: "(string \<times> jsnum \<times> nat) list"
  rg_passed :: "(string \<times> jsnum) list"

datatype rl_event = RlArrive request_ctx jsnum | RlDeliver

fun rl_step :: "scoped_cfg \<Rightarrow> user_key_fn \<Rightarrow> rl_event \<Rightarrow> rl_gate \<Rightarrow> rl_gate" where
  "rl_step cfg fn (RlArrive ctx now) g =
     (let (key, current) = rate_limit_peek cfg fn ctx now (rg_store g) in
      g\<lparr>rg_waiting := rg_waiting g @ [(key, now, current)]\<rparr>)"
| "rl_step cfg fn RlDeliver g =
     (case rg_waiting g of
        [] \<Rightarrow> g
      | (key, now, current) # rest \<Rightarrow>
          (case rate_limit_decide cfg key now current (rg_store g) of
             (Proceed h, s') \<Rightarrow> g\<lparr>rg_store := s', rg_waiting := rest, rg_passed := rg_passed g @ [(key, now)]\<rparr>
           | (Limited h, s') \<Rightarrow> g\<lparr>rg_store := s', rg_waiting := rest\<rparr>))"

fun rl_run :: "scoped_cfg \<Rightarrow> user_key_fn \<Rightarrow> rl_event list \<Rightarrow> rl_gate \<Rightarrow> rl_gate" where
  "rl_run cfg fn [] g = g"
| "rl_run cfg fn (e # es) g = rl_run cfg fn es (rl_step cfg fn e g)"

definition rl_idle :: "rate_store \<Rightarrow> rl_gate" where
  "rl_idle s = \<lparr>rg_store = s, rg_waiting = [], rg_passed = []\<rparr>"

definition passed_times :: "string \<Rightarrow> rl_gate \<Rightarrow> jsnum list" where
  "passed_times k g = map snd (filter (\<lambda>p. fst p = k) (rg_passed g))"

text \<open>How many requests of key \<open>k\<close> are ever between their count and its delivery at the same time.\<close>

definition waiting_of :: "string \<Rightarrow> rl_gate \<Rightarrow> nat" where
  "waiting_of k g = length (filter (\<lambda>p. fst p = k) (rg_waiting g))"

fun most_waiting :: "scoped_cfg \<Rightarrow> user_key_fn \<Rightarrow> string \<Rightarrow> rl_event list \<Rightarrow> rl_gate \<Rightarrow> nat" where
  "most_waiting cfg fn k [] g = waiting_of k g"
| "most_waiting cfg fn k (e # es) g = max (waiting_of k g) (most_waiting cfg fn k es (rl_step cfg fn e g))"

fun arrival_times :: "rl_event list \<Rightarrow> jsnum list" where
  "arrival_times [] = []"
| "arrival_times (RlArrive ctx now # es) = now # arrival_times es"
| "arrival_times (RlDeliver # es) = arrival_times es"

section \<open>Lemmas\<close>

lemma rate_limit_decide_cases:
  "rate_limit_decide cfg key now current s = (out, s') \<Longrightarrow>
     (case out of
        Limited h \<Rightarrow> s' = s \<and> sc_max cfg \<le> current
      | Proceed h \<Rightarrow> s' = snd (store_hit key now (of_int (sc_windowMs cfg)) s) \<and> current < sc_max cfg)"
  by (auto simp: rate_limit_decide_def Let_def split: if_splits prod.splits)

lemma store_hit_length:
  "keys_distinct (rs_log s) \<Longrightarrow> length (rs_log s) < rs_maxKeys s \<Longrightarrow>
   length (rs_log (snd (store_hit k now w s))) \<le> Suc (length (rs_log s))"
  by (auto simp: store_hit_def Let_def length_update evict_oldest_def split: option.split)

text \<open>
  What the run keeps: the store remembers everything accepted (\<open>seen\<close>) that a window ending at \<open>prev\<close> or later
  can reach, and no window has more than \<open>R\<close> accepted requests.
\<close>

definition gate_inv :: "nat \<Rightarrow> jsnum \<Rightarrow> nat \<Rightarrow> string \<Rightarrow> jsnum list \<Rightarrow> jsnum \<Rightarrow> rate_store \<Rightarrow> bool" where
  "gate_inv cap w R k seen prev s \<longleftrightarrow>
     store_ok cap s \<and> sorted (store_entries s k) \<and>
     (\<forall>x \<in> set (store_entries s k). x \<le> prev) \<and> (\<forall>x \<in> set seen. x \<le> prev) \<and>
     (\<forall>c. prev - w \<le> c \<longrightarrow> filter (\<lambda>t. c \<le> t) (store_entries s k) = filter (\<lambda>t. c \<le> t) seen) \<and>
     (\<forall>t. length (filter (\<lambda>x. t - w \<le> x \<and> x \<le> t) seen) \<le> R)"

lemma gate_inv_later: "gate_inv cap w R k seen prev s \<Longrightarrow> prev \<le> now \<Longrightarrow> gate_inv cap w R k seen now s"
  unfolding gate_inv_def by (auto intro: order_trans)

lemma gate_inv_accept:
  assumes "gate_inv cap w R k seen prev s" "prev \<le> now" "store_count k now w s < R" "R \<le> cap"
  shows "gate_inv cap w R k (seen @ [now]) now (snd (store_hit k now w s))"
proof -
  have inv: "store_ok cap s" "sorted (store_entries s k)"
    "\<And>c. prev - w \<le> c \<Longrightarrow> filter (\<lambda>t. c \<le> t) (store_entries s k) = filter (\<lambda>t. c \<le> t) seen"
    "\<And>t. length (filter (\<lambda>x. t - w \<le> x \<and> x \<le> t) seen) \<le> R"
    "\<forall>x \<in> set seen. x \<le> prev" "\<forall>x \<in> set (store_entries s k). x \<le> prev"
    using assms(1) unfolding gate_inv_def by blast+
  note st = ws.gate_step [OF inv(1-5) assms(2) inv(6) assms(3,4)]
  have "\<forall>x \<in> set (seen @ [now]). x \<le> now" using inv(5) assms(2) by auto
  with st(1-5) show ?thesis unfolding gate_inv_def by blast
qed

lemma gate_inv_other:
  assumes "gate_inv cap w R k seen prev s" "k' \<noteq> k" "length (rs_log s) < rs_maxKeys s"
  shows "gate_inv cap w R k seen prev (snd (store_hit k' now w' s))"
proof -
  have "store_entries (snd (store_hit k' now w' s)) k = store_entries s k"
    by (rule store_hit_other) (use assms in auto)
  with assms(1) ws.hit_invar [of cap s k' now w'] show ?thesis by (simp add: gate_inv_def)
qed

lemma gate_inv_start:
  assumes "store_ok cap s" "store_entries s k = []"
  shows "gate_inv cap w R k [] prev s"
  using assms by (simp add: gate_inv_def)

text \<open>
  The requests of key \<open>k\<close> that will hit when their count is delivered; the \<open>i\<close>-th of them still finds room for
  itself and the \<open>i\<close> before it.
\<close>

definition will_hit :: "scoped_cfg \<Rightarrow> string \<Rightarrow> rl_gate \<Rightarrow> jsnum list" where
  "will_hit cfg k g =
     map (\<lambda>p. fst (snd p)) (filter (\<lambda>p. fst p = k \<and> snd (snd p) < sc_max cfg) (rg_waiting g))"

definition room_for :: "jsnum \<Rightarrow> nat \<Rightarrow> jsnum list \<Rightarrow> jsnum list \<Rightarrow> bool" where
  "room_for w R seen ps \<longleftrightarrow> (\<forall>i < length ps. length (filter (\<lambda>x. ps ! i - w \<le> x) seen) + i < R)"

definition rl_inv :: "nat \<Rightarrow> nat \<Rightarrow> scoped_cfg \<Rightarrow> string \<Rightarrow> jsnum \<Rightarrow> jsnum \<Rightarrow> rl_gate \<Rightarrow> bool" where
  "rl_inv cap R cfg k prev clk g \<longleftrightarrow>
     gate_inv cap (of_int (sc_windowMs cfg)) R k (passed_times k g) prev (rg_store g) \<and> prev \<le> clk \<and>
     sorted (prev # map (\<lambda>p. fst (snd p)) (rg_waiting g) @ [clk]) \<and>
     room_for (of_int (sc_windowMs cfg)) R (passed_times k g) (will_hit cfg k g)"

lemma room_for_add:
  assumes "room_for w R seen ps" "length (filter (\<lambda>x. p - w \<le> x) seen) + length ps < R"
  shows "room_for w R seen (ps @ [p])"
  using assms by (auto simp: room_for_def nth_append less_Suc_eq)

lemma room_for_hit:
  assumes "room_for w R seen (p # ps)"
  shows "room_for w R (seen @ [p]) ps"
proof -
  have "length (filter (\<lambda>x. ps ! i - w \<le> x) (seen @ [p])) + i < R" if "i < length ps" for i
    using assms [unfolded room_for_def, THEN spec, of "Suc i"] that by auto
  then show ?thesis by (simp add: room_for_def)
qed

lemma waiting_of_most: "waiting_of k g \<le> most_waiting cfg fn k es g"
  by (cases es) simp_all

lemma will_hit_waiting: "length (will_hit cfg k g) \<le> waiting_of k g"
  by (simp add: will_hit_def waiting_of_def length_filter_conv_card) (rule card_mono, auto)

lemma rl_inv_arrive:
  assumes inv: "rl_inv cap R cfg k prev clk g" and now: "clk \<le> now"
    and R: "R = sc_max cfg + (K - 1)" and K: "waiting_of k (rl_step cfg fn (RlArrive ctx now) g) \<le> K"
  shows "rl_inv cap R cfg k prev now (rl_step cfg fn (RlArrive ctx now) g)"
proof -
  let ?w = "of_int (sc_windowMs cfg)" and ?key = "resolve_scoped_key cfg fn ctx"
  let ?n = "store_count ?key now ?w (rg_store g)"
  have step: "rl_step cfg fn (RlArrive ctx now) g = g\<lparr>rg_waiting := rg_waiting g @ [(?key, now, ?n)]\<rparr>"
    by (simp add: rate_limit_peek_def Let_def)
  have g: "gate_inv cap ?w R k (passed_times k g) prev (rg_store g)" "prev \<le> now"
    "room_for ?w R (passed_times k g) (will_hit cfg k g)"
    using inv now by (auto simp: rl_inv_def)
  have so: "sorted (prev # map (\<lambda>p. fst (snd p)) (rg_waiting g @ [(?key, now, ?n)]) @ [now])"
    using inv now by (auto simp: rl_inv_def sorted_append)
  have "room_for ?w R (passed_times k g) (will_hit cfg k (g\<lparr>rg_waiting := rg_waiting g @ [(?key, now, ?n)]\<rparr>))"
  proof (cases "?key = k \<and> ?n < sc_max cfg")
    case True
    have "Suc (waiting_of k g) \<le> K" using K True unfolding step by (simp add: waiting_of_def)
    with will_hit_waiting [of cfg k g] have "length (will_hit cfg k g) \<le> K - 1" by simp
    moreover have "length (filter (\<lambda>x. now - ?w \<le> x) (passed_times k g)) < sc_max cfg"
      using g(1,2) True by (auto simp: gate_inv_def store_count_entries)
    ultimately have "length (filter (\<lambda>x. now - ?w \<le> x) (passed_times k g)) + length (will_hit cfg k g) < R"
      by (simp add: R)
    from room_for_add [OF g(3) this] True show ?thesis by (auto simp: will_hit_def)
  next
    case False
    with g(3) show ?thesis by (auto simp: will_hit_def)
  qed
  with g so show ?thesis unfolding step
    by (simp add: rl_inv_def passed_times_def)
qed

lemma rl_inv_deliver:
  assumes inv: "rl_inv cap R cfg k prev clk g" and cap: "R \<le> cap"
    and room: "length (rs_log (rg_store g)) < rs_maxKeys (rg_store g)"
  shows "\<exists>prev'. rl_inv cap R cfg k prev' clk (rl_step cfg fn RlDeliver g)"
proof (cases "rg_waiting g")
  case Nil
  then show ?thesis using inv by (intro exI [of _ prev]) simp
next
  case (Cons p rest)
  obtain key now cur where p: "p = (key, now, cur)" by (cases p)
  let ?w = "of_int (sc_windowMs cfg)"
  have wt: "rg_waiting g = (key, now, cur) # rest" using Cons p by simp
  have g: "gate_inv cap ?w R k (passed_times k g) prev (rg_store g)" "prev \<le> now"
    "room_for ?w R (passed_times k g) (will_hit cfg k g)"
    and so: "sorted (now # map (\<lambda>p. fst (snd p)) rest @ [clk])" "now \<le> clk" "prev \<le> clk"
    using inv by (auto simp: rl_inv_def wt)
  have sop: "sorted (prev # map (\<lambda>p. fst (snd p)) rest @ [clk])" using so g(2) by (auto intro: order_trans)
  obtain out s' where d: "rate_limit_decide cfg key now cur (rg_store g) = (out, s')"
    by (cases "rate_limit_decide cfg key now cur (rg_store g)")
  note dc = rate_limit_decide_cases [OF d]
  show ?thesis
  proof (cases out)
    case (Limited h)
    then have "rl_step cfg fn RlDeliver g = g\<lparr>rg_waiting := rest\<rparr>" "sc_max cfg \<le> cur"
      using dc d by (simp_all add: wt)
    with g so sop show ?thesis
      by (intro exI [of _ prev]) (auto simp: rl_inv_def passed_times_def will_hit_def wt simp del: rl_step.simps)
  next
    case (Proceed h)
    then have s': "s' = snd (store_hit key now ?w (rg_store g))" and lt: "cur < sc_max cfg" using dc by simp_all
    have st: "rl_step cfg fn RlDeliver g = g\<lparr>rg_store := s', rg_waiting := rest, rg_passed := rg_passed g @ [(key, now)]\<rparr>"
      using d Proceed by (simp add: wt)
    show ?thesis
    proof (cases "key = k")
      case True
      have r: "room_for ?w R (passed_times k g) (now # will_hit cfg k (g\<lparr>rg_waiting := rest\<rparr>))"
        using g(3) True lt by (simp add: will_hit_def wt)
      then have "length (filter (\<lambda>x. now - ?w \<le> x) (passed_times k g)) < R" by (auto simp: room_for_def)
      with g(1,2) have "store_count k now ?w (rg_store g) < R" by (auto simp: gate_inv_def store_count_entries)
      from gate_inv_accept [OF g(1,2) this cap] room_for_hit [OF r] so True show ?thesis unfolding st
        by (intro exI [of _ now]) (simp add: rl_inv_def s' passed_times_def will_hit_def)
    next
      case False
      from gate_inv_other [OF g(1) False room] g(3) so sop False show ?thesis unfolding st
        by (intro exI [of _ prev]) (simp add: rl_inv_def s' passed_times_def will_hit_def wt)
    qed
  qed
qed

lemma rl_step_room:
  assumes "keys_distinct (rs_log (rg_store g))"
    "length (rs_log (rg_store g)) + length (rg_waiting g) + length (e # es) \<le> rs_maxKeys (rg_store g)"
  shows "length (rs_log (rg_store (rl_step cfg fn e g))) + length (rg_waiting (rl_step cfg fn e g)) + length es
           \<le> rs_maxKeys (rg_store (rl_step cfg fn e g))"
proof (cases e)
  case (RlArrive ctx now)
  then show ?thesis using assms(2) by (simp add: rate_limit_peek_def Let_def)
next
  case RlDeliver
  show ?thesis
  proof (cases "rg_waiting g")
    case Nil
    then show ?thesis using RlDeliver assms(2) by simp
  next
    case (Cons p rest)
    obtain key now cur where p: "p = (key, now, cur)" by (cases p)
    obtain out s' where d: "rate_limit_decide cfg key now cur (rg_store g) = (out, s')"
      by (cases "rate_limit_decide cfg key now cur (rg_store g)")
    have "length (rs_log s') \<le> Suc (length (rs_log (rg_store g))) \<and> rs_maxKeys s' = rs_maxKeys (rg_store g)"
      using rate_limit_decide_cases [OF d] store_hit_length [OF assms(1), of key now "of_int (sc_windowMs cfg)"] assms(2)
      by (auto split: rl_outcome.splits)
    then show ?thesis using RlDeliver Cons p d assms(2) by (auto split: rl_outcome.split)
  qed
qed

lemma rl_run_window:
  assumes "rl_inv cap R cfg k prev clk g" "R = sc_max cfg + (K - 1)" "R \<le> cap" "most_waiting cfg fn k es g \<le> K"
    "sorted (clk # arrival_times es)"
    "length (rs_log (rg_store g)) + length (rg_waiting g) + length es \<le> rs_maxKeys (rg_store g)"
  shows "length (filter (\<lambda>x. t - of_int (sc_windowMs cfg) \<le> x \<and> x \<le> t) (passed_times k (rl_run cfg fn es g))) \<le> R"
  using assms
proof (induction es arbitrary: g prev clk)
  case Nil
  then show ?case by (simp add: rl_inv_def gate_inv_def)
next
  case (Cons e es)
  have kd: "keys_distinct (rs_log (rg_store g))" using Cons.prems(1) by (simp add: rl_inv_def gate_inv_def store_ok_def)
  note room = rl_step_room [OF kd Cons.prems(6), of cfg fn]
  have more: "most_waiting cfg fn k es (rl_step cfg fn e g) \<le> K" using Cons.prems(4) by simp
  have "\<exists>prev' clk'. rl_inv cap R cfg k prev' clk' (rl_step cfg fn e g) \<and> sorted (clk' # arrival_times es)"
  proof (cases e)
    case (RlArrive ctx now)
    have "waiting_of k (rl_step cfg fn e g) \<le> K" using waiting_of_most more order_trans by blast
    with rl_inv_arrive [OF Cons.prems(1) _ Cons.prems(2), of now fn ctx] Cons.prems(5) RlArrive show ?thesis by auto
  next
    case RlDeliver
    have "length (rs_log (rg_store g)) < rs_maxKeys (rg_store g)" using Cons.prems(6) by simp
    from rl_inv_deliver [OF Cons.prems(1,3) this, of fn] Cons.prems(5) RlDeliver show ?thesis by auto
  qed
  with Cons.IH [OF _ Cons.prems(2,3) more _ room] show ?case by auto
qed

lemma rl_idle_inv:
  assumes "store_ok cap s" "store_entries s k = []"
  shows "rl_inv cap R cfg k clk clk (rl_idle s)"
  using gate_inv_start [OF assms] by (simp add: rl_inv_def rl_idle_def passed_times_def will_hit_def room_for_def)

text \<open>Requests handled one after the other never overlap.\<close>

fun one_at_a_time :: "rl_event list \<Rightarrow> bool" where
  "one_at_a_time [] = True"
| "one_at_a_time (RlArrive ctx now # RlDeliver # es) = one_at_a_time es"
| "one_at_a_time es = False"

lemma rl_step_pair_waiting:
  "rg_waiting g = [] \<Longrightarrow> rg_waiting (rl_step cfg fn RlDeliver (rl_step cfg fn (RlArrive ctx now) g)) = []"
  by (auto simp: rate_limit_peek_def Let_def split: prod.split rl_outcome.split)

lemma one_at_a_time_waiting:
  "one_at_a_time es \<Longrightarrow> rg_waiting g = [] \<Longrightarrow> most_waiting cfg fn k es g \<le> 1"
proof (induction es arbitrary: g rule: one_at_a_time.induct)
  case (2 ctx now es)
  have "waiting_of k g = 0" "waiting_of k (rl_step cfg fn (RlArrive ctx now) g) \<le> 1"
    using 2(3) by (simp_all add: waiting_of_def rate_limit_peek_def Let_def)
  with 2(1) [OF _ rl_step_pair_waiting [OF 2(3)], of cfg fn ctx now] 2(2) show ?case by simp
qed (simp_all add: waiting_of_def)

text \<open>The bound is reached: two requests that count before either hits both pass a limit of one.\<close>

lemma overlapping_requests_exceed:
  assumes "store_entries s k = []" "\<And>ctx. resolve_scoped_key cfg fn ctx = k" "sc_max cfg = 1"
  shows "passed_times k (rl_run cfg fn [RlArrive c1 t1, RlArrive c2 t2, RlDeliver, RlDeliver] (rl_idle s)) = [t1, t2]"
  using assms
  by (simp add: rl_idle_def rate_limit_peek_def rate_limit_decide_def Let_def store_count_entries passed_times_def split: prod.split)

text \<open>Above the per-key cap of its store the middleware never limits.\<close>

lemma store_count_le: "store_count k now w s \<le> length (store_entries s k)"
  by (simp add: store_count_entries)

lemma rate_limit_above_cap:
  assumes "\<forall>k. length (store_entries s k) \<le> rs_maxRequestsPerKey s" "rs_maxRequestsPerKey s < sc_max cfg"
  shows "snd (rate_limit_peek cfg fn ctx now s) < sc_max cfg"
  using assms store_count_le [of "resolve_scoped_key cfg fn ctx" now "of_int (sc_windowMs cfg)" s]
  by (auto simp: rate_limit_peek_def Let_def intro: le_less_trans)

lemma rate_limit_decide_proceeds:
  "current < sc_max cfg \<Longrightarrow>
   \<exists>h. rate_limit_decide cfg key now current s = (Proceed h, snd (store_hit key now (of_int (sc_windowMs cfg)) s))"
  by (simp add: rate_limit_decide_def Let_def split: prod.split)

text \<open>Without a trusted proxy the header a client can forge has no influence on the key.\<close>

lemma default_key_untrusted: "default_key ctx False = default_key (ctx\<lparr>x_forwarded_for := h\<rparr>) False"
  by (simp add: default_key_def)

lemma valid_ip_rev_find:
  "find valid_ip (rev xs) = Some c \<Longrightarrow> \<exists>us vs. xs = us @ c # vs \<and> valid_ip c \<and> list_all (\<lambda>x. \<not> valid_ip x) vs"
proof (induction xs rule: rev_induct)
  case Nil
  then show ?case by simp
next
  case (snoc x xs)
  show ?case
  proof (cases "valid_ip x")
    case True
    with snoc.prems show ?thesis by (intro exI [of _ xs] exI [of _ "[]"]) simp
  next
    case False
    with snoc obtain us vs where "xs = us @ c # vs" "valid_ip c" "list_all (\<lambda>x. \<not> valid_ip x) vs" by auto
    with False show ?thesis by (intro exI [of _ us] exI [of _ "vs @ [x]"]) simp
  qed
qed

text \<open>The class caps the effective limit at \<open>MAX_REQUESTS_PER_KEY\<close>.\<close>

lemma limiter_check_bound:
  assumes "fst (limiter_check opts key now st)"
  shows "length (nullish (map_of (snd (limiter_check opts key now st)) key) []) \<le> nat (min (lo_maxRequests opts) MAX_REQUESTS_PER_KEY)"
  using assms by (auto simp: limiter_check_def Let_def split: option.splits if_splits)

end
