(* ===== verification/GatewayLimiter.thy ===== *)
theory GatewayLimiter
  imports Prelude
begin

text \<open>
  The per-route rate limiter of the gateway, \<open>packages/gateway/src/ratelimit.ts\<close>: \<open>keyFor\<close> and the class \<open>RateLimiter\<close>, which
  grants up to \<open>limit\<close> requests per key in a window that opens with the first request after the previous one has
  elapsed.

  The lemmas bound what one key gets: \<open>limit\<close> in each of the limiter's own windows, and \<open>2 * limit\<close> in an arbitrary
  interval of that length.
\<close>

section \<open>Model\<close>

datatype header_value = One string | Many "string list"

type_synonym headers = "(string, header_value) jsmap"

record gateway_request =
  gr_method :: string
  gr_path :: string
  gr_url :: string
  gr_headers :: headers
  gr_ip :: "string option"
  gr_bodySize :: "nat option"

record identity =
  id_subject :: string
  id_roles :: "string list option"
  id_permissions :: "string list option"

definition first_header :: "headers \<Rightarrow> string \<Rightarrow> string option" where
  "first_header hs name =
     (case map_of hs name of
        None \<Rightarrow> None
      | Some (One v) \<Rightarrow> Some v
      | Some (Many []) \<Rightarrow> None
      | Some (Many (v # vs)) \<Rightarrow> Some v)"

datatype limit_scope = LsGlobal | LsIp | LsUser | LsApiKey

record limit_policy =
  lp_scope :: limit_scope
  lp_limit :: jsnum
  lp_windowMs :: jsnum

definition key_for :: "limit_scope \<Rightarrow> gateway_request \<Rightarrow> identity option \<Rightarrow> string" where
  "key_for scope req ident =
     (case scope of
        LsGlobal \<Rightarrow> ''global''
      | LsIp \<Rightarrow> nullish (gr_ip req) ''unknown''
      | LsUser \<Rightarrow> nullish (map_option id_subject ident) ''anonymous''
      | LsApiKey \<Rightarrow> nullish (first_header (gr_headers req) ''x-api-key'') ''anonymous'')"

record bucket =
  bk_tokens :: int
  bk_windowStart :: jsnum

record bucket_limiter =
  bl_scope :: limit_scope
  bl_limit :: int
  bl_windowMs :: int
  bl_buckets :: "(string, bucket) jsmap"

definition new_bucket_limiter :: "limit_policy \<Rightarrow> bucket_limiter" where
  "new_bucket_limiter p =
     \<lparr>bl_scope = lp_scope p, bl_limit = max 0 (math_trunc (lp_limit p)),
      bl_windowMs = max 1 (math_trunc (lp_windowMs p)), bl_buckets = []\<rparr>"

record limit_result =
  lr_allowed :: bool
  lr_remaining :: int
  lr_retryAfterMs :: jsnum

definition bucket_at :: "bucket_limiter \<Rightarrow> string \<Rightarrow> jsnum \<Rightarrow> bucket" where
  "bucket_at l key now =
     (case map_of (bl_buckets l) key of
        None \<Rightarrow> \<lparr>bk_tokens = bl_limit l, bk_windowStart = now\<rparr>
      | Some b \<Rightarrow>
          if of_int (bl_windowMs l) \<le> now - bk_windowStart b then \<lparr>bk_tokens = bl_limit l, bk_windowStart = now\<rparr> else b)"

definition check_key :: "string \<Rightarrow> jsnum \<Rightarrow> bucket_limiter \<Rightarrow> limit_result \<times> bucket_limiter" where
  "check_key key now l =
     (let b = bucket_at l key now in
      if 0 < bk_tokens b
      then (let b' = b\<lparr>bk_tokens := bk_tokens b - 1\<rparr> in
            (\<lparr>lr_allowed = True, lr_remaining = bk_tokens b', lr_retryAfterMs = 0\<rparr>,
             l\<lparr>bl_buckets := AList.update key b' (bl_buckets l)\<rparr>))
      else (\<lparr>lr_allowed = False, lr_remaining = 0, lr_retryAfterMs = bk_windowStart b + of_int (bl_windowMs l) - now\<rparr>,
            l\<lparr>bl_buckets := AList.update key b (bl_buckets l)\<rparr>))"

definition check_request :: "gateway_request \<Rightarrow> identity option \<Rightarrow> jsnum \<Rightarrow> bucket_limiter \<Rightarrow> limit_result \<times> bucket_limiter" where
  "check_request req ident now l = check_key (key_for (bl_scope l) req ident) now l"

text \<open>The times at which a run of checks lets key \<open>k\<close> through.\<close>

fun granted :: "string \<Rightarrow> (string \<times> jsnum) list \<Rightarrow> bucket_limiter \<Rightarrow> jsnum list" where
  "granted k [] l = []"
| "granted k ((key, now) # cs) l =
     (case check_key key now l of
        (r, l') \<Rightarrow> if lr_allowed r \<and> key = k then now # granted k cs l' else granted k cs l')"

section \<open>Lemmas\<close>

definition limiter_ok :: "bucket_limiter \<Rightarrow> bool" where
  "limiter_ok l \<longleftrightarrow> 0 \<le> bl_limit l \<and> 1 \<le> bl_windowMs l \<and>
     (\<forall>k b. map_of (bl_buckets l) k = Some b \<longrightarrow> 0 \<le> bk_tokens b \<and> bk_tokens b \<le> bl_limit l)"

lemma new_limiter_ok: "limiter_ok (new_bucket_limiter p)"
  by (simp add: limiter_ok_def new_bucket_limiter_def)

lemma bucket_at_ok: "limiter_ok l \<Longrightarrow> 0 \<le> bk_tokens (bucket_at l k now) \<and> bk_tokens (bucket_at l k now) \<le> bl_limit l"
  by (auto simp: limiter_ok_def bucket_at_def split: option.split)

lemma check_key_frame [simp]:
  "bl_limit (snd (check_key k now l)) = bl_limit l" "bl_windowMs (snd (check_key k now l)) = bl_windowMs l"
  "bl_scope (snd (check_key k now l)) = bl_scope l"
  by (simp_all add: check_key_def Let_def)

lemma check_key_ok: "limiter_ok l \<Longrightarrow> limiter_ok (snd (check_key k now l))"
  using bucket_at_ok [of l k now] by (auto simp: limiter_ok_def check_key_def Let_def)

lemma bucket_at_young:
  "limiter_ok l \<Longrightarrow> now - bk_windowStart (bucket_at l k now) < of_int (bl_windowMs l)"
  by (auto simp: limiter_ok_def bucket_at_def not_le split: option.split)

text \<open>The answer: never negative, and a denial comes with a positive wait.\<close>

lemma check_key_answer:
  assumes "limiter_ok l" "check_key k now l = (r, l')"
  shows "0 \<le> lr_remaining r" "lr_remaining r < max 1 (bl_limit l)" "\<not> lr_allowed r \<Longrightarrow> 0 < lr_retryAfterMs r"
    "lr_allowed r \<longleftrightarrow> 0 < bk_tokens (bucket_at l k now)"
  using assms(2) bucket_at_ok [OF assms(1), of k now] bucket_at_young [OF assms(1), of now k]
  by (auto simp: check_key_def Let_def split: if_splits)

lemma check_key_bucket:
  "map_of (bl_buckets (snd (check_key k now l))) k =
     Some ((bucket_at l k now)\<lparr>bk_tokens := bk_tokens (bucket_at l k now) -
       (if lr_allowed (fst (check_key k now l)) then 1 else 0)\<rparr>)"
  by (auto simp: check_key_def Let_def)

lemma check_key_other: "k' \<noteq> k \<Longrightarrow> map_of (bl_buckets (snd (check_key k now l))) k' = map_of (bl_buckets l) k'"
  by (simp add: check_key_def Let_def)

abbreviation between :: "jsnum \<Rightarrow> jsnum \<Rightarrow> jsnum list \<Rightarrow> nat" where
  "between a b ts \<equiv> length (filter (\<lambda>t. a \<le> t \<and> t < b) ts)"

text \<open>
  The books of one key: the grants of the current window are the tokens spent, those of the window before it that
  an interval reaching into the current window can still see are at most \<open>limit\<close>.
\<close>

definition key_books :: "bucket_limiter \<Rightarrow> string \<Rightarrow> jsnum list \<Rightarrow> jsnum \<Rightarrow> bool" where
  "key_books l k seen prev \<longleftrightarrow>
     (\<forall>t \<in> set seen. t \<le> prev) \<and>
     (case map_of (bl_buckets l) k of
        None \<Rightarrow> seen = []
      | Some b \<Rightarrow>
          bk_windowStart b \<le> prev \<and>
          (\<forall>t \<in> set seen. t < bk_windowStart b + of_int (bl_windowMs l)) \<and>
          int (length (filter (\<lambda>t. bk_windowStart b \<le> t) seen)) + bk_tokens b = bl_limit l \<and>
          int (length (filter (\<lambda>t. bk_windowStart b - of_int (bl_windowMs l) < t \<and> t < bk_windowStart b) seen)) \<le> bl_limit l) \<and>
     (\<forall>a. int (between a (a + of_int (bl_windowMs l)) seen) \<le> 2 * bl_limit l)"

lemma filter_le_length: "(\<And>x. x \<in> set xs \<Longrightarrow> P x \<Longrightarrow> Q x) \<Longrightarrow> length (filter P xs) \<le> length (filter Q xs)"
  by (induction xs) auto

lemma filter_split_length:
  "(\<And>x. x \<in> set xs \<Longrightarrow> P x \<Longrightarrow> Q x \<or> R x) \<Longrightarrow> length (filter P xs) \<le> length (filter Q xs) + length (filter R xs)"
  by (induction xs) auto

lemma key_books_start: "limiter_ok l \<Longrightarrow> map_of (bl_buckets l) k = None \<Longrightarrow> key_books l k [] prev"
  by (simp add: key_books_def limiter_ok_def)

text \<open>Opening the window a check sees, before it takes a token.\<close>

lemma key_books_open:
  assumes "limiter_ok l" "key_books l k seen prev" "prev \<le> now"
  defines "b \<equiv> bucket_at l k now"
  shows "bk_windowStart b \<le> now" "\<forall>t \<in> set seen. t < bk_windowStart b + of_int (bl_windowMs l)"
    "int (length (filter (\<lambda>t. bk_windowStart b \<le> t) seen)) + bk_tokens b = bl_limit l"
    "int (length (filter (\<lambda>t. bk_windowStart b - of_int (bl_windowMs l) < t \<and> t < bk_windowStart b) seen)) \<le> bl_limit l"
proof -
  have all: "bk_windowStart b \<le> now \<and> (\<forall>t \<in> set seen. t < bk_windowStart b + of_int (bl_windowMs l)) \<and>
    int (length (filter (\<lambda>t. bk_windowStart b \<le> t) seen)) + bk_tokens b = bl_limit l \<and>
    int (length (filter (\<lambda>t. bk_windowStart b - of_int (bl_windowMs l) < t \<and> t < bk_windowStart b) seen)) \<le> bl_limit l"
  proof (cases "map_of (bl_buckets l) k")
    case None
    then show ?thesis using assms by (simp add: bucket_at_def key_books_def limiter_ok_def)
  next
    case (Some b0)
    have inv: "bk_windowStart b0 \<le> prev" "\<forall>t \<in> set seen. t < bk_windowStart b0 + of_int (bl_windowMs l)"
      "int (length (filter (\<lambda>t. bk_windowStart b0 \<le> t) seen)) + bk_tokens b0 = bl_limit l"
      "int (length (filter (\<lambda>t. bk_windowStart b0 - of_int (bl_windowMs l) < t \<and> t < bk_windowStart b0) seen)) \<le> bl_limit l"
      using assms(2) Some by (simp_all add: key_books_def)
    show ?thesis
    proof (cases "of_int (bl_windowMs l) \<le> now - bk_windowStart b0")
      case False
      then show ?thesis using Some inv assms(3) by (simp add: b_def bucket_at_def)
    next
      case True
      have b: "b = \<lparr>bk_tokens = bl_limit l, bk_windowStart = now\<rparr>" using True Some by (simp add: b_def bucket_at_def)
      have old: "\<forall>t \<in> set seen. t < now" using True inv(2) by force
      have W: "(0::jsnum) < of_int (bl_windowMs l)" using assms(1) by (simp add: limiter_ok_def)
      have "filter (\<lambda>t. now \<le> t) seen = []" using old by (auto simp: filter_empty_conv)
      moreover have "length (filter (\<lambda>t. now - of_int (bl_windowMs l) < t \<and> t < now) seen) \<le>
          length (filter (\<lambda>t. bk_windowStart b0 \<le> t) seen)"
        by (rule filter_le_length) (use True in auto)
      moreover have "0 \<le> bk_tokens b0" using assms(1) Some by (simp add: limiter_ok_def)
      moreover have "\<forall>t \<in> set seen. t < now + of_int (bl_windowMs l)" using old W by force
      ultimately show ?thesis using inv(3) by (simp add: b)
    qed
  qed
  then show "bk_windowStart b \<le> now" "\<forall>t \<in> set seen. t < bk_windowStart b + of_int (bl_windowMs l)"
    "int (length (filter (\<lambda>t. bk_windowStart b \<le> t) seen)) + bk_tokens b = bl_limit l"
    "int (length (filter (\<lambda>t. bk_windowStart b - of_int (bl_windowMs l) < t \<and> t < bk_windowStart b) seen)) \<le> bl_limit l"
    by simp_all
qed

lemma key_books_check:
  assumes "limiter_ok l" "key_books l k seen prev" "prev \<le> now" "check_key k now l = (r, l')"
  shows "key_books l' k (if lr_allowed r then seen @ [now] else seen) now"
proof -
  define b where "b = bucket_at l k now"
  note op = key_books_open [OF assms(1-3), folded b_def]
  have young: "now < bk_windowStart b + of_int (bl_windowMs l)"
    using bucket_at_young [OF assms(1), of now k] by (simp add: b_def algebra_simps)
  have ans: "lr_allowed r \<longleftrightarrow> 0 < bk_tokens b"
    using check_key_answer(4) [OF assms(1,4)] by (simp add: b_def)
  have bk: "map_of (bl_buckets l') k = Some (b\<lparr>bk_tokens := bk_tokens b - (if lr_allowed r then 1 else 0)\<rparr>)"
    using check_key_bucket [of k now l] assms(4) by (simp add: b_def)
  have fr: "bl_limit l' = bl_limit l" "bl_windowMs l' = bl_windowMs l"
    using check_key_frame [of k now l] assms(4) by simp_all
  have past: "\<forall>t \<in> set seen. t \<le> now" using assms(2,3) by (auto simp: key_books_def)
  have bnd: "int (between a (a + of_int (bl_windowMs l)) seen) \<le> 2 * bl_limit l" for a
    using assms(2) by (simp add: key_books_def)
  show ?thesis
  proof (cases "lr_allowed r")
    case False
    then show ?thesis using op past bnd bk fr by (simp add: key_books_def)
  next
    case True
    have "int (between a (a + of_int (bl_windowMs l)) (seen @ [now])) \<le> 2 * bl_limit l" for a
    proof (cases "a \<le> now \<and> now < a + of_int (bl_windowMs l)")
      case False
      then show ?thesis using bnd [of a] by auto
    next
      case inside: True
      have "between a (a + of_int (bl_windowMs l)) seen \<le>
          length (filter (\<lambda>t. bk_windowStart b \<le> t) seen) +
          length (filter (\<lambda>t. bk_windowStart b - of_int (bl_windowMs l) < t \<and> t < bk_windowStart b) seen)"
        by (rule filter_split_length) (use inside op(1) in auto)
      then show ?thesis using inside op(3,4) ans True by simp
    qed
    then show ?thesis using True op past young bk fr by (simp add: key_books_def)
  qed
qed

lemma key_books_other:
  assumes "key_books l k seen prev" "k' \<noteq> k" "prev \<le> now" "check_key k' now l = (r, l')"
  shows "key_books l' k seen now"
proof -
  have "map_of (bl_buckets l') k = map_of (bl_buckets l) k" "bl_limit l' = bl_limit l" "bl_windowMs l' = bl_windowMs l"
    using check_key_other [of k k' now l] check_key_frame [of k' now l] assms(2,4) by simp_all
  with assms(1,3) show ?thesis by (auto simp: key_books_def split: option.splits)
qed

lemma granted_books:
  assumes "limiter_ok l" "key_books l k seen prev" "sorted (prev # map snd cs)"
  shows "int (between a (a + of_int (bl_windowMs l)) (seen @ granted k cs l)) \<le> 2 * bl_limit l"
  using assms
proof (induction cs arbitrary: l seen prev)
  case Nil
  then show ?case by (simp add: key_books_def)
next
  case (Cons c cs)
  obtain key now where c: "c = (key, now)" by (cases c)
  obtain r l' where ck: "check_key key now l = (r, l')" by (cases "check_key key now l")
  have le: "prev \<le> now" "sorted (now # map snd cs)" using Cons.prems(3) by (simp_all add: c)
  have ok: "limiter_ok l'" using check_key_ok [OF Cons.prems(1), of key now] ck by simp
  have fr: "bl_limit l' = bl_limit l" "bl_windowMs l' = bl_windowMs l" using check_key_frame [of key now l] ck by simp_all
  show ?case
  proof (cases "key = k")
    case True
    from Cons.IH [OF ok key_books_check [OF Cons.prems(1,2) le(1) ck [unfolded True]] le(2)]
    show ?thesis using ck True by (cases "lr_allowed r") (simp_all add: c fr)
  next
    case False
    from Cons.IH [OF ok key_books_other [OF Cons.prems(2) False le(1) ck] le(2)]
    show ?thesis using ck False by (simp add: c fr)
  qed
qed

end
