(* ===== verification/GatewayBalancer.thy ===== *)
theory GatewayBalancer
  imports Prelude
begin

text \<open>
  Upstream selection of the API gateway: the four balancers of \<open>packages/gateway/src/balancer.ts\<close> and the registry
  of \<open>packages/gateway/src/health.ts\<close> that filters the pool they pick from.

  A balancer is a function from its state and the candidates to the picked target and the next state.  The value
  of \<open>rng()\<close> and the live connection counts are arguments.  The locale \<open>load_balancer\<close> is the interface
  \<open>LoadBalancer\<close> of \<open>types.ts\<close>: a pick is a candidate, and \<open>undefined\<close> is returned only for an empty pool; its client is the
  selection stage of the pipeline.
\<close>

section \<open>Targets\<close>

record upstream_target =
  tgt_id :: string
  tgt_url :: string
  tgt_weight :: "jsvalue option"

definition normalize_weight :: "upstream_target \<Rightarrow> int" where
  "normalize_weight t =
     (case tgt_weight t of
        Some (Fin raw) \<Rightarrow> if floor raw < 1 then 1 else floor raw
      | _ \<Rightarrow> 1)"

section \<open>Balancers\<close>

definition round_robin_pick :: "nat \<Rightarrow> upstream_target list \<Rightarrow> upstream_target option \<times> nat" where
  "round_robin_pick cursor candidates =
     (if candidates = [] then (None, cursor)
      else (Some (candidates ! (cursor mod length candidates)), (cursor + 1) mod length candidates))"

definition live_count :: "(string, int) jsmap option \<Rightarrow> upstream_target \<Rightarrow> int" where
  "live_count live t = (case live of None \<Rightarrow> 0 | Some m \<Rightarrow> nullish (map_of m (tgt_id t)) 0)"

fun least_scan :: "(string, int) jsmap option \<Rightarrow> upstream_target \<Rightarrow> int \<Rightarrow> upstream_target list \<Rightarrow> upstream_target" where
  "least_scan live best best_count [] = best"
| "least_scan live best best_count (c # cs) =
     (if live_count live c < best_count then least_scan live c (live_count live c) cs
      else least_scan live best best_count cs)"

definition least_connections_pick ::
  "(string, int) jsmap option \<Rightarrow> upstream_target list \<Rightarrow> upstream_target option" where
  "least_connections_pick live candidates =
     (case candidates of [] \<Rightarrow> None | c # cs \<Rightarrow> Some (least_scan live c (live_count live c) cs))"

text \<open>\<open>Number.EPSILON\<close> is \<open>2^-52\<close>.\<close>

definition clamp_unit :: "jsvalue \<Rightarrow> jsnum" where
  "clamp_unit r =
     (case r of
        Fin x \<Rightarrow> if x < 0 then 0 else if 1 \<le> x then 1 - 1 / 2 ^ 52 else x
      | _ \<Rightarrow> 0)"

definition random_pick :: "jsvalue \<Rightarrow> upstream_target list \<Rightarrow> upstream_target option" where
  "random_pick rng candidates =
     (if candidates = [] then None
      else Some (candidates ! nat (floor (clamp_unit rng * of_nat (length candidates)))))"

type_synonym credits = "(string, int) jsmap"

definition prune_credits :: "upstream_target list \<Rightarrow> credits \<Rightarrow> credits" where
  "prune_credits candidates current = filter (\<lambda>(k, v). k \<in> tgt_id ` set candidates) current"

fun wrr_scan ::
  "upstream_target list \<Rightarrow> credits \<Rightarrow> int \<Rightarrow> (upstream_target \<times> int) option \<Rightarrow>
   credits \<times> int \<times> (upstream_target \<times> int) option" where
  "wrr_scan [] current tot best = (current, tot, best)"
| "wrr_scan (c # cs) current tot best =
     (let weight = normalize_weight c;
          nxt = nullish (map_of current (tgt_id c)) 0 + weight;
          current' = AList.update (tgt_id c) nxt current;
          best' = (case best of
                     None \<Rightarrow> Some (c, nxt)
                   | Some (b, best_current) \<Rightarrow> if best_current < nxt then Some (c, nxt) else best)
      in wrr_scan cs current' (tot + weight) best')"

definition weighted_pick :: "credits \<Rightarrow> upstream_target list \<Rightarrow> upstream_target option \<times> credits" where
  "weighted_pick current candidates =
     (if candidates = [] then (None, current)
      else
        (case wrr_scan candidates (prune_credits candidates current) 0 None of
           (current', tot, Some (best, best_current)) \<Rightarrow>
             (Some best, AList.update (tgt_id best) (best_current - tot) current')
         | (current', tot, None) \<Rightarrow> (None, current')))"

text \<open>\<open>createBalancer\<close>: one balancer of each strategy, its state in the constructor.\<close>

datatype strategy_name = RoundRobin | LeastConnections | Random | WeightedRoundRobin

datatype balancer = RRState nat | LCState | RndState | WRRState credits

definition create_balancer :: "strategy_name \<Rightarrow> balancer" where
  "create_balancer n =
     (case n of RoundRobin \<Rightarrow> RRState 0 | LeastConnections \<Rightarrow> LCState | Random \<Rightarrow> RndState | WeightedRoundRobin \<Rightarrow> WRRState [])"

definition balancer_pick ::
  "balancer \<Rightarrow> (string, int) jsmap option \<Rightarrow> jsvalue \<Rightarrow> upstream_target list \<Rightarrow> upstream_target option \<times> balancer" where
  "balancer_pick b live rng candidates =
     (case b of
        RRState cursor \<Rightarrow> map_prod id RRState (round_robin_pick cursor candidates)
      | LCState \<Rightarrow> (least_connections_pick live candidates, LCState)
      | RndState \<Rightarrow> (random_pick rng candidates, RndState)
      | WRRState current \<Rightarrow> map_prod id WRRState (weighted_pick current candidates))"

section \<open>Health registry\<close>

datatype health_state = Healthy | Unhealthy | Unknown

record health_record =
  hr_targetId :: string
  hr_state :: health_state
  hr_checkedAt :: jsnum
  hr_detail :: "string option"

type_synonym registry = "(string, health_record) jsmap"

definition set_state :: "string \<Rightarrow> health_state \<Rightarrow> string option \<Rightarrow> jsnum \<Rightarrow> registry \<Rightarrow> registry" where
  "set_state t st detail now r =
     AList.update t \<lparr>hr_targetId = t, hr_state = st, hr_checkedAt = now, hr_detail = detail\<rparr> r"

definition filter_healthy :: "registry \<Rightarrow> upstream_target list \<Rightarrow> upstream_target list" where
  "filter_healthy r targets =
     filter (\<lambda>t. map_option hr_state (map_of r (tgt_id t)) \<noteq> Some Unhealthy) targets"

text \<open>
  One probe ends with the checker's answer, its throw, or the timeout.  The probes of a round run concurrently; the
  round is the list of their outcomes in the order in which they settle.
\<close>

datatype probe_outcome = CheckerSays bool | CheckerThrew string | ProbeTimeout

definition probe_one :: "upstream_target \<Rightarrow> probe_outcome \<Rightarrow> jsnum \<Rightarrow> registry \<Rightarrow> registry" where
  "probe_one t out now r =
     (case out of
        CheckerSays True \<Rightarrow> set_state (tgt_id t) Healthy None now r
      | CheckerSays False \<Rightarrow> set_state (tgt_id t) Unhealthy (Some ''checker reported unhealthy'') now r
      | CheckerThrew m \<Rightarrow> set_state (tgt_id t) Unhealthy (Some m) now r
      | ProbeTimeout \<Rightarrow> set_state (tgt_id t) Unhealthy (Some ''probe exceeded timeout'') now r)"

definition probe_round :: "(upstream_target \<times> probe_outcome \<times> jsnum) list \<Rightarrow> registry \<Rightarrow> registry" where
  "probe_round settled r = fold (\<lambda>(t, out, now). probe_one t out now) settled r"

section \<open>The balancer interface\<close>

locale load_balancer =
  fixes pick :: "'s \<Rightarrow> upstream_target list \<Rightarrow> upstream_target option \<times> 's"
  assumes pick_empty: "fst (pick s []) = None"
    and pick_member: "cs \<noteq> [] \<Longrightarrow> \<exists>t \<in> set cs. fst (pick s cs) = Some t"
begin

lemma pick_None_iff: "fst (pick s cs) = None \<longleftrightarrow> cs = []"
  using pick_empty [of s] pick_member [of cs s] by (cases "cs = []") auto

text \<open>The selection stage of the pipeline: filter, then pick.\<close>

lemma pick_eligible: "fst (pick s (filter P cs)) = Some t \<Longrightarrow> t \<in> set cs \<and> P t"
proof -
  assume a: "fst (pick s (filter P cs)) = Some t"
  then have "filter P cs \<noteq> []" using pick_empty by auto
  from pick_member [OF this, of s] a show ?thesis by auto
qed

lemma pick_none_eligible: "fst (pick s (filter P cs)) = None \<longleftrightarrow> (\<forall>t \<in> set cs. \<not> P t)"
  by (simp add: pick_None_iff filter_empty_conv)

end

lemma least_scan_member: "least_scan live b n cs \<in> set (b # cs)"
proof (induction cs arbitrary: b n)
  case Nil
  then show ?case by simp
next
  case (Cons c cs)
  then show ?case using Cons.IH [of c "live_count live c"] Cons.IH [of b n] by auto
qed

lemma least_scan_least:
  "n = live_count live b \<Longrightarrow> live_count live (least_scan live b n cs) \<le> live_count live b \<and>
   (\<forall>c \<in> set cs. live_count live (least_scan live b n cs) \<le> live_count live c)"
proof (induction cs arbitrary: b n)
  case Nil
  then show ?case by simp
next
  case (Cons c cs)
  show ?case
  proof (cases "live_count live c < n")
    case True
    then show ?thesis using Cons.IH [of "live_count live c" c] Cons.prems by auto
  next
    case False
    then show ?thesis using Cons.IH [of n b] Cons.prems by auto
  qed
qed

lemma clamp_unit_bounds: "0 \<le> clamp_unit r" "clamp_unit r < 1"
  by (auto simp: clamp_unit_def split: jsvalue.split)

lemma random_index: "cs \<noteq> [] \<Longrightarrow> nat (floor (clamp_unit r * of_nat (length cs))) < length cs"
proof -
  assume "cs \<noteq> []"
  then have "clamp_unit r * of_nat (length cs) < of_nat (length cs)" using clamp_unit_bounds(2) [of r] by simp
  then show ?thesis by (simp add: nat_less_iff clamp_unit_bounds floor_less_iff)
qed

lemma random_pick_member: "cs \<noteq> [] \<Longrightarrow> \<exists>t \<in> set cs. random_pick r cs = Some t"
  using random_index [of cs r] by (simp add: random_pick_def)

lemma round_robin_member: "cs \<noteq> [] \<Longrightarrow> \<exists>t \<in> set cs. fst (round_robin_pick s cs) = Some t"
  by (simp add: round_robin_pick_def)

lemma least_connections_member: "cs \<noteq> [] \<Longrightarrow> \<exists>t \<in> set cs. least_connections_pick live cs = Some t"
  using least_scan_member by (fastforce simp: least_connections_pick_def split: list.split)

lemma wrr_scan_best:
  "wrr_scan cs m tot best = (m', tot', best') \<Longrightarrow>
   (best \<noteq> None \<or> cs \<noteq> [] \<longrightarrow> best' \<noteq> None) \<and> (\<forall>b n. best' = Some (b, n) \<longrightarrow> b \<in> set cs \<or> (\<exists>k. best = Some (b, k)))"
proof (induction cs arbitrary: m tot best)
  case Nil
  then show ?case by auto
next
  case (Cons c cs)
  from Cons.IH [OF Cons.prems [unfolded wrr_scan.simps Let_def]] show ?case
    by (auto split: option.splits prod.splits if_splits)
qed

lemma weighted_member: "cs \<noteq> [] \<Longrightarrow> \<exists>t \<in> set cs. fst (weighted_pick m cs) = Some t"
proof -
  assume ne: "cs \<noteq> []"
  obtain m' tot best where sc: "wrr_scan cs (prune_credits cs m) 0 None = (m', tot, best)"
    by (metis prod_cases3)
  with wrr_scan_best [OF sc] ne obtain b n where "best = Some (b, n)" "b \<in> set cs" by fastforce
  with sc ne show ?thesis by (simp add: weighted_pick_def)
qed

interpretation rr: load_balancer round_robin_pick
  by unfold_locales (simp add: round_robin_pick_def, rule round_robin_member)

interpretation wrr: load_balancer weighted_pick
  by unfold_locales (simp add: weighted_pick_def, rule weighted_member)

interpretation gb: load_balancer "\<lambda>b. balancer_pick b live rng" for live rng
proof (unfold_locales, goal_cases)
  case (1 s)
  then show ?case
    by (simp add: balancer_pick_def rr.pick_empty wrr.pick_empty least_connections_pick_def random_pick_def split: balancer.split)
next
  case (2 cs s)
  then show ?case
    by (cases s) (simp_all add: balancer_pick_def rr.pick_member wrr.pick_member least_connections_member random_pick_member)
qed

section \<open>Fairness\<close>

fun pick_times ::
  "('s \<Rightarrow> upstream_target list \<Rightarrow> upstream_target option \<times> 's) \<Rightarrow> nat \<Rightarrow> upstream_target list \<Rightarrow> 's \<Rightarrow>
   upstream_target option list \<times> 's" where
  "pick_times pick 0 cs s = ([], s)"
| "pick_times pick (Suc n) cs s =
     (case pick s cs of (t, s') \<Rightarrow> (case pick_times pick n cs s' of (ts, s'') \<Rightarrow> (t # ts, s'')))"

lemma pick_times_Suc:
  "fst (pick_times pick (Suc n) cs s) = fst (pick s cs) # fst (pick_times pick n cs (snd (pick s cs)))"
  by (simp split: prod.split)

lemma round_robin_cycle:
  "cs \<noteq> [] \<Longrightarrow>
   fst (pick_times round_robin_pick n cs k) = map (\<lambda>i. Some (cs ! ((k + i) mod length cs))) [0..<n]"
proof (induction n arbitrary: k)
  case 0
  then show ?case by simp
next
  case (Suc n)
  let ?l = "length cs"
  have "((k + 1) mod ?l + i) mod ?l = (k + Suc i) mod ?l" for i by (simp add: mod_add_left_eq)
  then have "map (\<lambda>i. Some (cs ! (((k + 1) mod ?l + i) mod ?l))) [0..<n] =
      map (\<lambda>i. Some (cs ! ((k + i) mod ?l))) (map Suc [0..<n])" by simp
  moreover have "[0..<Suc n] = 0 # map Suc [0..<n]" by (simp only: map_Suc_upt upt_conv_Cons [OF zero_less_Suc])
  moreover have "round_robin_pick k cs = (Some (cs ! ((k + 0) mod ?l)), (k + 1) mod ?l)"
    using Suc.prems by (simp add: round_robin_pick_def)
  ultimately show ?case using Suc.IH [OF Suc.prems, of "(k + 1) mod ?l"]
    by (simp only: pick_times_Suc fst_conv snd_conv list.map)
qed

definition credit :: "credits \<Rightarrow> upstream_target \<Rightarrow> int" where
  "credit m t = nullish (map_of m (tgt_id t)) 0"

definition weight_sum :: "upstream_target list \<Rightarrow> int" where
  "weight_sum cs = sum_list (map normalize_weight cs)"

lemma normalize_weight_pos: "1 \<le> normalize_weight t"
  by (auto simp: normalize_weight_def split: option.split jsvalue.split)

lemma credit_prune: "t \<in> set cs \<Longrightarrow> credit (prune_credits cs m) t = credit m t"
proof -
  assume a: "t \<in> set cs"
  have "map_of (filter (\<lambda>(k, v). k \<in> tgt_id ` set cs) m) (tgt_id t) = map_of m (tgt_id t)"
    by (induction m) (use a in auto)
  then show ?thesis by (simp add: credit_def prune_credits_def)
qed

text \<open>The scan adds its weight to the credit of every candidate and keeps the greatest.\<close>

lemma wrr_scan_all:
  "wrr_scan cs m tot best = (m', tot', best') \<Longrightarrow> distinct (map tgt_id cs) \<Longrightarrow>
   tot' = tot + weight_sum cs \<and>
   (\<forall>t. tgt_id t \<notin> tgt_id ` set cs \<longrightarrow> credit m' t = credit m t) \<and>
   (\<forall>t \<in> set cs. credit m' t = credit m t + normalize_weight t) \<and>
   (\<forall>b n. best' = Some (b, n) \<longrightarrow>
      (\<forall>t \<in> set cs. credit m t + normalize_weight t \<le> n) \<and>
      (\<forall>b0 n0. best = Some (b0, n0) \<longrightarrow> n0 \<le> n) \<and>
      (best = Some (b, n) \<or> b \<in> set cs \<and> n = credit m b + normalize_weight b))"
proof (induction cs arbitrary: m tot best)
  case Nil
  then show ?case by (simp add: weight_sum_def)
next
  case (Cons c cs)
  let ?n = "credit m c + normalize_weight c"
  define m1 where "m1 = AList.update (tgt_id c) ?n m"
  define bst where "bst = (case best of None \<Rightarrow> Some (c, ?n)
      | Some (b, k) \<Rightarrow> if k < ?n then Some (c, ?n) else best)"
  have "wrr_scan (c # cs) m tot best = wrr_scan cs m1 (tot + normalize_weight c) bst"
    unfolding wrr_scan.simps Let_def credit_def bst_def m1_def ..
  then have run: "wrr_scan cs m1 (tot + normalize_weight c) bst = (m', tot', best')" using Cons.prems(1) by (metis (lifting))
  have dist: "distinct (map tgt_id cs)" "tgt_id c \<notin> tgt_id ` set cs" using Cons.prems(2) by simp_all
  note ih = Cons.IH [OF run dist(1)]
  have m1: "credit m1 t = (if tgt_id t = tgt_id c then ?n else credit m t)" for t by (simp add: m1_def credit_def)
  have same: "credit m1 t = credit m t" if "t \<in> set cs" for t
  proof -
    have "tgt_id t \<noteq> tgt_id c" using that dist(2) by (metis imageI)
    then show ?thesis by (simp add: m1)
  qed
  have bst: "\<exists>b k. bst = Some (b, k) \<and> ?n \<le> k \<and> (\<forall>b0 k0. best = Some (b0, k0) \<longrightarrow> k0 \<le> k)"
    by (auto simp: bst_def split: option.split)
  have new: "bst = Some (b, k) \<Longrightarrow> best = Some (b, k) \<or> b = c \<and> k = ?n" for b k
    by (auto simp: bst_def split: option.splits if_splits)
  have "tot' = tot + weight_sum (c # cs)" using ih by (simp add: weight_sum_def)
  moreover have "credit m' t = credit m t" if "tgt_id t \<notin> tgt_id ` set (c # cs)" for t
    using ih that m1 [of t] by simp
  moreover have "credit m' t = credit m t + normalize_weight t" if "t \<in> set (c # cs)" for t
  proof (cases "t \<in> set cs")
    case True
    then show ?thesis using ih same by simp
  next
    case False
    then have "t = c" using that by simp
    then show ?thesis using ih dist(2) m1 [of c] by simp
  qed
  moreover have "credit m t + normalize_weight t \<le> n" if "best' = Some (b, n)" "t \<in> set (c # cs)" for b n t
  proof (cases "t \<in> set cs")
    case True
    then show ?thesis using ih that(1) same [of t] by fastforce
  next
    case False
    then have "t = c" using that by simp
    moreover obtain b1 k1 where "bst = Some (b1, k1)" "?n \<le> k1" using bst by blast
    ultimately show ?thesis using ih that(1) by fastforce
  qed
  moreover have "n0 \<le> n" if "best' = Some (b, n)" "best = Some (b0, n0)" for b n b0 n0
    using ih bst that by fastforce
  moreover have "best = Some (b, n) \<or> b \<in> set (c # cs) \<and> n = credit m b + normalize_weight b"
    if "best' = Some (b, n)" for b n
    using ih new [of b n] same [of b] that by auto
  ultimately show ?case by blast
qed

text \<open>
  The books of a weighted cycle: after \<open>n\<close> picks of which \<open>cnt t\<close> went to \<open>t\<close>, its credit is \<open>n w - W cnt\<close>, which stays
  above \<open>-W\<close>.
\<close>

definition cycle_inv :: "upstream_target list \<Rightarrow> int \<Rightarrow> (upstream_target \<Rightarrow> int) \<Rightarrow> credits \<Rightarrow> bool" where
  "cycle_inv cs n cnt m \<longleftrightarrow>
     (\<forall>t \<in> set cs. credit m t = n * normalize_weight t - weight_sum cs * cnt t \<and> - weight_sum cs < credit m t) \<and>
     sum_list (map cnt cs) = n"

lemma weight_sum_pos: "cs \<noteq> [] \<Longrightarrow> 0 < weight_sum cs"
proof (induction cs)
  case Nil
  then show ?case by simp
next
  case (Cons c cs)
  then show ?case using normalize_weight_pos [of c] by (cases "cs = []") (simp_all add: weight_sum_def)
qed

lemma weighted_step:
  assumes "cycle_inv cs n cnt m" "distinct (map tgt_id cs)" "cs \<noteq> []" "weighted_pick m cs = (r, m')"
  shows "\<exists>b \<in> set cs. r = Some b \<and> cycle_inv cs (n + 1) (cnt(b := cnt b + 1)) m'"
proof -
  let ?W = "weight_sum cs"
  obtain m1 tot best where sc: "wrr_scan cs (prune_credits cs m) 0 None = (m1, tot, best)"
    by (metis prod_cases3)
  note sp = wrr_scan_all [OF sc assms(2)]
  obtain b k where best: "best = Some (b, k)" using wrr_scan_best [OF sc] assms(3) by fastforce
  have b: "b \<in> set cs" "k = credit m b + normalize_weight b"
    using sp best by (auto simp: credit_prune)
  have m': "r = Some b" "m' = AList.update (tgt_id b) (k - ?W) m1"
    using assms(3,4) sc sp best by (simp_all add: weighted_pick_def)
  have max: "credit m t + normalize_weight t \<le> k" if "t \<in> set cs" for t
    using sp best that credit_prune [OF that, of m] by fastforce
  have scan: "credit m1 t = credit m t + normalize_weight t" if "t \<in> set cs" for t
    using sp that credit_prune [OF that, of m] by simp
  have upd: "credit m' t = credit m t + normalize_weight t - (if t = b then ?W else 0)" if t: "t \<in> set cs" for t
  proof (cases "t = b")
    case True
    then show ?thesis using b(2) by (simp add: m' credit_def)
  next
    case False
    then have "tgt_id t \<noteq> tgt_id b" using assms(2) t b(1) by (auto simp: distinct_map inj_on_def)
    then have "credit m' t = credit m1 t" by (simp add: m' credit_def)
    then show ?thesis using scan [OF t] False by simp
  qed
  have sum: "sum_list (map (\<lambda>t. credit m t + normalize_weight t) cs) = ?W"
  proof -
    have lin: "sum_list (map (\<lambda>t. a * normalize_weight t - v * cnt t) xs) =
        a * sum_list (map normalize_weight xs) - v * sum_list (map cnt xs)" for a v xs
      by (induction xs) (simp_all add: algebra_simps)
    have "map (\<lambda>t. credit m t + normalize_weight t) cs = map (\<lambda>t. (n + 1) * normalize_weight t - ?W * cnt t) cs"
      using assms(1) by (simp add: cycle_inv_def algebra_simps)
    then have "sum_list (map (\<lambda>t. credit m t + normalize_weight t) cs) =
        (n + 1) * ?W - ?W * sum_list (map cnt cs)"
      by (simp only: lin flip: weight_sum_def)
    then show ?thesis using assms(1) by (simp add: cycle_inv_def algebra_simps)
  qed
  have pos: "0 < k"
  proof (rule ccontr)
    assume "\<not> 0 < k"
    then have "credit m t + normalize_weight t \<le> 0" if "t \<in> set cs" for t using max [OF that] by simp
    then have "sum_list (map (\<lambda>t. credit m t + normalize_weight t) cs) \<le> 0" by (intro sum_list_nonpos) auto
    then show False using sum weight_sum_pos [OF assms(3)] by simp
  qed
  have "distinct cs" using assms(2) by (simp add: distinct_map)
  then have cnt: "sum_list (map (cnt(b := cnt b + 1)) cs) = sum_list (map cnt cs) + 1"
    using b(1) by (induction cs) (auto intro!: arg_cong [where f = sum_list])
  have "cycle_inv cs (n + 1) (cnt(b := cnt b + 1)) m'"
    unfolding cycle_inv_def
  proof (intro conjI ballI)
    fix t
    assume t: "t \<in> set cs"
    have inv: "credit m t = n * normalize_weight t - ?W * cnt t" "- ?W < credit m t"
      using assms(1) t by (auto simp: cycle_inv_def)
    show "credit m' t = (n + 1) * normalize_weight t - ?W * (cnt(b := cnt b + 1)) t"
      using upd [OF t] inv(1) by (cases "t = b") (simp_all add: algebra_simps)
    show "- ?W < credit m' t"
      using upd [OF t] inv(2) normalize_weight_pos [of t] pos b(2) by (cases "t = b") auto
  next
    show "sum_list (map (cnt(b := cnt b + 1)) cs) = n + 1" using cnt assms(1) by (simp add: cycle_inv_def)
  qed
  with b(1) m'(1) show ?thesis by blast
qed

lemma weighted_run:
  "cycle_inv cs n cnt m \<Longrightarrow> distinct (map tgt_id cs) \<Longrightarrow> cs \<noteq> [] \<Longrightarrow> pick_times weighted_pick j cs m = (ts, m') \<Longrightarrow>
   cycle_inv cs (n + int j) (\<lambda>t. cnt t + int (count_list ts (Some t))) m'"
proof (induction j arbitrary: n cnt m ts)
  case 0
  then show ?case by simp
next
  case (Suc j)
  obtain r m1 where p: "weighted_pick m cs = (r, m1)" by (cases "weighted_pick m cs")
  obtain ts' where q: "pick_times weighted_pick j cs m1 = (ts', m')" "ts = r # ts'"
    using Suc.prems(4) p by (auto split: prod.splits)
  obtain b where b: "r = Some b" "cycle_inv cs (n + 1) (cnt(b := cnt b + 1)) m1"
    using weighted_step [OF Suc.prems(1-3) p] by blast
  have "(\<lambda>t. (cnt(b := cnt b + 1)) t + int (count_list ts' (Some t))) = (\<lambda>t. cnt t + int (count_list ts (Some t)))"
    by (auto simp: q(2) b(1))
  with Suc.IH [OF b(2) Suc.prems(2,3) q(1)] show ?case by (simp add: ac_simps)
qed

text \<open>No target ever gets ahead of its share by a full pick, and a full cycle serves every target exactly its weight.\<close>

lemma weighted_share:
  assumes "distinct (map tgt_id cs)" "t \<in> set cs" "pick_times weighted_pick j cs [] = (ts, m')"
  shows "weight_sum cs * int (count_list ts (Some t)) < int j * normalize_weight t + weight_sum cs"
    "sum_list (map (\<lambda>t. int (count_list ts (Some t))) cs) = int j"
proof -
  have ne: "cs \<noteq> []" using assms(2) by auto
  have "cycle_inv cs 0 (\<lambda>t. 0) []" using weight_sum_pos [OF ne] by (simp add: cycle_inv_def credit_def)
  from weighted_run [OF this assms(1) ne assms(3)]
  show "weight_sum cs * int (count_list ts (Some t)) < int j * normalize_weight t + weight_sum cs"
    "sum_list (map (\<lambda>t. int (count_list ts (Some t))) cs) = int j"
    using assms(2) by (auto simp: cycle_inv_def)
qed

lemma sum_list_squeeze:
  "(\<And>x. x \<in> set xs \<Longrightarrow> f x \<le> (g x :: int)) \<Longrightarrow> sum_list (map f xs) = sum_list (map g xs) \<Longrightarrow> x \<in> set xs \<Longrightarrow> f x = g x"
proof (induction xs)
  case Nil
  then show ?case by simp
next
  case (Cons y ys)
  have "sum_list (map f ys) \<le> sum_list (map g ys)" by (intro sum_list_mono) (simp add: Cons.prems(1))
  moreover have "f y \<le> g y" using Cons.prems(1) by simp
  ultimately have "f y = g y" "sum_list (map f ys) = sum_list (map g ys)" using Cons.prems(2) by simp_all
  with Cons show ?case by auto
qed

lemma weighted_full_cycle:
  assumes "distinct (map tgt_id cs)" "t \<in> set cs"
  shows "int (count_list (fst (pick_times weighted_pick (nat (weight_sum cs)) cs [])) (Some t)) = normalize_weight t"
proof -
  have ne: "cs \<noteq> []" using assms(2) by auto
  obtain ts m' where p: "pick_times weighted_pick (nat (weight_sum cs)) cs [] = (ts, m')" by (cases "pick_times weighted_pick (nat (weight_sum cs)) cs []")
  have W: "0 < weight_sum cs" by (rule weight_sum_pos [OF ne])
  have le: "int (count_list ts (Some x)) \<le> normalize_weight x" if "x \<in> set cs" for x
  proof -
    have "weight_sum cs * int (count_list ts (Some x)) < weight_sum cs * (normalize_weight x + 1)"
      using weighted_share(1) [OF assms(1) that p] W by (simp add: algebra_simps)
    then show ?thesis using W by simp
  qed
  have "sum_list (map (\<lambda>t. int (count_list ts (Some t))) cs) = sum_list (map normalize_weight cs)"
    using weighted_share(2) [OF assms p] W by (simp add: weight_sum_def)
  from sum_list_squeeze [OF le this assms(2)] show ?thesis by (simp add: p)
qed

end
