(* ===== verification/GatewayRouter.thy ===== *)
theory GatewayRouter
  imports GatewayLimiter GatewayBalancer
begin

text \<open>
  The route matcher of \<open>packages/gateway/src/router.ts\<close> and the version resolver of \<open>packages/gateway/src/versioning.ts\<close>.

  The regular expression engine is a parameter \<open>rx\<close>: \<open>rx pattern path\<close> is the list of capture groups of
  \<open>new RegExp("^(?:pattern)$").exec(path)\<close>, \<open>None\<close> when it does not match.  \<open>route_config\<close> is parametrised by the type of
  the per-route policy, which matching does not read.
\<close>

section \<open>Routes\<close>

datatype match_kind = KStatic | KPrefix | KWildcard | KRegex

record 'p route_config =
  rt_id :: "string option"
  rt_pattern :: string
  rt_kind :: "match_kind option"
  rt_priority :: "jsnum option"
  rt_methods :: "string list option"
  rt_service :: string
  rt_strategy :: "strategy_name option"
  rt_policy :: "'p option"

type_synonym regex_engine = "string \<Rightarrow> string \<Rightarrow> string option list option"

definition resolve_kind :: "'p route_config \<Rightarrow> match_kind" where
  "resolve_kind r =
     (case rt_kind r of
        Some k \<Rightarrow> k
      | None \<Rightarrow> if ends_with ''/*'' (rt_pattern r) then KWildcard else KStatic)"

definition strip_query :: "string \<Rightarrow> string" where
  "strip_query path = takeWhile (\<lambda>c. c \<noteq> CHR ''?'') path"

definition regex_meta :: "char \<Rightarrow> bool" where
  "regex_meta c \<longleftrightarrow> c \<in> set [CHR 0x5C, CHR ''^'', CHR ''$'', CHR ''.'', CHR ''|'', CHR ''?'', CHR ''*'', CHR ''+'',
     CHR ''('', CHR '')'', CHR ''['', CHR '']'', CHR ''{'', CHR ''}'']"

definition specificity :: "'p route_config \<Rightarrow> nat" where
  "specificity r =
     (case resolve_kind r of
        KStatic \<Rightarrow> length (rt_pattern r)
      | KPrefix \<Rightarrow> length (rt_pattern r)
      | KWildcard \<Rightarrow> length (takeWhile (\<lambda>c. c \<noteq> CHR ''*'') (rt_pattern r))
      | KRegex \<Rightarrow> length (takeWhile (\<lambda>c. \<not> regex_meta c) (rt_pattern r)))"

text \<open>\<open>matchWildcard\<close> on the segments of pattern and path.\<close>

fun match_segments :: "string list \<Rightarrow> string list \<Rightarrow> string list option" where
  "match_segments [] us = (if us = [] then Some [] else None)"
| "match_segments (s # ps) us =
     (if s = ''*'' then
        (if ps = [] then (if us = [] then None else Some [join_with CHR ''/'' us])
         else (case us of [] \<Rightarrow> None | u # us' \<Rightarrow> map_option (Cons u) (match_segments ps us')))
      else
        (case us of
           [] \<Rightarrow> None
         | u # us' \<Rightarrow> if u = s then match_segments ps us' else None))"

definition match_wildcard :: "string \<Rightarrow> string \<Rightarrow> string list option" where
  "match_wildcard pattern path = match_segments (split_on CHR ''/'' pattern) (split_on CHR ''/'' path)"

definition method_allows :: "'p route_config \<Rightarrow> string option \<Rightarrow> bool" where
  "method_allows r m =
     (case rt_methods r of
        None \<Rightarrow> True
      | Some ms \<Rightarrow>
          (ms = [] \<or> (case m of None \<Rightarrow> True | Some x \<Rightarrow> list_ex (\<lambda>y. to_upper y = to_upper x) ms)))"

definition try_match :: "regex_engine \<Rightarrow> 'p route_config \<Rightarrow> string \<Rightarrow> string list option" where
  "try_match rx r path =
     (case resolve_kind r of
        KStatic \<Rightarrow> if path = rt_pattern r then Some [] else None
      | KPrefix \<Rightarrow>
          (if path = rt_pattern r then Some []
           else
             (let with_slash = (if ends_with ''/'' (rt_pattern r) then rt_pattern r else rt_pattern r @ ''/'') in
              if starts_with with_slash path \<and> length with_slash < length path then Some [] else None))
      | KWildcard \<Rightarrow> match_wildcard (rt_pattern r) path
      | KRegex \<Rightarrow> map_option (map (\<lambda>g. nullish g [])) (rx (rt_pattern r) path))"

definition canonical_path :: "string \<Rightarrow> bool" where
  "canonical_path path \<longleftrightarrow> path = ''/'' \<or> \<not> ends_with ''/'' path"

record 'p route_match =
  mt_route :: "'p route_config"
  mt_params :: "string list"

definition route_priority :: "'p route_config \<Rightarrow> jsnum" where
  "route_priority r = nullish (rt_priority r) 0"

definition outranks :: "'p route_config \<Rightarrow> 'p route_config \<Rightarrow> bool" where
  "outranks r b \<longleftrightarrow>
     route_priority b < route_priority r \<or> route_priority r = route_priority b \<and> specificity b < specificity r"

fun match_scan ::
  "regex_engine \<Rightarrow> string \<Rightarrow> string option \<Rightarrow> 'p route_config list \<Rightarrow> 'p route_match option \<Rightarrow> 'p route_match option" where
  "match_scan rx path m [] best = best"
| "match_scan rx path m (r # rs) best =
     (if \<not> method_allows r m then match_scan rx path m rs best
      else
        (case try_match rx r path of
           None \<Rightarrow> match_scan rx path m rs best
         | Some params \<Rightarrow>
             match_scan rx path m rs
               (case best of
                  None \<Rightarrow> Some \<lparr>mt_route = r, mt_params = params\<rparr>
                | Some b \<Rightarrow> if outranks r (mt_route b) then Some \<lparr>mt_route = r, mt_params = params\<rparr> else best)))"

definition router_match :: "regex_engine \<Rightarrow> 'p route_config list \<Rightarrow> string \<Rightarrow> string option \<Rightarrow> 'p route_match option" where
  "router_match rx routes path m =
     (let clean = strip_query path in
      if \<not> canonical_path clean then None else match_scan rx clean m routes None)"

section \<open>Versions\<close>

datatype version_source = VsPath | VsXVersion | VsAcceptVersion | VsDefault

record versioning_policy =
  vp_sources :: "version_source list option"
  vp_versions :: "string list"
  vp_default :: string

record resolved_version =
  rv_version :: string
  rv_source :: version_source
  rv_strippedPath :: string

definition DEFAULT_SOURCES :: "version_source list" where
  "DEFAULT_SOURCES = [VsPath, VsXVersion, VsAcceptVersion]"

text \<open>\<open>PATH_VERSION\<close>, \<open>/^\/(v\d+)(?:\/|$)/\<close>: its first group.\<close>

definition path_version :: "string \<Rightarrow> string option" where
  "path_version p =
     (case p of
        a # b # rest \<Rightarrow>
          (let ds = takeWhile is_digit rest; after = dropWhile is_digit rest in
           if a = CHR ''/'' \<and> b = CHR ''v'' \<and> ds \<noteq> [] \<and> (after = [] \<or> hd after = CHR ''/'')
           then Some (b # ds) else None)
      | _ \<Rightarrow> None)"

definition known_version :: "versioning_policy \<Rightarrow> string option \<Rightarrow> string option" where
  "known_version p v = (case v of None \<Rightarrow> None | Some x \<Rightarrow> if x \<in> set (vp_versions p) then Some x else None)"

definition from_source :: "versioning_policy \<Rightarrow> gateway_request \<Rightarrow> version_source \<Rightarrow> resolved_version option" where
  "from_source p req src =
     (let raw = gr_path req;
          pathname = takeWhile (\<lambda>c. c \<noteq> CHR ''?'') raw;
          query = dropWhile (\<lambda>c. c \<noteq> CHR ''?'') raw
      in case src of
           VsPath \<Rightarrow>
             map_option
               (\<lambda>v. \<lparr>rv_version = v, rv_source = VsPath,
                     rv_strippedPath = (let rest = drop (1 + length v) pathname in if rest = [] then ''/'' else rest) @ query\<rparr>)
               (known_version p (path_version pathname))
         | VsXVersion \<Rightarrow>
             map_option (\<lambda>v. \<lparr>rv_version = v, rv_source = VsXVersion, rv_strippedPath = raw\<rparr>)
               (known_version p (first_header (gr_headers req) ''x-version''))
         | VsAcceptVersion \<Rightarrow>
             map_option (\<lambda>v. \<lparr>rv_version = v, rv_source = VsAcceptVersion, rv_strippedPath = raw\<rparr>)
               (known_version p (first_header (gr_headers req) ''accept-version''))
         | VsDefault \<Rightarrow> None)"

fun first_known :: "('a \<Rightarrow> 'b option) \<Rightarrow> 'a list \<Rightarrow> 'b option" where
  "first_known f [] = None"
| "first_known f (x # xs) = (case f x of Some y \<Rightarrow> Some y | None \<Rightarrow> first_known f xs)"

definition resolve_version :: "versioning_policy \<Rightarrow> gateway_request \<Rightarrow> resolved_version" where
  "resolve_version p req =
     nullish (first_known (from_source p req) (nullish (vp_sources p) DEFAULT_SOURCES))
       \<lparr>rv_version = vp_default p, rv_source = VsDefault, rv_strippedPath = gr_path req\<rparr>"

section \<open>Route selection\<close>

definition matches :: "regex_engine \<Rightarrow> string \<Rightarrow> string option \<Rightarrow> 'p route_config \<Rightarrow> bool" where
  "matches rx path m r \<longleftrightarrow> method_allows r m \<and> try_match rx r path \<noteq> None"

lemma outranks_trans: "outranks a b \<Longrightarrow> outranks b c \<Longrightarrow> outranks a c"
  by (auto simp: outranks_def)

lemma outranks_not_trans: "\<not> outranks a b \<Longrightarrow> outranks c b \<Longrightarrow> outranks c a"
  by (auto simp: outranks_def)

lemma outranks_irrefl [simp]: "\<not> outranks a a"
  by (simp add: outranks_def)

text \<open>
  \<open>chosen\<close>: the route is the first of the best ones, every matching route before it is outranked by it and none after
  it outranks it.
\<close>

definition chosen :: "regex_engine \<Rightarrow> string \<Rightarrow> string option \<Rightarrow> 'p route_config list \<Rightarrow> 'p route_match \<Rightarrow> bool" where
  "chosen rx path m routes b \<longleftrightarrow>
     (\<exists>us vs. routes = us @ mt_route b # vs \<and> method_allows (mt_route b) m \<and>
        try_match rx (mt_route b) path = Some (mt_params b) \<and>
        (\<forall>r \<in> set us. matches rx path m r \<longrightarrow> outranks (mt_route b) r) \<and>
        (\<forall>r \<in> set vs. matches rx path m r \<longrightarrow> \<not> outranks r (mt_route b)))"

definition best_so_far :: "regex_engine \<Rightarrow> string \<Rightarrow> string option \<Rightarrow> 'p route_config list \<Rightarrow> 'p route_match option \<Rightarrow> bool" where
  "best_so_far rx path m seen best \<longleftrightarrow>
     (case best of None \<Rightarrow> \<forall>r \<in> set seen. \<not> matches rx path m r | Some b \<Rightarrow> chosen rx path m seen b)"

lemma outranks_asym: "outranks a b \<Longrightarrow> \<not> outranks b a"
  by (auto simp: outranks_def)

lemma chosen_not_outranked:
  assumes "chosen rx path m seen b" "r \<in> set seen" "matches rx path m r"
  shows "\<not> outranks r (mt_route b)"
proof -
  obtain us vs where "seen = us @ mt_route b # vs" "\<forall>r \<in> set us. matches rx path m r \<longrightarrow> outranks (mt_route b) r"
    "\<forall>r \<in> set vs. matches rx path m r \<longrightarrow> \<not> outranks r (mt_route b)"
    using assms(1) unfolding chosen_def by blast
  then consider "r \<in> set us" "outranks (mt_route b) r" | "r = mt_route b" | "\<not> outranks r (mt_route b)"
    using assms(2,3) by auto
  then show ?thesis by cases (simp_all add: outranks_asym)
qed

lemma best_so_far_skip:
  "best_so_far rx path m seen best \<Longrightarrow> \<not> matches rx path m r \<Longrightarrow> best_so_far rx path m (seen @ [r]) best"
proof (cases best)
  case None
  assume "best_so_far rx path m seen best" "\<not> matches rx path m r"
  then show ?thesis using None by (simp add: best_so_far_def)
next
  case (Some b)
  assume a: "best_so_far rx path m seen best" "\<not> matches rx path m r"
  then obtain us vs where "seen = us @ mt_route b # vs" "method_allows (mt_route b) m"
    "try_match rx (mt_route b) path = Some (mt_params b)"
    "\<forall>r \<in> set us. matches rx path m r \<longrightarrow> outranks (mt_route b) r"
    "\<forall>r \<in> set vs. matches rx path m r \<longrightarrow> \<not> outranks r (mt_route b)"
    using Some by (auto simp: best_so_far_def chosen_def)
  then have "chosen rx path m (seen @ [r]) b"
    unfolding chosen_def using a(2) by (intro exI [of _ us] exI [of _ "vs @ [r]"]) auto
  then show ?thesis using Some by (simp add: best_so_far_def)
qed

lemma best_so_far_take:
  assumes "best_so_far rx path m seen best" "method_allows r m" "try_match rx r path = Some ps"
  shows "best_so_far rx path m (seen @ [r])
    (case best of None \<Rightarrow> Some \<lparr>mt_route = r, mt_params = ps\<rparr>
     | Some b \<Rightarrow> if outranks r (mt_route b) then Some \<lparr>mt_route = r, mt_params = ps\<rparr> else best)"
proof (cases best)
  case None
  then have "chosen rx path m (seen @ [r]) \<lparr>mt_route = r, mt_params = ps\<rparr>"
    unfolding chosen_def using assms by (intro exI [of _ seen] exI [of _ "[]"]) (auto simp: best_so_far_def)
  then show ?thesis using None by (simp add: best_so_far_def)
next
  case (Some b)
  have ch: "chosen rx path m seen b" using assms(1) Some by (simp add: best_so_far_def)
  show ?thesis
  proof (cases "outranks r (mt_route b)")
    case True
    have "outranks r x" if "x \<in> set seen" "matches rx path m x" for x
      using outranks_not_trans [OF chosen_not_outranked [OF ch that] True] .
    then have "chosen rx path m (seen @ [r]) \<lparr>mt_route = r, mt_params = ps\<rparr>"
      unfolding chosen_def using assms by (intro exI [of _ seen] exI [of _ "[]"]) auto
    then show ?thesis using Some True by (simp add: best_so_far_def)
  next
    case False
    from ch obtain us vs where "seen = us @ mt_route b # vs" "method_allows (mt_route b) m"
      "try_match rx (mt_route b) path = Some (mt_params b)"
      "\<forall>r \<in> set us. matches rx path m r \<longrightarrow> outranks (mt_route b) r"
      "\<forall>r \<in> set vs. matches rx path m r \<longrightarrow> \<not> outranks r (mt_route b)"
      by (auto simp: chosen_def)
    then have "chosen rx path m (seen @ [r]) b"
      unfolding chosen_def using False by (intro exI [of _ us] exI [of _ "vs @ [r]"]) auto
    then show ?thesis using Some False by (simp add: best_so_far_def)
  qed
qed

lemma match_scan_best:
  "best_so_far rx path m seen best \<Longrightarrow> best_so_far rx path m (seen @ rs) (match_scan rx path m rs best)"
proof (induction rs arbitrary: seen best)
  case Nil
  then show ?case by simp
next
  case (Cons r rs)
  show ?case
  proof (cases "method_allows r m")
    case False
    then have "\<not> matches rx path m r" by (simp add: matches_def)
    from Cons.IH [OF best_so_far_skip [OF Cons.prems this]] False show ?thesis by simp
  next
    case True
    show ?thesis
    proof (cases "try_match rx r path")
      case None
      then have "\<not> matches rx path m r" by (simp add: matches_def)
      from Cons.IH [OF best_so_far_skip [OF Cons.prems this]] True None show ?thesis by simp
    next
      case (Some ps)
      from Cons.IH [OF best_so_far_take [OF Cons.prems True Some]] True Some show ?thesis by simp
    qed
  qed
qed

lemma router_match_best:
  "case router_match rx routes path m of
     Some b \<Rightarrow> canonical_path (strip_query path) \<and> chosen rx (strip_query path) m routes b
   | None \<Rightarrow> canonical_path (strip_query path) \<longrightarrow> (\<forall>r \<in> set routes. \<not> matches rx (strip_query path) m r)"
  using match_scan_best [of rx "strip_query path" m "[]" None routes]
  by (simp add: router_match_def Let_def best_so_far_def split: option.splits)

section \<open>Wildcards capture what they matched\<close>

text \<open>\<open>fill_segments\<close> puts the captured parameters back in the place of the stars.\<close>

fun fill_segments :: "string list \<Rightarrow> string list \<Rightarrow> string list" where
  "fill_segments [] vs = []"
| "fill_segments (s # ps) vs =
     (if s = ''*'' then (case vs of [] \<Rightarrow> s # fill_segments ps [] | v # vs' \<Rightarrow> v # fill_segments ps vs')
      else s # fill_segments ps vs)"

definition stars :: "string list \<Rightarrow> nat" where
  "stars ps = length (filter (\<lambda>s. s = ''*'') ps)"

lemma fill_nonempty: "fill_segments ps vs = [] \<longleftrightarrow> ps = []"
  by (cases ps) (auto split: list.splits)

lemma match_segments_nonempty: "match_segments ps us = Some vs \<Longrightarrow> ps \<noteq> [] \<Longrightarrow> us \<noteq> []"
  by (cases ps; cases us) (auto split: if_splits)

lemma match_segments_fill:
  "match_segments ps us = Some vs \<Longrightarrow>
   join_with CHR ''/'' (fill_segments ps vs) = join_with CHR ''/'' us \<and> length vs = stars ps"
proof (induction ps us arbitrary: vs rule: match_segments.induct)
  case (1 us)
  then show ?case by (auto simp: stars_def split: if_splits)
next
  case (2 s ps us)
  show ?case
  proof (cases "s = ''*''")
    case star: True
    show ?thesis
    proof (cases "ps = []")
      case True
      then show ?thesis using 2(3) star by (auto simp: stars_def split: if_splits)
    next
      case False
      obtain u us' vs' where u: "us = u # us'" "match_segments ps us' = Some vs'" "vs = u # vs'"
        using 2(3) star False by (auto split: list.splits)
      from 2(1) [OF star False u(1) u(2)] match_segments_nonempty [OF u(2) False] u star False
      show ?thesis by (simp add: join_with_Cons fill_nonempty stars_def)
    qed
  next
    case False
    obtain us' where u: "us = s # us'" "match_segments ps us' = Some vs"
      using 2(3) False by (auto split: list.splits if_splits)
    have ih: "join_with CHR ''/'' (fill_segments ps vs) = join_with CHR ''/'' us' \<and> length vs = stars ps"
      using 2(2) [OF False u(1) refl u(2)] .
    show ?thesis
    proof (cases "ps = []")
      case True
      then have "us' = []" using u(2) by (auto split: if_splits)
      with True ih u False show ?thesis by (simp add: stars_def)
    next
      case ne: False
      with ih u False match_segments_nonempty [OF u(2) ne] show ?thesis
        by (simp add: join_with_Cons fill_nonempty stars_def)
    qed
  qed
qed

lemma match_wildcard_fill:
  "match_wildcard pattern path = Some vs \<Longrightarrow>
   join_with CHR ''/'' (fill_segments (split_on CHR ''/'' pattern) vs) = path \<and> length vs = stars (split_on CHR ''/'' pattern)"
  using match_segments_fill [of "split_on CHR ''/'' pattern" "split_on CHR ''/'' path" vs]
  by (simp add: match_wildcard_def)

lemma match_segments_filled:
  "length vs = stars ps \<Longrightarrow> match_segments ps (fill_segments ps vs) = Some vs"
proof (induction ps arbitrary: vs)
  case Nil
  then show ?case by (simp add: stars_def)
next
  case (Cons s ps)
  show ?case
  proof (cases "s = ''*''")
    case True
    then obtain v vs' where v: "vs = v # vs'" "length vs' = stars ps"
      using Cons.prems by (cases vs) (auto simp: stars_def)
    then show ?thesis using True Cons.IH [OF v(2)] by (cases ps) (auto simp: stars_def)
  next
    case False
    then show ?thesis using Cons by (simp add: stars_def)
  qed
qed

lemma fill_members: "set (fill_segments ps vs) \<subseteq> set ps \<union> set vs"
proof (induction ps arbitrary: vs)
  case Nil
  then show ?case by simp
next
  case (Cons s ps)
  from Cons.IH [of "[]"] Cons.IH [of vs] Cons.IH [of "tl vs"] show ?case
    by (cases vs) auto
qed

text \<open>Conversely the path with parameters put in matches and captures them, when no parameter contains a slash.\<close>

lemma match_wildcard_filled:
  assumes "length vs = stars (split_on CHR ''/'' pattern)" "\<forall>v \<in> set vs. CHR ''/'' \<notin> set v"
  shows "match_wildcard pattern (join_with CHR ''/'' (fill_segments (split_on CHR ''/'' pattern) vs)) = Some vs"
proof -
  let ?segs = "fill_segments (split_on CHR ''/'' pattern) vs"
  have "\<forall>w \<in> set ?segs. CHR ''/'' \<notin> set w"
    using fill_members [of "split_on CHR ''/'' pattern" vs] assms(2) split_on_no_sep [of _ "CHR ''/''" pattern] by blast
  then have "split_on CHR ''/'' (join_with CHR ''/'' ?segs) = ?segs"
    by (intro split_join) (simp_all add: fill_nonempty)
  then show ?thesis using match_segments_filled [OF assms(1)] by (simp add: match_wildcard_def)
qed

section \<open>Versions are known, and only a leading version is stripped\<close>

lemma path_version_shape:
  assumes "path_version p = Some v"
  shows "\<exists>rest. p = CHR ''/'' # v @ rest \<and> (rest = [] \<or> hd rest = CHR ''/'')"
proof -
  obtain a b rest where p0: "p = a # b # rest" using assms unfolding path_version_def by (auto split: list.splits)
  then have p: "p = CHR ''/'' # b # rest" "v = b # takeWhile is_digit rest"
    "dropWhile is_digit rest = [] \<or> hd (dropWhile is_digit rest) = CHR ''/''"
    using assms unfolding path_version_def Let_def p0 list.case by (metis option.distinct(1) option.inject)+
  then have "p = CHR ''/'' # v @ dropWhile is_digit rest" by simp
  with p(3) show ?thesis by blast
qed

lemma first_known_from: "first_known f xs = Some y \<Longrightarrow> \<exists>x \<in> set xs. f x = Some y"
  by (induction xs) (auto split: option.splits)

lemma from_source_known:
  "from_source p req src = Some rv \<Longrightarrow> rv_version rv \<in> set (vp_versions p) \<and> rv_source rv = src \<and> src \<noteq> VsDefault"
  by (auto simp: from_source_def Let_def known_version_def split: version_source.splits option.splits if_splits)

lemma resolve_version_known:
  "rv_source (resolve_version p req) \<noteq> VsDefault \<longrightarrow> rv_version (resolve_version p req) \<in> set (vp_versions p)"
  "rv_source (resolve_version p req) = VsDefault \<longrightarrow>
     rv_version (resolve_version p req) = vp_default p \<and> rv_strippedPath (resolve_version p req) = gr_path req"
proof -
  let ?k = "first_known (from_source p req) (nullish (vp_sources p) DEFAULT_SOURCES)"
  have "(rv_source (resolve_version p req) \<noteq> VsDefault \<longrightarrow> rv_version (resolve_version p req) \<in> set (vp_versions p)) \<and>
    (rv_source (resolve_version p req) = VsDefault \<longrightarrow>
     rv_version (resolve_version p req) = vp_default p \<and> rv_strippedPath (resolve_version p req) = gr_path req)"
  proof (cases ?k)
    case None
    then show ?thesis by (simp add: resolve_version_def)
  next
    case (Some rv)
    obtain src where "from_source p req src = Some rv" using first_known_from [OF Some] by blast
    from from_source_known [OF this] have "rv_version rv \<in> set (vp_versions p)" "rv_source rv \<noteq> VsDefault" by blast+
    with Some show ?thesis by (simp add: resolve_version_def)
  qed
  then show "rv_source (resolve_version p req) \<noteq> VsDefault \<longrightarrow> rv_version (resolve_version p req) \<in> set (vp_versions p)"
    "rv_source (resolve_version p req) = VsDefault \<longrightarrow>
     rv_version (resolve_version p req) = vp_default p \<and> rv_strippedPath (resolve_version p req) = gr_path req"
    by blast+
qed

text \<open>The stripped path: \<open>/v1/users?x\<close> becomes \<open>/users?x\<close> and \<open>/v1\<close> becomes \<open>/\<close>.\<close>

lemma resolve_version_path:
  assumes "rv_source (resolve_version p req) = VsPath"
  shows "\<exists>rest query. gr_path req = ''/'' @ rv_version (resolve_version p req) @ rest @ query \<and>
    rv_strippedPath (resolve_version p req) = (if rest = [] then ''/'' else rest) @ query \<and>
    (rest = [] \<or> hd rest = CHR ''/'') \<and> (query = [] \<or> hd query = CHR ''?'')"
proof -
  let ?k = "first_known (from_source p req) (nullish (vp_sources p) DEFAULT_SOURCES)"
  obtain rv where k: "?k = Some rv" using assms by (cases ?k) (auto simp: resolve_version_def)
  then have rv: "resolve_version p req = rv" by (simp add: resolve_version_def)
  obtain src where src: "from_source p req src = Some rv" using first_known_from [OF k] by blast
  then have s: "src = VsPath" using from_source_known [OF src] assms rv by simp
  let ?pn = "takeWhile (\<lambda>c. c \<noteq> CHR ''?'') (gr_path req)"
  let ?q = "dropWhile (\<lambda>c. c \<noteq> CHR ''?'') (gr_path req)"
  have pv: "path_version ?pn = Some (rv_version rv)"
    and st: "rv_strippedPath rv = (let rest = drop (1 + length (rv_version rv)) ?pn in if rest = [] then ''/'' else rest) @ ?q"
    using src unfolding s from_source_def Let_def version_source.case map_option_eq_Some known_version_def
    by (auto split: option.splits if_split_asm)
  obtain rest where rest: "?pn = CHR ''/'' # rv_version rv @ rest" "rest = [] \<or> hd rest = CHR ''/''"
    using path_version_shape [OF pv] by blast
  have "gr_path req = ?pn @ ?q" by simp
  then have "gr_path req = ''/'' @ rv_version rv @ rest @ ?q" using rest(1) by (metis append_Cons append_Nil append_assoc)
  moreover have "rv_strippedPath rv = (if rest = [] then ''/'' else rest) @ ?q" using st rest(1) by simp
  moreover have "?q = [] \<or> hd ?q = CHR ''?''" using hd_dropWhile [of "\<lambda>c. c \<noteq> CHR ''?''" "gr_path req"] by auto
  ultimately show ?thesis using rest(2) unfolding rv by blast
qed

end
