(* ===== verification/GatewayAccess.thy ===== *)
theory GatewayAccess
  imports GatewayLimiter
begin

text \<open>
  Admission checks of the gateway that look only at the request: the errors of \<open>packages/gateway/src/errors.ts\<close>, credentials
  and authorization (\<open>auth.ts\<close>), CORS (\<open>cors.ts\<close>), body limit and security headers (\<open>security.ts\<close>) and validation
  (\<open>validation.ts\<close>).

  Credential resolvers, custom verifiers and deciders are functions supplied by the application; each may throw.
  A field rule is a function to \<open>None\<close> (valid) or a message.
\<close>

section \<open>Errors\<close>

datatype issue_location = LocHeaders | LocParams | LocQuery | LocBody

record validation_issue =
  vi_location :: issue_location
  vi_field :: string
  vi_message :: string

datatype gateway_error =
    RouteNotFound string
  | NoHealthyUpstream string
  | CircuitIsOpen string
  | UpstreamTimeout jsnum
  | RateLimitExceeded jsnum
  | Unauthenticated
  | Forbidden
  | RequestInvalid "validation_issue list"
  | PayloadTooLarge nat
  | OtherError js_error

text \<open>The status of the response: that of the \<open>GatewayError\<close>, and 502 for anything else thrown.\<close>

definition error_status :: "gateway_error \<Rightarrow> nat" where
  "error_status e =
     (case e of
        RouteNotFound p \<Rightarrow> 404
      | NoHealthyUpstream s \<Rightarrow> 503
      | CircuitIsOpen k \<Rightarrow> 503
      | UpstreamTimeout t \<Rightarrow> 504
      | RateLimitExceeded t \<Rightarrow> 429
      | Unauthenticated \<Rightarrow> 401
      | Forbidden \<Rightarrow> 403
      | RequestInvalid is \<Rightarrow> 400
      | PayloadTooLarge n \<Rightarrow> 413
      | OtherError x \<Rightarrow> 502)"

section \<open>Credentials\<close>

definition bearer_token :: "headers \<Rightarrow> string option" where
  "bearer_token hs =
     (case first_header hs ''authorization'' of
        None \<Rightarrow> None
      | Some auth \<Rightarrow>
          (let trimmed = trim auth in
           if length trimmed < 6 \<or> to_lower (take 6 trimmed) \<noteq> ''bearer'' then None
           else
             (let rest = drop 6 trimmed; body = dropWhile (\<lambda>c. c = CHR '' '' \<or> c = CHR 0x09) rest in
              if body = rest then None
              else (let token = trim body in if token = [] then None else Some token))))"

definition is_session_cookie :: "string \<Rightarrow> string option" where
  "is_session_cookie pair =
     (if CHR ''='' \<notin> set pair then None
      else
        (let key = to_lower (trim (takeWhile (\<lambda>c. c \<noteq> CHR ''='') pair));
             value = trim (tl (dropWhile (\<lambda>c. c \<noteq> CHR ''='') pair))
         in if (key = ''session'' \<or> key = ''sid'' \<or> key = ''sessionid'') \<and> value \<noteq> [] then Some value else None))"

fun first_session :: "string list \<Rightarrow> string option" where
  "first_session [] = None"
| "first_session (p # ps) = (case is_session_cookie p of Some v \<Rightarrow> Some v | None \<Rightarrow> first_session ps)"

definition session_id :: "headers \<Rightarrow> string option" where
  "session_id hs =
     (case first_header hs ''x-session-id'' of
        Some (c # cs) \<Rightarrow> Some (c # cs)
      | _ \<Rightarrow> (case first_header hs ''cookie'' of None \<Rightarrow> None | Some cookie \<Rightarrow> first_session (split_on CHR '';'' cookie)))"

section \<open>Authentication and authorization\<close>

datatype auth_kind = AkNone | AkJwt | AkApiKey | AkSession | AkCustom

type_synonym 'a resolver = "'a \<Rightarrow> js_error + identity option"

record auth_policy =
  au_kind :: auth_kind
  au_verify :: "gateway_request resolver option"

record auth_deps =
  ad_verifyJwt :: "string resolver option"
  ad_apiKeys :: "string resolver option"
  ad_sessions :: "string resolver option"

definition resolve_credential ::
  "string option \<Rightarrow> string resolver option \<Rightarrow> auth_policy \<Rightarrow> gateway_request \<Rightarrow> js_error + identity option" where
  "resolve_credential cred dep p req =
     (case cred of
        None \<Rightarrow> Inr None
      | Some c \<Rightarrow>
          (case dep of
             Some f \<Rightarrow> f c
           | None \<Rightarrow> (case au_verify p of Some f \<Rightarrow> f req | None \<Rightarrow> Inr None)))"

definition authenticate :: "auth_policy \<Rightarrow> gateway_request \<Rightarrow> auth_deps \<Rightarrow> js_error + identity option" where
  "authenticate p req deps =
     (case au_kind p of
        AkNone \<Rightarrow> Inr None
      | AkCustom \<Rightarrow> (case au_verify p of Some f \<Rightarrow> f req | None \<Rightarrow> Inr None)
      | AkApiKey \<Rightarrow>
          resolve_credential (case first_header (gr_headers req) ''x-api-key'' of Some (c # cs) \<Rightarrow> Some (c # cs) | _ \<Rightarrow> None)
            (ad_apiKeys deps) p req
      | AkJwt \<Rightarrow> resolve_credential (bearer_token (gr_headers req)) (ad_verifyJwt deps) p req
      | AkSession \<Rightarrow> resolve_credential (session_id (gr_headers req)) (ad_sessions deps) p req)"

datatype authorization_kind = AzPublic | AzAuthenticated | AzRole | AzPermission | AzCustom

record authorization_policy =
  az_kind :: authorization_kind
  az_roles :: "string list option"
  az_permissions :: "string list option"
  az_decide :: "(identity option \<Rightarrow> gateway_request \<Rightarrow> js_error + bool) option"

definition has_any :: "string list option \<Rightarrow> string list option \<Rightarrow> bool" where
  "has_any present required =
     (if nullish required [] = [] then True
      else if nullish present [] = [] then False
      else list_ex (\<lambda>r. r \<in> set (nullish present [])) (nullish required []))"

definition authorize :: "authorization_policy \<Rightarrow> identity option \<Rightarrow> gateway_request \<Rightarrow> gateway_error + unit" where
  "authorize p ident req =
     (case az_kind p of
        AzPublic \<Rightarrow> Inr ()
      | AzAuthenticated \<Rightarrow> (case ident of None \<Rightarrow> Inl Unauthenticated | Some i \<Rightarrow> Inr ())
      | AzRole \<Rightarrow>
          (case ident of None \<Rightarrow> Inl Unauthenticated
           | Some i \<Rightarrow> if has_any (id_roles i) (az_roles p) then Inr () else Inl Forbidden)
      | AzPermission \<Rightarrow>
          (case ident of None \<Rightarrow> Inl Unauthenticated
           | Some i \<Rightarrow> if has_any (id_permissions i) (az_permissions p) then Inr () else Inl Forbidden)
      | AzCustom \<Rightarrow>
          (case az_decide p of
             None \<Rightarrow> Inl Forbidden
           | Some f \<Rightarrow>
               (case f ident req of
                  Inl e \<Rightarrow> Inl (OtherError e)
                | Inr allowed \<Rightarrow> if allowed then Inr () else Inl Forbidden)))"

definition is_authorized :: "authorization_policy \<Rightarrow> identity option \<Rightarrow> gateway_request \<Rightarrow> gateway_error + bool" where
  "is_authorized p ident req =
     (case authorize p ident req of
        Inr u \<Rightarrow> Inr True
      | Inl Unauthenticated \<Rightarrow> Inr False
      | Inl Forbidden \<Rightarrow> Inr False
      | Inl e \<Rightarrow> Inl e)"

section \<open>CORS\<close>

datatype cors_origins = AnyOrigin | Origins "string list"

text \<open>\<open>co_maxAge\<close> is \<open>String(policy.maxAgeSeconds)\<close>.\<close>

record cors_policy =
  co_origins :: cors_origins
  co_methods :: "string list option"
  co_allowedHeaders :: "string list option"
  co_exposedHeaders :: "string list option"
  co_credentials :: bool
  co_maxAge :: "string option"

definition DEFAULT_METHODS :: string where
  "DEFAULT_METHODS = ''GET,HEAD,PUT,PATCH,POST,DELETE,OPTIONS''"

definition header_of :: "header_value \<Rightarrow> string option" where
  "header_of v = (case v of One s \<Rightarrow> Some s | Many [] \<Rightarrow> None | Many (s # ss) \<Rightarrow> Some s)"

definition cors_header :: "headers \<Rightarrow> string \<Rightarrow> string option" where
  "cors_header hs name =
     (let lower = to_lower name in
      case map_of hs lower of
        Some v \<Rightarrow> header_of v
      | None \<Rightarrow> (case find (\<lambda>(k, v). to_lower k = lower) hs of None \<Rightarrow> None | Some (k, v) \<Rightarrow> header_of v))"

definition origin_allowed :: "cors_policy \<Rightarrow> string \<Rightarrow> bool" where
  "origin_allowed p origin = (case co_origins p of AnyOrigin \<Rightarrow> True | Origins os \<Rightarrow> origin \<in> set os)"

record cors_resolution =
  cr_allowed :: bool
  cr_headers :: "(string \<times> string) list"
  cr_isPreflight :: bool

definition origin_headers :: "cors_policy \<Rightarrow> string option \<Rightarrow> bool \<times> (string \<times> string) list" where
  "origin_headers p origin =
     (case origin of
        None \<Rightarrow> (True, [])
      | Some org \<Rightarrow>
          if origin_allowed p org then
            (True, if co_origins p = AnyOrigin \<and> \<not> co_credentials p then [(''Access-Control-Allow-Origin'', ''*'')]
                   else [(''Access-Control-Allow-Origin'', org), (''Vary'', ''Origin'')])
          else (False, []))"

definition preflight_headers :: "cors_policy \<Rightarrow> headers \<Rightarrow> (string \<times> string) list" where
  "preflight_headers p hs =
     [(''Access-Control-Allow-Methods'',
        if nullish (co_methods p) [] \<noteq> [] then join_with CHR '','' (nullish (co_methods p) []) else DEFAULT_METHODS)] @
     (if nullish (co_allowedHeaders p) [] \<noteq> []
      then [(''Access-Control-Allow-Headers'', join_with CHR '','' (nullish (co_allowedHeaders p) []))]
      else (case cors_header hs ''access-control-request-headers'' of
              None \<Rightarrow> [] | Some requested \<Rightarrow> [(''Access-Control-Allow-Headers'', requested)])) @
     (case co_maxAge p of None \<Rightarrow> [] | Some age \<Rightarrow> [(''Access-Control-Max-Age'', age)])"

definition resolve_cors :: "cors_policy \<Rightarrow> gateway_request \<Rightarrow> cors_resolution" where
  "resolve_cors p req =
     (let origin = cors_header (gr_headers req) ''origin'';
          preflight = to_upper (gr_method req) = ''OPTIONS'' \<and>
            cors_header (gr_headers req) ''access-control-request-method'' \<noteq> None;
          (ok, hs) = origin_headers p origin
      in \<lparr>cr_allowed = ok,
          cr_headers = hs @ (if co_credentials p then [(''Access-Control-Allow-Credentials'', ''true'')] else []) @
            (if preflight then preflight_headers p (gr_headers req)
             else if nullish (co_exposedHeaders p) [] \<noteq> []
             then [(''Access-Control-Expose-Headers'', join_with CHR '','' (nullish (co_exposedHeaders p) []))] else []),
          cr_isPreflight = preflight\<rparr>)"

section \<open>Body limit and security headers\<close>

record security_policy =
  sp_maxBodyBytes :: "nat option"
  sp_headers :: "(string \<times> string) list"

definition enforce_body_limit :: "nat option \<Rightarrow> security_policy option \<Rightarrow> gateway_error + unit" where
  "enforce_body_limit body p =
     (case map_option sp_maxBodyBytes p of
        Some (Some limit) \<Rightarrow>
          (case body of Some n \<Rightarrow> if limit < n then Inl (PayloadTooLarge limit) else Inr () | None \<Rightarrow> Inr ())
      | _ \<Rightarrow> Inr ())"

definition DEFAULT_SECURITY_HEADERS :: "(string \<times> string) list" where
  "DEFAULT_SECURITY_HEADERS =
     [(''x-content-type-options'', ''nosniff''), (''x-frame-options'', ''DENY''), (''referrer-policy'', ''no-referrer''),
      (''x-dns-prefetch-control'', ''off'')]"

definition merge_lower :: "(string \<times> header_value) list \<Rightarrow> headers \<Rightarrow> headers" where
  "merge_lower hs m = fold (\<lambda>(k, v) m. AList.update (to_lower k) v m) hs m"

definition as_values :: "(string \<times> string) list \<Rightarrow> (string \<times> header_value) list" where
  "as_values hs = map (\<lambda>(k, v). (k, One v)) hs"

definition apply_security_headers :: "headers \<Rightarrow> security_policy option \<Rightarrow> headers" where
  "apply_security_headers hs p =
     merge_lower (case p of None \<Rightarrow> [] | Some q \<Rightarrow> as_values (sp_headers q))
       (merge_lower (as_values DEFAULT_SECURITY_HEADERS) (merge_lower hs []))"

section \<open>Validation\<close>

type_synonym 'v field_rule = "'v option \<Rightarrow> string option"

record 'v validation_schema =
  vs_headers :: "(string \<times> 'v field_rule) list option"
  vs_params :: "(string \<times> 'v field_rule) list option"
  vs_query :: "(string \<times> 'v field_rule) list option"
  vs_body :: "'v field_rule option"

record 'v validation_input =
  vn_headers :: "(string, 'v) jsmap option"
  vn_params :: "(string, 'v) jsmap option"
  vn_query :: "(string, 'v) jsmap option"
  vn_body :: "'v option"

definition lookup_header :: "(string, 'v) jsmap \<Rightarrow> string \<Rightarrow> 'v option" where
  "lookup_header hs field = map_option snd (find (\<lambda>(k, v). to_lower k = to_lower field) hs)"

fun check_fields ::
  "issue_location \<Rightarrow> (string \<Rightarrow> 'v option) \<Rightarrow> (string \<times> 'v field_rule) list \<Rightarrow> validation_issue list" where
  "check_fields loc get [] = []"
| "check_fields loc get ((field, rule) # rules) =
     (case rule (get field) of
        None \<Rightarrow> check_fields loc get rules
      | Some message \<Rightarrow> \<lparr>vi_location = loc, vi_field = field, vi_message = message\<rparr> # check_fields loc get rules)"

definition validate_request :: "'v validation_schema \<Rightarrow> 'v validation_input \<Rightarrow> validation_issue list" where
  "validate_request schema input =
     check_fields LocHeaders (lookup_header (nullish (vn_headers input) [])) (nullish (vs_headers schema) []) @
     check_fields LocParams (map_of (nullish (vn_params input) [])) (nullish (vs_params schema) []) @
     check_fields LocQuery (map_of (nullish (vn_query input) [])) (nullish (vs_query schema) []) @
     (case vs_body schema of
        None \<Rightarrow> []
      | Some rule \<Rightarrow>
          (case rule (vn_body input) of
             None \<Rightarrow> []
           | Some message \<Rightarrow> [\<lparr>vi_location = LocBody, vi_field = ''body'', vi_message = message\<rparr>]))"

definition assert_valid :: "'v validation_schema \<Rightarrow> 'v validation_input \<Rightarrow> gateway_error + unit" where
  "assert_valid schema input =
     (let issues = validate_request schema input in if issues = [] then Inr () else Inl (RequestInvalid issues))"

section \<open>Lemmas\<close>

text \<open>Access: a role or permission rule admits exactly the identities that hold one of the required values.\<close>

lemma authorize_role:
  "az_kind p = AzRole \<Longrightarrow> authorize p ident req = Inr () \<longleftrightarrow>
     (\<exists>i. ident = Some i \<and> (nullish (az_roles p) [] = [] \<or> set (nullish (id_roles i) []) \<inter> set (nullish (az_roles p) []) \<noteq> {}))"
  by (auto simp: authorize_def has_any_def list_ex_iff split: option.splits if_splits)

lemma authorize_permission:
  "az_kind p = AzPermission \<Longrightarrow> authorize p ident req = Inr () \<longleftrightarrow>
     (\<exists>i. ident = Some i \<and>
        (nullish (az_permissions p) [] = [] \<or> set (nullish (id_permissions i) []) \<inter> set (nullish (az_permissions p) []) \<noteq> {}))"
  by (auto simp: authorize_def has_any_def list_ex_iff split: option.splits if_splits)

lemma authorize_anonymous:
  "az_kind p \<in> {AzAuthenticated, AzRole, AzPermission} \<Longrightarrow> authorize p None req = Inl Unauthenticated"
  by (auto simp: authorize_def)

lemma is_authorized_agrees: "is_authorized p ident req = Inr b \<Longrightarrow> b \<longleftrightarrow> authorize p ident req = Inr ()"
  by (auto simp: is_authorized_def split: sum.splits gateway_error.splits)

text \<open>An identity only ever comes from a resolver the application supplied, applied to a credential the request carries.\<close>

lemma authenticate_resolved:
  "authenticate p req deps = Inr (Some i) \<Longrightarrow>
     (\<exists>f. au_verify p = Some f \<and> f req = Inr (Some i)) \<or>
     (\<exists>f c. f \<in> set_option (ad_verifyJwt deps) \<union> set_option (ad_apiKeys deps) \<union> set_option (ad_sessions deps) \<and>
        c \<noteq> [] \<and> f c = Inr (Some i))"
proof -
  assume a: "authenticate p req deps = Inr (Some i)"
  have cred: "(\<exists>f. au_verify p = Some f \<and> f req = Inr (Some i)) \<or> (\<exists>f c. dep = Some f \<and> cred = Some c \<and> f c = Inr (Some i))"
    if "resolve_credential cred dep p req = Inr (Some i)" for cred dep
    using that by (auto simp: resolve_credential_def split: option.splits)
  have bearer: "c \<noteq> []" if "bearer_token hs = Some c" for hs c
    using that by (auto simp: bearer_token_def Let_def split: option.splits if_splits)
  have cookie: "c \<noteq> []" if "first_session ps = Some c" for ps c
    using that by (induction ps) (auto simp: is_session_cookie_def Let_def split: option.splits if_splits)
  have session: "c \<noteq> []" if "session_id hs = Some c" for hs c
    using that cookie by (auto simp: session_id_def split: option.splits list.splits)
  show ?thesis
  proof (cases "au_kind p")
    case AkNone
    then show ?thesis using a by (simp add: authenticate_def)
  next
    case AkJwt
    then show ?thesis using a cred bearer by (fastforce simp: authenticate_def)
  next
    case AkApiKey
    then show ?thesis using a cred [of _ "ad_apiKeys deps"]
      by (fastforce simp: authenticate_def split: option.splits list.splits)
  next
    case AkSession
    then show ?thesis using a cred session by (fastforce simp: authenticate_def)
  next
    case AkCustom
    then show ?thesis using a by (auto simp: authenticate_def split: option.splits)
  qed
qed

text \<open>CORS: no response combines the wildcard origin with credentials, and an origin is echoed only when allowed.\<close>

lemma origin_headers_safe:
  "origin_headers p origin = (ok, hs) \<Longrightarrow>
     (''Access-Control-Allow-Origin'', v) \<in> set hs \<longleftrightarrow>
       (\<exists>org. origin = Some org \<and> origin_allowed p org \<and>
          v = (if co_origins p = AnyOrigin \<and> \<not> co_credentials p then ''*'' else org))"
  by (auto simp: origin_headers_def split: option.splits if_splits)

lemma cors_origin_header:
  "(''Access-Control-Allow-Origin'', v) \<in> set (cr_headers (resolve_cors p req)) \<longleftrightarrow>
     (\<exists>org. cors_header (gr_headers req) ''origin'' = Some org \<and> origin_allowed p org \<and>
        v = (if co_origins p = AnyOrigin \<and> \<not> co_credentials p then ''*'' else org))"
proof -
  obtain ok hs where o: "origin_headers p (cors_header (gr_headers req) ''origin'') = (ok, hs)"
    by (cases "origin_headers p (cors_header (gr_headers req) ''origin'')")
  have "(''Access-Control-Allow-Origin'', v) \<notin> set (preflight_headers p (gr_headers req))"
    by (auto simp: preflight_headers_def split: option.splits)
  with origin_headers_safe [OF o, of v] o show ?thesis by (auto simp: resolve_cors_def Let_def)
qed

lemma cors_credentials_header:
  "(''Access-Control-Allow-Credentials'', v) \<in> set (cr_headers (resolve_cors p req)) \<longleftrightarrow> co_credentials p \<and> v = ''true''"
proof -
  obtain ok hs where o: "origin_headers p (cors_header (gr_headers req) ''origin'') = (ok, hs)"
    by (cases "origin_headers p (cors_header (gr_headers req) ''origin'')")
  have "(''Access-Control-Allow-Credentials'', v) \<notin> set (preflight_headers p (gr_headers req))"
    by (auto simp: preflight_headers_def split: option.splits)
  moreover have "(''Access-Control-Allow-Credentials'', v) \<notin> set hs"
    using o by (auto simp: origin_headers_def split: option.splits if_splits)
  ultimately show ?thesis using o by (auto simp: resolve_cors_def Let_def)
qed

lemma cors_allowed:
  "cr_allowed (resolve_cors p req) \<longleftrightarrow>
     (case cors_header (gr_headers req) ''origin'' of None \<Rightarrow> True | Some org \<Rightarrow> origin_allowed p org)"
  by (auto simp: resolve_cors_def Let_def origin_headers_def split: option.splits if_splits)

text \<open>Security headers: policy overrides defaults, which override what the upstream sent; nothing else changes.\<close>

lemma merge_lower_lookup:
  "map_of (merge_lower hs m) k =
     (case find (\<lambda>(x, v). to_lower x = k) (rev hs) of Some (x, v) \<Rightarrow> Some v | None \<Rightarrow> map_of m k)"
proof (induction hs rule: rev_induct)
  case Nil
  then show ?case by (simp add: merge_lower_def)
next
  case (snoc p hs)
  obtain x v where "p = (x, v)" by (cases p)
  with snoc show ?case by (auto simp: merge_lower_def)
qed

lemma find_as_values:
  "find (\<lambda>(x, v). to_lower x = k) (rev (as_values hs)) = map_option (\<lambda>(x, v). (x, One v)) (find (\<lambda>(x, v). to_lower x = k) (rev hs))"
proof -
  have "find (\<lambda>(x, v). to_lower x = k) (map (\<lambda>(x, v). (x, One v)) xs) =
      map_option (\<lambda>(x, v). (x, One v)) (find (\<lambda>(x, v). to_lower x = k) xs)" for xs :: "(string \<times> string) list"
    by (induction xs) auto
  from this [of "rev hs"] show ?thesis by (simp only: as_values_def rev_map)
qed

lemma security_headers_lookup:
  "map_of (apply_security_headers hs p) k =
     (case find (\<lambda>(x, v). to_lower x = k) (rev (case p of None \<Rightarrow> [] | Some q \<Rightarrow> sp_headers q)) of
        Some (x, v) \<Rightarrow> Some (One v)
      | None \<Rightarrow>
          (case find (\<lambda>(x, v). to_lower x = k) (rev DEFAULT_SECURITY_HEADERS) of
             Some (x, v) \<Rightarrow> Some (One v)
           | None \<Rightarrow> (case find (\<lambda>(x, v). to_lower x = k) (rev hs) of Some (x, v) \<Rightarrow> Some v | None \<Rightarrow> None)))"
  by (cases p) (auto simp: apply_security_headers_def merge_lower_lookup find_as_values split: option.splits)

text \<open>Validation: valid exactly when every rule accepts the value it looks up.\<close>

lemma check_fields_empty: "check_fields loc get rules = [] \<longleftrightarrow> (\<forall>(field, rule) \<in> set rules. rule (get field) = None)"
  by (induction loc get rules rule: check_fields.induct) (auto split: option.splits)

lemma check_fields_issue:
  "is \<in> set (check_fields loc get rules) \<longleftrightarrow>
     (\<exists>(field, rule) \<in> set rules. \<exists>m. rule (get field) = Some m \<and> is = \<lparr>vi_location = loc, vi_field = field, vi_message = m\<rparr>)"
  by (induction loc get rules rule: check_fields.induct) (auto split: option.splits)

lemma assert_valid_iff:
  "assert_valid schema input = Inr () \<longleftrightarrow>
     (\<forall>(f, r) \<in> set (nullish (vs_headers schema) []). r (lookup_header (nullish (vn_headers input) []) f) = None) \<and>
     (\<forall>(f, r) \<in> set (nullish (vs_params schema) []). r (map_of (nullish (vn_params input) []) f) = None) \<and>
     (\<forall>(f, r) \<in> set (nullish (vs_query schema) []). r (map_of (nullish (vn_query input) []) f) = None) \<and>
     (\<forall>r \<in> set_option (vs_body schema). r (vn_body input) = None)"
  by (simp add: assert_valid_def Let_def validate_request_def check_fields_empty split: option.split)

end
