(* ===== verification/GatewayMiddleware.thy ===== *)
theory GatewayMiddleware
  imports QueueMiddleware
begin

text \<open>
  The middleware onion of the gateway, \<open>packages/gateway/src/middleware.ts\<close>.  \<open>build\<close> wraps every layer in a closure of
  its own that \<open>guardOnce\<close> lets through once; \<open>om_called\<close> lists the layers whose flag is set, layer \<open>n\<close> being the terminal
  handler (index \<open>-1\<close> in the error).  \<open>twice\<close> is the error the guard throws for a layer.

  The queue guards with one counter instead.  \<open>onion_is_queue\<close>: the two composers behave alike.
\<close>

record 'c onion_state =
  om_ctx :: 'c
  om_called :: "nat list"

definition onion_change :: "('c \<Rightarrow> 'c) \<Rightarrow> 'c onion_state \<Rightarrow> 'c onion_state" where
  "onion_change f s = s\<lparr>om_ctx := f (om_ctx s)\<rparr>"

definition guard_once ::
  "(int \<Rightarrow> 'e) \<Rightarrow> int \<Rightarrow> nat \<Rightarrow> ('c onion_state \<Rightarrow> ('e + 'r) \<times> 'c onion_state) \<Rightarrow> 'c onion_state \<Rightarrow> ('e + 'r) \<times> 'c onion_state" where
  "guard_once twice index layer fn s =
     (if layer \<in> set (om_called s) then (Inl (twice index), s)
      else fn (s\<lparr>om_called := layer # om_called s\<rparr>))"

fun onion_layers ::
  "(int \<Rightarrow> 'e) \<Rightarrow> ('c \<Rightarrow> ('e + 'r) \<times> 'c) \<Rightarrow> ('c, 'e, 'r) mw list \<Rightarrow> nat \<Rightarrow> 'c onion_state \<Rightarrow> ('e + 'r) \<times> 'c onion_state" where
  "onion_layers twice terminal [] i =
     guard_once twice (- 1) i (\<lambda>s. case terminal (om_ctx s) of (r, c) \<Rightarrow> (r, s\<lparr>om_ctx := c\<rparr>))"
| "onion_layers twice terminal (m # ms) i =
     guard_once twice (int i) i (run_mw m onion_change (onion_layers twice terminal ms (Suc i)))"

definition run_pipeline ::
  "(int \<Rightarrow> 'e) \<Rightarrow> ('c, 'e, 'r) mw list \<Rightarrow> ('c \<Rightarrow> ('e + 'r) \<times> 'c) \<Rightarrow> 'c \<Rightarrow> ('e + 'r) \<times> 'c" where
  "run_pipeline twice middlewares terminal ctx =
     map_prod id om_ctx (onion_layers twice terminal middlewares 0 \<lparr>om_ctx = ctx, om_called = []\<rparr>)"

definition onion_twice :: "int \<Rightarrow> js_error" where
  "onion_twice i =
     JsError ''Error''
       (if i = - 1 then ''next() was called more than once from the terminal handler''
        else ''next() was called more than once from middleware'')"

section \<open>The two composers agree\<close>

definition same_guard :: "nat \<Rightarrow> 'c onion_state \<Rightarrow> 'c chain_state \<Rightarrow> bool" where
  "same_guard i s t \<longleftrightarrow>
     om_ctx s = cs_ctx t \<and> (\<forall>j. j \<in> set (om_called s) \<longleftrightarrow> int j \<le> cs_lastIndex t) \<and> int i \<le> cs_lastIndex t + 1"

lemma same_guard_enter:
  assumes "same_guard i s t" "i \<notin> set (om_called s)"
  shows "same_guard (Suc i) (s\<lparr>om_called := i # om_called s\<rparr>) (t\<lparr>cs_lastIndex := int i, cs_trace := tr\<rparr>)"
proof -
  have c: "om_ctx s = cs_ctx t" "\<And>j. j \<in> set (om_called s) \<longleftrightarrow> int j \<le> cs_lastIndex t" "int i \<le> cs_lastIndex t + 1"
    using assms(1) unfolding same_guard_def by blast+
  then have "cs_lastIndex t = int i - 1" using assms(2) by (metis add_diff_cancel_right' linorder_not_le order_antisym zless_imp_add1_zle)
  then have "j = i \<or> int j \<le> cs_lastIndex t \<longleftrightarrow> int j \<le> int i" for j by presburger
  with c show ?thesis by (simp add: same_guard_def)
qed

lemma onion_layers_queue:
  "same_guard i s t \<Longrightarrow>
   fst (onion_layers (\<lambda>x. next_twice) h ms i s) = fst (invoke next_twice h ms i t) \<and>
   same_guard i (snd (onion_layers (\<lambda>x. next_twice) h ms i s)) (snd (invoke next_twice h ms i t))"
proof (induction ms arbitrary: i s t)
  case Nil
  show ?case
  proof (cases "i \<in> set (om_called s)")
    case True
    with Nil show ?thesis by (simp add: guard_once_def invoke_again same_guard_def)
  next
    case False
    note en = same_guard_enter [OF Nil False, of "cs_trace t @ [i]"]
    have ctx: "om_ctx s = cs_ctx t" using Nil by (simp add: same_guard_def)
    obtain r c where h: "h (cs_ctx t) = (r, c)" by (cases "h (cs_ctx t)")
    have "\<not> int i \<le> cs_lastIndex t" using Nil False by (simp add: same_guard_def)
    then show ?thesis using False en ctx h by (simp add: guard_once_def invoke.simps [of next_twice h "[]"] Let_def same_guard_def)
  qed
next
  case (Cons m ms)
  show ?case
  proof (cases "i \<in> set (om_called s)")
    case True
    with Cons.prems show ?thesis by (simp add: guard_once_def invoke_again same_guard_def)
  next
    case False
    let ?s = "s\<lparr>om_called := i # om_called s\<rparr>"
    let ?t = "t\<lparr>cs_lastIndex := int i, cs_trace := cs_trace t @ [i]\<rparr>"
    have en: "same_guard (Suc i) ?s ?t" by (rule same_guard_enter [OF Cons.prems False])
    have nx: "fst (onion_layers (\<lambda>x. next_twice) h ms (Suc i) u) = fst (invoke next_twice h ms (Suc i) v) \<and>
        same_guard (Suc i) (snd (onion_layers (\<lambda>x. next_twice) h ms (Suc i) u)) (snd (invoke next_twice h ms (Suc i) v))"
      if "same_guard (Suc i) u v" for u v by (rule Cons.IH [OF that])
    have ch: "same_guard (Suc i) (onion_change f u) (change_ctx f v)" if "same_guard (Suc i) u v" for f u v
      using that by (simp add: same_guard_def onion_change_def change_ctx_def)
    have run: "fst (run_mw m onion_change (onion_layers (\<lambda>x. next_twice) h ms (Suc i)) ?s) =
        fst (run_mw m change_ctx (invoke next_twice h ms (Suc i)) ?t) \<and>
      same_guard (Suc i) (snd (run_mw m onion_change (onion_layers (\<lambda>x. next_twice) h ms (Suc i)) ?s))
        (snd (run_mw m change_ctx (invoke next_twice h ms (Suc i)) ?t))"
    proof (rule run_mw_related [where R = "same_guard (Suc i)"], goal_cases)
      case (1 f s t)
      then show ?case by (rule ch)
    next
      case (2 s t)
      then show ?case by (rule nx)
    next
      case 3
      show ?case by (rule en)
    qed
    have "\<not> int i \<le> cs_lastIndex t" using Cons.prems False by (simp add: same_guard_def)
    then have "invoke next_twice h (m # ms) i t = run_mw m change_ctx (invoke next_twice h ms (Suc i)) ?t"
      by (simp add: invoke.simps [of next_twice h "m # ms"] Let_def)
    moreover have "onion_layers (\<lambda>x. next_twice) h (m # ms) i s =
        run_mw m onion_change (onion_layers (\<lambda>x. next_twice) h ms (Suc i)) ?s"
      using False by (simp add: guard_once_def)
    moreover have "same_guard i u v" if "same_guard (Suc i) u v" for u :: "'a onion_state" and v :: "'a chain_state"
      using that by (simp add: same_guard_def)
    ultimately show ?thesis using run by simp
  qed
qed

lemma onion_is_queue:
  "run_pipeline (\<lambda>x. next_twice) ms h ctx = map_prod id cs_ctx (compose_middleware ms h ctx)"
proof -
  let ?s = "\<lparr>om_ctx = ctx, om_called = []\<rparr>" and ?t = "\<lparr>cs_ctx = ctx, cs_lastIndex = - 1, cs_trace = []\<rparr>"
  have "same_guard 0 ?s ?t" by (simp add: same_guard_def)
  from onion_layers_queue [OF this, of h ms]
  show ?thesis by (simp add: run_pipeline_def compose_middleware_def same_guard_def prod_eq_iff)
qed

end
