(* ===== verification/CircuitBreaker.thy ===== *)
theory CircuitBreaker
  imports Prelude
begin

text \<open>
  The two circuit breakers of the repository: the class \<open>CircuitBreaker\<close> of
  \<open>packages/core/src/microservices/circuit-breaker.ts\<close> (one circuit, events) and the keyed class of the same name
  in \<open>packages/gateway/src/circuit-breaker.ts\<close> (one circuit per key, entries created on demand).

  Both are meant to be the three-state automaton \<open>circuit\<close>.  The locale \<open>breaker\<close> states what a breaker promises in
  terms of that automaton; its lemmas say when a breaker opens, how long it sheds and how it closes again.  Both classes
  interpret it.  They differ in one point, the parameter \<open>sees\<close>: the gateway re-evaluates the open timer when an outcome
  is reported, the core class only when a call starts.

  Times are readings of the clock, one argument per reading; an outcome reads it at most twice (the timer check and the
  stamp of a newly opened circuit).
\<close>

section \<open>The automaton\<close>

datatype circuit = Closed nat | Opened jsnum | HalfOpen nat

definition tick :: "jsnum \<Rightarrow> jsnum \<Rightarrow> circuit \<Rightarrow> circuit" where
  "tick open_ms now c = (case c of Opened t \<Rightarrow> if open_ms \<le> now - t then HalfOpen 0 else c | _ \<Rightarrow> c)"

definition reported_success :: "int \<Rightarrow> circuit \<Rightarrow> circuit" where
  "reported_success probes c =
     (case c of
        HalfOpen n \<Rightarrow> if probes \<le> int n + 1 then Closed 0 else HalfOpen (n + 1)
      | Closed n \<Rightarrow> Closed 0
      | Opened t \<Rightarrow> Opened t)"

definition reported_failure :: "int \<Rightarrow> jsnum \<Rightarrow> circuit \<Rightarrow> circuit" where
  "reported_failure threshold stamp c =
     (case c of
        HalfOpen n \<Rightarrow> Opened stamp
      | Closed n \<Rightarrow> if threshold \<le> int n + 1 then Opened stamp else Closed (n + 1)
      | Opened t \<Rightarrow> Opened t)"

section \<open>The contract of a breaker\<close>

locale breaker =
  fixes invar :: "'s \<Rightarrow> bool"
    and circuit_of :: "'s \<Rightarrow> circuit"
    and admits :: "jsnum \<Rightarrow> 's \<Rightarrow> bool \<times> 's"
    and success :: "jsnum \<Rightarrow> 's \<Rightarrow> 's"
    and failure :: "jsnum \<Rightarrow> jsnum \<Rightarrow> 's \<Rightarrow> 's"
    and sees :: "jsnum \<Rightarrow> circuit \<Rightarrow> circuit"
    and threshold :: int and probes :: int and open_ms :: jsnum
  assumes admits_circuit: "invar s \<Longrightarrow> circuit_of (snd (admits now s)) = tick open_ms now (circuit_of s)"
    and admits_answer: "invar s \<Longrightarrow> fst (admits now s) \<longleftrightarrow> (\<forall>t. tick open_ms now (circuit_of s) \<noteq> Opened t)"
    and success_circuit: "invar s \<Longrightarrow> circuit_of (success now s) = reported_success probes (sees now (circuit_of s))"
    and failure_circuit: "invar s \<Longrightarrow>
      circuit_of (failure now stamp s) = reported_failure threshold stamp (sees now (circuit_of s))"
    and keeps: "invar s \<Longrightarrow> invar (snd (admits now s)) \<and> invar (success now s) \<and> invar (failure now stamp s)"
    and sees_cases: "sees now c = c \<or> sees now c = tick open_ms now c"
begin

lemma sees_closed: "sees now (Closed n) = Closed n"
  using sees_cases [of now "Closed n"] by (simp add: tick_def)

lemma sees_half_open: "sees now (HalfOpen n) = HalfOpen n"
  using sees_cases [of now "HalfOpen n"] by (simp add: tick_def)

text \<open>Consecutive failures of a closed circuit: it stays closed below the threshold and opens at it.\<close>

lemma stays_closed:
  "invar s \<Longrightarrow> circuit_of s = Closed k \<Longrightarrow> int k + int (length ts) < threshold \<Longrightarrow>
   invar (foldl (\<lambda>s (now, stamp). failure now stamp s) s ts) \<and>
   circuit_of (foldl (\<lambda>s (now, stamp). failure now stamp s) s ts) = Closed (k + length ts)"
proof (induction ts arbitrary: s k)
  case Nil
  then show ?case by simp
next
  case (Cons p ts)
  obtain now stamp where p: "p = (now, stamp)" by (cases p)
  have "circuit_of (failure now stamp s) = Closed (Suc k)"
    using Cons.prems by (simp add: failure_circuit sees_closed sees_half_open reported_failure_def)
  with Cons.IH [of "failure now stamp s" "Suc k"] Cons.prems keeps [of s] show ?case by (simp add: p)
qed

lemma opens_at_threshold:
  assumes "invar s" "circuit_of s = Closed 0" "int (length ts) + 1 = threshold"
  shows "circuit_of (foldl (\<lambda>s (now, stamp). failure now stamp s) s (ts @ [(now, stamp)])) = Opened stamp"
proof -
  have "invar (foldl (\<lambda>s (now, stamp). failure now stamp s) s ts)"
    "circuit_of (foldl (\<lambda>s (now, stamp). failure now stamp s) s ts) = Closed (length ts)"
    using stays_closed [OF assms(1,2), of ts] assms(3) by simp_all
  with assms(3) show ?thesis by (simp add: failure_circuit sees_closed sees_half_open reported_failure_def)
qed

lemma success_clears: "invar s \<Longrightarrow> circuit_of s = Closed k \<Longrightarrow> circuit_of (success now s) = Closed 0"
  by (simp add: success_circuit sees_closed sees_half_open reported_success_def)

text \<open>An open circuit sheds for exactly \<open>open_ms\<close>, then lets a probe through.\<close>

lemma sheds_while_open: "invar s \<Longrightarrow> circuit_of s = Opened t \<Longrightarrow> fst (admits now s) \<longleftrightarrow> open_ms \<le> now - t"
  by (auto simp: admits_answer tick_def)

lemma admits_when_not_open: "invar s \<Longrightarrow> \<forall>t. circuit_of s \<noteq> Opened t \<Longrightarrow> fst (admits now s)"
  by (auto simp: admits_answer tick_def split: circuit.splits)

lemma probe_reopens: "invar s \<Longrightarrow> circuit_of s = HalfOpen n \<Longrightarrow> circuit_of (failure now stamp s) = Opened stamp"
  by (simp add: failure_circuit sees_closed sees_half_open reported_failure_def)

lemma probing:
  "invar s \<Longrightarrow> circuit_of s = HalfOpen k \<Longrightarrow> int k + int (length ts) < probes \<Longrightarrow>
   invar (foldl (\<lambda>s now. success now s) s ts) \<and>
   circuit_of (foldl (\<lambda>s now. success now s) s ts) = HalfOpen (k + length ts)"
proof (induction ts arbitrary: s k)
  case Nil
  then show ?case by simp
next
  case (Cons now ts)
  have "circuit_of (success now s) = HalfOpen (Suc k)"
    using Cons.prems by (simp add: success_circuit sees_closed sees_half_open reported_success_def)
  with Cons.IH [of "success now s" "Suc k"] Cons.prems keeps [of s] show ?case by simp
qed

lemma closes_after_probes:
  assumes "invar s" "circuit_of s = HalfOpen 0" "int (length ts) + 1 = probes"
  shows "circuit_of (foldl (\<lambda>s now. success now s) s (ts @ [now])) = Closed 0"
proof -
  have "invar (foldl (\<lambda>s now. success now s) s ts)" "circuit_of (foldl (\<lambda>s now. success now s) s ts) = HalfOpen (length ts)"
    using probing [OF assms(1,2), of ts] assms(3) by simp_all
  with assms(3) show ?thesis by (simp add: success_circuit sees_closed sees_half_open reported_success_def)
qed

text \<open>The life of a circuit: it opens on the last of \<open>threshold\<close> failures, sheds, and closes after \<open>probes\<close> good probes.\<close>

lemma life_cycle:
  assumes "invar s" "circuit_of s = Closed 0" "int (length ts) + 1 = threshold"
    "int (length us) + 1 = probes" "open_ms \<le> now - stamp"
    and opened_def: "opened = foldl (\<lambda>s (now, stamp). failure now stamp s) s (ts @ [(t, stamp)])"
  shows "invar opened" "fst (admits u opened) \<longleftrightarrow> open_ms \<le> u - stamp"
    "circuit_of (foldl (\<lambda>s now. success now s) (snd (admits now opened)) (us @ [v])) = Closed 0"
proof -
  have "invar (foldl (\<lambda>s (now, stamp). failure now stamp s) s ts)"
    using stays_closed [OF assms(1,2), of ts] assms(3) by simp
  then show inv: "invar opened" using keeps by (simp add: opened_def)
  have c: "circuit_of opened = Opened stamp" unfolding opened_def by (rule opens_at_threshold [OF assms(1-3)])
  show "fst (admits u opened) \<longleftrightarrow> open_ms \<le> u - stamp" by (rule sheds_while_open [OF inv c])
  have "circuit_of (snd (admits now opened)) = HalfOpen 0"
    using assms(5) by (simp add: admits_circuit [OF inv] c tick_def)
  from closes_after_probes [OF _ this assms(4)] keeps [OF inv]
  show "circuit_of (foldl (\<lambda>s now. success now s) (snd (admits now opened)) (us @ [v])) = Closed 0" by blast
qed

end

section \<open>The breaker of the gateway\<close>

datatype circuit_state = StClosed | StOpen | StHalfOpen

record circuit_entry =
  ce_state :: circuit_state
  ce_failures :: nat
  ce_successes :: nat
  ce_openedAt :: jsnum

record circuit_policy =
  cp_failureThreshold :: jsnum
  cp_openMs :: jsnum
  cp_halfOpenSuccesses :: "jsnum option"

record keyed_breaker =
  kb_failureThreshold :: int
  kb_openMs :: jsnum
  kb_halfOpenSuccesses :: int
  kb_entries :: "(string, circuit_entry) jsmap"

definition new_keyed_breaker :: "circuit_policy \<Rightarrow> keyed_breaker" where
  "new_keyed_breaker p =
     \<lparr>kb_failureThreshold = max 1 (math_trunc (cp_failureThreshold p)),
      kb_openMs = math_max 0 (cp_openMs p),
      kb_halfOpenSuccesses = max 1 (math_trunc (nullish (cp_halfOpenSuccesses p) 1)),
      kb_entries = []\<rparr>"

definition fresh_entry :: circuit_entry where
  "fresh_entry = \<lparr>ce_state = StClosed, ce_failures = 0, ce_successes = 0, ce_openedAt = 0\<rparr>"

definition put_entry :: "string \<Rightarrow> circuit_entry \<Rightarrow> keyed_breaker \<Rightarrow> keyed_breaker" where
  "put_entry k e b = b\<lparr>kb_entries := AList.update k e (kb_entries b)\<rparr>"

definition resolve_entry :: "string \<Rightarrow> jsnum \<Rightarrow> keyed_breaker \<Rightarrow> circuit_entry \<times> keyed_breaker" where
  "resolve_entry k now b =
     (let entry = nullish (map_of (kb_entries b) k) fresh_entry;
          entry' = (if ce_state entry = StOpen \<and> kb_openMs b \<le> now - ce_openedAt entry
                    then entry\<lparr>ce_state := StHalfOpen, ce_successes := 0\<rparr> else entry)
      in (entry', put_entry k entry' b))"

definition open_entry :: "jsnum \<Rightarrow> circuit_entry \<Rightarrow> circuit_entry" where
  "open_entry now e = e\<lparr>ce_state := StOpen, ce_openedAt := now, ce_failures := 0, ce_successes := 0\<rparr>"

definition close_entry :: "circuit_entry \<Rightarrow> circuit_entry" where
  "close_entry e = e\<lparr>ce_state := StClosed, ce_failures := 0, ce_successes := 0, ce_openedAt := 0\<rparr>"

definition can_request :: "string \<Rightarrow> jsnum \<Rightarrow> keyed_breaker \<Rightarrow> bool \<times> keyed_breaker" where
  "can_request k now b = (case resolve_entry k now b of (e, b') \<Rightarrow> (ce_state e \<noteq> StOpen, b'))"

definition breaker_success :: "string \<Rightarrow> jsnum \<Rightarrow> keyed_breaker \<Rightarrow> keyed_breaker" where
  "breaker_success k now b =
     (case resolve_entry k now b of (e, b') \<Rightarrow>
        (case ce_state e of
           StHalfOpen \<Rightarrow>
             (let e' = e\<lparr>ce_successes := ce_successes e + 1\<rparr> in
              put_entry k (if kb_halfOpenSuccesses b \<le> int (ce_successes e') then close_entry e' else e') b')
         | StClosed \<Rightarrow> put_entry k (e\<lparr>ce_failures := 0\<rparr>) b'
         | StOpen \<Rightarrow> b'))"

definition breaker_failure :: "string \<Rightarrow> jsnum \<Rightarrow> jsnum \<Rightarrow> keyed_breaker \<Rightarrow> keyed_breaker" where
  "breaker_failure k now stamp b =
     (case resolve_entry k now b of (e, b') \<Rightarrow>
        (case ce_state e of
           StHalfOpen \<Rightarrow> put_entry k (open_entry stamp e) b'
         | StClosed \<Rightarrow>
             (let e' = e\<lparr>ce_failures := ce_failures e + 1\<rparr> in
              put_entry k (if kb_failureThreshold b \<le> int (ce_failures e') then open_entry stamp e' else e') b')
         | StOpen \<Rightarrow> b'))"

definition entry_circuit :: "circuit_entry \<Rightarrow> circuit" where
  "entry_circuit e =
     (case ce_state e of StClosed \<Rightarrow> Closed (ce_failures e) | StOpen \<Rightarrow> Opened (ce_openedAt e) | StHalfOpen \<Rightarrow> HalfOpen (ce_successes e))"

definition key_circuit :: "string \<Rightarrow> keyed_breaker \<Rightarrow> circuit" where
  "key_circuit k b = entry_circuit (nullish (map_of (kb_entries b) k) fresh_entry)"

lemmas breaker_ops = resolve_entry_def put_entry_def open_entry_def close_entry_def can_request_def
  breaker_success_def breaker_failure_def

text \<open>The thresholds of a breaker never change, and an operation on one key leaves the circuits of the others alone.\<close>

lemma breaker_frame [simp]:
  "kb_failureThreshold (snd (can_request k now b)) = kb_failureThreshold b"
  "kb_openMs (snd (can_request k now b)) = kb_openMs b"
  "kb_halfOpenSuccesses (snd (can_request k now b)) = kb_halfOpenSuccesses b"
  "kb_failureThreshold (breaker_success k now b) = kb_failureThreshold b"
  "kb_openMs (breaker_success k now b) = kb_openMs b"
  "kb_halfOpenSuccesses (breaker_success k now b) = kb_halfOpenSuccesses b"
  "kb_failureThreshold (breaker_failure k now st b) = kb_failureThreshold b"
  "kb_openMs (breaker_failure k now st b) = kb_openMs b"
  "kb_halfOpenSuccesses (breaker_failure k now st b) = kb_halfOpenSuccesses b"
  by (simp_all add: breaker_ops Let_def split: circuit_state.split)

lemma other_keys:
  "k' \<noteq> k \<Longrightarrow> key_circuit k' (snd (can_request k now b)) = key_circuit k' b"
  "k' \<noteq> k \<Longrightarrow> key_circuit k' (breaker_success k now b) = key_circuit k' b"
  "k' \<noteq> k \<Longrightarrow> key_circuit k' (breaker_failure k now st b) = key_circuit k' b"
  by (simp_all add: breaker_ops Let_def key_circuit_def split: circuit_state.split)

lemma resolve_circuit:
  "entry_circuit (fst (resolve_entry k now b)) = tick (kb_openMs b) now (key_circuit k b)"
  "key_circuit k (snd (resolve_entry k now b)) = tick (kb_openMs b) now (key_circuit k b)"
  by (auto simp: resolve_entry_def Let_def put_entry_def key_circuit_def entry_circuit_def tick_def split: circuit_state.split)

definition gateway_limits :: "int \<Rightarrow> int \<Rightarrow> jsnum \<Rightarrow> keyed_breaker \<Rightarrow> bool" where
  "gateway_limits th pr om b \<longleftrightarrow> kb_failureThreshold b = th \<and> kb_halfOpenSuccesses b = pr \<and> kb_openMs b = om"

lemma success_key_circuit:
  "key_circuit k (breaker_success k now b) =
     reported_success (kb_halfOpenSuccesses b) (tick (kb_openMs b) now (key_circuit k b))"
  by (auto simp: breaker_ops Let_def key_circuit_def entry_circuit_def tick_def reported_success_def split: circuit_state.split)

lemma failure_key_circuit:
  "key_circuit k (breaker_failure k now st b) =
     reported_failure (kb_failureThreshold b) st (tick (kb_openMs b) now (key_circuit k b))"
  by (auto simp: breaker_ops Let_def key_circuit_def entry_circuit_def tick_def reported_failure_def split: circuit_state.split)

interpretation kb: breaker "gateway_limits th pr om" "key_circuit k" "can_request k" "breaker_success k" "breaker_failure k"
    "tick om" th pr om for th pr om k
proof (unfold_locales, goal_cases)
  case (1 s now)
  then show ?case using resolve_circuit(2) [of k now s] by (simp add: can_request_def gateway_limits_def case_prod_beta)
next
  case (2 s now)
  have "(ce_state e \<noteq> StOpen) = (\<forall>t. entry_circuit e \<noteq> Opened t)" for e
    by (simp add: entry_circuit_def split: circuit_state.split)
  then have "fst (can_request k now s) = (\<forall>t. entry_circuit (fst (resolve_entry k now s)) \<noteq> Opened t)"
    by (simp add: can_request_def case_prod_beta)
  then show ?case using resolve_circuit(1) [of k now s] 2 by (simp add: gateway_limits_def)
next
  case (3 s now)
  then show ?case by (simp add: success_key_circuit gateway_limits_def)
next
  case (4 s now stamp)
  then show ?case by (simp add: failure_key_circuit gateway_limits_def)
next
  case (5 s now stamp)
  then show ?case by (simp add: gateway_limits_def)
next
  case (6 now c)
  show ?case by simp
qed

section \<open>The breaker of the core package\<close>

datatype breaker_event = StateChange circuit_state circuit_state | CircuitOpenEvent nat

record core_breaker =
  cb_state :: circuit_state
  cb_failures :: nat
  cb_successes :: nat
  cb_openedAt :: jsnum
  cb_failureThreshold :: int
  cb_successThreshold :: int
  cb_timeout :: jsnum
  cb_events :: "breaker_event list"

definition new_core_breaker :: "int option \<Rightarrow> int option \<Rightarrow> jsnum option \<Rightarrow> core_breaker" where
  "new_core_breaker ft st tm =
     \<lparr>cb_state = StClosed, cb_failures = 0, cb_successes = 0, cb_openedAt = 0,
      cb_failureThreshold = nullish ft 5, cb_successThreshold = nullish st 2, cb_timeout = nullish tm 60000, cb_events = []\<rparr>"

definition allowed_transition :: "circuit_state \<Rightarrow> circuit_state list" where
  "allowed_transition s =
     (case s of StClosed \<Rightarrow> [StOpen] | StOpen \<Rightarrow> [StHalfOpen] | StHalfOpen \<Rightarrow> [StClosed, StOpen])"

definition invalid_transition :: js_error where
  "invalid_transition = JsError ''Error'' ''Invalid circuit state transition''"

definition transition_to :: "circuit_state \<Rightarrow> jsnum \<Rightarrow> core_breaker \<Rightarrow> js_error + core_breaker" where
  "transition_to nxt now b =
     (let prev = cb_state b in
      if nxt \<notin> set (allowed_transition prev) then Inl invalid_transition
      else
        (let b1 = (case nxt of
                     StOpen \<Rightarrow> b\<lparr>cb_state := nxt, cb_openedAt := now, cb_successes := 0\<rparr>
                   | StClosed \<Rightarrow> b\<lparr>cb_state := nxt, cb_failures := 0, cb_successes := 0\<rparr>
                   | StHalfOpen \<Rightarrow> b\<lparr>cb_state := nxt, cb_successes := 0\<rparr>)
         in Inr (b1\<lparr>cb_events := cb_events b1 @ [StateChange prev nxt]\<rparr>)))"

text \<open>The getter \<open>state\<close>, with the automatic transition; the second clock reading is not used by it.\<close>

definition core_state :: "jsnum \<Rightarrow> core_breaker \<Rightarrow> js_error + circuit_state \<times> core_breaker" where
  "core_state now b =
     (if cb_state b = StOpen \<and> cb_timeout b \<le> now - cb_openedAt b
      then (case transition_to StHalfOpen now b of Inl e \<Rightarrow> Inl e | Inr b' \<Rightarrow> Inr (cb_state b', b'))
      else Inr (cb_state b, b))"

definition core_success :: "jsnum \<Rightarrow> core_breaker \<Rightarrow> js_error + core_breaker" where
  "core_success now b =
     (case cb_state b of
        StHalfOpen \<Rightarrow>
          (let b1 = b\<lparr>cb_successes := cb_successes b + 1\<rparr> in
           if cb_successThreshold b \<le> int (cb_successes b1) then transition_to StClosed now b1 else Inr b1)
      | StClosed \<Rightarrow> Inr (b\<lparr>cb_failures := 0\<rparr>)
      | StOpen \<Rightarrow> Inr b)"

definition core_failure :: "jsnum \<Rightarrow> core_breaker \<Rightarrow> js_error + core_breaker" where
  "core_failure now b =
     (case cb_state b of
        StHalfOpen \<Rightarrow> transition_to StOpen now b
      | StClosed \<Rightarrow>
          (let b1 = b\<lparr>cb_failures := cb_failures b + 1\<rparr> in
           if cb_failureThreshold b \<le> int (cb_failures b1)
           then map_sum id (\<lambda>b2. b2\<lparr>cb_events := cb_events b2 @ [CircuitOpenEvent (cb_failures b2)]\<rparr>) (transition_to StOpen now b1)
           else Inr b1)
      | StOpen \<Rightarrow> Inr b)"

definition core_reset :: "core_breaker \<Rightarrow> core_breaker" where
  "core_reset b = b\<lparr>cb_state := StClosed, cb_failures := 0, cb_successes := 0, cb_openedAt := 0\<rparr>"

text \<open>
  \<open>execute\<close> in two steps around the \<open>await\<close> of the call: \<open>core_admit\<close> refuses or lets it run; \<open>core_settle\<close> reports its outcome to the breaker as it
  is then, which other calls may have changed meanwhile.  A throw inside \<open>_onSuccess\<close> would land in the same \<open>catch\<close>.
  \<open>core_execute\<close> is a call during which nothing else uses the breaker.
\<close>

definition circuit_open_error :: js_error where
  "circuit_open_error = JsError ''CircuitOpenError'' ''Circuit is open''"

definition core_admit :: "jsnum \<Rightarrow> core_breaker \<Rightarrow> (js_error + unit) \<times> core_breaker" where
  "core_admit now b =
     (case core_state now b of
        Inl e \<Rightarrow> (Inl e, b)
      | Inr (st, b1) \<Rightarrow> (if st = StOpen then Inl circuit_open_error else Inr (), b1))"

definition core_settle :: "js_error + 'r \<Rightarrow> jsnum \<Rightarrow> core_breaker \<Rightarrow> (js_error + 'r) \<times> core_breaker" where
  "core_settle out later b =
     (let failed = (\<lambda>e. case core_failure later b of Inl e' \<Rightarrow> (Inl e', b) | Inr b2 \<Rightarrow> (Inl e, b2)) in
      case out of
        Inr v \<Rightarrow> (case core_success later b of Inr b2 \<Rightarrow> (Inr v, b2) | Inl e \<Rightarrow> failed e)
      | Inl e \<Rightarrow> failed e)"

definition core_execute :: "jsnum \<Rightarrow> js_error + 'r \<Rightarrow> jsnum \<Rightarrow> core_breaker \<Rightarrow> (js_error + 'r) \<times> core_breaker" where
  "core_execute now out later b =
     (case core_admit now b of (Inl e, b1) \<Rightarrow> (Inl e, b1) | (Inr _, b1) \<Rightarrow> core_settle out later b1)"

definition core_circuit :: "core_breaker \<Rightarrow> circuit" where
  "core_circuit b =
     (case cb_state b of StClosed \<Rightarrow> Closed (cb_failures b) | StOpen \<Rightarrow> Opened (cb_openedAt b) | StHalfOpen \<Rightarrow> HalfOpen (cb_successes b))"

lemmas core_ops = transition_to_def allowed_transition_def core_state_def core_success_def core_failure_def

text \<open>No operation ever attempts a transition the guard refuses.\<close>

lemma core_total:
  "\<exists>r. core_state now b = Inr r" "\<exists>r. core_success now b = Inr r" "\<exists>r. core_failure now b = Inr r"
  by (auto simp: core_ops Let_def split: circuit_state.split)

text \<open>The operations as the contract wants them, with the impossible throw of \<open>transition_to\<close> resolved.\<close>

definition core_admits :: "jsnum \<Rightarrow> core_breaker \<Rightarrow> bool \<times> core_breaker" where
  "core_admits now b = (case core_state now b of Inl e \<Rightarrow> (False, b) | Inr (st, b') \<Rightarrow> (st \<noteq> StOpen, b'))"

definition core_limits :: "int \<Rightarrow> int \<Rightarrow> jsnum \<Rightarrow> core_breaker \<Rightarrow> bool" where
  "core_limits th pr om b \<longleftrightarrow> cb_failureThreshold b = th \<and> cb_successThreshold b = pr \<and> cb_timeout b = om"

definition after :: "core_breaker \<Rightarrow> js_error + core_breaker \<Rightarrow> core_breaker" where
  "after b r = (case r of Inl e \<Rightarrow> b | Inr b' \<Rightarrow> b')"

interpretation cb: breaker "core_limits th pr om" core_circuit core_admits
    "\<lambda>now b. after b (core_success now b)" "\<lambda>now stamp b. after b (core_failure stamp b)" "\<lambda>now c. c" th pr om for th pr om
proof (unfold_locales, goal_cases)
  case (1 s now)
  then show ?case
    by (cases "cb_state s") (auto simp: core_admits_def core_limits_def core_circuit_def core_ops tick_def Let_def)
next
  case (2 s now)
  then show ?case
    by (cases "cb_state s") (auto simp: core_admits_def core_limits_def core_circuit_def core_ops tick_def Let_def)
next
  case (3 s now)
  then show ?case
    by (cases "cb_state s") (auto simp: after_def core_limits_def core_circuit_def core_ops reported_success_def Let_def)
next
  case (4 s now stamp)
  then show ?case
    by (cases "cb_state s") (auto simp: after_def core_limits_def core_circuit_def core_ops reported_failure_def Let_def)
next
  case (5 s now stamp)
  then show ?case
    by (cases "cb_state s") (auto simp: core_admits_def after_def core_limits_def core_ops Let_def)
next
  case (6 now c)
  show ?case by simp
qed

lemma core_settle_after:
  "core_settle out later b =
     (case out of Inr v \<Rightarrow> (Inr v, after b (core_success later b)) | Inl e \<Rightarrow> (Inl e, after b (core_failure later b)))"
proof -
  obtain b2 b3 where r: "core_success later b = Inr b2" "core_failure later b = Inr b3"
    using core_total(2,3) [of later b] by auto
  show ?thesis by (simp add: core_settle_def r after_def Let_def split: sum.split)
qed

lemma core_settle_circuit:
  "core_settle out later b = (r, b') \<Longrightarrow> r = out \<and> core_circuit b' =
     (case out of
        Inr v \<Rightarrow> reported_success (cb_successThreshold b) (core_circuit b)
      | Inl e \<Rightarrow> reported_failure (cb_failureThreshold b) later (core_circuit b))"
proof -
  have lim: "core_limits (cb_failureThreshold b) (cb_successThreshold b) (cb_timeout b) b" by (simp add: core_limits_def)
  assume "core_settle out later b = (r, b')"
  then show ?thesis using cb.success_circuit [OF lim, of later] cb.failure_circuit [OF lim, of later]
    by (auto simp: core_settle_after split: sum.splits)
qed

lemma core_execute_circuit:
  "core_execute now out later b =
     (if \<not> fst (core_admits now b) then (Inl circuit_open_error, snd (core_admits now b))
      else (case out of
              Inr v \<Rightarrow> (Inr v, after (snd (core_admits now b)) (core_success later (snd (core_admits now b))))
            | Inl e \<Rightarrow> (Inl e, after (snd (core_admits now b)) (core_failure later (snd (core_admits now b))))))"
proof -
  obtain st b1 where st: "core_state now b = Inr (st, b1)" using core_total(1) [of now b] by auto
  show ?thesis by (simp add: core_execute_def core_admit_def core_settle_after core_admits_def st split: sum.split)
qed

end
