(* ===== verification/Retry.thy ===== *)
theory Retry
  imports Prelude
begin

text \<open>
  Bounded retry with exponential backoff: \<open>computeRetryDelay\<close>, \<open>withTimeout\<close> and \<open>runWithRetry\<close> of
  \<open>packages/gateway/src/retry.ts\<close>, and \<open>computeBackoff\<close> and \<open>withRetry\<close> of \<open>packages/core/src/resilience/index.ts\<close>.

  An attempt is a function from its number to its outcome; a run yields the final outcome and the delays waited, so the
  number of attempts is one more than the number of delays.  \<open>retry_run\<close> says what a retry loop does; both loops refine it.
\<close>

section \<open>Model\<close>

record retry_policy =
  rp_maxAttempts :: jsnum
  rp_baseDelayMs :: "jsnum option"
  rp_multiplier :: "jsnum option"
  rp_maxDelayMs :: "jsnum option"
  rp_retryMethods :: "string list option"

text \<open>An absent \<open>maxDelayMs\<close> is \<open>Infinity\<close>, which \<open>Math.min\<close> ignores.\<close>

definition cap_delay :: "jsnum option \<Rightarrow> jsnum \<Rightarrow> jsnum" where
  "cap_delay m raw = (case m of None \<Rightarrow> raw | Some c \<Rightarrow> math_min raw c)"

definition compute_retry_delay :: "retry_policy \<Rightarrow> nat \<Rightarrow> jsnum" where
  "compute_retry_delay p attempt =
     math_max 0 (cap_delay (rp_maxDelayMs p) (nullish (rp_baseDelayMs p) 0 * nullish (rp_multiplier p) 2 ^ (attempt - 1)))"

text \<open>The race of \<open>withTimeout\<close>: \<open>timer_first\<close> says whether the deadline elapsed before the task settled.\<close>

definition with_timeout :: "bool \<Rightarrow> 'e \<Rightarrow> 'e + 'a \<Rightarrow> 'e + 'a" where
  "with_timeout timer_first timeout out = (if timer_first then Inl timeout else out)"

definition method_allowed :: "retry_policy \<Rightarrow> string option \<Rightarrow> bool" where
  "method_allowed p m =
     (case rp_retryMethods p of
        None \<Rightarrow> True
      | Some ms \<Rightarrow> (case m of None \<Rightarrow> False | Some x \<Rightarrow> list_ex (\<lambda>y. to_upper y = to_upper x) ms))"

function retry_from ::
  "(nat \<Rightarrow> 'e + 'a) \<Rightarrow> bool \<Rightarrow> ('e \<Rightarrow> bool) \<Rightarrow> retry_policy \<Rightarrow> nat \<Rightarrow> nat \<Rightarrow> ('e + 'a) \<times> jsnum list" where
  "retry_from attempt allowed retryable p max_attempts n =
     (case attempt n of
        Inr v \<Rightarrow> (Inr v, [])
      | Inl err \<Rightarrow>
          if max_attempts \<le> n \<or> \<not> allowed \<or> \<not> retryable err then (Inl err, [])
          else (case retry_from attempt allowed retryable p max_attempts (n + 1) of
                  (r, ds) \<Rightarrow> (r, compute_retry_delay p n # ds)))"
  by pat_completeness auto
termination by (relation "measure (\<lambda>(a, b, c, p, m, n). m - n)") auto

definition run_with_retry ::
  "(nat \<Rightarrow> 'e + 'a) \<Rightarrow> retry_policy \<Rightarrow> string option \<Rightarrow> ('e \<Rightarrow> bool) \<Rightarrow> ('e + 'a) \<times> jsnum list" where
  "run_with_retry attempt p m retryable =
     retry_from attempt (method_allowed p m) retryable p (nat (max 1 (floor (rp_maxAttempts p)))) 1"

section \<open>The resilience primitives of the core package\<close>

record core_backoff =
  bo_baseDelayMs :: "jsnum option"
  bo_multiplier :: "jsnum option"
  bo_maxDelayMs :: "jsnum option"

definition compute_backoff :: "core_backoff \<Rightarrow> int \<Rightarrow> jsnum" where
  "compute_backoff p attempt =
     math_max 0 (cap_delay (bo_maxDelayMs p)
       (nullish (bo_baseDelayMs p) 0 * nullish (bo_multiplier p) 2 ^ nat (max 0 (attempt - 1))))"

record core_retry_options =
  ro_maxAttempts :: "jsnum option"
  ro_backoff :: core_backoff
  ro_deadlineMs :: "jsnum option"

text \<open>\<open>date_now n\<close> is the reading of \<open>Date.now()\<close> after the \<open>n\<close>-th failure.\<close>

function core_retry_from ::
  "(nat \<Rightarrow> 'e + 'a) \<Rightarrow> ('e \<Rightarrow> bool) \<Rightarrow> (nat \<Rightarrow> jsnum) \<Rightarrow> core_retry_options \<Rightarrow> nat \<Rightarrow> nat \<Rightarrow> ('e + 'a) \<times> jsnum list" where
  "core_retry_from attempt retryable date_now opts max_attempts n =
     (case attempt n of
        Inr v \<Rightarrow> (Inr v, [])
      | Inl err \<Rightarrow>
          if max_attempts \<le> n \<or> \<not> retryable err then (Inl err, [])
          else
            (let wait = compute_backoff (ro_backoff opts) (int n) in
             if (case ro_deadlineMs opts of None \<Rightarrow> False | Some d \<Rightarrow> d \<le> date_now n + wait) then (Inl err, [])
             else (case core_retry_from attempt retryable date_now opts max_attempts (n + 1) of (r, ds) \<Rightarrow> (r, wait # ds))))"
  by pat_completeness auto
termination by (relation "measure (\<lambda>(a, b, c, p, m, n). m - n)") auto

definition with_retry ::
  "(nat \<Rightarrow> 'e + 'a) \<Rightarrow> core_retry_options \<Rightarrow> ('e \<Rightarrow> bool) \<Rightarrow> (nat \<Rightarrow> jsnum) \<Rightarrow> ('e + 'a) \<times> jsnum list" where
  "with_retry attempt opts retryable date_now =
     core_retry_from attempt retryable date_now opts (nat (max 1 (floor (nullish (ro_maxAttempts opts) 3)))) 1"

declare retry_from.simps [simp del] core_retry_from.simps [simp del]

section \<open>What a retry loop does\<close>

text \<open>
  \<open>retry_run attempt go wait m n (r, ds)\<close>: starting at attempt \<open>n\<close> of \<open>m\<close>, the attempts \<open>n, \<dots>, n + |ds|\<close> were made, all
  but the last failed with an error that \<open>go\<close> lets pass, \<open>r\<close> is the outcome of the last, and the loop stopped there
  because it succeeded, or failed for good, or no attempt was left.
\<close>

definition retry_run ::
  "(nat \<Rightarrow> 'e + 'a) \<Rightarrow> (nat \<Rightarrow> 'e \<Rightarrow> bool) \<Rightarrow> (nat \<Rightarrow> jsnum) \<Rightarrow> nat \<Rightarrow> nat \<Rightarrow> ('e + 'a) \<times> jsnum list \<Rightarrow> bool" where
  "retry_run attempt go wait m n res \<longleftrightarrow>
     (case res of (r, ds) \<Rightarrow>
        ds = map wait [n..<n + length ds] \<and> n + length ds \<le> m \<and> r = attempt (n + length ds) \<and>
        (\<forall>i \<in> {n..<n + length ds}. \<exists>e. attempt i = Inl e \<and> go i e) \<and>
        (\<forall>e. r = Inl e \<longrightarrow> n + length ds = m \<or> \<not> go (n + length ds) e))"

lemma retry_run_stop:
  "n \<le> m \<Longrightarrow> attempt n = r \<Longrightarrow> (\<And>e. r = Inl e \<Longrightarrow> m \<le> n \<or> \<not> go n e) \<Longrightarrow> retry_run attempt go wait m n (r, [])"
  by (fastforce simp: retry_run_def)

lemma retry_run_next:
  assumes "attempt n = Inl e" "go n e" "retry_run attempt go wait m (n + 1) (r, ds)"
  shows "retry_run attempt go wait m n (r, wait n # ds)"
proof -
  have rest: "ds = map wait [n + 1..<n + 1 + length ds]" "n + 1 + length ds \<le> m" "r = attempt (n + 1 + length ds)"
    "\<forall>i \<in> {n + 1..<n + 1 + length ds}. \<exists>e. attempt i = Inl e \<and> go i e"
    "\<forall>e. r = Inl e \<longrightarrow> n + 1 + length ds = m \<or> \<not> go (n + 1 + length ds) e"
    using assms(3) by (simp_all add: retry_run_def)
  have "wait n # ds = map wait [n..<n + length (wait n # ds)]"
  proof -
    have "[n..<n + length (wait n # ds)] = n # [n + 1..<n + 1 + length ds]" by (simp add: upt_conv_Cons del: upt_Suc)
    then show ?thesis using rest(1) by (metis list.simps(9))
  qed
  moreover have "\<exists>e. attempt i = Inl e \<and> go i e" if "i \<in> {n..<n + length (wait n # ds)}" for i
    using that rest(4) assms(1,2) by (cases "i = n") auto
  ultimately show ?thesis using rest by (simp add: retry_run_def)
qed

lemma retry_from_run:
  "n \<le> m \<Longrightarrow> retry_run attempt (\<lambda>n e. allowed \<and> retryable e) (compute_retry_delay p) m n
     (retry_from attempt allowed retryable p m n)"
proof (induction attempt allowed retryable p m n rule: retry_from.induct)
  case (1 attempt allowed retryable p m n)
  note unfold = retry_from.simps [of attempt allowed retryable p m n]
  show ?case
  proof (cases "attempt n")
    case (Inr v)
    then show ?thesis using "1.prems" by (auto simp: unfold intro!: retry_run_stop)
  next
    case (Inl e)
    show ?thesis
    proof (cases "m \<le> n \<or> \<not> allowed \<or> \<not> retryable e")
      case True
      then show ?thesis using "1.prems" Inl by (auto simp: unfold intro!: retry_run_stop)
    next
      case False
      obtain r ds where rec: "retry_from attempt allowed retryable p m (n + 1) = (r, ds)" by fastforce
      have "retry_run attempt (\<lambda>n e. allowed \<and> retryable e) (compute_retry_delay p) m (n + 1) (r, ds)"
        using "1.IH" [OF Inl False] False rec by simp
      moreover have "retry_from attempt allowed retryable p m n = (r, compute_retry_delay p n # ds)"
        by (subst unfold) (use False Inl rec in simp)
      ultimately show ?thesis using retry_run_next [where attempt = attempt and n = n, OF Inl] False by metis
    qed
  qed
qed

text \<open>The attempts of the core loop are those of the gateway's when no deadline is set.\<close>

definition as_core :: "retry_policy \<Rightarrow> core_retry_options" where
  "as_core p =
     \<lparr>ro_maxAttempts = Some (rp_maxAttempts p),
      ro_backoff = \<lparr>bo_baseDelayMs = rp_baseDelayMs p, bo_multiplier = rp_multiplier p, bo_maxDelayMs = rp_maxDelayMs p\<rparr>,
      ro_deadlineMs = None\<rparr>"

lemma compute_backoff_eq: "1 \<le> n \<Longrightarrow> compute_backoff (ro_backoff (as_core p)) (int n) = compute_retry_delay p n"
  by (simp add: compute_backoff_def compute_retry_delay_def as_core_def nat_diff_distrib)

lemma core_retry_from_eq:
  "1 \<le> n \<Longrightarrow> core_retry_from attempt retryable date_now (as_core p) m n = retry_from attempt True retryable p m n"
proof (induction attempt "True" retryable p m n rule: retry_from.induct)
  case (1 attempt retryable p m n)
  note unfold = retry_from.simps [of attempt True retryable p m n] core_retry_from.simps [of attempt retryable date_now "as_core p" m n]
  show ?case
  proof (cases "attempt n")
    case (Inr v)
    then show ?thesis by (simp add: unfold)
  next
    case (Inl e)
    show ?thesis
    proof (cases "m \<le> n \<or> \<not> retryable e")
      case True
      then show ?thesis using Inl by (auto simp: unfold)
    next
      case False
      then have "core_retry_from attempt retryable date_now (as_core p) m (n + 1) = retry_from attempt True retryable p m (n + 1)"
        using "1.hyps" [OF Inl] "1.prems" by simp
      then show ?thesis using Inl False "1.prems" by (simp add: unfold compute_backoff_eq) (simp add: as_core_def)
    qed
  qed
qed

lemma compute_retry_delay_bounds:
  "0 \<le> compute_retry_delay p n" "rp_maxDelayMs p = Some c \<Longrightarrow> 0 \<le> c \<Longrightarrow> compute_retry_delay p n \<le> c"
  by (auto simp: compute_retry_delay_def cap_delay_def math_max_def math_min_def)

end
