(* ===== verification/Gateway.thy ===== *)
theory Gateway
  imports GatewayRouter GatewayAccess GatewayMiddleware CircuitBreaker Retry
begin

text \<open>
  The request pipeline of \<open>packages/gateway/src/gateway.ts\<close>: \<open>createGateway\<close> with its shared state and the stages of
  \<open>handle\<close>, over the models of the modules it delegates to.

  The terminal handler is cut at its one suspension that other requests can interleave with, the forward:
  \<open>dispatch\<close> is everything up to it (rate limit, authentication, authorization, upstream selection, circuit breaker, the
  connection count), \<open>settle_forward\<close> is what follows its outcome.  \<open>handle_request\<close> runs one request from start to
  end; \<open>gateway_step\<close> interleaves any number of them.

  Outside the model: compression of the body, the access log and the telemetry.  What the outside supplies for one
  request (clock readings, \<open>rng\<close>, the upstream's behaviour) is the record \<open>request_env\<close>; \<open>gc_errorBody\<close> is the JSON text
  of an error, \<open>gc_regex\<close> the regular expression engine.
\<close>

section \<open>Configuration and state\<close>

record route_policy =
  pl_timeoutMs :: "jsnum option"
  pl_retry :: "retry_policy option"
  pl_rateLimit :: "limit_policy option"
  pl_auth :: "auth_policy option"
  pl_authorization :: "authorization_policy option"

record service_config =
  svc_name :: string
  svc_targets :: "upstream_target list"
  svc_strategy :: "strategy_name option"

record gateway_config =
  gc_routes :: "route_policy route_config list"
  gc_services :: "service_config list"
  gc_defaults :: "route_policy option"
  gc_circuitBreaker :: "circuit_policy option"
  gc_cors :: "cors_policy option"
  gc_versioning :: "versioning_policy option"
  gc_security :: "security_policy option"
  gc_regex :: regex_engine
  gc_errorBody :: "gateway_error \<Rightarrow> string"

record pending_forward =
  pf_target :: string
  pf_key :: string

record gateway_state =
  gs_balancers :: "(string, balancer) jsmap"
  gs_limiters :: "(string, bucket_limiter) jsmap"
  gs_live :: "(string, int) jsmap"
  gs_breaker :: keyed_breaker
  gs_health :: registry
  gs_pending :: "pending_forward list"
  gs_active :: int
  gs_requests :: nat
  gs_errors :: nat

definition DEFAULT_TIMEOUT_MS :: jsnum where
  "DEFAULT_TIMEOUT_MS = 30000"

text \<open>\<open>Number.MAX_SAFE_INTEGER\<close> is \<open>2^53 - 1\<close>.\<close>

definition PERMISSIVE_BREAKER :: circuit_policy where
  "PERMISSIVE_BREAKER = \<lparr>cp_failureThreshold = 2 ^ 53 - 1, cp_openMs = 0, cp_halfOpenSuccesses = None\<rparr>"

definition new_gateway :: "gateway_config \<Rightarrow> gateway_state" where
  "new_gateway cfg =
     \<lparr>gs_balancers = [], gs_limiters = [], gs_live = [],
      gs_breaker = new_keyed_breaker (nullish (gc_circuitBreaker cfg) PERMISSIVE_BREAKER),
      gs_health = [], gs_pending = [], gs_active = 0, gs_requests = 0, gs_errors = 0\<rparr>"

text \<open>The map of services: a later service of the same name replaces an earlier one.\<close>

definition find_service :: "gateway_config \<Rightarrow> string \<Rightarrow> service_config option" where
  "find_service cfg name = find (\<lambda>s. svc_name s = name) (rev (gc_services cfg))"

definition overlay :: "'a option \<Rightarrow> 'a option \<Rightarrow> 'a option" where
  "overlay base over = (case over of Some x \<Rightarrow> Some x | None \<Rightarrow> base)"

definition effective_policy :: "gateway_config \<Rightarrow> route_policy route_config \<Rightarrow> route_policy" where
  "effective_policy cfg route =
     (let none = \<lparr>pl_timeoutMs = None, pl_retry = None, pl_rateLimit = None, pl_auth = None, pl_authorization = None\<rparr>;
          d = nullish (gc_defaults cfg) none;
          p = nullish (rt_policy route) none
      in \<lparr>pl_timeoutMs = overlay (pl_timeoutMs d) (pl_timeoutMs p), pl_retry = overlay (pl_retry d) (pl_retry p),
          pl_rateLimit = overlay (pl_rateLimit d) (pl_rateLimit p), pl_auth = overlay (pl_auth d) (pl_auth p),
          pl_authorization = overlay (pl_authorization d) (pl_authorization p)\<rparr>)"

section \<open>Shared collaborators\<close>

definition balancer_key :: "service_config \<Rightarrow> strategy_name \<Rightarrow> string" where
  "balancer_key svc st =
     svc_name svc @ ''::'' @
     (case st of RoundRobin \<Rightarrow> ''round-robin'' | LeastConnections \<Rightarrow> ''least-connections'' | Random \<Rightarrow> ''random''
      | WeightedRoundRobin \<Rightarrow> ''weighted-round-robin'')"

definition route_strategy :: "service_config \<Rightarrow> 'p route_config \<Rightarrow> strategy_name" where
  "route_strategy svc route = nullish (rt_strategy route) (nullish (svc_strategy svc) RoundRobin)"

text \<open>\<open>balancerFor(svc, route).pick(healthy, liveConnections)\<close>: fetch or create, pick, store.\<close>

definition pick_target ::
  "service_config \<Rightarrow> 'p route_config \<Rightarrow> upstream_target list \<Rightarrow> jsvalue \<Rightarrow> gateway_state \<Rightarrow> upstream_target option \<times> gateway_state" where
  "pick_target svc route candidates rng s =
     (let st = route_strategy svc route;
          key = balancer_key svc st;
          b = nullish (map_of (gs_balancers s) key) (create_balancer st);
          (t, b') = balancer_pick b (Some (gs_live s)) rng candidates
      in (t, s\<lparr>gs_balancers := AList.update key b' (gs_balancers s)\<rparr>))"

definition check_limit ::
  "string \<Rightarrow> limit_policy \<Rightarrow> gateway_request \<Rightarrow> identity option \<Rightarrow> jsnum \<Rightarrow> gateway_state \<Rightarrow> limit_result \<times> gateway_state" where
  "check_limit key p req ident now s =
     (let l = nullish (map_of (gs_limiters s) key) (new_bucket_limiter p);
          (r, l') = check_request req ident now l
      in (r, s\<lparr>gs_limiters := AList.update key l' (gs_limiters s)\<rparr>))"

definition bump :: "string \<Rightarrow> int \<Rightarrow> gateway_state \<Rightarrow> gateway_state" where
  "bump t delta s = s\<lparr>gs_live := AList.update t (max 0 (nullish (map_of (gs_live s) t) 0 + delta)) (gs_live s)\<rparr>"

section \<open>The terminal handler\<close>

record response =
  rsp_status :: nat
  rsp_headers :: headers
  rsp_body :: "string option"

record request_env =
  ev_limitNow :: jsnum
  ev_breakerNow :: jsnum
  ev_settleNow :: jsnum
  ev_stamp :: jsnum
  ev_rng :: jsvalue
  ev_forward :: "upstream_target \<Rightarrow> gateway_request \<Rightarrow> nat \<Rightarrow> bool \<times> (js_error + response)"

definition no_deps :: auth_deps where
  "no_deps = \<lparr>ad_verifyJwt = None, ad_apiKeys = None, ad_sessions = None\<rparr>"

definition route_key :: "'p route_config \<Rightarrow> string" where
  "route_key route = nullish (rt_id route) (rt_pattern route)"

definition breaker_key :: "'p route_config \<Rightarrow> upstream_target \<Rightarrow> string" where
  "breaker_key route t = rt_service route @ ''::'' @ tgt_id t"

definition admit_rate ::
  "'p route_config \<Rightarrow> route_policy \<Rightarrow> gateway_request \<Rightarrow> identity option \<Rightarrow> jsnum \<Rightarrow> gateway_state \<Rightarrow>
   (gateway_error + unit) \<times> gateway_state" where
  "admit_rate route p req ident now s =
     (case pl_rateLimit p of
        None \<Rightarrow> (Inr (), s)
      | Some lp \<Rightarrow>
          (case check_limit (route_key route) lp req ident now s of
             (r, s') \<Rightarrow> if lr_allowed r then (Inr (), s') else (Inl (RateLimitExceeded (lr_retryAfterMs r)), s')))"

definition admit_identity ::
  "route_policy \<Rightarrow> gateway_request \<Rightarrow> identity option \<Rightarrow> gateway_error + identity option" where
  "admit_identity p req ident =
     (case (case pl_auth p of None \<Rightarrow> Inr ident | Some ap \<Rightarrow> authenticate ap req no_deps) of
        Inl e \<Rightarrow> Inl (OtherError e)
      | Inr i \<Rightarrow>
          (case pl_authorization p of
             None \<Rightarrow> Inr i
           | Some az \<Rightarrow> (case authorize az i req of Inl e \<Rightarrow> Inl e | Inr u \<Rightarrow> Inr i)))"

definition select_upstream ::
  "gateway_config \<Rightarrow> 'p route_config \<Rightarrow> request_env \<Rightarrow> gateway_state \<Rightarrow> (gateway_error + upstream_target) \<times> gateway_state" where
  "select_upstream cfg route env s =
     (case find_service cfg (rt_service route) of
        None \<Rightarrow> (Inl (NoHealthyUpstream (rt_service route)), s)
      | Some svc \<Rightarrow>
          (case pick_target svc route (filter_healthy (gs_health s) (svc_targets svc)) (ev_rng env) s of
             (None, s') \<Rightarrow> (Inl (NoHealthyUpstream (rt_service route)), s')
           | (Some t, s') \<Rightarrow>
               (case can_request (breaker_key route t) (ev_breakerNow env) (gs_breaker s') of
                  (ok, b) \<Rightarrow>
                    (if ok then (Inr t, s'\<lparr>gs_breaker := b\<rparr>)
                     else (Inl (CircuitIsOpen (breaker_key route t)), s'\<lparr>gs_breaker := b\<rparr>)))))"

definition dispatch ::
  "gateway_config \<Rightarrow> 'p route_config \<Rightarrow> route_policy \<Rightarrow> gateway_request \<Rightarrow> identity option \<Rightarrow> request_env \<Rightarrow> gateway_state \<Rightarrow>
   (gateway_error + upstream_target \<times> identity option) \<times> gateway_state" where
  "dispatch cfg route p req ident env s =
     (case admit_rate route p req ident (ev_limitNow env) s of
        (Inl e, s1) \<Rightarrow> (Inl e, s1)
      | (Inr u, s1) \<Rightarrow>
          (case admit_identity p req ident of
             Inl e \<Rightarrow> (Inl e, s1)
           | Inr i \<Rightarrow>
               (case select_upstream cfg route env s1 of
                  (Inl e, s2) \<Rightarrow> (Inl e, s2)
                | (Inr t, s2) \<Rightarrow>
                    (Inr (t, i),
                     bump (tgt_id t) 1
                       (s2\<lparr>gs_pending := gs_pending s2 @ [\<lparr>pf_target = tgt_id t, pf_key = breaker_key route t\<rparr>]\<rparr>)))))"

definition settle_forward ::
  "nat \<Rightarrow> gateway_error + response \<Rightarrow> jsnum \<Rightarrow> jsnum \<Rightarrow> gateway_state \<Rightarrow> gateway_state" where
  "settle_forward i out now stamp s =
     (if i < length (gs_pending s) then
        (let f = gs_pending s ! i;
             b = (case out of Inr r \<Rightarrow> breaker_success (pf_key f) now (gs_breaker s)
                  | Inl e \<Rightarrow> breaker_failure (pf_key f) now stamp (gs_breaker s))
         in bump (pf_target f) (- 1)
              (s\<lparr>gs_breaker := b, gs_pending := take i (gs_pending s) @ drop (Suc i) (gs_pending s)\<rparr>))
      else s)"

text \<open>The forward itself: retried per policy, each attempt under its own deadline.\<close>

definition forward_outcome ::
  "route_policy \<Rightarrow> gateway_request \<Rightarrow> upstream_target \<Rightarrow> request_env \<Rightarrow> gateway_error + response" where
  "forward_outcome p req t env =
     (let timeoutMs = nullish (pl_timeoutMs p) DEFAULT_TIMEOUT_MS;
          rp = nullish (pl_retry p)
            \<lparr>rp_maxAttempts = 1, rp_baseDelayMs = None, rp_multiplier = None, rp_maxDelayMs = None, rp_retryMethods = None\<rparr>;
          attempt = (\<lambda>n. case ev_forward env t req n of
                           (late, out) \<Rightarrow> with_timeout late (UpstreamTimeout timeoutMs) (map_sum OtherError id out))
      in fst (run_with_retry attempt rp (Some (gr_method req)) (\<lambda>e. True)))"

text \<open>What middleware can reach of the request context, and the gateway's own state next to it.\<close>

record visible_ctx =
  cx_identity :: "identity option"
  cx_scratch :: "(string, string) jsmap"

record pipeline_ctx =
  cx_visible :: visible_ctx
  cx_state :: gateway_state

type_synonym gateway_mw = "(visible_ctx, gateway_error, response) mw"

primrec lift_mw :: "gateway_mw \<Rightarrow> (pipeline_ctx, gateway_error, response) mw" where
  "lift_mw (MwSettle r) = MwSettle r"
| "lift_mw (MwChange f m) = MwChange (\<lambda>c. c\<lparr>cx_visible := f (cx_visible c)\<rparr>) (lift_mw m)"
| "lift_mw (MwNext k) = MwNext (\<lambda>r. lift_mw (k r))"

definition terminal_handler ::
  "gateway_config \<Rightarrow> route_policy route_config \<Rightarrow> string \<Rightarrow> gateway_request \<Rightarrow> request_env \<Rightarrow> pipeline_ctx \<Rightarrow>
   (gateway_error + response) \<times> pipeline_ctx" where
  "terminal_handler cfg route routing_path req env ctx =
     (let p = effective_policy cfg route in
      case dispatch cfg route p req (cx_identity (cx_visible ctx)) env (cx_state ctx) of
        (Inl e, s) \<Rightarrow> (Inl e, ctx\<lparr>cx_state := s\<rparr>)
      | (Inr (t, i), s) \<Rightarrow>
          (let out = forward_outcome p (req\<lparr>gr_path := routing_path, gr_url := routing_path\<rparr>) t env in
           (out, ctx\<lparr>cx_visible := (cx_visible ctx)\<lparr>cx_identity := i\<rparr>,
                     cx_state := settle_forward (length (gs_pending s) - 1) out (ev_settleNow env) (ev_stamp env) s\<rparr>)))"

section \<open>The pipeline\<close>

definition decorate :: "gateway_config \<Rightarrow> headers \<Rightarrow> (string \<times> string) list \<Rightarrow> headers" where
  "decorate cfg base cors =
     apply_security_headers (fold (\<lambda>(k, v) m. AList.update k v m) (as_values cors) base) (gc_security cfg)"

definition error_response :: "gateway_config \<Rightarrow> gateway_error \<Rightarrow> (string \<times> string) list \<Rightarrow> response" where
  "error_response cfg e cors =
     \<lparr>rsp_status = error_status e,
      rsp_headers = decorate cfg [(''content-type'', One ''application/json'')] cors,
      rsp_body = Some (gc_errorBody cfg e)\<rparr>"

definition finalize_success :: "gateway_config \<Rightarrow> response \<Rightarrow> (string \<times> string) list \<Rightarrow> response" where
  "finalize_success cfg r cors = r\<lparr>rsp_headers := decorate cfg (rsp_headers r) cors\<rparr>"

datatype ingress = Preflight | Routed "route_policy route_config" string

text \<open>Stages 2 to 5: body limit, CORS, versioning, routing; with the CORS headers known so far.\<close>

definition ingress_stages :: "gateway_config \<Rightarrow> gateway_request \<Rightarrow> (gateway_error + ingress) \<times> (string \<times> string) list" where
  "ingress_stages cfg req =
     (case enforce_body_limit (gr_bodySize req) (gc_security cfg) of
        Inl e \<Rightarrow> (Inl e, [])
      | Inr u \<Rightarrow>
          (let res = map_option (\<lambda>p. resolve_cors p req) (gc_cors cfg);
               cors = (case res of None \<Rightarrow> [] | Some r \<Rightarrow> cr_headers r);
               routing_path = (case gc_versioning cfg of
                                 None \<Rightarrow> gr_path req | Some vp \<Rightarrow> rv_strippedPath (resolve_version vp req))
           in case res of
                Some r \<Rightarrow>
                  if \<not> cr_allowed r then (Inl Forbidden, cors)
                  else if cr_isPreflight r then (Inr Preflight, cors)
                  else
                    (case router_match (gc_regex cfg) (gc_routes cfg) routing_path (Some (gr_method req)) of
                       None \<Rightarrow> (Inl (RouteNotFound routing_path), cors)
                     | Some m \<Rightarrow> (Inr (Routed (mt_route m) routing_path), cors))
              | None \<Rightarrow>
                  (case router_match (gc_regex cfg) (gc_routes cfg) routing_path (Some (gr_method req)) of
                     None \<Rightarrow> (Inl (RouteNotFound routing_path), cors)
                   | Some m \<Rightarrow> (Inr (Routed (mt_route m) routing_path), cors))))"

definition gateway_twice :: "int \<Rightarrow> gateway_error" where
  "gateway_twice i = OtherError (onion_twice i)"

definition respond ::
  "gateway_config \<Rightarrow> gateway_mw list \<Rightarrow> gateway_request \<Rightarrow> request_env \<Rightarrow> gateway_state \<Rightarrow>
   response \<times> gateway_state" where
  "respond cfg middlewares req env s =
     (case ingress_stages cfg req of
        (Inl e, cors) \<Rightarrow> (error_response cfg e cors, s)
      | (Inr Preflight, cors) \<Rightarrow> (\<lparr>rsp_status = 204, rsp_headers = decorate cfg [] cors, rsp_body = None\<rparr>, s)
      | (Inr (Routed route path), cors) \<Rightarrow>
          (case run_pipeline gateway_twice (map lift_mw middlewares) (terminal_handler cfg route path req env)
                  \<lparr>cx_visible = \<lparr>cx_identity = None, cx_scratch = []\<rparr>, cx_state = s\<rparr> of
             (Inl e, ctx) \<Rightarrow> (error_response cfg e cors, cx_state ctx)
           | (Inr r, ctx) \<Rightarrow> (finalize_success cfg r cors, cx_state ctx)))"

definition handle_request ::
  "gateway_config \<Rightarrow> gateway_mw list \<Rightarrow> gateway_request \<Rightarrow> request_env \<Rightarrow> gateway_state \<Rightarrow>
   response \<times> gateway_state" where
  "handle_request cfg middlewares req env s =
     (case respond cfg middlewares req env (s\<lparr>gs_active := gs_active s + 1\<rparr>) of
        (r, s') \<Rightarrow>
          (r, s'\<lparr>gs_active := max 0 (gs_active s' - 1), gs_requests := gs_requests s' + 1,
                 gs_errors := gs_errors s' + (if 500 \<le> rsp_status r then 1 else 0)\<rparr>))"

section \<open>What dispatch guarantees\<close>

text \<open>Selection of the upstream rests on the balancer contract: a member of the filtered pool, none only if it is empty.\<close>

lemma pick_target_cases:
  assumes "pick_target svc route (filter P targets) rng s = (r, s')"
  shows "r = Some t \<Longrightarrow> t \<in> set targets \<and> P t" "r = None \<Longrightarrow> \<forall>t \<in> set targets. \<not> P t"
    "\<exists>bs. s' = s\<lparr>gs_balancers := bs\<rparr>"
proof -
  define b where "b = nullish (map_of (gs_balancers s) (balancer_key svc (route_strategy svc route)))
      (create_balancer (route_strategy svc route))"
  obtain r' b' where p: "balancer_pick b (Some (gs_live s)) rng (filter P targets) = (r', b')"
    by (cases "balancer_pick b (Some (gs_live s)) rng (filter P targets)")
  then have r: "r' = r" and s': "\<exists>bs. s' = s\<lparr>gs_balancers := bs\<rparr>"
    using assms by (auto simp: pick_target_def Let_def b_def)
  show "\<exists>bs. s' = s\<lparr>gs_balancers := bs\<rparr>" by (rule s')
  show "r = Some t \<Longrightarrow> t \<in> set targets \<and> P t"
    using gb.pick_eligible [of b "Some (gs_live s)" rng P targets t] p by (simp add: r)
  show "r = None \<Longrightarrow> \<forall>t \<in> set targets. \<not> P t"
    using gb.pick_none_eligible [of b "Some (gs_live s)" rng P targets] p by (simp add: r)
qed

definition frame_of :: "gateway_state \<Rightarrow> (string, int) jsmap \<times> pending_forward list \<times> int \<times> nat \<times> nat" where
  "frame_of s = (gs_live s, gs_pending s, gs_active s, gs_requests s, gs_errors s)"

lemma admit_rate_frame:
  "admit_rate route p req ident now s = (r, s') \<Longrightarrow> frame_of s' = frame_of s \<and> gs_breaker s' = gs_breaker s \<and> gs_health s' = gs_health s"
  by (auto simp: admit_rate_def check_limit_def frame_of_def Let_def split: option.splits prod.splits if_splits)

lemma select_upstream_cases:
  assumes "select_upstream cfg route env s = (r, s')"
  shows "frame_of s' = frame_of s"
    "r = Inr t \<Longrightarrow> \<exists>svc. find_service cfg (rt_service route) = Some svc \<and> t \<in> set (svc_targets svc) \<and>
       map_option hr_state (map_of (gs_health s) (tgt_id t)) \<noteq> Some Unhealthy \<and>
       fst (can_request (breaker_key route t) (ev_breakerNow env) (gs_breaker s))"
proof -
  have "frame_of s' = frame_of s \<and> (\<forall>t. r = Inr t \<longrightarrow> (\<exists>svc. find_service cfg (rt_service route) = Some svc \<and>
       t \<in> set (svc_targets svc) \<and> map_option hr_state (map_of (gs_health s) (tgt_id t)) \<noteq> Some Unhealthy \<and>
       fst (can_request (breaker_key route t) (ev_breakerNow env) (gs_breaker s))))"
  proof (cases "find_service cfg (rt_service route)")
    case None
    then show ?thesis using assms by (auto simp: select_upstream_def)
  next
    case (Some svc)
    obtain po s1 where p: "pick_target svc route (filter_healthy (gs_health s) (svc_targets svc)) (ev_rng env) s = (po, s1)"
      by (cases "pick_target svc route (filter_healthy (gs_health s) (svc_targets svc)) (ev_rng env) s")
    note pc = pick_target_cases [OF p [unfolded filter_healthy_def]]
    obtain bs where s1: "s1 = s\<lparr>gs_balancers := bs\<rparr>" using pc(3) by blast
    show ?thesis
    proof (cases po)
      case None
      then show ?thesis using assms p Some s1 by (auto simp: select_upstream_def frame_of_def)
    next
      case t: (Some t)
      obtain ok b where c: "can_request (breaker_key route t) (ev_breakerNow env) (gs_breaker s) = (ok, b)"
        by (cases "can_request (breaker_key route t) (ev_breakerNow env) (gs_breaker s)")
      then show ?thesis
        using assms p Some s1 t pc(1) [OF t] by (cases ok) (auto simp: select_upstream_def frame_of_def)
    qed
  qed
  then show "frame_of s' = frame_of s"
    "r = Inr t \<Longrightarrow> \<exists>svc. find_service cfg (rt_service route) = Some svc \<and> t \<in> set (svc_targets svc) \<and>
       map_option hr_state (map_of (gs_health s) (tgt_id t)) \<noteq> Some Unhealthy \<and>
       fst (can_request (breaker_key route t) (ev_breakerNow env) (gs_breaker s))" by blast+
qed

lemma dispatch_sound:
  assumes "dispatch cfg route p req ident env s = (Inr (t, i), s')"
  shows "\<exists>svc. find_service cfg (rt_service route) = Some svc \<and> t \<in> set (svc_targets svc) \<and>
      map_option hr_state (map_of (gs_health s) (tgt_id t)) \<noteq> Some Unhealthy"
    "fst (can_request (breaker_key route t) (ev_breakerNow env) (gs_breaker s))"
    "admit_identity p req ident = Inr i"
    "fst (admit_rate route p req ident (ev_limitNow env) s) = Inr ()"
proof -
  obtain u s1 where r: "admit_rate route p req ident (ev_limitNow env) s = (Inr u, s1)"
    using assms by (auto simp: dispatch_def split: prod.splits sum.splits)
  have ai: "admit_identity p req ident = Inr i"
    using assms r by (auto simp: dispatch_def split: prod.splits sum.splits)
  obtain s2 where su: "select_upstream cfg route env s1 = (Inr t, s2)"
    using assms r ai by (auto simp: dispatch_def split: prod.splits sum.splits)
  note fr = admit_rate_frame [OF r]
  note sel = select_upstream_cases(2) [OF su refl]
  show "\<exists>svc. find_service cfg (rt_service route) = Some svc \<and> t \<in> set (svc_targets svc) \<and>
      map_option hr_state (map_of (gs_health s) (tgt_id t)) \<noteq> Some Unhealthy"
    "fst (can_request (breaker_key route t) (ev_breakerNow env) (gs_breaker s))"
    using sel fr by auto
  show "admit_identity p req ident = Inr i" by (rule ai)
  show "fst (admit_rate route p req ident (ev_limitNow env) s) = Inr ()" using r by simp
qed

section \<open>Connection counts\<close>

text \<open>The live count of a target is the number of forwards to it in flight.\<close>

definition counts_ok :: "gateway_state \<Rightarrow> bool" where
  "counts_ok s \<longleftrightarrow>
     (\<forall>t. nullish (map_of (gs_live s) t) 0 = int (length (filter (\<lambda>f. pf_target f = t) (gs_pending s))))"

lemma counts_ok_new: "counts_ok (new_gateway cfg)"
  by (simp add: counts_ok_def new_gateway_def)

lemma counts_ok_frame: "frame_of s' = frame_of s \<Longrightarrow> counts_ok s' \<longleftrightarrow> counts_ok s"
  by (simp add: frame_of_def counts_ok_def)

lemma dispatch_effect:
  assumes "dispatch cfg route p req ident env s = (r, s')"
  shows "(\<exists>e. r = Inl e \<and> frame_of s' = frame_of s) \<or>
    (\<exists>t i s2. r = Inr (t, i) \<and> frame_of s2 = frame_of s \<and>
       s' = bump (tgt_id t) 1 (s2\<lparr>gs_pending := gs_pending s2 @ [\<lparr>pf_target = tgt_id t, pf_key = breaker_key route t\<rparr>]\<rparr>))"
proof -
  obtain ra s1 where a: "admit_rate route p req ident (ev_limitNow env) s = (ra, s1)"
    by (cases "admit_rate route p req ident (ev_limitNow env) s")
  have fa: "frame_of s1 = frame_of s" using admit_rate_frame [OF a] by simp
  obtain rs s2 where b: "select_upstream cfg route env s1 = (rs, s2)" by (cases "select_upstream cfg route env s1")
  have fb: "frame_of s2 = frame_of s" using select_upstream_cases(1) [OF b] fa by simp
  show ?thesis
  proof (cases "\<exists>u i t. ra = Inr u \<and> admit_identity p req ident = Inr i \<and> rs = Inr t")
    case True
    then obtain u i t where "ra = Inr u" "admit_identity p req ident = Inr i" "rs = Inr t" by blast
    then have "r = Inr (t, i)"
      "s' = bump (tgt_id t) 1 (s2\<lparr>gs_pending := gs_pending s2 @ [\<lparr>pf_target = tgt_id t, pf_key = breaker_key route t\<rparr>]\<rparr>)"
      using assms a b by (simp_all add: dispatch_def)
    then show ?thesis using fb by blast
  next
    case False
    then have "\<exists>e. r = Inl e \<and> (s' = s1 \<or> s' = s2)"
      using assms a b by (cases ra; cases "admit_identity p req ident"; cases rs) (auto simp: dispatch_def)
    then show ?thesis using fa fb by auto
  qed
qed

lemma counts_ok_dispatch: "counts_ok s \<Longrightarrow> counts_ok (snd (dispatch cfg route p req ident env s))"
proof -
  assume ok: "counts_ok s"
  obtain r s' where d: "dispatch cfg route p req ident env s = (r, s')" by (cases "dispatch cfg route p req ident env s")
  from dispatch_effect [OF d] show ?thesis
  proof (elim disjE exE conjE)
    fix e
    assume "frame_of s' = frame_of s"
    then show ?thesis using counts_ok_frame [of s' s] ok by (simp add: d)
  next
    fix t i s2
    assume s2: "frame_of s2 = frame_of s"
      and s': "s' = bump (tgt_id t) 1 (s2\<lparr>gs_pending := gs_pending s2 @ [\<lparr>pf_target = tgt_id t, pf_key = breaker_key route t\<rparr>]\<rparr>)"
    have "counts_ok s2" using counts_ok_frame [OF s2] ok by simp
    then show ?thesis by (simp add: d s' bump_def counts_ok_def)
  qed
qed

lemma length_filter_drop_nth:
  "i < length xs \<Longrightarrow> length (filter P xs) = length (filter P (take i xs @ drop (Suc i) xs)) + (if P (xs ! i) then 1 else 0)"
proof -
  assume "i < length xs"
  then have "xs = take i xs @ xs ! i # drop (Suc i) xs" by (rule id_take_nth_drop)
  then have "filter P xs = filter P (take i xs @ xs ! i # drop (Suc i) xs)" by simp
  then show ?thesis by simp
qed

lemma counts_ok_settle: "counts_ok s \<Longrightarrow> counts_ok (settle_forward i out now stamp s)"
proof (cases "i < length (gs_pending s)")
  case True
  assume ok: "counts_ok s"
  let ?f = "gs_pending s ! i" and ?rest = "take i (gs_pending s) @ drop (Suc i) (gs_pending s)"
  have len: "length (filter P (gs_pending s)) = length (filter P ?rest) + (if P ?f then 1 else 0)" for P
    by (rule length_filter_drop_nth [OF True])
  have "nullish (map_of (gs_live s) t) 0 = int (length (filter (\<lambda>f. pf_target f = t) ?rest)) + (if pf_target ?f = t then 1 else 0)" for t
    using ok len [of "\<lambda>f. pf_target f = t"] by (simp add: counts_ok_def)
  then show ?thesis using True by (simp add: settle_forward_def Let_def bump_def counts_ok_def)
next
  case False
  assume "counts_ok s"
  then show ?thesis using False by (simp add: settle_forward_def)
qed

text \<open>Interleaved requests: dispatches of any routes and settlements in any order, health changes at any time.\<close>

datatype gateway_event =
    Dispatch "route_policy route_config" gateway_request "identity option" request_env
  | SettleForward nat "gateway_error + response" jsnum jsnum
  | Probed "(upstream_target \<times> probe_outcome \<times> jsnum) list"

fun gateway_step :: "gateway_config \<Rightarrow> gateway_state \<Rightarrow> gateway_event \<Rightarrow> gateway_state" where
  "gateway_step cfg s (Dispatch route req ident env) =
     snd (dispatch cfg route (effective_policy cfg route) req ident env s)"
| "gateway_step cfg s (SettleForward i out now stamp) = settle_forward i out now stamp s"
| "gateway_step cfg s (Probed ps) = s\<lparr>gs_health := probe_round ps (gs_health s)\<rparr>"

interpretation gm: machine "gateway_step cfg" counts_ok for cfg
proof (unfold_locales, goal_cases)
  case (1 s e)
  then show ?case
    by (cases e) (simp_all add: counts_ok_dispatch counts_ok_settle, simp add: counts_ok_def)
qed

section \<open>One request from start to end\<close>

text \<open>Whatever the middleware do, the pipeline keeps every property of the gateway's state that the terminal handler keeps.\<close>

lemma lift_mw_keeps:
  assumes "\<And>s. Q (cx_state (om_ctx s)) \<Longrightarrow> Q (cx_state (om_ctx (snd (nxt s))))"
  shows "Q (cx_state (om_ctx s)) \<Longrightarrow> Q (cx_state (om_ctx (snd (run_mw (lift_mw m) onion_change nxt s))))"
proof (induction m arbitrary: s)
  case (MwSettle r)
  then show ?case by simp
next
  case (MwChange f m)
  then show ?case by (simp add: onion_change_def)
next
  case (MwNext k)
  obtain r s' where n: "nxt s = (r, s')" by (cases "nxt s")
  then have "Q (cx_state (om_ctx s'))" using assms [OF MwNext.prems] by simp
  with MwNext.IH [of "k r" s'] show ?case by (simp add: n)
qed

lemma onion_layers_keeps:
  assumes "\<And>c. Q (cx_state c) \<Longrightarrow> Q (cx_state (snd (h c)))"
  shows "Q (cx_state (om_ctx s)) \<Longrightarrow> Q (cx_state (om_ctx (snd (onion_layers twice h (map lift_mw ms) i s))))"
proof (induction ms arbitrary: i s)
  case Nil
  then show ?case using assms [OF Nil] by (simp add: guard_once_def case_prod_beta)
next
  case (Cons m ms)
  show ?case
  proof (cases "i \<in> set (om_called s)")
    case True
    then show ?thesis using Cons.prems by (simp add: guard_once_def)
  next
    case False
    have "Q (cx_state (om_ctx (s\<lparr>om_called := i # om_called s\<rparr>)))" using Cons.prems by simp
    from lift_mw_keeps [where Q = Q, OF Cons.IH this] False show ?thesis by (simp add: guard_once_def)
  qed
qed

lemma run_pipeline_keeps:
  assumes "\<And>c. Q (cx_state c) \<Longrightarrow> Q (cx_state (snd (h c)))" "Q (cx_state ctx)"
  shows "Q (cx_state (snd (run_pipeline twice (map lift_mw ms) h ctx)))"
proof -
  let ?s = "\<lparr>om_ctx = ctx, om_called = []\<rparr>"
  have "Q (cx_state (om_ctx ?s))" using assms(2) by simp
  from onion_layers_keeps [where Q = Q, OF assms(1) this]
  have "Q (cx_state (om_ctx (snd (onion_layers twice h (map lift_mw ms) 0 ?s))))" .
  then show ?thesis by (simp add: run_pipeline_def)
qed

lemma bump_frame [simp]:
  "gs_pending (bump t d s) = gs_pending s" "gs_active (bump t d s) = gs_active s" "gs_requests (bump t d s) = gs_requests s"
  "gs_errors (bump t d s) = gs_errors s"
  by (simp_all add: bump_def)

definition quiet :: "pending_forward list \<Rightarrow> int \<Rightarrow> nat \<Rightarrow> nat \<Rightarrow> gateway_state \<Rightarrow> bool" where
  "quiet pend act reqs errs s \<longleftrightarrow>
     counts_ok s \<and> gs_pending s = pend \<and> gs_active s = act \<and> gs_requests s = reqs \<and> gs_errors s = errs"

lemma quiet_frame: "frame_of s' = frame_of s \<Longrightarrow> quiet pend act reqs errs s' \<longleftrightarrow> quiet pend act reqs errs s"
  by (simp add: quiet_def frame_of_def counts_ok_def)

lemma settle_frame:
  "gs_active (settle_forward i out now st s) = gs_active s" "gs_requests (settle_forward i out now st s) = gs_requests s"
  "gs_errors (settle_forward i out now st s) = gs_errors s"
  by (simp_all add: settle_forward_def Let_def)

lemma terminal_quiet:
  assumes "quiet pend act reqs errs (cx_state c)"
  shows "quiet pend act reqs errs (cx_state (snd (terminal_handler cfg route path req env c)))"
proof -
  let ?p = "effective_policy cfg route"
  obtain r s where d: "dispatch cfg route ?p req (cx_identity (cx_visible c)) env (cx_state c) = (r, s)"
    by (cases "dispatch cfg route ?p req (cx_identity (cx_visible c)) env (cx_state c)")
  from dispatch_effect [OF d] show ?thesis
  proof (elim disjE exE conjE)
    fix e
    assume r: "r = Inl e" and f: "frame_of s = frame_of (cx_state c)"
    have "cx_state (snd (terminal_handler cfg route path req env c)) = s"
      by (simp add: terminal_handler_def Let_def d r)
    then show ?thesis using quiet_frame [OF f] assms by simp
  next
    fix t i s2
    assume r: "r = Inr (t, i)" and s2: "frame_of s2 = frame_of (cx_state c)"
      and s: "s = bump (tgt_id t) 1 (s2\<lparr>gs_pending := gs_pending s2 @ [\<lparr>pf_target = tgt_id t, pf_key = breaker_key route t\<rparr>]\<rparr>)"
    have q2: "quiet pend act reqs errs s2" using assms quiet_frame [OF s2] by simp
    have pend: "gs_pending s = pend @ [\<lparr>pf_target = tgt_id t, pf_key = breaker_key route t\<rparr>]"
      using q2 by (simp add: s quiet_def)
    have "counts_ok (cx_state c)" using assms by (simp add: quiet_def)
    then have "counts_ok s"
      using counts_ok_dispatch [of "cx_state c" cfg route ?p req "cx_identity (cx_visible c)" env] d by simp
    then have "quiet pend act reqs errs (settle_forward (length (gs_pending s) - 1) out now st s)" for out now st
      using counts_ok_settle [of s] q2 settle_frame [of "length (gs_pending s) - 1" out now st s]
      by (simp add: quiet_def) (simp add: settle_forward_def Let_def pend s)
    then show ?thesis using d r by (simp add: terminal_handler_def Let_def)
  qed
qed

lemma respond_quiet:
  "quiet pend act reqs errs s \<Longrightarrow> quiet pend act reqs errs (snd (respond cfg ms req env s))"
proof -
  assume q: "quiet pend act reqs errs s"
  obtain ing cors where i: "ingress_stages cfg req = (ing, cors)" by (cases "ingress_stages cfg req")
  show ?thesis
  proof (cases "\<exists>route path. ing = Inr (Routed route path)")
    case False
    then show ?thesis using i q by (auto simp: respond_def split: sum.split ingress.split)
  next
    case True
    then obtain route path where r: "ing = Inr (Routed route path)" by blast
    let ?ctx = "\<lparr>cx_visible = \<lparr>cx_identity = None, cx_scratch = []\<rparr>, cx_state = s\<rparr>"
    have "quiet pend act reqs errs (cx_state (snd (run_pipeline gateway_twice (map lift_mw ms)
        (terminal_handler cfg route path req env) ?ctx)))"
      by (rule run_pipeline_keeps) (simp_all add: terminal_quiet q)
    then show ?thesis using i r by (auto simp: respond_def split: prod.split sum.split)
  qed
qed

text \<open>Accounting of a request: no forward is left in flight, the totals move by one, the active count is restored.\<close>

lemma handle_request_accounts:
  assumes "counts_ok s" "0 \<le> gs_active s" "handle_request cfg ms req env s = (r, s')"
  shows "counts_ok s'" "gs_pending s' = gs_pending s" "gs_active s' = gs_active s" "gs_requests s' = gs_requests s + 1"
    "gs_errors s' = gs_errors s + (if 500 \<le> rsp_status r then 1 else 0)"
proof -
  let ?s = "s\<lparr>gs_active := gs_active s + 1\<rparr>"
  obtain r1 s1 where re: "respond cfg ms req env ?s = (r1, s1)" by (cases "respond cfg ms req env ?s")
  have "quiet (gs_pending s) (gs_active s + 1) (gs_requests s) (gs_errors s) ?s"
    using assms(1) by (simp add: quiet_def counts_ok_def)
  from respond_quiet [OF this, of cfg ms req env]
  have q: "quiet (gs_pending s) (gs_active s + 1) (gs_requests s) (gs_errors s) s1" by (simp add: re)
  then show "counts_ok s'" "gs_pending s' = gs_pending s" "gs_active s' = gs_active s" "gs_requests s' = gs_requests s + 1"
    "gs_errors s' = gs_errors s + (if 500 \<le> rsp_status r then 1 else 0)"
    using assms(2,3) re by (auto simp: handle_request_def quiet_def counts_ok_def)
qed

text \<open>Every response carries the security headers, whatever the upstream or a middleware answered.\<close>

definition policy_header :: "gateway_config \<Rightarrow> string \<Rightarrow> string option" where
  "policy_header cfg k =
     (case find (\<lambda>(x, v). to_lower x = k) (rev (case gc_security cfg of None \<Rightarrow> [] | Some q \<Rightarrow> sp_headers q)) of
        Some (x, v) \<Rightarrow> Some v
      | None \<Rightarrow> (case find (\<lambda>(x, v). to_lower x = k) (rev DEFAULT_SECURITY_HEADERS) of Some (x, v) \<Rightarrow> Some v | None \<Rightarrow> None))"

lemma decorate_header:
  "policy_header cfg k = Some v \<Longrightarrow> map_of (decorate cfg base cors) k = Some (One v)"
  by (auto simp: policy_header_def decorate_def security_headers_lookup split: option.splits)

lemma respond_decorated: "\<exists>base cors. rsp_headers (fst (respond cfg ms req env s)) = decorate cfg base cors"
  by (auto simp: respond_def error_response_def finalize_success_def split: prod.split sum.split ingress.split)

lemma handle_request_header:
  "policy_header cfg k = Some v \<Longrightarrow> map_of (rsp_headers (fst (handle_request cfg ms req env s))) k = Some (One v)"
  using respond_decorated [of cfg ms req env "s\<lparr>gs_active := gs_active s + 1\<rparr>"] decorate_header [of cfg k v]
  by (auto simp: handle_request_def split: prod.split)

lemma default_policy_headers:
  "gc_security cfg = None \<Longrightarrow>
   policy_header cfg ''x-frame-options'' = Some ''DENY'' \<and> policy_header cfg ''x-content-type-options'' = Some ''nosniff'' \<and>
   policy_header cfg ''referrer-policy'' = Some ''no-referrer''"
  by (simp add: policy_header_def DEFAULT_SECURITY_HEADERS_def str_eval)

text \<open>A request the ingress stages refuse never reaches the terminal handler: no state but the totals changes.\<close>

lemma refused_at_ingress:
  assumes "ingress_stages cfg req = (Inl e, cors)"
  shows "respond cfg ms req env s = (error_response cfg e cors, s)"
  using assms by (simp add: respond_def)

lemma cors_refused:
  assumes "enforce_body_limit (gr_bodySize req) (gc_security cfg) = Inr ()" "gc_cors cfg = Some p"
    "\<not> cr_allowed (resolve_cors p req)"
  shows "ingress_stages cfg req = (Inl Forbidden, cr_headers (resolve_cors p req))"
  using assms by (simp add: ingress_stages_def Let_def)

end
