(* ===== verification/UriComponent.thy ===== *)
theory UriComponent
  imports Utf8
begin

text \<open>
  \<open>encodeURIComponent\<close> and \<open>decodeURIComponent\<close> of the language, which the router applies to every captured parameter.
  The encoded side is a string of ASCII characters, the decoded side a list of code points.  \<open>decodeURIComponent\<close> throws a
  \<open>URIError\<close> for an escape that is cut off, is not hexadecimal, or whose octets are not the UTF-8 form of one code point.

  \<open>uri_round_trip\<close>: decoding gives back what was encoded.
\<close>

lemma unat_below: "unat (b :: byte) < 256"
  using unsigned_less [where w = b and 'a = nat] by simp

section \<open>Hexadecimal\<close>

definition hex_value :: "char \<Rightarrow> nat option" where
  "hex_value c =
     (let n = of_char c :: nat
      in if 48 \<le> n \<and> n \<le> 57 then Some (n - 48)
         else if 65 \<le> n \<and> n \<le> 70 then Some (n - 55)
         else if 97 \<le> n \<and> n \<le> 102 then Some (n - 87)
         else None)"

definition hex_upper :: "nat \<Rightarrow> char" where
  "hex_upper d = (if d < 10 then char_of (48 + d) else char_of (55 + d))"

lemma hex_value_upper: "d < 16 \<Longrightarrow> hex_value (hex_upper d) = Some d"
  by (simp add: hex_value_def hex_upper_def Let_def)

definition percent :: char where
  "percent = CHR ''%''"

fun hex_octet :: "string \<Rightarrow> (byte \<times> string) option" where
  "hex_octet (c # a # b # rest) =
     (if c = percent then
        (case hex_value a of None \<Rightarrow> None
         | Some x \<Rightarrow> (case hex_value b of None \<Rightarrow> None | Some y \<Rightarrow> Some (of_nat (16 * x + y), rest)))
      else None)"
| "hex_octet _ = None"

definition percent_encode :: "byte \<Rightarrow> string" where
  "percent_encode b = [percent, hex_upper (unat b div 16), hex_upper (unat b mod 16)]"

lemma hex_octet_encode: "hex_octet (percent_encode b @ rest) = Some (b, rest)"
proof -
  have "unat b < 256" by (rule unat_below)
  then have "hex_value (hex_upper (unat b div 16)) = Some (unat b div 16)" by (simp add: hex_value_upper)
  then show ?thesis by (simp add: percent_encode_def hex_value_upper)
qed

lemma hex_octet_shorter: "hex_octet s = Some (b, rest) \<Longrightarrow> length rest < length s"
  by (cases s rule: hex_octet.cases) (auto split: if_splits option.splits)

section \<open>Decoding\<close>

definition uri_malformed :: js_error where
  "uri_malformed = JsError ''URIError'' ''URI malformed''"

definition continuation_count :: "byte \<Rightarrow> nat option" where
  "continuation_count b =
     (if b < 0xC0 then None
      else if b < 0xE0 then Some 1
      else if b < 0xF0 then Some 2
      else if b < 0xF8 then Some 3
      else None)"

fun continuation_octets :: "nat \<Rightarrow> string \<Rightarrow> (byte list \<times> string) option" where
  "continuation_octets 0 s = Some ([], s)"
| "continuation_octets (Suc n) s =
     (case hex_octet s of None \<Rightarrow> None
      | Some (b, rest) \<Rightarrow>
          if 0x80 \<le> b \<and> b < 0xC0
          then map_option (\<lambda>(bs, r). (b # bs, r)) (continuation_octets n rest)
          else None)"

lemma continuation_octets_shorter: "continuation_octets n s = Some (bs, rest) \<Longrightarrow> length rest \<le> length s"
proof (induction n arbitrary: s bs)
  case 0
  then show ?case by simp
next
  case (Suc n)
  then obtain b r bs' where "hex_octet s = Some (b, r)" "continuation_octets n r = Some (bs', rest)"
    by (auto split: option.splits if_splits)
  with Suc.IH hex_octet_shorter show ?case by fastforce
qed

text \<open>The code point of the octets, when they are its UTF-8 form.\<close>

definition code_point_of :: "byte list \<Rightarrow> nat option" where
  "code_point_of bs = (case utf8_decode bs of [c] \<Rightarrow> if utf8_encode [c] = bs then Some c else None | _ \<Rightarrow> None)"

function decode_uri_component :: "string \<Rightarrow> js_error + code_points" where
  "decode_uri_component [] = Inr []"
| "decode_uri_component (c # cs) =
     (if c \<noteq> percent then and_then (decode_uri_component cs) (\<lambda>r. Inr (of_char c # r))
      else
        (case hex_octet (c # cs) of None \<Rightarrow> Inl uri_malformed
         | Some (b, rest) \<Rightarrow>
             if b < 0x80 then and_then (decode_uri_component rest) (\<lambda>r. Inr (unat b # r))
             else
               (case continuation_count b of None \<Rightarrow> Inl uri_malformed
                | Some n \<Rightarrow>
                    (case continuation_octets n rest of None \<Rightarrow> Inl uri_malformed
                     | Some (bs, rest') \<Rightarrow>
                         (case code_point_of (b # bs) of None \<Rightarrow> Inl uri_malformed
                          | Some p \<Rightarrow> and_then (decode_uri_component rest') (\<lambda>r. Inr (p # r)))))))"
  by pat_completeness auto
termination
  by (relation "measure length")
    (auto dest!: hex_octet_shorter continuation_octets_shorter)

section \<open>Encoding\<close>

definition unreserved :: "nat \<Rightarrow> bool" where
  "unreserved c \<longleftrightarrow>
     (65 \<le> c \<and> c \<le> 90) \<or> (97 \<le> c \<and> c \<le> 122) \<or> (48 \<le> c \<and> c \<le> 57) \<or>
     c \<in> {33, 39, 40, 41, 42, 45, 46, 95, 126}"

definition encode_uri_point :: "nat \<Rightarrow> string" where
  "encode_uri_point c = (if unreserved c then [char_of c] else concat (map percent_encode (utf8_point c)))"

definition encode_uri_component :: "code_points \<Rightarrow> string" where
  "encode_uri_component s = concat (map encode_uri_point s)"

lemma unreserved_below: "unreserved c \<Longrightarrow> c < 128 \<and> c \<noteq> 37 \<and> c \<noteq> 47"
  by (auto simp: unreserved_def)

lemma continuation_octets_encode:
  "list_all (\<lambda>b. 0x80 \<le> b \<and> b < 0xC0) bs \<Longrightarrow>
   continuation_octets (length bs) (concat (map percent_encode bs) @ rest) = Some (bs, rest)"
  by (induction bs) (auto simp: hex_octet_encode)

text \<open>The octets of a code point above 127: the first gives the number of the others, which are continuations.\<close>

lemma utf8_point_shape:
  assumes "scalar_value c" "128 \<le> c"
  shows "\<exists>b bs. utf8_point c = b # bs \<and> 0x80 \<le> b \<and> continuation_count b = Some (length bs) \<and>
    list_all (\<lambda>b. 0x80 \<le> b \<and> b < 0xC0) bs"
proof -
  have w: "(of_nat n :: byte) < of_nat m \<longleftrightarrow> n < m" "(of_nat n :: byte) \<le> of_nat m \<longleftrightarrow> n \<le> m" if "n < 256" "m < 256" for n m
    using that by (simp_all add: word_less_nat_alt word_le_nat_alt unat_of_nat)
  have w1: "(of_nat n :: byte) < numeral k \<longleftrightarrow> n < numeral k" "numeral k \<le> (of_nat n :: byte) \<longleftrightarrow> numeral k \<le> n"
    if "n < 256" "(numeral k :: nat) < 256" for n k
    using w [of n "numeral k"] w [of "numeral k" n] that by simp_all
  have cont: "0x80 \<le> (of_nat (0x80 + m mod 64) :: byte)" "(of_nat (0x80 + m mod 64) :: byte) < 0xC0" for m
  proof -
    have "m mod 64 < 64" by simp
    then show "0x80 \<le> (of_nat (0x80 + m mod 64) :: byte)" "(of_nat (0x80 + m mod 64) :: byte) < 0xC0"
      by (simp_all add: w1 del: of_nat_add)
  qed
  have s: "c < 0x110000" "\<not> surrogate c" using assms by (simp_all add: scalar_value_def)
  consider "c < 0x800" | "0x800 \<le> c" "c < 0x10000" | "0x10000 \<le> c" by linarith
  then show ?thesis
  proof cases
    case 1
    then have "2 \<le> c div 64" "c div 64 < 32" using assms(2) by linarith+
    then show ?thesis using 1 assms(2) cont
      by (simp add: utf8_point_def continuation_count_def w1 del: of_nat_add)
  next
    case 2
    then have "c div 4096 < 16" by linarith
    then show ?thesis using 2 assms(2) s cont
      by (simp add: utf8_point_def continuation_count_def w1 del: of_nat_add)
  next
    case 3
    then have "c div 262144 < 5" using s by linarith
    moreover have "\<not> surrogate c" by (rule s(2))
    ultimately show ?thesis using 3 assms(2) cont
      by (simp add: utf8_point_def continuation_count_def w1 del: of_nat_add)
  qed
qed

lemma code_point_of_utf8: "scalar_value c \<Longrightarrow> code_point_of (utf8_point c) = Some c"
  using utf8_round_trip [of "[c]"] by (simp add: code_point_of_def utf8_encode_def)

lemma decode_octet:
  assumes "b < 0x80"
  shows "decode_uri_component (percent_encode b @ rest) = and_then (decode_uri_component rest) (\<lambda>r. Inr (unat b # r))"
proof -
  obtain x y where p: "percent_encode b @ rest = percent # x # y # rest" by (simp add: percent_encode_def)
  with hex_octet_encode [of b rest] have "hex_octet (percent # x # y # rest) = Some (b, rest)" by simp
  then show ?thesis using assms unfolding p by (simp del: hex_octet.simps)
qed

lemma decode_encode_point:
  assumes "scalar_value c"
  shows "decode_uri_component (encode_uri_point c @ rest) = and_then (decode_uri_component rest) (\<lambda>r. Inr (c # r))"
proof (cases "unreserved c")
  case True
  with unreserved_below [OF True] have "char_of c \<noteq> percent" "of_char (char_of c :: char) = c"
    by (auto simp: percent_def dest: arg_cong [where f = "of_char :: char \<Rightarrow> nat"])
  with True show ?thesis by (simp add: encode_uri_point_def)
next
  case False
  note enc = False
  show ?thesis
  proof (cases "c < 128")
    case True
    then have "utf8_point c = [of_nat c]" "unat (of_nat c :: byte) = c" by (simp_all add: utf8_point_def unat_of_nat)
    moreover have "(of_nat c :: byte) < 0x80" using True by (simp add: word_less_nat_alt unat_of_nat)
    ultimately show ?thesis using enc decode_octet [of "of_nat c" rest] by (simp add: encode_uri_point_def)
  next
    case False
    then obtain b bs where b: "utf8_point c = b # bs" "0x80 \<le> b" "continuation_count b = Some (length bs)"
      "list_all (\<lambda>b. 0x80 \<le> b \<and> b < 0xC0) bs"
      using utf8_point_shape [OF assms] by auto
    let ?s = "concat (map percent_encode bs) @ rest"
    have h: "hex_octet (percent # tl (percent_encode b @ ?s)) = Some (b, ?s)"
      using hex_octet_encode [of b ?s] by (simp add: percent_encode_def)
    have e: "encode_uri_point c @ rest = percent # tl (percent_encode b @ ?s)"
      using enc b(1) by (simp add: encode_uri_point_def percent_encode_def)
    show ?thesis using b h continuation_octets_encode [OF b(4), of rest] code_point_of_utf8 [OF assms]
        leD [OF b(2)]
      unfolding e by simp
  qed
qed

theorem uri_round_trip: "list_all scalar_value s \<Longrightarrow> decode_uri_component (encode_uri_component s) = Inr s"
proof (induction s)
  case Nil
  then show ?case by (simp add: encode_uri_component_def)
next
  case (Cons c s)
  then show ?case using decode_encode_point [of c "encode_uri_component s"] by (simp add: encode_uri_component_def)
qed

text \<open>An encoded component holds no slash, and is empty only for the empty string.\<close>

lemma hex_upper_not_slash: "d < 16 \<Longrightarrow> hex_upper d \<noteq> CHR ''/''"
  by (auto simp: hex_upper_def split: if_splits dest!: arg_cong [where f = "of_char :: char \<Rightarrow> nat"])

lemma encode_uri_point_safe: "CHR ''/'' \<notin> set (encode_uri_point c) \<and> encode_uri_point c \<noteq> []"
proof (cases "unreserved c")
  case True
  with unreserved_below [OF True] have "char_of c \<noteq> CHR ''/''"
    by (auto dest!: arg_cong [where f = "of_char :: char \<Rightarrow> nat"])
  with True show ?thesis by (simp add: encode_uri_point_def)
next
  case False
  have "CHR ''/'' \<notin> set (percent_encode b)" for b
  proof -
    have "unat b div 16 < 16" using unat_below [of b] by simp
    then show ?thesis
      using hex_upper_not_slash [of "unat b div 16"] hex_upper_not_slash [of "unat b mod 16"]
      by (auto simp: percent_encode_def percent_def)
  qed
  then have "CHR ''/'' \<notin> set (concat (map percent_encode bs))" for bs by simp
  moreover have "concat (map percent_encode (utf8_point c)) \<noteq> []" by (simp add: utf8_point_def percent_encode_def)
  ultimately show ?thesis using False by (simp add: encode_uri_point_def)
qed

lemma encode_uri_safe: "CHR ''/'' \<notin> set (encode_uri_component s)" "s \<noteq> [] \<Longrightarrow> encode_uri_component s \<noteq> []"
  using encode_uri_point_safe by (auto simp: encode_uri_component_def)

end
