(* ===== verification/HttpContext.thy ===== *)
theory HttpContext
  imports HttpValidation UriComponent
begin

text \<open>
  The request context of \<open>packages/context/src/context.ts\<close>, the exceptions of \<open>packages/exceptions/src/exceptions.ts\<close> and the
  middleware type every HTTP component shares.

  \<open>http_context\<close> holds what middleware and handlers read and write: the request line, headers, query, parameters, the
  parsed body, the user, the slots of \<open>ctx.state\<close> that the framework itself uses, and the response.  \<open>'j\<close> is the type of
  the values handlers send as JSON.  \<open>_sent\<close> makes every later reply a no-op; \<open>hc_reply\<close> is what \<open>res.end\<close> was called with, and stays
  empty when \<open>JSON.stringify\<close>, \<open>Buffer.byteLength\<close> or \<open>res.writeHead\<close> throws after \<open>_sent\<close> was set.

  \<open>hmw\<close> is a middleware as the pipeline sees it: it reads and changes the context, calls \<open>next\<close> any number of times and
  continues with its outcome, and settles.
\<close>

section \<open>Exceptions\<close>

text \<open>The details of an exception are any value; of one that is not a list of violations the model keeps its JSON, or that it has none.\<close>

datatype error_details = Violations "validation_error list" | DetailsJson string | DetailsThrow js_error

datatype http_error =
    Street (ex_name: string) (ex_status: nat) (ex_message: string) (ex_details: "error_details option")
  | DatabaseConnection (ex_message: string) (ex_suggestion: "string option")
  | Plain js_error

definition is_street_exception :: "http_error \<Rightarrow> bool" where
  "is_street_exception err \<longleftrightarrow> (case err of Plain e \<Rightarrow> False | _ \<Rightarrow> True)"

definition bad_request :: "string \<Rightarrow> validation_error list \<Rightarrow> http_error" where
  "bad_request message details = Street ''BadRequestException'' 400 message (Some (Violations details))"

definition unauthorized :: "string \<Rightarrow> http_error" where
  "unauthorized message = Street ''UnauthorizedException'' 401 message None"

definition forbidden :: "string \<Rightarrow> http_error" where
  "forbidden message = Street ''ForbiddenException'' 403 message None"

definition not_found :: "string \<Rightarrow> http_error" where
  "not_found message = Street ''NotFoundException'' 404 message None"

text \<open>
  The status an error is answered with, \<open>toJSON\<close> of an exception (\<open>DatabaseConnectionError\<close> adds its suggestion; the body of
  any other error is a constant) and the envelope of \<open>toStreetErrorEnvelope\<close>: an unknown error is sanitized.
\<close>

datatype error_body =
    LegacyBody (lb_error: string) (lb_message: string) (lb_status: nat) (lb_details: "error_details option")
      (lb_suggestion: "string option")
  | EnvelopeBody (eb_code: string) (eb_message: string) (eb_status: "nat option")
      (eb_details: "error_details option") (eb_correlationId: "string option")

definition answer_status :: "http_error \<Rightarrow> nat" where
  "answer_status err = (case err of Street name status message details \<Rightarrow> status | DatabaseConnection message suggestion \<Rightarrow> 503 | Plain e \<Rightarrow> 500)"

definition error_details_of :: "http_error \<Rightarrow> error_details option" where
  "error_details_of err = (case err of Street name status message details \<Rightarrow> details | _ \<Rightarrow> None)"

definition to_json :: "http_error \<Rightarrow> error_body" where
  "to_json err =
     (case err of
        Street name status message details \<Rightarrow> LegacyBody name message status details None
      | DatabaseConnection message suggestion \<Rightarrow> LegacyBody ''DatabaseConnectionError'' message 503 None suggestion
      | Plain e \<Rightarrow> LegacyBody ''InternalException'' ''Internal Server Error'' 500 None None)"

definition to_street_error_envelope :: "http_error \<Rightarrow> string option \<Rightarrow> error_body" where
  "to_street_error_envelope err correlationId =
     (case err of
        Street name status message details \<Rightarrow> EnvelopeBody name message (Some status) details correlationId
      | DatabaseConnection message suggestion \<Rightarrow> EnvelopeBody ''DatabaseConnectionError'' message (Some 503) None correlationId
      | Plain e \<Rightarrow> EnvelopeBody ''internal_error'' ''Internal Server Error'' None None correlationId)"

section \<open>The context\<close>

text \<open>\<open>FailingReply\<close>: a value of which \<open>JSON.stringify\<close> makes no text (a cycle, a bigint, \<open>undefined\<close>), or no text given for one.\<close>

datatype 'j reply = JsonReply 'j | FaultReply error_body | TextReply string | HtmlReply string | EmptyReply | FailingReply js_error

datatype http_body = BodyNull | BodyObject "string \<Rightarrow> field_value" | BodyText code_points | BodyPrimitive

record http_user =
  hu_id :: string
  hu_email :: string
  hu_roles :: "string list"

record 'j http_context =
  hc_method :: string
  hc_path :: string
  hc_headers :: "(string, string) jsmap"
  hc_query :: "(string, code_points) jsmap"
  hc_params :: "(string, code_points) jsmap"
  hc_body :: http_body
  hc_rawBody :: "code_points option"
  hc_user :: "http_user option"
  hc_requiredRoles :: "string list option"
  hc_requiredPermissions :: "string list option"
  hc_sessionCsrf :: "code_points option"
  hc_correlationId :: "string option"
  hc_state :: "(string, 'j) jsmap"
  hc_sent :: bool
  hc_reply :: "(nat \<times> 'j reply) option"
  hc_responseHeaders :: "(string, string) jsmap"
  hc_setCookies :: "string list"
  hc_reported :: "http_error list"

definition create_context ::
  "string option \<Rightarrow> string \<Rightarrow> (string, string) jsmap \<Rightarrow> (string, code_points) jsmap \<Rightarrow> 'j http_context" where
  "create_context method path headers query =
     \<lparr>hc_method = to_upper (nullish method ''GET''), hc_path = path,
      hc_headers = foldl (\<lambda>m (k, v). AList.update (to_lower k) v m) [] headers, hc_query = query, hc_params = [],
      hc_body = BodyNull, hc_rawBody = None, hc_user = None, hc_requiredRoles = None, hc_requiredPermissions = None,
      hc_sessionCsrf = None, hc_correlationId = None, hc_state = [], hc_sent = False, hc_reply = None,
      hc_responseHeaders = [], hc_setCookies = [], hc_reported = []\<rparr>"

text \<open>What throws between \<open>_sent = true\<close> and \<open>res.end\<close>: the serialisation, then \<open>writeHead\<close> for a status outside 100 to 999.\<close>

definition body_failure :: "error_body \<Rightarrow> js_error option" where
  "body_failure body =
     (case (case body of LegacyBody _ _ _ d _ \<Rightarrow> d | EnvelopeBody _ _ _ d _ \<Rightarrow> d) of Some (DetailsThrow e) \<Rightarrow> Some e | _ \<Rightarrow> None)"

definition serialise_failure :: "'j reply \<Rightarrow> js_error option" where
  "serialise_failure reply = (case reply of FailingReply e \<Rightarrow> Some e | FaultReply body \<Rightarrow> body_failure body | _ \<Rightarrow> None)"

definition reply_failure :: "'j reply \<Rightarrow> nat \<Rightarrow> js_error option" where
  "reply_failure reply status =
     (case serialise_failure reply of
        Some e \<Rightarrow> Some e
      | None \<Rightarrow> if status < 100 \<or> 999 < status then Some (JsError ''RangeError'' ''Invalid status code'') else None)"

text \<open>\<open>json\<close>, \<open>text\<close>, \<open>html\<close> and \<open>send\<close>: the first call answers or throws, the others return at once.\<close>

definition send :: "'j reply \<Rightarrow> nat \<Rightarrow> 'j http_context \<Rightarrow> (http_error + unit) \<times> 'j http_context" where
  "send reply status c =
     (if hc_sent c then (Inr (), c)
      else
        (case reply_failure reply status of
           None \<Rightarrow> (Inr (), c\<lparr>hc_sent := True, hc_reply := Some (status, reply)\<rparr>)
         | Some e \<Rightarrow> (Inl (Plain e), c\<lparr>hc_sent := True\<rparr>)))"

definition set_header :: "string \<Rightarrow> string \<Rightarrow> 'j http_context \<Rightarrow> 'j http_context" where
  "set_header name v c = c\<lparr>hc_responseHeaders := AList.update name v (hc_responseHeaders c)\<rparr>"

lemma send_sent [simp]: "hc_sent (snd (send r s c))"
  by (simp add: send_def split: option.split)

lemma send_again [simp]: "send r s (snd (send r' s' c)) = (Inr (), snd (send r' s' c))"
  by (simp add: send_def split: option.split)

lemma send_plain:
  "\<not> hc_sent c \<Longrightarrow> serialise_failure r = None \<Longrightarrow> 100 \<le> s \<Longrightarrow> s \<le> 999 \<Longrightarrow>
   send r s c = (Inr (), c\<lparr>hc_sent := True, hc_reply := Some (s, r)\<rparr>)"
  by (simp add: send_def reply_failure_def)

section \<open>Cookies\<close>

datatype same_site = Strict | Lax | NoneSite

record cookie_options =
  ck_httpOnly :: "bool option"
  ck_secure :: "bool option"
  ck_sameSite :: "same_site option"
  ck_maxAge :: "string option"
  ck_path :: "string option"
  ck_domain :: "string option"

definition same_site_name :: "same_site \<Rightarrow> string" where
  "same_site_name s = (case s of Strict \<Rightarrow> ''Strict'' | Lax \<Rightarrow> ''Lax'' | NoneSite \<Rightarrow> ''None'')"

definition when_set :: "string \<Rightarrow> string option \<Rightarrow> string list" where
  "when_set prefix v = (case v of None \<Rightarrow> [] | Some s \<Rightarrow> if s = [] then [] else [prefix @ s])"

fun join_str :: "string \<Rightarrow> string list \<Rightarrow> string" where
  "join_str sep [] = []"
| "join_str sep [w] = w"
| "join_str sep (w # ws) = w @ sep @ join_str sep ws"

definition cookie_pair :: "string \<Rightarrow> code_points \<Rightarrow> string" where
  "cookie_pair name v = name @ CHR ''='' # encode_uri_component v"

definition serialize_cookie :: "bool \<Rightarrow> string \<Rightarrow> code_points \<Rightarrow> cookie_options \<Rightarrow> string" where
  "serialize_cookie production name v options =
     join_str ''; ''
       ([cookie_pair name v] @
        (if nullish (ck_httpOnly options) True then [''HttpOnly''] else []) @
        (if nullish (ck_secure options) production then [''Secure''] else []) @
        [''SameSite='' @ same_site_name (nullish (ck_sameSite options) Lax)] @
        (case ck_maxAge options of None \<Rightarrow> [] | Some n \<Rightarrow> [''Max-Age='' @ n]) @
        when_set ''Path='' (ck_path options) @ when_set ''Domain='' (ck_domain options))"

definition set_cookie :: "bool \<Rightarrow> string \<Rightarrow> code_points \<Rightarrow> cookie_options \<Rightarrow> 'j http_context \<Rightarrow> 'j http_context" where
  "set_cookie production name v options c =
     c\<lparr>hc_setCookies := hc_setCookies c @ [serialize_cookie production name v options]\<rparr>"

text \<open>\<open>cookie(name)\<close>: the first part of the \<open>Cookie\<close> header whose key is the name, decoded.\<close>

fun find_cookie :: "string \<Rightarrow> string list \<Rightarrow> js_error + code_points option" where
  "find_cookie name [] = Inr None"
| "find_cookie name (part # parts) =
     (case split_on CHR ''='' (trim part) of
        [] \<Rightarrow> find_cookie name parts
      | k # rest \<Rightarrow>
          if trim k = name then and_then (decode_uri_component (join_with CHR ''='' rest)) (\<lambda>v. Inr (Some v))
          else find_cookie name parts)"

definition cookie :: "string \<Rightarrow> 'j http_context \<Rightarrow> js_error + code_points option" where
  "cookie name c = find_cookie name (split_on CHR '';'' (nullish (map_of (hc_headers c) ''cookie'') []))"

text \<open>What a client sends back: the pairs of the cookies it holds, separated by a semicolon and a blank.\<close>

definition cookie_header :: "(string \<times> code_points) list \<Rightarrow> string" where
  "cookie_header jar = join_str ''; '' (map (\<lambda>(n, v). cookie_pair n v) jar)"

definition cookie_name :: "string \<Rightarrow> bool" where
  "cookie_name n \<longleftrightarrow> n \<noteq> [] \<and> list_all (\<lambda>c. \<not> is_space c \<and> c \<noteq> CHR '';'' \<and> c \<noteq> CHR ''='') n"

definition plain_char :: "char \<Rightarrow> bool" where
  "plain_char c \<longleftrightarrow> \<not> is_space c \<and> c \<noteq> CHR '';'' \<and> c \<noteq> CHR ''=''"

lemma plain_of_char: "plain_char c \<longleftrightarrow> (of_char c :: nat) \<notin> {9, 10, 11, 12, 13, 32, 160, 59, 61}"
proof -
  have "c = d \<longleftrightarrow> (of_char c :: nat) = of_char d" for d by (simp only: of_char_eq_iff)
  from this [of "CHR '';''"] this [of "CHR ''=''"] show ?thesis by (simp add: plain_char_def is_space_def)
qed

lemma plain_hex: "d < 16 \<Longrightarrow> plain_char (hex_upper d)"
  by (auto simp: plain_of_char hex_upper_def)

lemma plain_percent_encode: "list_all plain_char (percent_encode b)"
proof -
  have "unat b div 16 < 16" using unat_below [of b] by simp
  moreover have "plain_char percent" by (simp add: plain_of_char percent_def)
  ultimately show ?thesis by (simp add: percent_encode_def plain_hex)
qed

lemma plain_encode_point: "list_all plain_char (encode_uri_point c)"
proof (cases "unreserved c")
  case True
  then have "plain_char (char_of c)" using unreserved_below [OF True] by (auto simp: plain_of_char unreserved_def)
  with True show ?thesis by (simp add: encode_uri_point_def)
next
  case False
  then show ?thesis using plain_percent_encode by (auto simp: encode_uri_point_def list_all_iff)
qed

lemma plain_encode: "list_all plain_char (encode_uri_component s)"
  using plain_encode_point by (auto simp: encode_uri_component_def list_all_iff)

lemma split_join_str:
  "\<forall>w \<in> set (w # ws). CHR '';'' \<notin> set w \<Longrightarrow>
   split_on CHR '';'' (join_str ''; '' (w # ws)) = w # map (Cons CHR '' '') ws"
proof (induction ws arbitrary: w)
  case Nil
  then show ?case by (simp add: split_on_absent)
next
  case (Cons v ws)
  then have "split_on CHR '';'' (w @ CHR '';'' # CHR '' '' # join_str ''; '' (v # ws)) = w # split_on CHR '';'' (CHR '' '' # join_str ''; '' (v # ws))"
    by (intro split_on_append) auto
  with Cons show ?case by simp
qed

lemma trim_pair:
  assumes "cookie_name n"
  shows "trim (cookie_pair n v) = cookie_pair n v" "trim (CHR '' '' # cookie_pair n v) = cookie_pair n v" "trim n = n"
proof -
  have name: "n \<noteq> []" "\<forall>c \<in> set n. \<not> is_space c" using assms by (auto simp: cookie_name_def list_all_iff)
  have enc: "\<forall>c \<in> set (encode_uri_component v). \<not> is_space c"
    using plain_encode [of v] by (auto simp: list_all_iff plain_char_def)
  have blank: "is_space CHR '' ''" "\<not> is_space CHR ''=''" by (simp_all add: is_space_def)
  have clean: "trim w = w" if "\<forall>c \<in> set w. \<not> is_space c" for w
  proof -
    have d: "dropWhile is_space u = u" if "\<forall>c \<in> set u. \<not> is_space c" for u using that by (cases u) auto
    from d [of w] d [of "rev w"] that show ?thesis by (simp add: trim_def)
  qed
  have pair: "\<forall>c \<in> set (cookie_pair n v). \<not> is_space c" using name enc blank by (auto simp: cookie_pair_def)
  from clean [OF pair] show "trim (cookie_pair n v) = cookie_pair n v" .
  then show "trim (CHR '' '' # cookie_pair n v) = cookie_pair n v" using blank by (simp add: trim_def)
  from clean name show "trim n = n" by blast
qed

text \<open>What a client stores of a \<open>Set-Cookie\<close> value: the part before the first semicolon.\<close>

lemma join_str_head: "ws \<noteq> [] \<Longrightarrow> join_str sep (w # ws) = w @ sep @ join_str sep ws"
  by (cases ws) simp_all

lemma stored_cookie:
  "cookie_name n \<Longrightarrow> takeWhile (\<lambda>x. x \<noteq> CHR '';'') (serialize_cookie production n v options) = cookie_pair n v"
proof -
  assume n: "cookie_name n"
  have c: "\<forall>x \<in> set (cookie_pair n v). x \<noteq> CHR '';''"
    using n plain_encode [of v] by (auto simp: cookie_pair_def cookie_name_def list_all_iff plain_char_def)
  have stop: "takeWhile (\<lambda>x. x \<noteq> CHR '';'') (w @ CHR '';'' # r) = w" if "\<forall>x \<in> set w. x \<noteq> CHR '';''" for w r
    using that by (induction w) auto
  have "join_str ''; '' ([w] @ A @ B @ [u] @ D) = w @ CHR '';'' # CHR '' '' # join_str ''; '' (A @ B @ [u] @ D)" for w u A B D
    using join_str_head [of "A @ B @ [u] @ D" "''; ''" w] by simp
  then have "\<exists>r. serialize_cookie production n v options = cookie_pair n v @ CHR '';'' # r"
    unfolding serialize_cookie_def by metis
  then show ?thesis using stop [OF c] by force
qed

lemma split_pair: "cookie_name n \<Longrightarrow> split_on CHR ''='' (cookie_pair n v) = [n, encode_uri_component v]"
proof -
  assume "cookie_name n"
  then have "CHR ''='' \<notin> set n" by (auto simp: cookie_name_def list_all_iff)
  moreover have "CHR ''='' \<notin> set (encode_uri_component v)" using plain_encode [of v] by (auto simp: list_all_iff plain_char_def)
  ultimately show ?thesis by (simp add: cookie_pair_def split_on_append split_on_absent)
qed

lemma find_cookie_pairs:
  assumes "\<forall>(n, v) \<in> set jar. cookie_name n \<and> list_all scalar_value v"
    "map trim parts = map (\<lambda>(n, v). cookie_pair n v) jar"
  shows "find_cookie name parts = Inr (map_of jar name)"
  using assms
proof (induction jar arbitrary: parts)
  case Nil
  then show ?case by simp
next
  case (Cons e jar)
  obtain n v where e: "e = (n, v)" by (cases e)
  obtain part rest where p: "parts = part # rest" "trim part = cookie_pair n v" "map trim rest = map (\<lambda>(n, v). cookie_pair n v) jar"
    using Cons.prems(2) e by (cases parts) auto
  have "cookie_name n" "list_all scalar_value v" using Cons.prems(1) e by auto
  then show ?case using Cons p e by (simp add: split_pair trim_pair(3) uri_round_trip)
qed

lemma cookie_round_trip:
  assumes "jar \<noteq> []" "\<forall>(n, v) \<in> set jar. cookie_name n \<and> list_all scalar_value v"
    "map_of (hc_headers c) ''cookie'' = Some (cookie_header jar)"
  shows "cookie name c = Inr (map_of jar name)"
proof -
  obtain e es where Cons: "jar = e # es" using assms(1) by (cases jar) auto
  let ?ws = "map (\<lambda>(n, v). cookie_pair n v) jar"
  have "CHR '';'' \<notin> set (cookie_pair n v)" if "(n, v) \<in> set jar" for n v
    using that assms(2) plain_encode [of v] by (fastforce simp: cookie_pair_def cookie_name_def list_all_iff plain_char_def)
  then have "\<forall>w \<in> set ?ws. CHR '';'' \<notin> set w" by auto
  then have "split_on CHR '';'' (cookie_header jar) = hd ?ws # map (Cons CHR '' '') (tl ?ws)"
    using split_join_str [of "hd ?ws" "tl ?ws"] Cons by (simp add: cookie_header_def case_prod_beta)
  note parts = this
  have "map trim (hd ?ws # map (Cons CHR '' '') (tl ?ws)) = ?ws"
    using assms(2) unfolding Cons by (auto simp: trim_pair)
  from find_cookie_pairs [OF assms(2) this, of name] parts assms(3) show ?thesis
    by (simp only: cookie_def nullish_simps)
qed

section \<open>Middleware\<close>

datatype ('c, 'e) hmw =
    HSettle "'e + unit"
  | HRead "'c \<Rightarrow> ('c, 'e) hmw"
  | HWrite "'c \<Rightarrow> 'c" "('c, 'e) hmw"
  | HNext "'e + unit \<Rightarrow> ('c, 'e) hmw"

primrec run_hmw :: "('c, 'e) hmw \<Rightarrow> ('c \<Rightarrow> ('e + unit) \<times> 'c) \<Rightarrow> 'c \<Rightarrow> ('e + unit) \<times> 'c" where
  "run_hmw (HSettle r) nxt c = (r, c)"
| "run_hmw (HRead f) nxt c = run_hmw (f c) nxt c"
| "run_hmw (HWrite f m) nxt c = run_hmw m nxt (f c)"
| "run_hmw (HNext k) nxt c = (case nxt c of (r, c') \<Rightarrow> run_hmw (k r) nxt c')"

text \<open>\<open>await next()\<close> as the last statement, and a handler, which does not get \<open>next\<close>.\<close>

definition await_next :: "('c, 'e) hmw" where
  "await_next = HNext HSettle"

definition handler_step :: "('c \<Rightarrow> ('e + unit) \<times> 'c) \<Rightarrow> ('c, 'e) hmw" where
  "handler_step h = HRead (\<lambda>c. HWrite (\<lambda>_. snd (h c)) (HSettle (fst (h c))))"

text \<open>\<open>runPipeline\<close>.  Nothing counts the calls of \<open>next\<close>.\<close>

fun run_http_pipeline :: "('c, 'e) hmw list \<Rightarrow> 'c \<Rightarrow> ('e + unit) \<times> 'c" where
  "run_http_pipeline [] c = (Inr (), c)"
| "run_http_pipeline (m # ms) c = run_hmw m (run_http_pipeline ms) c"

named_theorems hmw_run

lemma run_await_next [simp, hmw_run]: "run_hmw await_next nxt c = nxt c"
  by (simp add: await_next_def case_prod_beta)

lemma run_handler_step [simp, hmw_run]: "run_hmw (handler_step h) nxt c = h c"
  by (simp add: handler_step_def)

text \<open>What every middleware keeps, the pipeline keeps; and a pipeline is its first part run around the second.\<close>

primrec hmw_keeps :: "('c \<Rightarrow> bool) \<Rightarrow> ('c, 'e) hmw \<Rightarrow> bool" where
  "hmw_keeps P (HSettle r) \<longleftrightarrow> True"
| "hmw_keeps P (HRead f) \<longleftrightarrow> (\<forall>c. P c \<longrightarrow> hmw_keeps P (f c))"
| "hmw_keeps P (HWrite f m) \<longleftrightarrow> (\<forall>c. P c \<longrightarrow> P (f c)) \<and> hmw_keeps P m"
| "hmw_keeps P (HNext k) \<longleftrightarrow> (\<forall>r. hmw_keeps P (k r))"

lemma run_hmw_keeps:
  assumes "\<And>c. P c \<Longrightarrow> P (snd (nxt c))"
  shows "hmw_keeps P m \<Longrightarrow> P c \<Longrightarrow> P (snd (run_hmw m nxt c))"
proof (induction m arbitrary: c)
  case (HNext k)
  obtain r c' where n: "nxt c = (r, c')" by (cases "nxt c")
  with assms HNext.prems have "P c'" by force
  with HNext n show ?case by auto
qed auto

lemma run_hmw_cong: "(\<And>c. nxt c = nxt' c) \<Longrightarrow> run_hmw m nxt c = run_hmw m nxt' c"
  by (induction m arbitrary: c) (auto split: prod.split)

end
