(* ===== verification/Rbac.thy ===== *)
theory Rbac
  imports Prelude
begin

text \<open>
  \<open>RbacService\<close> of \<open>packages/core/src/auth/rbac.ts\<close>: a hierarchy maps a role to the roles it inherits from, the constructor
  flattens the permissions of every role by a breadth-first walk (\<open>flatten_perms\<close>), \<open>has_permission\<close> looks them up and
  \<open>has_role\<close> compares names.  Role names are not names of \<open>Object.prototype\<close>.  The walk ends on any hierarchy, cyclic ones
  included: each turn visits a new role or shortens the queue.

  \<open>has_permission_iff\<close>: a permission is granted exactly when a role reachable from one of the user's roles has it.
\<close>

type_synonym role_map = "(string, string list) jsmap"

definition role_entry :: "role_map \<Rightarrow> string \<Rightarrow> string list" where
  "role_entry m r = nullish (map_of m r) []"

fun set_add :: "string list \<Rightarrow> string \<Rightarrow> string list" where
  "set_add s x = (if x \<in> set s then s else s @ [x])"

definition set_add_all :: "string list \<Rightarrow> string list \<Rightarrow> string list" where
  "set_add_all s xs = foldl set_add s xs"

lemma set_add_all_set [simp]: "set (set_add_all s xs) = set s \<union> set xs"
  by (induction xs arbitrary: s) (auto simp: set_add_all_def)

definition all_roles :: "role_map \<Rightarrow> string set" where
  "all_roles h = (\<Union>e \<in> set h. set (snd e))"

lemma finite_all_roles [simp, intro]: "finite (all_roles h)"
  by (simp add: all_roles_def)

lemma role_entry_roles: "set (role_entry h r) \<subseteq> all_roles h"
proof (cases "map_of h r")
  case None
  then show ?thesis by (simp add: role_entry_def)
next
  case (Some rs)
  then have "(r, rs) \<in> set h" by (rule map_of_SomeD)
  with Some show ?thesis by (force simp: role_entry_def all_roles_def)
qed

text \<open>One turn of the loop takes the head of the queue.\<close>

function flatten_perms :: "role_map \<Rightarrow> role_map \<Rightarrow> string list \<Rightarrow> string list \<Rightarrow> string list \<Rightarrow> string list" where
  "flatten_perms hierarchy rolePerms [] visited result = result"
| "flatten_perms hierarchy rolePerms (role # queue) visited result =
     (if role \<in> set visited then flatten_perms hierarchy rolePerms queue visited result
      else
        (let visited' = set_add visited role;
             result' = set_add_all result (role_entry rolePerms role);
             queue' = queue @ filter (\<lambda>r. r \<notin> set visited') (role_entry hierarchy role)
         in flatten_perms hierarchy rolePerms queue' visited' result'))"
  by pat_completeness auto
termination
proof (relation "measures [\<lambda>(h, p, q, v, r). card ((all_roles h \<union> set q) - set v), \<lambda>(h, p, q, v, r). length q]", goal_cases)
  case 1
  then show ?case by simp
next
  case (2 h p role q v r)
  then have "all_roles h \<union> set (role # q) - set v = all_roles h \<union> set q - set v" by auto
  then show ?case by simp
next
  case (3 h p role q v r v' r' q')
  then have "set v' = insert role (set v)" "set q' \<subseteq> set q \<union> all_roles h" using role_entry_roles [of h role] by auto
  then have "all_roles h \<union> set q' - set v' \<subset> all_roles h \<union> set (role # q) - set v" using 3 by auto
  then have "card (all_roles h \<union> set q' - set v') < card (all_roles h \<union> set (role # q) - set v)"
    by (intro psubset_card_mono) auto
  then show ?case by simp
qed

record rbac_service =
  rolePermsOf :: "(string, string list) jsmap"

definition flattened :: "role_map \<Rightarrow> role_map \<Rightarrow> string \<Rightarrow> string list" where
  "flattened hierarchy rolePermissions role = flatten_perms hierarchy rolePermissions [role] [] []"

text \<open>The constructor: the roles of the hierarchy, then those that occur in the permission table only.\<close>

definition register_role :: "role_map \<Rightarrow> role_map \<Rightarrow> (string, string list) jsmap \<Rightarrow> string \<Rightarrow> (string, string list) jsmap" where
  "register_role h p m role = (if map_has m role then m else AList.update role (flattened h p role) m)"

definition new_rbac :: "role_map \<Rightarrow> role_map \<Rightarrow> rbac_service" where
  "new_rbac hierarchy rolePermissions =
     (let first = foldl (\<lambda>m role. AList.update role (flattened hierarchy rolePermissions role) m) [] (map_keys hierarchy)
      in \<lparr>rolePermsOf = foldl (register_role hierarchy rolePermissions) first (map_keys rolePermissions)\<rparr>)"

definition is_inherited :: "string \<Rightarrow> string \<Rightarrow> bool" where
  "is_inherited fromRole targetRole = False"

definition has_role :: "rbac_service \<Rightarrow> string list \<Rightarrow> string \<Rightarrow> bool" where
  "has_role svc userRoles requiredRole \<longleftrightarrow>
     requiredRole \<in> set userRoles \<or>
     list_ex (\<lambda>userRole. userRole = requiredRole \<or> is_inherited userRole requiredRole) userRoles"

definition has_permission :: "rbac_service \<Rightarrow> string list \<Rightarrow> string \<Rightarrow> bool" where
  "has_permission svc userRoles permission \<longleftrightarrow>
     list_ex (\<lambda>role. case map_of (rolePermsOf svc) role of None \<Rightarrow> False | Some perms \<Rightarrow> permission \<in> set perms) userRoles"

section \<open>The walk\<close>

inductive inherits :: "role_map \<Rightarrow> string \<Rightarrow> string \<Rightarrow> bool" for h r where
  inherits_refl: "inherits h r r"
| inherits_step: "inherits h r s \<Longrightarrow> t \<in> set (role_entry h s) \<Longrightarrow> inherits h r t"

lemma inherits_trans: "inherits h s t \<Longrightarrow> inherits h r s \<Longrightarrow> inherits h r t"
  by (induction rule: inherits.induct) (auto intro: inherits.intros)

text \<open>What the walk finds: the permissions of the roles reachable from the queue by unvisited roles.  Every role the queue
  and the visited roles lead to is visited or still reachable from the queue.\<close>

lemma flatten_sound:
  "x \<in> set (flatten_perms h p q v res) \<Longrightarrow>
   x \<in> set res \<or> (\<exists>r \<in> set q. \<exists>s. inherits h r s \<and> x \<in> set (role_entry p s))"
proof (induction h p q v res rule: flatten_perms.induct)
  case (1 h p v res)
  then show ?case by simp
next
  case (2 h p role q v res)
  show ?case
  proof (cases "role \<in> set v")
    case True
    with 2 show ?thesis by auto
  next
    case False
    from 2(2) [OF False refl refl refl] 2(3) False
    consider "x \<in> set res" | "x \<in> set (role_entry p role)" | r s where "r \<in> set q" "inherits h r s" "x \<in> set (role_entry p s)"
      | r s where "r \<in> set (role_entry h role)" "inherits h r s" "x \<in> set (role_entry p s)"
      by (auto simp: Let_def)
    then show ?thesis
    proof cases
      case (4 r s)
      then have "inherits h role s" by (meson inherits_refl inherits_step inherits_trans)
      with 4 show ?thesis by auto
    qed (auto intro: inherits_refl)
  qed
qed

lemma flatten_keeps: "set res \<subseteq> set (flatten_perms h p q v res)"
proof (induction h p q v res rule: flatten_perms.induct)
  case (2 h p role q v res)
  then show ?case by (cases "role \<in> set v") (auto simp: Let_def)
qed simp

definition closed_walk :: "role_map \<Rightarrow> role_map \<Rightarrow> string list \<Rightarrow> string list \<Rightarrow> string list \<Rightarrow> bool" where
  "closed_walk h p q v res \<longleftrightarrow>
     (\<forall>r \<in> set v. set (role_entry p r) \<subseteq> set res \<and> set (role_entry h r) \<subseteq> set v \<union> set q)"

lemma flatten_complete:
  "closed_walk h p q v res \<Longrightarrow> r \<in> set v \<union> set q \<Longrightarrow> inherits h r s \<Longrightarrow>
   set (role_entry p s) \<subseteq> set (flatten_perms h p q v res)"
proof (induction h p q v res arbitrary: r rule: flatten_perms.induct)
  case (1 h p v res)
  from 1(3,1,2) have "s \<in> set v"
    by (induction rule: inherits.induct) (auto simp: closed_walk_def)
  with 1(1) show ?case by (auto simp: closed_walk_def)
next
  case (2 h p role q v res)
  show ?case
  proof (cases "role \<in> set v")
    case True
    with 2(3) have "closed_walk h p q v res" by (auto simp: closed_walk_def)
    moreover have "r \<in> set v \<union> set q" using 2(4) True by auto
    ultimately show ?thesis using 2(1) [OF True _ _ 2(5)] True by simp
  next
    case False
    let ?v = "set_add v role" and ?res = "set_add_all res (role_entry p role)"
    let ?q = "q @ filter (\<lambda>r. r \<notin> set ?v) (role_entry h role)"
    have "closed_walk h p ?q ?v ?res" using 2(3) False by (auto simp: closed_walk_def)
    moreover have "r \<in> set ?v \<union> set ?q" using 2(4) False by auto
    ultimately show ?thesis using 2(2) [OF False refl refl refl _ _ 2(5)] False by (simp add: Let_def)
  qed
qed

lemma flattened_iff: "x \<in> set (flattened h p r) \<longleftrightarrow> (\<exists>s. inherits h r s \<and> x \<in> set (role_entry p s))"
  using flatten_sound [of x h p "[r]" "[]" "[]"] flatten_complete [of h p "[r]" "[]" "[]" r]
  by (auto simp: flattened_def closed_walk_def)

section \<open>The service\<close>

definition flat_entries :: "role_map \<Rightarrow> role_map \<Rightarrow> (string, string list) jsmap \<Rightarrow> bool" where
  "flat_entries h p m \<longleftrightarrow> (\<forall>r f. map_of m r = Some f \<longrightarrow> f = flattened h p r)"

lemma first_entries:
  "map_of (foldl (\<lambda>m role. AList.update role (flattened h p role) m) m0 rs) r =
     (if r \<in> set rs then Some (flattened h p r) else map_of m0 r)"
  by (induction rs arbitrary: m0) auto

lemma register_entries:
  "flat_entries h p m0 \<Longrightarrow> map_of (foldl (register_role h p) m0 rs) r =
     (if r \<in> set rs \<or> map_of m0 r \<noteq> None then Some (flattened h p r) else None)"
proof (induction rs arbitrary: m0)
  case Nil
  then show ?case by (auto simp: flat_entries_def)
next
  case (Cons a rs)
  then have "flat_entries h p (register_role h p m0 a)" by (auto simp: flat_entries_def register_role_def)
  from Cons.IH [OF this] show ?case by (auto simp: register_role_def map_has_def)
qed

lemma role_perms:
  "map_of (rolePermsOf (new_rbac h p)) r =
     (if r \<in> fst ` set h \<or> r \<in> fst ` set p then Some (flattened h p r) else None)"
proof -
  have "flat_entries h p (foldl (\<lambda>m role. AList.update role (flattened h p role) m) [] (map_keys h))"
    by (auto simp: flat_entries_def first_entries split: if_splits)
  from register_entries [OF this] show ?thesis
    by (auto simp: new_rbac_def Let_def first_entries map_keys_def)
qed

lemma unregistered_role:
  assumes "r \<notin> fst ` set h" "inherits h r s"
  shows "s = r"
  using assms(2)
proof induction
  case (inherits_step s t)
  moreover have "map_of h r = None" using assms(1) by (simp add: map_of_eq_None_iff)
  ultimately show ?case by (simp add: role_entry_def)
qed simp

lemma has_permission_iff:
  "has_permission (new_rbac h p) userRoles x \<longleftrightarrow>
   (\<exists>r \<in> set userRoles. \<exists>s. inherits h r s \<and> x \<in> set (role_entry p s))"
proof -
  have "(case map_of (rolePermsOf (new_rbac h p)) r of None \<Rightarrow> False | Some perms \<Rightarrow> x \<in> set perms) \<longleftrightarrow>
      (\<exists>s. inherits h r s \<and> x \<in> set (role_entry p s))" for r
  proof (cases "r \<in> fst ` set h \<or> r \<in> fst ` set p")
    case True
    then show ?thesis by (simp add: role_perms flattened_iff)
  next
    case False
    then have "map_of p r = None" by (simp add: map_of_eq_None_iff)
    moreover have "s = r" if "inherits h r s" for s using that False unregistered_role by blast
    moreover have "role_entry p r = []" using \<open>map_of p r = None\<close> by (simp add: role_entry_def)
    ultimately have "\<not> (\<exists>s. inherits h r s \<and> x \<in> set (role_entry p s))" by (metis empty_iff list.set(1))
    then show ?thesis using False by (auto simp: role_perms)
  qed
  then show ?thesis by (simp add: has_permission_def list_ex_iff)
qed

lemma has_role_direct: "has_role svc userRoles r \<longleftrightarrow> r \<in> set userRoles"
  by (auto simp: has_role_def is_inherited_def list_ex_iff)

end
