(* ===== verification/HttpAuth.thy ===== *)
theory HttpAuth
  imports HttpContext Rbac
begin

text \<open>
  The middleware of \<open>packages/core/src/http/auth.middleware.ts\<close> and \<open>rbacGuard\<close> of \<open>packages/core/src/auth/rbac.ts\<close>.
  \<open>jwt.verify\<close> is an argument of \<open>auth_middleware\<close> (what it returns of a token), and so is what the audit writer does
  before a denial.  Header values are strings of bytes; the CSRF comparison is on the UTF-8 buffers.
\<close>

section \<open>Bearer tokens\<close>

record jwt_payload =
  jp_sub :: string
  jp_email :: "string option"
  jp_roles :: "string list option"

definition auth_middleware :: "(string \<Rightarrow> jwt_payload option) \<Rightarrow> ('j http_context, http_error) hmw" where
  "auth_middleware verify =
     HRead (\<lambda>c.
       case map_of (hc_headers c) ''authorization'' of
         None \<Rightarrow> HSettle (Inl (unauthorized ''Missing Bearer token''))
       | Some authHeader \<Rightarrow>
           if \<not> starts_with ''Bearer '' authHeader then HSettle (Inl (unauthorized ''Missing Bearer token''))
           else
             (case verify (drop 7 authHeader) of
                None \<Rightarrow> HSettle (Inl (unauthorized ''Invalid or expired token''))
              | Some payload \<Rightarrow>
                  if jp_sub payload = [] then HSettle (Inl (unauthorized ''Invalid or expired token''))
                  else
                    HWrite (\<lambda>c. c\<lparr>hc_user := Some \<lparr>hu_id = jp_sub payload, hu_email = nullish (jp_email payload) [],
                                                   hu_roles = nullish (jp_roles payload) []\<rparr>\<rparr>)
                      await_next))"

definition require_roles :: "string list \<Rightarrow> ('j http_context, http_error) hmw" where
  "require_roles roles =
     HRead (\<lambda>c.
       case hc_user c of
         None \<Rightarrow> HSettle (Inl (unauthorized ''Unauthorized''))
       | Some u \<Rightarrow>
           if \<not> list_ex (\<lambda>r. r \<in> set (hu_roles u)) roles then HSettle (Inl (forbidden ''Insufficient permissions''))
           else await_next)"

section \<open>Headers and CORS\<close>

definition security_header_list :: "(string \<times> string) list" where
  "security_header_list =
     [(''Content-Security-Policy'',
       ''default-src 'self'; script-src 'self'; object-src 'none'; base-uri 'self'; frame-ancestors 'none'' @ [CHR 0x27]),
      (''Strict-Transport-Security'', ''max-age=63072000; includeSubDomains; preload''),
      (''X-Content-Type-Options'', ''nosniff''),
      (''X-Frame-Options'', ''DENY''),
      (''Cross-Origin-Opener-Policy'', ''same-origin''),
      (''Cross-Origin-Resource-Policy'', ''same-origin''),
      (''Referrer-Policy'', ''strict-origin-when-cross-origin''),
      (''Permissions-Policy'', ''geolocation=(), microphone=(), camera=()'')]"

definition security_headers :: "('j http_context, http_error) hmw" where
  "security_headers = HWrite (\<lambda>c. foldl (\<lambda>c (n, v). set_header n v c) c security_header_list) await_next"

definition allowed_origin :: "string list \<Rightarrow> string \<Rightarrow> string" where
  "allowed_origin origins origin =
     (if ''*'' \<in> set origins then ''*'' else if origin \<in> set origins then origin else [])"

definition cors_write :: "string \<Rightarrow> 'j http_context \<Rightarrow> 'j http_context" where
  "cors_write allowed c =
     (if allowed = [] then c
      else
        (let c = set_header ''Access-Control-Allow-Origin'' allowed c;
             c = set_header ''Access-Control-Allow-Methods'' ''GET,POST,PUT,PATCH,DELETE,OPTIONS'' c;
             c = set_header ''Access-Control-Allow-Headers'' ''Content-Type, Authorization, X-CSRF-Token'' c;
             c = set_header ''Access-Control-Max-Age'' ''86400'' c
         in if allowed \<noteq> ''*'' then set_header ''Vary'' ''Origin'' c else c))"

definition cors_middleware :: "string list \<Rightarrow> js_error + ('j http_context, http_error) hmw" where
  "cors_middleware origins =
     (if origins = [] then Inl (JsError ''Error'' ''corsMiddleware: origins list must not be empty'')
      else
        Inr (HWrite (\<lambda>c. cors_write (allowed_origin origins (nullish (map_of (hc_headers c) ''origin'') [])) c)
              (HRead (\<lambda>c. if hc_method c = ''OPTIONS'' then handler_step (send EmptyReply 204)
                          else await_next))))"

section \<open>CSRF\<close>

definition safe_methods :: "string list" where
  "safe_methods = [''GET'', ''HEAD'', ''OPTIONS'']"

definition csrf_refusal :: "'j http_context \<Rightarrow> string option" where
  "csrf_refusal c =
     (let session = nullish (hc_sessionCsrf c) []; header = nullish (map_of (hc_headers c) ''x-csrf-token'') []
      in if session = [] then Some ''CSRF validation failed: no session CSRF token''
         else if header = [] then Some ''CSRF validation failed: missing X-CSRF-Token header''
         else if length (utf8_encode session) \<noteq> length (utf8_encode (codes header))
           then Some ''CSRF validation failed: token mismatch''
         else if utf8_encode session \<noteq> utf8_encode (codes header) then Some ''CSRF validation failed: token mismatch''
         else None)"

definition csrf_middleware :: "('j http_context, http_error) hmw" where
  "csrf_middleware =
     HRead (\<lambda>c. if hc_method c \<in> set safe_methods then await_next
                else (case csrf_refusal c of Some message \<Rightarrow> HSettle (Inl (forbidden message)) | None \<Rightarrow> await_next))"

section \<open>Roles and permissions\<close>

datatype denial = DeniedRoles "string list" | DeniedPermissions "string list"

type_synonym 'j audit_writer = "denial \<Rightarrow> 'j http_context \<Rightarrow> (http_error + unit) \<times> 'j http_context"

definition denial_error :: "denial \<Rightarrow> http_error" where
  "denial_error d =
     (case d of
        DeniedRoles required \<Rightarrow> forbidden (''Forbidden: requires one of roles: '' @ join_str '', '' required)
      | DeniedPermissions required \<Rightarrow> forbidden (''Forbidden: requires permissions: '' @ join_str '', '' required))"

text \<open>\<open>denied\<close> writes the audit entry, when there is a writer, and throws; a writer that fails throws instead.\<close>

definition denied :: "'j audit_writer option \<Rightarrow> denial \<Rightarrow> ('j http_context, http_error) hmw" where
  "denied audit d =
     (case audit of
        None \<Rightarrow> HSettle (Inl (denial_error d))
      | Some write \<Rightarrow>
          HRead (\<lambda>c. case write d c of (r, c') \<Rightarrow>
            HWrite (\<lambda>_. c') (HSettle (case r of Inl e \<Rightarrow> Inl e | Inr _ \<Rightarrow> Inl (denial_error d)))))"

definition user_roles :: "'j http_context \<Rightarrow> string list" where
  "user_roles c = (case hc_user c of None \<Rightarrow> [] | Some u \<Rightarrow> hu_roles u)"

definition guard_denial :: "rbac_service \<Rightarrow> 'j http_context \<Rightarrow> denial option" where
  "guard_denial service c =
     (let requiredRoles = nullish (hc_requiredRoles c) []; requiredPerms = nullish (hc_requiredPermissions c) []
      in if requiredRoles \<noteq> [] \<and> \<not> list_ex (has_role service (user_roles c)) requiredRoles then Some (DeniedRoles requiredRoles)
         else if requiredPerms \<noteq> [] \<and> \<not> list_all (has_permission service (user_roles c)) requiredPerms
           then Some (DeniedPermissions requiredPerms)
         else None)"

definition rbac_guard :: "rbac_service \<Rightarrow> 'j audit_writer option \<Rightarrow> ('j http_context, http_error) hmw" where
  "rbac_guard service audit =
     HRead (\<lambda>c. case guard_denial service c of Some d \<Rightarrow> denied audit d | None \<Rightarrow> await_next)"

section \<open>Lemmas\<close>

lemma csrf_accepts:
  "csrf_refusal c = None \<longleftrightarrow>
   (\<exists>session header. hc_sessionCsrf c = Some session \<and> session \<noteq> [] \<and>
      map_of (hc_headers c) ''x-csrf-token'' = Some header \<and> header \<noteq> [] \<and>
      utf8_encode session = utf8_encode (codes header))"
  by (cases "hc_sessionCsrf c"; cases "map_of (hc_headers c) ''x-csrf-token''") (auto simp: csrf_refusal_def Let_def)

lemma run_csrf:
  "run_hmw csrf_middleware nxt c =
   (if hc_method c \<in> set safe_methods then nxt c
    else (case csrf_refusal c of Some m \<Rightarrow> (Inl (forbidden m), c) | None \<Rightarrow> nxt c))"
  by (auto simp: csrf_middleware_def split: option.split)

lemma run_auth:
  "run_hmw (auth_middleware verify) nxt c =
   (case map_of (hc_headers c) ''authorization'' of
      None \<Rightarrow> (Inl (unauthorized ''Missing Bearer token''), c)
    | Some h \<Rightarrow>
        if \<not> starts_with ''Bearer '' h then (Inl (unauthorized ''Missing Bearer token''), c)
        else (case verify (drop 7 h) of
                None \<Rightarrow> (Inl (unauthorized ''Invalid or expired token''), c)
              | Some p \<Rightarrow>
                  if jp_sub p = [] then (Inl (unauthorized ''Invalid or expired token''), c)
                  else nxt (c\<lparr>hc_user := Some \<lparr>hu_id = jp_sub p, hu_email = nullish (jp_email p) [], hu_roles = nullish (jp_roles p) []\<rparr>\<rparr>)))"
  by (auto simp: auth_middleware_def split: option.split)

text \<open>The guard lets a request through exactly when the user has one of the required roles by name and, by inheritance,
  every required permission.\<close>

lemma guard_denial_none:
  "guard_denial service c = None \<longleftrightarrow>
   (nullish (hc_requiredRoles c) [] = [] \<or> (\<exists>r \<in> set (nullish (hc_requiredRoles c) []). r \<in> set (user_roles c))) \<and>
   (\<forall>p \<in> set (nullish (hc_requiredPermissions c) []). has_permission service (user_roles c) p)"
  by (auto simp: guard_denial_def Let_def list_ex_iff list_all_iff has_role_direct)

lemma guard_idle: "hc_requiredRoles c = None \<Longrightarrow> hc_requiredPermissions c = None \<Longrightarrow> run_hmw (rbac_guard service audit) nxt c = nxt c"
  by (simp add: rbac_guard_def guard_denial_def)

lemma run_denied:
  "fst (run_hmw (denied audit d) nxt c) = Inl (denial_error d) \<or>
   (\<exists>write e. audit = Some write \<and> fst (write d c) = Inl e \<and> fst (run_hmw (denied audit d) nxt c) = Inl e)"
  by (cases audit) (auto simp: denied_def split: prod.split sum.split)

lemma run_guard:
  "run_hmw (rbac_guard service audit) nxt c =
   (case guard_denial service c of Some d \<Rightarrow> run_hmw (denied audit d) nxt c | None \<Rightarrow> nxt c)"
  by (auto simp: rbac_guard_def split: option.split)

end
