(* ===== verification/HttpRouter.thy ===== *)
theory HttpRouter
  imports HttpContext PathPattern
begin

text \<open>
  \<open>Router\<close> of \<open>packages/router/src/router.ts\<close>: registration, matching, the per-route pipeline, the validation middleware and the
  error handler.  The metadata that \<open>add\<close> reads from the decorators is an argument (\<open>route_meta\<close>), its rate limiter the
  middleware that \<open>RateLimiter.middleware()\<close> returns.  A request path is the ASCII string of \<open>URL.pathname\<close>; the query
  and the parameters are maps whose keys are not names of \<open>Object.prototype\<close>, except \<open>__proto__\<close>, where the
  assignment of a string has no effect (\<open>set_param\<close>).  A profiler record is the method, the template and the error flag.

  \<open>match_request_spec\<close>: the first registered route that fits is taken.  \<open>param_round_trip\<close>: encoded values come back.
  \<open>star_shifts_params\<close>: after a star a parameter gets the wrong capture.
\<close>

section \<open>Routes\<close>

record route_schema =
  rs_body :: "(string \<times> http_rule) list option"
  rs_query :: "(string \<times> http_rule) list option"
  rs_params :: "(string \<times> http_rule) list option"

type_synonym 'j http_mw = "('j http_context, http_error) hmw"
type_synonym 'j http_handler = "'j http_context \<Rightarrow> (http_error + unit) \<times> 'j http_context"

record 'j compiled_route =
  cr_method :: string
  cr_pattern :: "pattern_token list"
  cr_paramNames :: "string list"
  cr_middlewares :: "'j http_mw list"
  cr_handler :: "'j http_handler"
  cr_validate :: "route_schema option"
  cr_pathTemplate :: string
  cr_requiredRoles :: "string list"
  cr_requiredPermissions :: "string list"
  cr_rateLimitMw :: "'j http_mw option"

record 'j route_meta =
  rm_roles :: "string list option"
  rm_permissions :: "string list option"
  rm_rateLimit :: "'j http_mw option"

definition add_route ::
  "string \<Rightarrow> string \<Rightarrow> 'j http_mw list \<Rightarrow> 'j http_handler \<Rightarrow> route_schema option \<Rightarrow> 'j route_meta option \<Rightarrow>
   'j compiled_route list \<Rightarrow> 'j compiled_route list" where
  "add_route method path middlewares handler validate meta routes =
     (let canonicalPath = normalize_route_path path;
          pattern = compile_path canonicalPath
      in routes @
         [\<lparr>cr_method = to_upper method, cr_pattern = pattern, cr_paramNames = param_names pattern,
           cr_middlewares = middlewares, cr_handler = handler, cr_validate = validate, cr_pathTemplate = canonicalPath,
           cr_requiredRoles = (case meta of None \<Rightarrow> [] | Some m \<Rightarrow> nullish (rm_roles m) []),
           cr_requiredPermissions = (case meta of None \<Rightarrow> [] | Some m \<Rightarrow> nullish (rm_permissions m) []),
           cr_rateLimitMw = (case meta of None \<Rightarrow> None | Some m \<Rightarrow> rm_rateLimit m)\<rparr>])"

section \<open>Matching\<close>

definition set_param :: "string \<Rightarrow> code_points \<Rightarrow> (string, code_points) jsmap \<Rightarrow> (string, code_points) jsmap" where
  "set_param name v params = (if name = ''__proto__'' then params else AList.update name v params)"

fun build_params ::
  "string list \<Rightarrow> string list \<Rightarrow> (string, code_points) jsmap \<Rightarrow> js_error + (string, code_points) jsmap" where
  "build_params [] groups params = Inr params"
| "build_params (name # names) groups params =
     and_then (decode_uri_component (case groups of [] \<Rightarrow> [] | g # gs \<Rightarrow> g))
       (\<lambda>v. build_params names (tl groups) (set_param name v params))"

fun match_routes ::
  "'j compiled_route list \<Rightarrow> string \<Rightarrow> string \<Rightarrow> js_error + ('j compiled_route \<times> (string, code_points) jsmap) option" where
  "match_routes [] method path = Inr None"
| "match_routes (route # routes) method path =
     (if cr_method route \<noteq> method \<and> cr_method route \<noteq> ''*'' then match_routes routes method path
      else
        (case exec_tokens (cr_pattern route) path of
           None \<Rightarrow> match_routes routes method path
         | Some groups \<Rightarrow>
             and_then (build_params (cr_paramNames route) groups []) (\<lambda>params. Inr (Some (route, params)))))"

definition match_request ::
  "'j compiled_route list \<Rightarrow> string \<Rightarrow> string \<Rightarrow> js_error + ('j compiled_route \<times> (string, code_points) jsmap) option" where
  "match_request routes method path =
     (if \<not> is_canonical_request_path path then Inr None else match_routes routes method path)"

definition list_routes :: "'j compiled_route list \<Rightarrow> (string \<times> pattern_token list) list" where
  "list_routes routes = map (\<lambda>r. (cr_method r, cr_pattern r)) routes"

section \<open>Validation\<close>

definition lookup_value :: "(string, code_points) jsmap \<Rightarrow> string \<Rightarrow> field_value" where
  "lookup_value m f = (case map_of m f of None \<Rightarrow> VUndefined | Some v \<Rightarrow> VString v)"

definition optional_rules ::
  "(string \<times> http_rule) list option \<Rightarrow> (string \<Rightarrow> field_value) \<Rightarrow> location \<Rightarrow> validation_error list \<Rightarrow> js_error + validation_error list" where
  "optional_rules rules data loc errors = (case rules of None \<Rightarrow> Inr errors | Some rules \<Rightarrow> validate_object rules data loc errors)"

definition schema_errors :: "route_schema \<Rightarrow> 'j http_context \<Rightarrow> js_error + validation_error list" where
  "schema_errors schema c =
     and_then (case hc_body c of BodyObject data \<Rightarrow> optional_rules (rs_body schema) data InBody [] | _ \<Rightarrow> Inr [])
       (\<lambda>errors. and_then (optional_rules (rs_query schema) (lookup_value (hc_query c)) InQuery errors)
         (\<lambda>errors. optional_rules (rs_params schema) (lookup_value (hc_params c)) InParams errors))"

definition validation_middleware :: "route_schema \<Rightarrow> 'j http_mw" where
  "validation_middleware schema =
     HRead (\<lambda>c. case schema_errors schema c of
                  Inl e \<Rightarrow> HSettle (Inl (Plain e))
                | Inr errors \<Rightarrow> if errors \<noteq> [] then HSettle (Inl (bad_request ''Validation failed'' errors)) else await_next)"

section \<open>Dispatch\<close>

definition route_pipeline :: "'j compiled_route \<Rightarrow> 'j http_mw list" where
  "route_pipeline route =
     (case cr_rateLimitMw route of None \<Rightarrow> [] | Some m \<Rightarrow> [m]) @
     cr_middlewares route @
     (case cr_validate route of None \<Rightarrow> [] | Some schema \<Rightarrow> [validation_middleware schema]) @
     [handler_step (cr_handler route)]"

definition enter_route ::
  "'j compiled_route \<Rightarrow> (string, code_points) jsmap \<Rightarrow> 'j http_context \<Rightarrow> 'j http_context" where
  "enter_route route params c =
     c\<lparr>hc_params := params, hc_requiredRoles := Some (cr_requiredRoles route),
       hc_requiredPermissions := Some (cr_requiredPermissions route)\<rparr>"

type_synonym profile = "string \<times> string \<times> bool"

text \<open>The result is whether a route was found; a profiler gets one record of every run, also of one that throws.\<close>

definition dispatch_request ::
  "bool \<Rightarrow> 'j compiled_route list \<Rightarrow> 'j http_context \<Rightarrow> ((http_error + bool) \<times> 'j http_context) \<times> profile list" where
  "dispatch_request profiler routes c =
     (case match_request routes (hc_method c) (hc_path c) of
        Inl e \<Rightarrow> ((Inl (Plain e), c), [])
      | Inr None \<Rightarrow> ((Inr False, c), [])
      | Inr (Some (route, params)) \<Rightarrow>
          (case run_http_pipeline (route_pipeline route) (enter_route route params c) of
             (r, c') \<Rightarrow>
               ((case r of Inl e \<Rightarrow> Inl e | Inr _ \<Rightarrow> Inr True, c'),
                if profiler then [(cr_method route, cr_pathTemplate route, isl r)] else [])))"

definition not_found_handler :: "'j http_context \<Rightarrow> http_error" where
  "not_found_handler c = not_found (''Route '' @ hc_method c @ '' '' @ hc_path c @ '' not found'')"

datatype response_mode = Legacy | Envelope

definition report :: "http_error \<Rightarrow> 'j http_context \<Rightarrow> 'j http_context" where
  "report e c = c\<lparr>hc_reported := hc_reported c @ [e]\<rparr>"

definition error_handler :: "response_mode \<Rightarrow> http_error \<Rightarrow> 'j http_context \<Rightarrow> (http_error + unit) \<times> 'j http_context" where
  "error_handler mode err c =
     send (FaultReply (case mode of Envelope \<Rightarrow> to_street_error_envelope err (hc_correlationId c) | Legacy \<Rightarrow> to_json err))
       (answer_status err) (if is_street_exception err then c else report err c)"

section \<open>Which route is taken\<close>

definition route_fits :: "string \<Rightarrow> string \<Rightarrow> 'j compiled_route \<Rightarrow> bool" where
  "route_fits method path route \<longleftrightarrow>
     (cr_method route = method \<or> cr_method route = ''*'') \<and>
     (\<exists>groups. admits (cr_pattern route) groups \<and> fill (cr_pattern route) groups = path)"

lemma route_fits_exec:
  "route_fits method path route \<longleftrightarrow>
   (cr_method route = method \<or> cr_method route = ''*'') \<and> exec_tokens (cr_pattern route) path \<noteq> None"
  by (simp only: route_fits_def exec_tokens_iff)

lemma match_routes_none: "match_routes routes method path = Inr None \<longleftrightarrow> (\<forall>r \<in> set routes. \<not> route_fits method path r)"
  by (induction routes) (auto simp: route_fits_exec and_then_def split: option.splits sum.splits)

lemma match_routes_skip:
  "\<forall>r \<in> set before. \<not> route_fits method path r \<Longrightarrow>
   match_routes (before @ routes) method path = match_routes routes method path"
  by (induction before) (auto simp: route_fits_exec)

lemma match_routes_take:
  "route_fits method path route \<Longrightarrow> \<forall>r \<in> set before. \<not> route_fits method path r \<Longrightarrow>
   match_routes (before @ route # routes) method path =
     and_then (build_params (cr_paramNames route) (the (exec_tokens (cr_pattern route) path)) [])
       (\<lambda>params. Inr (Some (route, params)))"
  by (auto simp: match_routes_skip route_fits_exec)

lemma match_routes_some:
  "match_routes routes method path = Inr (Some (route, params)) \<Longrightarrow>
   \<exists>before after groups. routes = before @ route # after \<and> (\<forall>r \<in> set before. \<not> route_fits method path r) \<and>
     route_fits method path route \<and> exec_tokens (cr_pattern route) path = Some groups \<and>
     build_params (cr_paramNames route) groups [] = Inr params"
proof (induction routes)
  case Nil
  then show ?case by simp
next
  case (Cons r routes)
  show ?case
  proof (cases "route_fits method path r")
    case True
    then obtain groups where g: "exec_tokens (cr_pattern r) path = Some groups" by (auto simp: route_fits_exec)
    with True Cons.prems have "r = route \<and> build_params (cr_paramNames route) groups [] = Inr params"
      by (auto simp: route_fits_exec and_then_Inr)
    with True g show ?thesis by (intro exI [of _ "[]"] exI [of _ routes] exI [of _ groups]) auto
  next
    case False
    with Cons.prems have "match_routes routes method path = Inr (Some (route, params))"
      by (auto simp: route_fits_exec split: if_splits option.splits)
    from Cons.IH [OF this] obtain before after groups where
      "routes = before @ route # after" "\<forall>r \<in> set before. \<not> route_fits method path r"
      "route_fits method path route" "exec_tokens (cr_pattern route) path = Some groups"
      "build_params (cr_paramNames route) groups [] = Inr params" by blast
    with False show ?thesis by (intro exI [of _ "r # before"] exI [of _ after] exI [of _ groups]) auto
  qed
qed

section \<open>Parameters\<close>

lemma build_params_decoded:
  "length names = length vs \<Longrightarrow> \<forall>v \<in> set vs. list_all scalar_value v \<Longrightarrow> distinct names \<Longrightarrow> ''__proto__'' \<notin> set names \<Longrightarrow>
   \<forall>n \<in> set names. map_of m n = None \<Longrightarrow>
   build_params names (map encode_uri_component vs) m = Inr (m @ zip names vs)"
proof (induction names vs arbitrary: m rule: list_induct2)
  case Nil
  then show ?case by simp
next
  case (Cons n ns v vs)
  have up: "AList.update n v m = m @ [(n, v)]" using Cons.prems(4) by (simp add: update_absent)
  have "\<forall>k \<in> set ns. map_of (m @ [(n, v)]) k = None" using Cons.prems(2,4) by (auto simp: map_add_def)
  moreover have "n \<noteq> ''__proto__''" using Cons.prems(3) by auto
  ultimately show ?case using Cons.IH [of "m @ [(n, v)]"] Cons.prems up
    by (simp add: uri_round_trip set_param_def)
qed

lemma admits_encoded:
  "segmented ts \<Longrightarrow> length vs = length (param_names ts) \<Longrightarrow> [] \<notin> set vs \<Longrightarrow> admits ts (map encode_uri_component vs)"
proof (induction ts arbitrary: vs rule: segmented.induct)
  case (3 n)
  then obtain v where "vs = [v]" by (auto simp: length_Suc_conv)
  with 3 show ?case using encode_uri_safe [of v] by (auto simp: slash_def)
next
  case (4 n c ts)
  then obtain v vs' where "vs = v # vs'" by (auto simp: length_Suc_conv)
  with 4 show ?case using encode_uri_safe [of v] by (auto simp: slash_def)
qed auto

lemma param_round_trip:
  assumes "segmented (cr_pattern route)" "cr_paramNames route = param_names (cr_pattern route)"
    "distinct (cr_paramNames route)" "''__proto__'' \<notin> set (cr_paramNames route)"
    "length vs = length (cr_paramNames route)" "\<forall>v \<in> set vs. v \<noteq> [] \<and> list_all scalar_value v"
    "path = fill (cr_pattern route) (map encode_uri_component vs)" "is_canonical_request_path path"
    "cr_method route = method" "\<forall>r \<in> set before. \<not> route_fits method path r"
  shows "match_request (before @ route # after) method path = Inr (Some (route, zip (cr_paramNames route) vs))"
proof -
  have a: "admits (cr_pattern route) (map encode_uri_component vs)"
    using admits_encoded [OF assms(1)] assms(2,5,6) by auto
  then have fits: "route_fits method path route" using assms(7,9) by (auto simp: route_fits_def)
  have "exec_tokens (cr_pattern route) path = Some (map encode_uri_component vs)"
    using exec_fill [OF assms(1) a] assms(7) by simp
  moreover have "build_params (cr_paramNames route) (map encode_uri_component vs) [] = Inr (zip (cr_paramNames route) vs)"
    using build_params_decoded [of "cr_paramNames route" vs "[]"] assms(3-6) by simp
  ultimately show ?thesis using match_routes_take [OF fits assms(10)] assms(8) by (simp add: match_request_def)
qed

text \<open>The pattern of \<open>prefix*/:name\<close>: the capture of the star comes first, and \<open>m[i + 1]\<close> gives it to the parameter.\<close>

lemma last_segment: "a @ slash # b = a' @ slash # b' \<Longrightarrow> slash \<notin> set b \<Longrightarrow> slash \<notin> set b' \<Longrightarrow> a = a' \<and> b = b'"
proof (induction a arbitrary: a')
  case Nil
  then show ?case by (cases a') auto
next
  case (Cons x a)
  then show ?case by (cases a') auto
qed

lemma exec_lits: "exec_tokens (map Lit p @ ts) (p @ s) = exec_tokens ts s"
  by (induction p) auto

lemma star_then_param:
  assumes "list_all not_newline a" "b \<noteq> []" "slash \<notin> set b"
  shows "exec_tokens (map Lit p @ [Star, Lit slash, Param n]) (p @ a @ slash # b) = Some [a, b]"
proof -
  let ?ts = "[Star, Lit slash, Param n]"
  have "admits ?ts [a, b]" using assms by simp
  then obtain caps where caps: "exec_tokens ?ts (fill ?ts [a, b]) = Some caps" using exec_complete by blast
  have f: "fill ?ts [a, b] = a @ slash # b" by simp
  from exec_sound [OF caps] have "admits ?ts caps" "fill ?ts caps = a @ slash # b" unfolding f by auto
  then have "caps = [a, b]" using assms last_segment [of _ _ a b]
    by (cases caps; cases "tl caps") (auto split: list.splits)
  with caps show ?thesis unfolding f exec_lits by simp
qed

lemma star_shifts_params:
  assumes "cr_pattern route = map Lit p @ [Star, Lit slash, Param n]" "cr_paramNames route = [n]" "n \<noteq> ''__proto__''"
    "cr_method route = method" "list_all not_newline a" "b \<noteq> []" "slash \<notin> set b"
  shows "match_request (route # after) method (p @ a @ slash # b) =
    and_then (decode_uri_component a) (\<lambda>v. Inr (Some (route, [(n, v)])))"
proof -
  have "last b \<in> set b" using assms(6) by (rule last_in_set)
  then have "last (p @ a @ slash # b) \<noteq> slash" using assms(6,7) by (auto simp del: last_in_set)
  then have "is_canonical_request_path (p @ a @ slash # b)" by (simp add: is_canonical_request_path_def ends_with_slash)
  then show ?thesis
    using star_then_param [OF assms(5-7), of p n] assms(1-4)
    by (cases "decode_uri_component a") (simp_all add: match_request_def set_param_def)
qed

section \<open>Validation and errors\<close>

text \<open>The rules of the body are demanded of an object only.\<close>

definition well_typed :: "route_schema \<Rightarrow> 'j http_context \<Rightarrow> bool" where
  "well_typed schema c \<longleftrightarrow>
     (case hc_body c of BodyObject data \<Rightarrow> list_all (satisfies data) (nullish (rs_body schema) []) | _ \<Rightarrow> True) \<and>
     list_all (satisfies (lookup_value (hc_query c))) (nullish (rs_query schema) []) \<and>
     list_all (satisfies (lookup_value (hc_params c))) (nullish (rs_params schema) [])"

lemma optional_rules_ok:
  "optional_rules rules data loc errors = Inr [] \<longleftrightarrow> errors = [] \<and> list_all (satisfies data) (nullish rules [])"
  by (cases rules) (auto simp: optional_rules_def validate_object_extends)

lemma schema_errors_none: "schema_errors schema c = Inr [] \<longleftrightarrow> well_typed schema c"
proof -
  have "(\<exists>es. optional_rules rules data loc errors = Inr es \<and> es = [] \<and> Q) \<longleftrightarrow>
      errors = [] \<and> list_all (satisfies data) (nullish rules []) \<and> Q" for rules data loc errors Q
    using optional_rules_ok [of rules data loc errors] by auto
  then show ?thesis
    by (cases "hc_body c") (auto simp: well_typed_def schema_errors_def and_then_Inr optional_rules_ok)
qed

text \<open>Only a field of the body can throw: query and parameters are strings.\<close>

definition throwing_field :: "route_schema \<Rightarrow> 'j http_context \<Rightarrow> js_error \<Rightarrow> bool" where
  "throwing_field schema c e \<longleftrightarrow>
     (\<exists>data fr. hc_body c = BodyObject data \<and> fr \<in> set (nullish (rs_body schema) []) \<and> data (fst fr) = VThrows e)"

lemma lookup_value_string [simp]: "lookup_value m f \<noteq> VThrows e"
  by (simp add: lookup_value_def split: option.split)

lemma optional_rules_strings: "optional_rules rules (lookup_value m) loc errors \<noteq> Inl e"
  by (auto simp: optional_rules_def split: option.splits dest!: validate_object_throws)

lemma schema_errors_throws: "schema_errors schema c = Inl e \<Longrightarrow> throwing_field schema c e"
  by (cases "hc_body c")
    (auto simp: schema_errors_def throwing_field_def optional_rules_strings optional_rules_def and_then_def
      dest!: validate_object_throws split: sum.splits option.splits)

lemma run_validation:
  "run_hmw (validation_middleware schema) nxt c =
   (case schema_errors schema c of
      Inl e \<Rightarrow> (Inl (Plain e), c)
    | Inr errors \<Rightarrow> if errors \<noteq> [] then (Inl (bad_request ''Validation failed'' errors), c) else nxt c)"
  by (simp add: validation_middleware_def split: sum.split)

lemma validated_route:
  assumes "match_request routes (hc_method c) (hc_path c) = Inr (Some (route, params))"
    "cr_rateLimitMw route = None" "cr_middlewares route = []" "cr_validate route = Some schema"
  shows "dispatch_request False routes c =
    (case schema_errors schema (enter_route route params c) of
       Inl e \<Rightarrow> ((Inl (Plain e), enter_route route params c), [])
     | Inr errors \<Rightarrow>
         if errors = []
         then (case cr_handler route (enter_route route params c) of (r, c') \<Rightarrow> ((case r of Inl e \<Rightarrow> Inl e | Inr _ \<Rightarrow> Inr True, c'), []))
         else ((Inl (bad_request ''Validation failed'' errors), enter_route route params c), []))"
  using assms by (simp add: dispatch_request_def route_pipeline_def run_validation split: prod.split sum.split)

lemma body_rules_skipped: "hc_body c \<notin> range BodyObject \<Longrightarrow> rs_query schema = None \<Longrightarrow> rs_params schema = None \<Longrightarrow> well_typed schema c"
  by (cases "hc_body c") (auto simp: well_typed_def)

end
