(* ===== verification/HttpServer.thy ===== *)
theory HttpServer
  imports HttpAuth HttpRouter
begin

text \<open>
  The request path of \<open>packages/core/src/http/server.ts\<close>: \<open>parseBody\<close>, the pipeline of the global middleware around the
  router, the error handler, and the life cycle of \<open>listen\<close> and \<open>close\<close>.

  A request body is the sequence of events of its stream; a body whose stream never ends leaves the request to the request
  timeout (\<open>None\<close>), which is not modelled, nor are the sockets.  \<open>JSON.parse\<close> of a body is the argument \<open>parse\<close> (\<open>None\<close>
  when it throws), the outcome of \<open>MultipartParser.parse\<close> the argument \<open>multipart\<close>.
\<close>

section \<open>Bodies\<close>

datatype body_event = BodyData "byte list" | BodyEnd | BodyError js_error | BodyAborted

text \<open>The promise settles at the first end, error, abort, or chunk beyond the limit.\<close>

fun collect_body :: "nat \<Rightarrow> nat \<Rightarrow> byte list list \<Rightarrow> body_event list \<Rightarrow> (js_error + byte list list) option" where
  "collect_body maxBytes totalBytes chunks [] = None"
| "collect_body maxBytes totalBytes chunks (BodyData chunk # events) =
     (if maxBytes < totalBytes + length chunk then Some (Inl (JsError ''Error'' ''Request body exceeds limit''))
      else collect_body maxBytes (totalBytes + length chunk) (chunks @ [chunk]) events)"
| "collect_body maxBytes totalBytes chunks (BodyEnd # events) = Some (Inr chunks)"
| "collect_body maxBytes totalBytes chunks (BodyError e # events) = Some (Inl e)"
| "collect_body maxBytes totalBytes chunks (BodyAborted # events) = Some (Inl (JsError ''Error'' ''Request aborted''))"

definition includes_str :: "string \<Rightarrow> string \<Rightarrow> bool" where
  "includes_str s p = list_ex (\<lambda>i. starts_with p (drop i s)) [0..<Suc (length s)]"

definition boundary_char :: "char \<Rightarrow> bool" where
  "boundary_char c \<longleftrightarrow> \<not> is_space c \<and> c \<noteq> CHR '';''"

text \<open>\<open>/boundary=([^\s;]+)/i\<close>: the first occurrence that something follows.\<close>

fun extract_boundary :: "string \<Rightarrow> string option" where
  "extract_boundary [] = None"
| "extract_boundary (c # cs) =
     (let b = takeWhile boundary_char (drop 9 (c # cs))
      in if starts_with ''boundary='' (to_lower (c # cs)) \<and> b \<noteq> [] then Some b else extract_boundary cs)"

definition parse_body ::
  "(code_points \<Rightarrow> http_body option) \<Rightarrow> (string \<Rightarrow> http_error + http_body) \<Rightarrow> nat \<Rightarrow> string option \<Rightarrow> body_event list \<Rightarrow>
   'j http_context \<Rightarrow> (http_error + 'j http_context) option" where
  "parse_body parse multipart maxBytes method events c =
     (if to_upper (nullish method ''GET'') \<in> {''GET'', ''HEAD'', ''DELETE''} then Some (Inr c)
      else
        (let contentType = nullish (map_of (hc_headers c) ''content-type'') []
         in if includes_str contentType ''multipart/form-data''
            then (case extract_boundary contentType of
                    None \<Rightarrow> Some (Inr c)
                  | Some b \<Rightarrow> Some (case multipart b of Inl e \<Rightarrow> Inl e | Inr body \<Rightarrow> Inr (c\<lparr>hc_body := body\<rparr>)))
            else if includes_str contentType ''application/json'' \<or> includes_str contentType ''text/''
            then (case collect_body maxBytes 0 [] events of
                    None \<Rightarrow> None
                  | Some (Inl e) \<Rightarrow> Some (Inl (Plain e))
                  | Some (Inr chunks) \<Rightarrow>
                      if chunks = [] then Some (Inr c)
                      else
                        (let raw = utf8_decode (concat chunks); c = c\<lparr>hc_rawBody := Some raw\<rparr>
                         in if includes_str contentType ''application/json''
                            then Some (Inr (c\<lparr>hc_body := (case parse raw of None \<Rightarrow> BodyNull | Some b \<Rightarrow> b)\<rparr>))
                            else Some (Inr (c\<lparr>hc_body := BodyText raw\<rparr>))))
            else Some (Inr c)))"

section \<open>Requests\<close>

definition router_step :: "'j compiled_route list \<Rightarrow> 'j http_mw" where
  "router_step routes =
     HRead (\<lambda>c. case dispatch_request False routes c of ((r, c'), _) \<Rightarrow>
       HWrite (\<lambda>_. c')
         (case r of
            Inl e \<Rightarrow> HSettle (Inl e)
          | Inr matched \<Rightarrow> if \<not> matched then HSettle (Inl (not_found_handler c')) else await_next))"

definition app_pipeline :: "'j http_mw list \<Rightarrow> 'j compiled_route list \<Rightarrow> 'j http_mw list" where
  "app_pipeline globalMiddlewares routes = globalMiddlewares @ [router_step routes]"

text \<open>An error after a reply was started is dropped.  The result \<open>Inl\<close> is a rejection of \<open>handleRequest\<close>, which nobody awaits.\<close>

definition catch_error :: "response_mode \<Rightarrow> (http_error + unit) \<times> 'j http_context \<Rightarrow> (http_error + unit) \<times> 'j http_context" where
  "catch_error mode out =
     (case out of (r, c) \<Rightarrow>
        case r of Inr _ \<Rightarrow> (Inr (), c) | Inl err \<Rightarrow> if \<not> hc_sent c then error_handler mode err c else (Inr (), c))"

definition serve ::
  "response_mode \<Rightarrow> 'j http_mw list \<Rightarrow> 'j compiled_route list \<Rightarrow> 'j http_context \<Rightarrow> (http_error + unit) \<times> 'j http_context" where
  "serve mode globalMiddlewares routes c = catch_error mode (run_http_pipeline (app_pipeline globalMiddlewares routes) c)"

text \<open>\<open>handleRequest\<close> from the parsed URL on.\<close>

definition server_handle_request ::
  "response_mode \<Rightarrow> (code_points \<Rightarrow> http_body option) \<Rightarrow> (string \<Rightarrow> http_error + http_body) \<Rightarrow> nat \<Rightarrow>
   'j http_mw list \<Rightarrow> 'j compiled_route list \<Rightarrow>
   string option \<Rightarrow> string \<Rightarrow> (string, string) jsmap \<Rightarrow> (string, code_points) jsmap \<Rightarrow> body_event list \<Rightarrow>
   ((http_error + unit) \<times> 'j http_context) option" where
  "server_handle_request mode parse multipart maxBytes globalMiddlewares routes method path headers query events =
     (let c = create_context method path headers query
      in case parse_body parse multipart maxBytes method events c of
           None \<Rightarrow> None
         | Some (Inl e) \<Rightarrow> Some (catch_error mode (Inl e, c))
         | Some (Inr c') \<Rightarrow> Some (serve mode globalMiddlewares routes c'))"

section \<open>Registration\<close>

text \<open>\<open>normalizePath\<close>: runs of slashes become one, and one slash at the end goes.\<close>

fun collapse_slashes :: "string \<Rightarrow> string" where
  "collapse_slashes [] = []"
| "collapse_slashes (c # cs) =
     (if c = slash then slash # collapse_slashes (dropWhile (\<lambda>x. x = slash) cs) else c # collapse_slashes cs)"

definition normalize_path :: "string \<Rightarrow> string" where
  "normalize_path p =
     (let s = collapse_slashes (slash # p); t = (if ends_with [slash] s then butlast s else s)
      in if t = [] then [slash] else t)"

definition add_inline_route :: "string \<Rightarrow> string \<Rightarrow> 'j http_handler \<Rightarrow> 'j compiled_route list \<Rightarrow> 'j compiled_route list" where
  "add_inline_route method path handler routes = add_route method (normalize_path path) [] handler None None routes"

section \<open>Life cycle\<close>

datatype app_state = CREATED | STARTING | RUNNING | DRAINING | CLOSED
datatype listen_promise = NoListen | Pending | Resolved | Rejected js_error

record app_lifecycle =
  al_state :: app_state
  al_listen :: listen_promise
  al_closing :: bool

definition new_app :: app_lifecycle where
  "new_app = \<lparr>al_state = CREATED, al_listen = NoListen, al_closing = False\<rparr>"

definition state_name :: "app_state \<Rightarrow> string" where
  "state_name s =
     (case s of CREATED \<Rightarrow> ''CREATED'' | STARTING \<Rightarrow> ''STARTING'' | RUNNING \<Rightarrow> ''RUNNING'' | DRAINING \<Rightarrow> ''DRAINING'' | CLOSED \<Rightarrow> ''CLOSED'')"

text \<open>\<open>listen\<close> returns an error, or the promise in \<open>al_listen\<close>; the server then reports that it listens or an error.\<close>

definition app_listen :: "app_lifecycle \<Rightarrow> (js_error + unit) \<times> app_lifecycle" where
  "app_listen a =
     (if al_state a \<in> {CLOSED, DRAINING, RUNNING}
      then (Inl (JsError ''Error'' (''Cannot listen while application is '' @ state_name (al_state a))), a)
      else if al_listen a \<noteq> NoListen then (Inr (), a)
      else (Inr (), a\<lparr>al_state := STARTING, al_listen := Pending\<rparr>))"

definition server_listening :: "app_lifecycle \<Rightarrow> app_lifecycle" where
  "server_listening a = (if al_listen a = Pending then a\<lparr>al_state := RUNNING, al_listen := Resolved\<rparr> else a)"

definition server_error :: "js_error \<Rightarrow> app_lifecycle \<Rightarrow> app_lifecycle" where
  "server_error e a = (if al_listen a = Pending then a\<lparr>al_state := CREATED, al_listen := Rejected e\<rparr> else a)"

section \<open>The pipeline\<close>

lemma run_router_step:
  "run_hmw (router_step routes) nxt c =
   (case dispatch_request False routes c of ((r, c'), _) \<Rightarrow>
      (case r of Inl e \<Rightarrow> (Inl e, c') | Inr matched \<Rightarrow> if matched then nxt c' else (Inl (not_found_handler c'), c')))"
  by (auto simp: router_step_def split: prod.split sum.split)

lemma run_app_pipeline_nil:
  "run_http_pipeline (app_pipeline [] routes) c =
   (case dispatch_request False routes c of ((r, c'), _) \<Rightarrow>
      (case r of Inl e \<Rightarrow> (Inl e, c') | Inr matched \<Rightarrow> if matched then (Inr (), c') else (Inl (not_found_handler c'), c')))"
  by (simp add: app_pipeline_def run_router_step split: prod.split sum.split)

lemma run_app_pipeline_Cons:
  "run_http_pipeline (app_pipeline (m # ms) routes) c = run_hmw m (run_http_pipeline (app_pipeline ms routes)) c"
  by (simp add: app_pipeline_def)

text \<open>The context a request enters the global middleware with has no required roles and permissions: only \<open>dispatch_request\<close> sets
  them, which runs after all global middleware.\<close>

lemma parse_body_fresh:
  assumes "parse_body parse multipart maxBytes method events (create_context method' path headers query) = Some (Inr c)"
  shows "hc_requiredRoles c = None \<and> hc_requiredPermissions c = None \<and> \<not> hc_sent c \<and> hc_user c = None"
  using assms
  by (auto simp: parse_body_def create_context_def Let_def split: if_splits option.splits sum.splits)

lemma guard_skipped:
  assumes "hc_requiredRoles c = None" "hc_requiredPermissions c = None"
  shows "run_http_pipeline (app_pipeline (auth_middleware verify # rbac_guard service audit # ms) routes) c =
    run_http_pipeline (app_pipeline (auth_middleware verify # ms) routes) c"
  using assms by (simp add: run_app_pipeline_Cons run_auth guard_idle split: option.split)

text \<open>In the route's own middleware it decides: the pipeline goes on, or nothing after it runs.\<close>

lemma guarded_route:
  assumes "match_request routes (hc_method c) (hc_path c) = Inr (Some (route, params))"
    "cr_rateLimitMw route = None" "cr_middlewares route = rbac_guard service None # ms"
  shows "dispatch_request False routes c =
    (case guard_denial service (enter_route route params c) of
       Some d \<Rightarrow> ((Inl (denial_error d), enter_route route params c), [])
     | None \<Rightarrow>
         (case run_http_pipeline (tl (route_pipeline route)) (enter_route route params c) of
            (r, c') \<Rightarrow> ((case r of Inl e \<Rightarrow> Inl e | Inr _ \<Rightarrow> Inr True, c'), [])))"
  using assms by (auto simp: dispatch_request_def route_pipeline_def run_guard denied_def split: option.split prod.split)

section \<open>Answers\<close>

text \<open>An error that can be answered: its status is one of HTTP and its details have a JSON text.\<close>

definition answerable :: "http_error \<Rightarrow> bool" where
  "answerable err \<longleftrightarrow> 100 \<le> answer_status err \<and> answer_status err \<le> 999 \<and> (\<forall>e. error_details_of err \<noteq> Some (DetailsThrow e))"

lemma answerable_simps [simp]:
  "answerable (Plain e)" "answerable (DatabaseConnection m s)" "answerable (not_found m)" "answerable (bad_request m ds)"
  "answerable (unauthorized m)" "answerable (forbidden m)"
  by (simp_all add: answerable_def answer_status_def error_details_of_def not_found_def bad_request_def unauthorized_def forbidden_def)

lemma answerable_body:
  "answerable err \<Longrightarrow> body_failure (to_json err) = None \<and> body_failure (to_street_error_envelope err cid) = None"
  by (cases err) (auto simp: answerable_def error_details_of_def to_json_def to_street_error_envelope_def body_failure_def
      split: option.split error_details.split)

lemma error_handler_answers:
  assumes "\<not> hc_sent c" "answerable err"
  shows "\<exists>body c'. error_handler mode err c = (Inr (), c') \<and> hc_sent c' \<and> hc_reply c' = Some (answer_status err, FaultReply body)"
  using assms answerable_body [OF assms(2)]
  by (cases mode) (auto simp: error_handler_def answerable_def send_def reply_failure_def serialise_failure_def report_def)

lemma catch_error_answers:
  assumes "\<not> hc_sent c" "answerable err"
  shows "\<exists>body c'. catch_error mode (Inl err, c) = (Inr (), c') \<and> hc_sent c' \<and> hc_reply c' = Some (answer_status err, FaultReply body)"
  using error_handler_answers [OF assms] assms(1) by (simp add: catch_error_def)

lemma catch_error_sent: "hc_sent c \<Longrightarrow> catch_error mode (r, c) = (Inr (), c)"
  by (simp add: catch_error_def split: sum.split)

text \<open>What a client sees of an error that is not an exception of the framework does not depend on the error.\<close>

lemma plain_error_sanitized:
  "hc_reply (snd (catch_error mode (Inl (Plain e), c))) = hc_reply (snd (catch_error mode (Inl (Plain e'), c)))"
  by (cases mode)
    (auto simp: catch_error_def error_handler_def send_def report_def to_street_error_envelope_def to_json_def answer_status_def
      is_street_exception_def split: option.split)

text \<open>
  A reply that fails once started is never made up for: \<open>_sent\<close> is set before the value is serialised, so the
  error handler is skipped and the request gets no answer.  And an exception that cannot be answered rejects the handler.
\<close>

lemma failed_reply_unanswered:
  assumes "match_request routes (hc_method c) (hc_path c) = Inr (Some (route, params))"
    "cr_rateLimitMw route = None" "cr_middlewares route = []" "cr_validate route = None"
    "cr_handler route = send reply status" "reply_failure reply status = Some e" "\<not> hc_sent c"
  shows "\<exists>c'. serve mode [] routes c = (Inr (), c') \<and> hc_sent c' \<and> hc_reply c' = hc_reply c"
proof -
  let ?e = "enter_route route params c"
  have s: "\<not> hc_sent ?e" using assms(7) by (simp add: enter_route_def)
  have "dispatch_request False routes c = ((Inl (Plain e), ?e\<lparr>hc_sent := True\<rparr>), [])"
    using assms s by (simp add: dispatch_request_def route_pipeline_def send_def)
  then have "serve mode [] routes c = (Inr (), ?e\<lparr>hc_sent := True\<rparr>)"
    by (simp add: serve_def run_app_pipeline_nil catch_error_def)
  then show ?thesis by (simp add: enter_route_def)
qed

lemma bad_status_rejects:
  "\<not> hc_sent c \<Longrightarrow> \<exists>e c'. catch_error mode (Inl (Street name 0 message None), c) = (Inl (Plain e), c') \<and> hc_reply c' = hc_reply c"
  by (cases mode)
    (simp_all add: catch_error_def error_handler_def send_def reply_failure_def serialise_failure_def body_failure_def to_json_def
      to_street_error_envelope_def answer_status_def is_street_exception_def)

lemma body_within_limit:
  "collect_body maxBytes n chunks events = Some (Inr chunks') \<Longrightarrow> n = length (concat chunks) \<Longrightarrow> n \<le> maxBytes \<Longrightarrow>
   length (concat chunks') \<le> maxBytes"
  by (induction maxBytes n chunks events rule: collect_body.induct) (auto split: if_splits)

text \<open>Three answers a client would not expect: 500 for a malformed escape in a path parameter and for a body beyond the limit, and the
  rejection of an old \<open>listen\<close> for a new one.\<close>

lemma bad_escape_internal_error:
  "match_request routes (hc_method c) (hc_path c) = Inl e \<Longrightarrow> \<not> hc_sent c \<Longrightarrow>
   \<exists>reply. hc_reply (snd (serve mode [] routes c)) = Some (500, reply)"
  using catch_error_answers [of c "Plain e" mode]
  by (auto simp: serve_def run_app_pipeline_nil dispatch_request_def answer_status_def)

lemma oversized_body:
  assumes "map_of (hc_headers (create_context method path headers query :: 'j http_context)) ''content-type'' = Some ''application/json''"
    "to_upper (nullish method ''GET'') = ''POST''" "maxBytes < length chunk"
  shows "\<exists>c reply. server_handle_request mode parse multipart maxBytes ms routes method path headers query (BodyData chunk # events) =
    Some (Inr (), c :: 'j http_context) \<and> hc_reply c = Some (500, reply)"
proof -
  let ?c = "create_context method path headers query :: 'j http_context"
  have "\<not> includes_str ''application/json'' ''multipart/form-data''" "includes_str ''application/json'' ''application/json''" by code_simp+
  then have "parse_body parse multipart maxBytes method (BodyData chunk # events) ?c =
      Some (Inl (Plain (JsError ''Error'' ''Request body exceeds limit'')))"
    using assms by (simp add: parse_body_def)
  moreover have "\<not> hc_sent ?c" by (simp add: create_context_def)
  ultimately show ?thesis
    using catch_error_answers [of ?c "Plain (JsError ''Error'' ''Request body exceeds limit'')" mode]
    by (auto simp: server_handle_request_def answer_status_def)
qed

lemma failed_listen_sticks:
  assumes "al_state a = CREATED" "al_listen a = NoListen" "b = server_error e (snd (app_listen a))"
  shows "al_state b = CREATED \<and> al_listen b = Rejected e \<and> app_listen b = (Inr (), b)"
  using assms by (simp add: app_listen_def server_error_def)

end
