(* ===== verification/RefreshTokens.thy ===== *)
theory RefreshTokens
  imports Prelude
begin

text \<open>
  \<open>RefreshTokenService\<close> of \<open>packages/core/src/auth/refresh-tokens.ts\<close> over the table \<open>street_refresh_tokens\<close>, whose columns
  \<open>REFRESH_TOKENS_MIGRATION_SQL\<close> declares.  Each SQL statement of the file is a definition on the list of rows;
  \<open>pg_transaction\<close> is \<open>PgPool.transaction\<close> of \<open>packages/pool/src/pool.ts\<close>: \<open>BEGIN\<close>, the function, \<open>COMMIT\<close>, and \<open>ROLLBACK\<close>
  when the function throws, which gives back the rows of \<open>BEGIN\<close>.

  Arguments: the SHA-256 digest (\<open>digest\<close>), the access token \<open>JwtService.sign\<close> returns, the random bytes drawn
  (the raw token, the family), the generated row id and the clocks (\<open>now\<close> is that of the process and of \<open>NOW()\<close>).

  Transactions overlap: under \<open>READ COMMITTED\<close> a rotation reads its row when it starts and its changes appear when it commits, on the rows
  as they are then (its \<open>UPDATE\<close> waits for the lock of the row and looks at the id only).  \<open>token_step\<close> is that machine; \<open>rotate\<close> is a
  rotation during which nothing else commits.

  \<open>tokens_ok\<close>, kept by every schedule in which the rotations of one family do not overlap: ids and digests are unique and a family has at
  most one live token.  \<open>rotations_race\<close> and \<open>revoked_family_revived\<close>: what overlapping leads to.
\<close>

section \<open>The table\<close>

record token_row =
  tk_id :: string
  tk_token_hash :: string
  tk_family_id :: string
  tk_user_id :: string
  tk_expires_at :: int
  tk_revoked_at :: "int option"

type_synonym token_table = "token_row list"

definition duplicate_key :: js_error where
  "duplicate_key = JsError ''Error'' ''duplicate key value violates unique constraint''"

text \<open>\<open>INSERT\<close>: \<open>id\<close> is a primary key and \<open>token_hash\<close> is unique.\<close>

definition sql_insert :: "string \<Rightarrow> string \<Rightarrow> string \<Rightarrow> string \<Rightarrow> int \<Rightarrow> token_table \<Rightarrow> (js_error + unit) \<times> token_table" where
  "sql_insert rowId hash family user expires t =
     (if rowId \<in> tk_id ` set t \<or> hash \<in> tk_token_hash ` set t then (Inl duplicate_key, t)
      else (Inr (), t @ [\<lparr>tk_id = rowId, tk_token_hash = hash, tk_family_id = family, tk_user_id = user,
                          tk_expires_at = expires, tk_revoked_at = None\<rparr>]))"

definition sql_select :: "string \<Rightarrow> token_table \<Rightarrow> token_row option" where
  "sql_select hash t = find (\<lambda>r. tk_token_hash r = hash) t"

definition sql_revoke :: "(token_row \<Rightarrow> bool) \<Rightarrow> int \<Rightarrow> token_table \<Rightarrow> token_table" where
  "sql_revoke p now t = map (\<lambda>r. if p r then r\<lparr>tk_revoked_at := Some now\<rparr> else r) t"

definition revoke_live_family :: "string \<Rightarrow> int \<Rightarrow> token_table \<Rightarrow> token_table" where
  "revoke_live_family family = sql_revoke (\<lambda>r. tk_family_id r = family \<and> tk_revoked_at r = None)"

definition revoke_row :: "string \<Rightarrow> int \<Rightarrow> token_table \<Rightarrow> token_table" where
  "revoke_row rowId = sql_revoke (\<lambda>r. tk_id r = rowId)"

definition revoke_family :: "string \<Rightarrow> int \<Rightarrow> token_table \<Rightarrow> token_table" where
  "revoke_family family = sql_revoke (\<lambda>r. tk_family_id r = family)"

definition revoke_all :: "string \<Rightarrow> int \<Rightarrow> token_table \<Rightarrow> token_table" where
  "revoke_all user = sql_revoke (\<lambda>r. tk_user_id r = user)"

text \<open>
  \<open>PgPool.transaction\<close> of a function that runs on the rows \<open>t\<close>: what it did, or, when it throws, none of it.
\<close>

definition pg_transaction :: "('t \<Rightarrow> ('e + 'a) \<times> 't) \<Rightarrow> 't \<Rightarrow> ('e + 'a) \<times> 't" where
  "pg_transaction fn t = (case fn t of (Inl e, t') \<Rightarrow> (Inl e, t) | (Inr v, t') \<Rightarrow> (Inr v, t'))"

section \<open>The service\<close>

record token_config =
  tc_digest :: "string \<Rightarrow> string"
  tc_sign :: "string \<Rightarrow> int \<Rightarrow> string"
  tc_refreshTtlMs :: int
  tc_accessTtlMs :: int

record token_pair =
  accessToken :: string
  refreshToken :: string

definition access_token :: "token_config \<Rightarrow> string \<Rightarrow> string" where
  "access_token cfg userId = tc_sign cfg userId (tc_accessTtlMs cfg div 1000)"

definition issue ::
  "token_config \<Rightarrow> string \<Rightarrow> string option \<Rightarrow> string \<Rightarrow> string \<Rightarrow> string \<Rightarrow> int \<Rightarrow> token_table \<Rightarrow> (js_error + token_pair) \<times> token_table" where
  "issue cfg userId familyId randomFamily rawRefreshToken rowId now t =
     (let family = nullish familyId randomFamily;
          tokenHash = tc_digest cfg rawRefreshToken
      in case sql_insert rowId tokenHash family userId (now + tc_refreshTtlMs cfg) t of
           (Inl e, t') \<Rightarrow> (Inl e, t')
         | (Inr _, t') \<Rightarrow> (Inr \<lparr>accessToken = access_token cfg userId, refreshToken = rawRefreshToken\<rparr>, t'))"

definition token_not_found :: js_error where
  "token_not_found = JsError ''Error'' ''Refresh token not found''"

definition token_expired :: js_error where
  "token_expired = JsError ''Error'' ''Refresh token expired''"

definition token_replay :: js_error where
  "token_replay =
     JsError ''TokenReplayError'' ''Refresh token replay detected - entire token family has been revoked''"

text \<open>The function \<open>rotate\<close> gives to the transaction, in its two halves: the row it read, and what it does with it.\<close>

definition rotate_with ::
  "token_config \<Rightarrow> token_row option \<Rightarrow> string \<Rightarrow> string \<Rightarrow> int \<Rightarrow> token_table \<Rightarrow> (js_error + token_pair) \<times> token_table" where
  "rotate_with cfg found newRaw newId now t =
     (case found of
        None \<Rightarrow> (Inl token_not_found, t)
      | Some row \<Rightarrow>
          if tk_revoked_at row \<noteq> None then (Inl token_replay, revoke_live_family (tk_family_id row) now t)
          else if tk_expires_at row < now then (Inl token_expired, t)
          else
            (case sql_insert newId (tc_digest cfg newRaw) (tk_family_id row) (tk_user_id row) (now + tc_refreshTtlMs cfg)
                    (revoke_row (tk_id row) now t) of
               (Inl e, t') \<Rightarrow> (Inl e, t')
             | (Inr _, t') \<Rightarrow> (Inr \<lparr>accessToken = access_token cfg (tk_user_id row), refreshToken = newRaw\<rparr>, t')))"

definition rotate_body ::
  "token_config \<Rightarrow> string \<Rightarrow> string \<Rightarrow> string \<Rightarrow> int \<Rightarrow> token_table \<Rightarrow> (js_error + token_pair) \<times> token_table" where
  "rotate_body cfg rawRefreshToken newRaw newId now t =
     rotate_with cfg (sql_select (tc_digest cfg rawRefreshToken) t) newRaw newId now t"

definition rotate ::
  "token_config \<Rightarrow> string \<Rightarrow> string \<Rightarrow> string \<Rightarrow> int \<Rightarrow> token_table \<Rightarrow> (js_error + token_pair) \<times> token_table" where
  "rotate cfg rawRefreshToken newRaw newId now t = pg_transaction (rotate_body cfg rawRefreshToken newRaw newId now) t"

section \<open>Overlapping transactions\<close>

definition live_tokens :: "string \<Rightarrow> token_table \<Rightarrow> token_row list" where
  "live_tokens family t = filter (\<lambda>r. tk_family_id r = family \<and> tk_revoked_at r = None) t"

record token_system =
  ts_table :: token_table
  ts_open :: "(nat \<times> token_row option) list"

datatype token_event =
    RotateBegin nat string
  | RotateCommit nat string string int
  | IssueToken string "string option" string string string int
  | RevokeFamily string int
  | RevokeAll string int

fun token_step :: "token_config \<Rightarrow> token_event \<Rightarrow> token_system \<Rightarrow> token_system" where
  "token_step cfg (RotateBegin i raw) s =
     (if map_has (ts_open s) i then s
      else s\<lparr>ts_open := (i, sql_select (tc_digest cfg raw) (ts_table s)) # ts_open s\<rparr>)"
| "token_step cfg (RotateCommit i newRaw newId now) s =
     (case map_of (ts_open s) i of
        None \<Rightarrow> s
      | Some found \<Rightarrow>
          s\<lparr>ts_table := snd (pg_transaction (rotate_with cfg found newRaw newId now) (ts_table s)),
            ts_open := AList.delete i (ts_open s)\<rparr>)"
| "token_step cfg (IssueToken user familyId randomFamily raw rowId now) s =
     s\<lparr>ts_table := snd (issue cfg user familyId randomFamily raw rowId now (ts_table s))\<rparr>"
| "token_step cfg (RevokeFamily family now) s = s\<lparr>ts_table := revoke_family family now (ts_table s)\<rparr>"
| "token_step cfg (RevokeAll user now) s = s\<lparr>ts_table := revoke_all user now (ts_table s)\<rparr>"

definition no_rotations :: "token_table \<Rightarrow> token_system" where
  "no_rotations t = \<lparr>ts_table = t, ts_open = []\<rparr>"

text \<open>The family an open rotation works in: that of the live row it has read.\<close>

definition reads_live :: "token_row option \<Rightarrow> string \<Rightarrow> bool" where
  "reads_live found family \<longleftrightarrow> (case found of None \<Rightarrow> False | Some row \<Rightarrow> tk_revoked_at row = None \<and> tk_family_id row = family)"

definition rotating :: "token_system \<Rightarrow> string \<Rightarrow> bool" where
  "rotating s family \<longleftrightarrow> (\<exists>e \<in> set (ts_open s). reads_live (snd e) family)"

text \<open>A step that starts nothing in a family in which a rotation is open, or (for \<open>issue\<close>) in which a token is live.\<close>

definition undisturbing :: "token_config \<Rightarrow> token_system \<Rightarrow> token_event \<Rightarrow> bool" where
  "undisturbing cfg s e \<longleftrightarrow>
     (case e of
        RotateBegin i raw \<Rightarrow> (\<forall>family. reads_live (sql_select (tc_digest cfg raw) (ts_table s)) family \<longrightarrow> \<not> rotating s family)
      | IssueToken user familyId randomFamily raw rowId now \<Rightarrow>
          live_tokens (nullish familyId randomFamily) (ts_table s) = [] \<and> \<not> rotating s (nullish familyId randomFamily)
      | _ \<Rightarrow> True)"

inductive token_run :: "token_config \<Rightarrow> token_system \<Rightarrow> token_system \<Rightarrow> bool" for cfg where
  start: "token_run cfg s s"
| step: "token_run cfg s s' \<Longrightarrow> undisturbing cfg s' e \<Longrightarrow> token_run cfg s (token_step cfg e s')"

section \<open>The invariant\<close>

definition tokens_ok :: "token_table \<Rightarrow> bool" where
  "tokens_ok t \<longleftrightarrow>
     distinct (map tk_id t) \<and> distinct (map tk_token_hash t) \<and> (\<forall>family. length (live_tokens family t) \<le> 1)"

lemma sql_revoke_keys [simp]:
  "map tk_id (sql_revoke p now t) = map tk_id t" "map tk_token_hash (sql_revoke p now t) = map tk_token_hash t"
  "length (sql_revoke p now t) = length t"
  by (simp_all add: sql_revoke_def)

lemma live_revoke: "live_tokens family (sql_revoke p now t) = filter (\<lambda>r. \<not> p r) (live_tokens family t)"
  by (induction t) (auto simp: live_tokens_def sql_revoke_def)

lemma sql_revoke_ok: "tokens_ok t \<Longrightarrow> tokens_ok (sql_revoke p now t)"
  unfolding tokens_ok_def live_revoke sql_revoke_keys by (meson le_trans length_filter_le)

lemma sql_revoke_images [simp]:
  "tk_id ` set (sql_revoke p now t) = tk_id ` set t" "tk_token_hash ` set (sql_revoke p now t) = tk_token_hash ` set t"
  by (simp_all flip: set_map)

lemma sql_insert_ok:
  assumes "tokens_ok t" "live_tokens family t = []" "sql_insert rowId hash family user expires t = (r, t')"
  shows "tokens_ok t'"
proof (cases "rowId \<in> tk_id ` set t \<or> hash \<in> tk_token_hash ` set t")
  case True
  with assms show ?thesis by (simp add: sql_insert_def)
next
  case False
  let ?row = "\<lparr>tk_id = rowId, tk_token_hash = hash, tk_family_id = family, tk_user_id = user, tk_expires_at = expires,
    tk_revoked_at = None\<rparr>"
  have t': "t' = t @ [?row]" using False assms(3) by (simp add: sql_insert_def)
  have "live_tokens f t' = (if f = family then live_tokens f t @ [?row] else live_tokens f t)" for f
    by (simp add: t' live_tokens_def)
  then have "length (live_tokens f t') \<le> 1" for f using assms(1,2) by (simp add: tokens_ok_def)
  moreover have "distinct (map tk_id t')" "distinct (map tk_token_hash t')"
    using False assms(1) by (auto simp: t' tokens_ok_def)
  ultimately show ?thesis by (simp add: tokens_ok_def)
qed

lemma sql_select_Some: "sql_select hash t = Some r \<Longrightarrow> r \<in> set t \<and> tk_token_hash r = hash"
  by (auto simp: sql_select_def find_Some_iff)

lemma sql_select_None: "sql_select hash t = None \<longleftrightarrow> hash \<notin> tk_token_hash ` set t"
  by (auto simp: sql_select_def find_None_iff)

lemma sql_select_iff: "tokens_ok t \<Longrightarrow> sql_select hash t = Some r \<longleftrightarrow> r \<in> set t \<and> tk_token_hash r = hash"
proof
  assume ok: "tokens_ok t" and r: "r \<in> set t \<and> tk_token_hash r = hash"
  then obtain r' where r': "sql_select hash t = Some r'" using sql_select_None [of hash t] by (cases "sql_select hash t") auto
  have "inj_on tk_token_hash (set t)" using ok by (simp add: tokens_ok_def distinct_map)
  with r sql_select_Some [OF r'] have "r' = r" by (auto dest: inj_onD)
  with r' show "sql_select hash t = Some r" by simp
qed (auto dest: sql_select_Some)

lemma row_of_id: "tokens_ok t \<Longrightarrow> r \<in> set t \<Longrightarrow> r' \<in> set t \<Longrightarrow> tk_id r = tk_id r' \<Longrightarrow> r = r'"
  by (auto simp: tokens_ok_def distinct_map dest: inj_onD)

text \<open>A live row is the only one of its family, so revoking it leaves the family without a live token.\<close>

lemma live_alone:
  assumes "tokens_ok t" "r \<in> set t" "tk_revoked_at r = None"
  shows "live_tokens (tk_family_id r) t = [r]"
proof -
  have "r \<in> set (live_tokens (tk_family_id r) t)" using assms(2,3) by (simp add: live_tokens_def)
  moreover have "length (live_tokens (tk_family_id r) t) \<le> 1" using assms(1) by (simp add: tokens_ok_def)
  ultimately show ?thesis by (cases "live_tokens (tk_family_id r) t") auto
qed

lemma live_after_revoke:
  "tokens_ok t \<Longrightarrow> r \<in> set t \<Longrightarrow> tk_revoked_at r = None \<Longrightarrow> live_tokens (tk_family_id r) (revoke_row (tk_id r) now t) = []"
  by (simp add: revoke_row_def live_revoke live_alone)

lemma issue_ok:
  "tokens_ok t \<Longrightarrow> live_tokens (nullish familyId randomFamily) t = [] \<Longrightarrow>
   tokens_ok (snd (issue cfg userId familyId randomFamily raw rowId now t))"
  by (auto simp: issue_def Let_def split: prod.split sum.split dest: sql_insert_ok)

lemma pg_transaction_error: "fst (pg_transaction fn t) = Inl e \<Longrightarrow> snd (pg_transaction fn t) = t"
  by (auto simp: pg_transaction_def split: prod.splits sum.splits)

lemma rotate_success:
  assumes "rotate cfg raw newRaw newId now t = (Inr p, t')"
  shows "\<exists>row. sql_select (tc_digest cfg raw) t = Some row \<and> tk_revoked_at row = None \<and> now \<le> tk_expires_at row \<and>
    sql_insert newId (tc_digest cfg newRaw) (tk_family_id row) (tk_user_id row) (now + tc_refreshTtlMs cfg)
      (revoke_row (tk_id row) now t) = (Inr (), t') \<and>
    p = \<lparr>accessToken = access_token cfg (tk_user_id row), refreshToken = newRaw\<rparr>"
  using assms
  by (auto simp: rotate_def pg_transaction_def rotate_body_def rotate_with_def not_less
      split: prod.splits sum.splits option.splits if_splits)

lemma rotate_ok: "tokens_ok t \<Longrightarrow> tokens_ok (snd (rotate cfg raw newRaw newId now t))"
proof (cases "fst (rotate cfg raw newRaw newId now t)")
  case (Inl e)
  assume "tokens_ok t"
  with Inl show ?thesis by (simp add: rotate_def pg_transaction_error)
next
  case (Inr p)
  assume ok: "tokens_ok t"
  obtain t' where r: "rotate cfg raw newRaw newId now t = (Inr p, t')" using Inr by (cases "rotate cfg raw newRaw newId now t") auto
  from rotate_success [OF r] obtain row where
    row: "sql_select (tc_digest cfg raw) t = Some row" "tk_revoked_at row = None"
    and ins: "sql_insert newId (tc_digest cfg newRaw) (tk_family_id row) (tk_user_id row) (now + tc_refreshTtlMs cfg)
      (revoke_row (tk_id row) now t) = (Inr (), t')" by blast
  have "live_tokens (tk_family_id row) (revoke_row (tk_id row) now t) = []"
    using live_after_revoke [OF ok] sql_select_Some [OF row(1)] row(2) by blast
  with sql_insert_ok [OF _ _ ins] sql_revoke_ok [OF ok] r show ?thesis by (simp add: revoke_row_def)
qed

text \<open>
  With overlapping transactions: in the family of an open rotation that has read a live row no other row is live, and no two
  such rotations are in one family.
\<close>

definition system_ok :: "token_system \<Rightarrow> bool" where
  "system_ok s \<longleftrightarrow>
     tokens_ok (ts_table s) \<and> keys_distinct (ts_open s) \<and>
     (\<forall>(i, found) \<in> set (ts_open s). \<forall>family. reads_live found family \<longrightarrow>
        (\<forall>x \<in> set (live_tokens family (ts_table s)). tk_id x = tk_id (the found)) \<and>
        (\<forall>(j, found') \<in> set (ts_open s). reads_live found' family \<longrightarrow> j = i))"

lemma system_ok_entry:
  "system_ok s \<Longrightarrow> (i, found) \<in> set (ts_open s) \<Longrightarrow> reads_live found family \<Longrightarrow>
   (\<forall>x \<in> set (live_tokens family (ts_table s)). tk_id x = tk_id (the found)) \<and>
   (\<forall>(j, found') \<in> set (ts_open s). reads_live found' family \<longrightarrow> j = i)"
  unfolding system_ok_def by blast

lemma no_rotations_ok: "tokens_ok t \<Longrightarrow> system_ok (no_rotations t)"
  by (simp add: system_ok_def no_rotations_def)

lemma system_ok_fewer:
  assumes "system_ok s" "tokens_ok t" "\<And>family. set (live_tokens family t) \<subseteq> set (live_tokens family (ts_table s))"
    "set op \<subseteq> set (ts_open s)" "keys_distinct op"
  shows "system_ok \<lparr>ts_table = t, ts_open = op\<rparr>"
proof -
  have "(\<forall>x \<in> set (live_tokens family t). tk_id x = tk_id (the found)) \<and>
      (\<forall>(j, found') \<in> set op. reads_live found' family \<longrightarrow> j = i)"
    if m: "(i, found) \<in> set op" "reads_live found family" for i found family
  proof -
    have "(i, found) \<in> set (ts_open s)" using m(1) assms(4) by blast
    then have "(\<forall>x \<in> set (live_tokens family (ts_table s)). tk_id x = tk_id (the found)) \<and>
        (\<forall>(j, found') \<in> set (ts_open s). reads_live found' family \<longrightarrow> j = i)"
      using assms(1) m(2) by (simp add: system_ok_entry)
    with assms(3) [of family] assms(4) show ?thesis by blast
  qed
  then have "\<forall>(i, found) \<in> set op. \<forall>family. reads_live found family \<longrightarrow>
      (\<forall>x \<in> set (live_tokens family t). tk_id x = tk_id (the found)) \<and>
      (\<forall>(j, found') \<in> set op. reads_live found' family \<longrightarrow> j = i)" by blast
  with assms(2,5) show ?thesis unfolding system_ok_def by simp
qed

lemma live_revoke_subset: "set (live_tokens family (sql_revoke p now t)) \<subseteq> set (live_tokens family t)"
  by (auto simp: live_revoke)

lemma live_insert:
  "sql_insert rowId hash family user expires t = (r, t') \<Longrightarrow> f \<noteq> family \<Longrightarrow> live_tokens f t' = live_tokens f t"
  by (auto simp: sql_insert_def live_tokens_def split: if_splits)

lemma reads_live_family: "reads_live found f \<Longrightarrow> reads_live found g \<Longrightarrow> f = g"
  by (auto simp: reads_live_def split: option.splits)

lemma set_delete_subset: "set (AList.delete k m) \<subseteq> set m"
  by (auto simp: set_delete)

lemma commit_ok:
  assumes ok: "system_ok s" and i: "map_of (ts_open s) i = Some found"
    and t': "t' = snd (pg_transaction (rotate_with cfg found newRaw newId now) (ts_table s))"
  shows "system_ok \<lparr>ts_table = t', ts_open = AList.delete i (ts_open s)\<rparr>"
proof (cases "fst (rotate_with cfg found newRaw newId now (ts_table s))")
  case (Inl e)
  then have "t' = ts_table s" by (auto simp: t' pg_transaction_def split: prod.split sum.split)
  then show ?thesis using ok
    by (intro system_ok_fewer [OF ok]) (auto simp: system_ok_def set_delete)
next
  case (Inr p)
  then obtain row where row: "found = Some row" "tk_revoked_at row = None"
    and ins: "sql_insert newId (tc_digest cfg newRaw) (tk_family_id row) (tk_user_id row) (now + tc_refreshTtlMs cfg)
      (revoke_row (tk_id row) now (ts_table s)) = (Inr (), t')"
    by (auto simp: t' pg_transaction_def rotate_with_def split: option.splits if_splits prod.splits sum.splits)
  let ?u = "revoke_row (tk_id row) now (ts_table s)"
  have mem: "(i, found) \<in> set (ts_open s)" using i by (rule map_of_SomeD)
  have rl: "reads_live found (tk_family_id row)" using row by (simp add: reads_live_def)
  have only: "\<forall>x \<in> set (live_tokens (tk_family_id row) (ts_table s)). tk_id x = tk_id row"
    and alone: "\<forall>(j, found') \<in> set (ts_open s). reads_live found' (tk_family_id row) \<longrightarrow> j = i"
    using system_ok_entry [OF ok mem rl] row(1) by simp_all
  have "live_tokens (tk_family_id row) ?u = []"
    using only by (auto simp: revoke_row_def live_revoke filter_empty_conv)
  moreover have "tokens_ok ?u" using ok by (simp add: revoke_row_def sql_revoke_ok system_ok_def)
  ultimately have tok: "tokens_ok t'" by (rule sql_insert_ok [OF _ _ ins, rotated])
  have other: "set (live_tokens f t') \<subseteq> set (live_tokens f (ts_table s))" if "f \<noteq> tk_family_id row" for f
    using live_insert [OF ins that] live_revoke_subset by (simp add: revoke_row_def)
  have kd: "keys_distinct (ts_open s)" using ok by (simp add: system_ok_def)
  have rest: "(j, fd) \<in> set (AList.delete i (ts_open s)) \<Longrightarrow> (j, fd) \<in> set (ts_open s) \<and> j \<noteq> i" for j fd
    by (simp add: set_delete)
  show ?thesis unfolding system_ok_def
  proof (intro conjI)
    show "tokens_ok (ts_table \<lparr>ts_table = t', ts_open = AList.delete i (ts_open s)\<rparr>)" using tok by simp
    show "keys_distinct (ts_open \<lparr>ts_table = t', ts_open = AList.delete i (ts_open s)\<rparr>)" using kd by (simp add: keys_distinct_delete)
    show "\<forall>(j, fd) \<in> set (ts_open \<lparr>ts_table = t', ts_open = AList.delete i (ts_open s)\<rparr>). \<forall>family. reads_live fd family \<longrightarrow>
        (\<forall>x \<in> set (live_tokens family (ts_table \<lparr>ts_table = t', ts_open = AList.delete i (ts_open s)\<rparr>)). tk_id x = tk_id (the fd)) \<and>
        (\<forall>(k, fd') \<in> set (ts_open \<lparr>ts_table = t', ts_open = AList.delete i (ts_open s)\<rparr>). reads_live fd' family \<longrightarrow> k = j)"
    proof (clarify)
      fix j fd family
      assume "(j, fd) \<in> set (ts_open \<lparr>ts_table = t', ts_open = AList.delete i (ts_open s)\<rparr>)" and rf: "reads_live fd family"
      then have j: "(j, fd) \<in> set (ts_open s)" "j \<noteq> i" using rest by auto
      have "family \<noteq> tk_family_id row" using alone j rf by fastforce
      with other have sub: "set (live_tokens family t') \<subseteq> set (live_tokens family (ts_table s))" by blast
      have old: "(\<forall>x \<in> set (live_tokens family (ts_table s)). tk_id x = tk_id (the fd)) \<and>
          (\<forall>(k, fd') \<in> set (ts_open s). reads_live fd' family \<longrightarrow> k = j)"
        by (rule system_ok_entry [OF ok j(1) rf])
      show "(\<forall>x \<in> set (live_tokens family (ts_table \<lparr>ts_table = t', ts_open = AList.delete i (ts_open s)\<rparr>)). tk_id x = tk_id (the fd)) \<and>
        (\<forall>(k, fd') \<in> set (ts_open \<lparr>ts_table = t', ts_open = AList.delete i (ts_open s)\<rparr>). reads_live fd' family \<longrightarrow> k = j)"
      proof (intro conjI ballI)
        fix x assume "x \<in> set (live_tokens family (ts_table \<lparr>ts_table = t', ts_open = AList.delete i (ts_open s)\<rparr>))"
        then show "tk_id x = tk_id (the fd)" using old sub by auto
      next
        fix e assume "e \<in> set (ts_open \<lparr>ts_table = t', ts_open = AList.delete i (ts_open s)\<rparr>)"
        then have "e \<in> set (ts_open s)" by (simp add: set_delete)
        with old show "case e of (k, fd') \<Rightarrow> reads_live fd' family \<longrightarrow> k = j" by blast
      qed
    qed
  qed
qed

lemma begin_ok:
  assumes ok: "system_ok s" and free: "map_of (ts_open s) i = None"
    and u: "\<And>family. reads_live found family \<Longrightarrow> \<not> rotating s family" and f: "found = sql_select h (ts_table s)"
  shows "system_ok (s\<lparr>ts_open := (i, found) # ts_open s\<rparr>)"
proof -
  have new: "tk_id x = tk_id (the found)" if rl: "reads_live found family" and x: "x \<in> set (live_tokens family (ts_table s))" for family x
  proof -
    obtain row where row: "found = Some row" "tk_revoked_at row = None" "tk_family_id row = family"
      using rl by (auto simp: reads_live_def split: option.split_asm)
    then have "row \<in> set (ts_table s)" using f sql_select_Some [of h "ts_table s" row] by simp
    then have "live_tokens family (ts_table s) = [row]" using live_alone [of "ts_table s" row] ok row(2,3) by (simp add: system_ok_def)
    with x row(1) show ?thesis by simp
  qed
  have clash: "\<not> reads_live fd family" if "(j, fd) \<in> set (ts_open s)" "reads_live found family" for j fd family
    using u [OF that(2)] that(1) by (force simp: rotating_def)
  from ok free new clash show ?thesis
    unfolding system_ok_def by (auto simp: keys_distinct_Cons map_of_eq_None_iff dest: reads_live_family) blast+
qed

lemma issue_ok_system:
  assumes ok: "system_ok s" and l: "live_tokens (nullish familyId randomFamily) (ts_table s) = []"
    and r: "\<not> rotating s (nullish familyId randomFamily)"
  shows "system_ok (s\<lparr>ts_table := snd (issue cfg user familyId randomFamily raw rowId now (ts_table s))\<rparr>)"
proof -
  let ?f = "nullish familyId randomFamily" and ?t = "snd (issue cfg user familyId randomFamily raw rowId now (ts_table s))"
  have tok: "tokens_ok ?t" using issue_ok [OF _ l] ok by (simp add: system_ok_def)
  have live: "live_tokens g ?t = live_tokens g (ts_table s)" if "g \<noteq> ?f" for g
    using that by (auto simp: issue_def Let_def live_insert split: prod.split sum.split)
  have "family \<noteq> ?f" if "(i, found) \<in> set (ts_open s)" "reads_live found family" for i found family
    using r that by (force simp: rotating_def)
  with ok tok live show ?thesis unfolding system_ok_def by fastforce
qed

lemma token_step_ok:
  assumes ok: "system_ok s" and u: "undisturbing cfg s e"
  shows "system_ok (token_step cfg e s)"
proof (cases e)
  case (RotateBegin i raw)
  show ?thesis
  proof (cases "map_of (ts_open s) i")
    case None
    from begin_ok [OF ok None _ refl, of "tc_digest cfg raw"] u None show ?thesis
      by (simp add: RotateBegin undisturbing_def map_has_def)
  next
    case (Some found)
    then show ?thesis using ok by (simp add: RotateBegin map_has_def)
  qed
next
  case (RotateCommit i newRaw newId now)
  show ?thesis
  proof (cases "map_of (ts_open s) i")
    case None
    then show ?thesis using ok by (simp add: RotateCommit)
  next
    case (Some found)
    from commit_ok [OF ok Some refl, of cfg newRaw newId now] Some show ?thesis by (cases s) (simp add: RotateCommit)
  qed
next
  case (IssueToken user familyId randomFamily raw rowId now)
  then show ?thesis using issue_ok_system [OF ok] u by (simp add: undisturbing_def)
next
  case (RevokeFamily family now)
  have "system_ok \<lparr>ts_table = revoke_family family now (ts_table s), ts_open = ts_open s\<rparr>"
    using ok by (intro system_ok_fewer [OF ok]) (auto simp: revoke_family_def sql_revoke_ok system_ok_def live_revoke)
  then show ?thesis by (cases s) (simp add: RevokeFamily)
next
  case (RevokeAll user now)
  have "system_ok \<lparr>ts_table = revoke_all user now (ts_table s), ts_open = ts_open s\<rparr>"
    using ok by (intro system_ok_fewer [OF ok]) (auto simp: revoke_all_def sql_revoke_ok system_ok_def live_revoke)
  then show ?thesis by (cases s) (simp add: RevokeAll)
qed

lemma token_run_ok: "token_run cfg s s' \<Longrightarrow> system_ok s \<Longrightarrow> system_ok s'"
  by (induction rule: token_run.induct) (auto intro: token_step_ok)

text \<open>A rotation that nothing overlaps is \<open>rotate\<close>.\<close>

lemma rotate_steps:
  "map_of (ts_open s) i = None \<Longrightarrow>
   ts_table (token_step cfg (RotateCommit i newRaw newId now) (token_step cfg (RotateBegin i raw) s)) =
     snd (rotate cfg raw newRaw newId now (ts_table s))"
  by (simp add: map_has_def rotate_def rotate_body_def pg_transaction_def)

section \<open>Rotation\<close>

text \<open>A successful rotation ends the old token and starts the new one in the same family for the same user.\<close>

lemma rotate_hands_over:
  assumes ok: "tokens_ok t" and r: "rotate cfg raw newRaw newId now t = (Inr p, t')"
  shows "\<exists>row row' new. sql_select (tc_digest cfg raw) t = Some row \<and> sql_select (tc_digest cfg raw) t' = Some row' \<and>
    tk_revoked_at row' = Some now \<and> sql_select (tc_digest cfg newRaw) t' = Some new \<and>
    tk_family_id new = tk_family_id row \<and> tk_user_id new = tk_user_id row \<and> tk_revoked_at new = None \<and>
    live_tokens (tk_family_id row) t' = [new]"
proof -
  have ok': "tokens_ok t'" using rotate_ok [OF ok, of cfg raw newRaw newId now] r by simp
  from rotate_success [OF r] obtain row where
    row: "sql_select (tc_digest cfg raw) t = Some row" "tk_revoked_at row = None"
    and ins: "sql_insert newId (tc_digest cfg newRaw) (tk_family_id row) (tk_user_id row) (now + tc_refreshTtlMs cfg)
      (revoke_row (tk_id row) now t) = (Inr (), t')" by blast
  note in_t = sql_select_Some [OF row(1)]
  let ?row' = "row\<lparr>tk_revoked_at := Some now\<rparr>"
  let ?new = "\<lparr>tk_id = newId, tk_token_hash = tc_digest cfg newRaw, tk_family_id = tk_family_id row,
    tk_user_id = tk_user_id row, tk_expires_at = now + tc_refreshTtlMs cfg, tk_revoked_at = None\<rparr>"
  have t': "t' = revoke_row (tk_id row) now t @ [?new]" using ins by (auto simp: sql_insert_def split: if_splits)
  have "?row' \<in> set t'" using in_t by (force simp: t' revoke_row_def sql_revoke_def)
  then have "sql_select (tc_digest cfg raw) t' = Some ?row'" using sql_select_iff [OF ok'] in_t by simp
  moreover have "sql_select (tc_digest cfg newRaw) t' = Some ?new" using sql_select_iff [OF ok'] by (simp add: t')
  moreover have "live_tokens (tk_family_id row) t' = [?new]"
    using live_alone [OF ok', of ?new] by (simp add: t')
  ultimately show ?thesis using row(1) by force
qed

text \<open>A second use of a token is refused, and changes nothing: the revocation of the family is rolled back with the
  transaction that throws.\<close>

lemma rotate_revoked:
  "sql_select (tc_digest cfg raw) t = Some row \<Longrightarrow> tk_revoked_at row \<noteq> None \<Longrightarrow>
   rotate cfg raw newRaw newId now t = (Inl token_replay, t)"
  by (simp add: rotate_def pg_transaction_def rotate_body_def rotate_with_def)

lemma rotate_body_revoked:
  "sql_select (tc_digest cfg raw) t = Some row \<Longrightarrow> tk_revoked_at row \<noteq> None \<Longrightarrow>
   rotate_body cfg raw newRaw newId now t = (Inl token_replay, revoke_live_family (tk_family_id row) now t)"
  by (simp add: rotate_body_def rotate_with_def)

lemma revoke_live_family_none: "live_tokens family (revoke_live_family family now t) = []"
  unfolding revoke_live_family_def live_revoke by (auto simp: live_tokens_def filter_empty_conv)

text \<open>A rotation that is open while its family is revoked brings the family back to life when it commits.\<close>

lemma revoked_family_revived:
  assumes ok: "tokens_ok t" and row: "sql_select (tc_digest cfg raw) t = Some row" "tk_revoked_at row = None" "now \<le> tk_expires_at row"
    and new: "newId \<notin> tk_id ` set t" "tc_digest cfg newRaw \<notin> tk_token_hash ` set t"
  shows "length (live_tokens (tk_family_id row)
    (ts_table (foldl (\<lambda>s e. token_step cfg e s) (no_rotations t)
       [RotateBegin 0 raw, RevokeFamily (tk_family_id row) now, RotateCommit 0 newRaw newId now]))) = 1"
proof -
  let ?u = "revoke_row (tk_id row) now (revoke_family (tk_family_id row) now t)"
  have "live_tokens (tk_family_id row) ?u = []"
    by (simp add: revoke_row_def revoke_family_def live_revoke filter_empty_conv) (simp add: live_tokens_def)
  moreover have "tk_id ` set ?u = tk_id ` set t" "tk_token_hash ` set ?u = tk_token_hash ` set t"
    by (simp_all add: revoke_row_def revoke_family_def)
  ultimately show ?thesis
    using row new by (simp add: no_rotations_def pg_transaction_def rotate_with_def sql_insert_def map_has_def) (simp add: live_tokens_def)
qed

text \<open>Two rotations that both read the row before either writes.\<close>

definition interleaved_rotations ::
  "token_config \<Rightarrow> string \<Rightarrow> string \<times> string \<Rightarrow> string \<times> string \<Rightarrow> int \<Rightarrow> token_table \<Rightarrow>
   (js_error + token_pair) \<times> (js_error + token_pair) \<times> token_table" where
  "interleaved_rotations cfg raw new1 new2 now t =
     (let found1 = sql_select (tc_digest cfg raw) t; found2 = sql_select (tc_digest cfg raw) t
      in case pg_transaction (rotate_with cfg found1 (fst new1) (snd new1) now) t of (r1, t1) \<Rightarrow>
         case pg_transaction (rotate_with cfg found2 (fst new2) (snd new2) now) t1 of (r2, t2) \<Rightarrow> (r1, r2, t2))"

lemma rotations_race:
  assumes ok: "tokens_ok t" and row: "sql_select (tc_digest cfg raw) t = Some row" "tk_revoked_at row = None" "now \<le> tk_expires_at row"
    and new1: "id1 \<notin> tk_id ` set t" "tc_digest cfg raw1 \<notin> tk_token_hash ` set t"
    and new2: "id2 \<notin> insert id1 (tk_id ` set t)" "tc_digest cfg raw2 \<notin> insert (tc_digest cfg raw1) (tk_token_hash ` set t)"
    and run: "interleaved_rotations cfg raw (raw1, id1) (raw2, id2) now t = (r1, r2, t2)"
  shows "\<exists>p1 p2. r1 = Inr p1 \<and> r2 = Inr p2 \<and> length (live_tokens (tk_family_id row) t2) = 2"
proof -
  let ?new = "\<lambda>i w. \<lparr>tk_id = i, tk_token_hash = tc_digest cfg w, tk_family_id = tk_family_id row, tk_user_id = tk_user_id row,
    tk_expires_at = now + tc_refreshTtlMs cfg, tk_revoked_at = None\<rparr>"
  let ?u = "revoke_row (tk_id row) now t"
  have keys: "tk_id ` set (revoke_row i now s) = tk_id ` set s" "tk_token_hash ` set (revoke_row i now s) = tk_token_hash ` set s"
    for i s by (simp_all add: revoke_row_def)
  have ne: "id1 \<noteq> tk_id row" using new1(1) sql_select_Some [OF row(1)] by auto
  have t2: "t2 = revoke_row (tk_id row) now (?u @ [?new id1 raw1]) @ [?new id2 raw2]" and rs: "isl r1 = False" "isl r2 = False"
    using run row(2,3) new1 new2
    by (auto simp: interleaved_rotations_def row(1) pg_transaction_def rotate_with_def sql_insert_def keys simp flip: image_Un)
  have "live_tokens (tk_family_id row) ?u = []"
    using live_after_revoke [OF ok] sql_select_Some [OF row(1)] row(2) by blast
  moreover have "live_tokens f (revoke_row i now (xs @ [x])) = live_tokens f (revoke_row i now xs) @ live_tokens f (revoke_row i now [x])"
    for f i xs x by (simp add: live_tokens_def revoke_row_def sql_revoke_def)
  moreover have "live_tokens f (xs @ [x]) = live_tokens f xs @ live_tokens f [x]" for f xs x by (simp add: live_tokens_def)
  moreover have "live_tokens f (revoke_row i now xs) = []" if "live_tokens f xs = []" for f i xs
    using that by (simp add: revoke_row_def live_revoke)
  moreover have "live_tokens (tk_family_id row) (revoke_row (tk_id row) now [?new id1 raw1]) = [?new id1 raw1]"
    using ne by (simp add: live_tokens_def revoke_row_def sql_revoke_def)
  ultimately have "length (live_tokens (tk_family_id row) t2) = 2" by (simp add: t2) (simp add: live_tokens_def)
  with rs show ?thesis by (cases r1; cases r2) auto
qed

end
