(* ===== verification/ApiKeys.thy ===== *)
theory ApiKeys
  imports LruCache HttpAuth
begin

text \<open>
  \<open>ApiKeyService\<close> and \<open>apiKeyMiddleware\<close> of \<open>packages/core/src/auth/api-keys.ts\<close>: rows of \<open>street_api_keys\<close>, and in front of
  them the cache of 60 seconds, which is the \<open>LruCache\<close> of its own theory.  The cache holds what a look-up found,
  also that it found nothing.  Arguments: the SHA-256 digest, the random part of a key, the generated id and the clocks.

  \<open>verify\<close> waits for the database between the look-up in the cache and the write to it; \<open>verify_begin\<close> and \<open>verify_end\<close> are its
  two halves, so that other operations can come between them.

  \<open>keys_ok\<close> is the invariant: a cached key carries the hash it is cached under and had not expired when it was
  cached.  \<open>key_gone\<close>: what revocation establishes and every later operation keeps.
\<close>

section \<open>Entries of a cache\<close>

definition all_entries :: "(string \<Rightarrow> 'v \<Rightarrow> jsnum \<Rightarrow> bool) \<Rightarrow> 'v recency_list \<Rightarrow> bool" where
  "all_entries P L \<longleftrightarrow> (\<forall>(k, v, t) \<in> set L. P k v t)"

lemma all_entries_delete: "all_entries P L \<Longrightarrow> all_entries P (AList.delete k L)"
  by (induction L) (auto simp: all_entries_def)

lemma all_entries_butlast: "all_entries P L \<Longrightarrow> all_entries P (butlast L)"
  by (auto simp: all_entries_def dest: in_set_butlastD)

lemma spec_get_entries: "all_entries P L \<Longrightarrow> all_entries P (snd (spec_get k now L))"
proof (cases "map_of L k")
  case (Some e)
  assume P: "all_entries P L"
  obtain v t where e: "e = (v, t)" by (cases e)
  with Some have "(k, v, t) \<in> set L" by (simp add: map_of_SomeD)
  with P all_entries_delete [OF P, of k] Some e show ?thesis by (auto simp: spec_get_def all_entries_def)
qed (simp add: spec_get_def)

lemma spec_get_hit: "all_entries P L \<Longrightarrow> fst (spec_get k now L) = Some v \<Longrightarrow> \<exists>t. P k v t \<and> now \<le> t"
  by (fastforce simp: spec_get_def all_entries_def not_less split: option.splits prod.splits if_splits dest!: map_of_SomeD)

lemma spec_set_entries: "all_entries P L \<Longrightarrow> P k v t \<Longrightarrow> all_entries P (spec_set capacity k v t L)"
proof -
  assume P: "all_entries P L" "P k v t"
  have "all_entries P ((k, v, t) # AList.delete k L)"
    using all_entries_delete [OF P(1), of k] P(2) by (simp add: all_entries_def)
  from this all_entries_butlast [OF this] show ?thesis by (simp add: spec_set_def Let_def)
qed

context lru_contract
begin

lemma get_entries:
  "invar s \<Longrightarrow> all_entries P (contents s) \<Longrightarrow> all_entries P (contents (snd (get k now s)))"
  using get_law [of s k now] spec_get_entries [of P "contents s" k now] by (metis prod.sel(2))

lemma get_hit:
  "invar s \<Longrightarrow> all_entries P (contents s) \<Longrightarrow> fst (get k now s) = Some v \<Longrightarrow> \<exists>t. P k v t \<and> now \<le> t"
  using get_law [of s k now] spec_get_hit [of P "contents s" k now v] by (metis prod.sel(1))

lemma set_entries:
  "invar s \<Longrightarrow> all_entries P (contents s) \<Longrightarrow> P k v (now + ttl) \<Longrightarrow> all_entries P (contents (set_entry k v now s))"
  using set_law [of s k v now] spec_set_entries by metis

lemma remove_entries:
  "invar s \<Longrightarrow> all_entries P (contents s) \<Longrightarrow> all_entries P (contents (snd (remove k s)))"
  using remove_law [of s k] all_entries_delete by metis

lemma remove_absent: "invar s \<Longrightarrow> all_entries (\<lambda>l v t. l \<noteq> k) (contents (snd (remove k s)))"
  using remove_law [of s k] by (auto simp: all_entries_def set_delete)

end

section \<open>The service\<close>

record api_key =
  ak_id :: string
  ak_keyHash :: string
  ak_prefix :: string
  ak_name :: string
  ak_ownerId :: string
  ak_expiresAt :: "jsnum option"
  ak_createdAt :: jsnum

record api_key_service =
  as_table :: "api_key list"
  as_cache :: "api_key option lru_cache"

definition CACHE_TTL_MS :: jsnum where
  "CACHE_TTL_MS = 60000"

definition CACHE_MAX :: jsnum where
  "CACHE_MAX = 10000"

definition new_api_key_service :: "api_key list \<Rightarrow> js_error + api_key_service" where
  "new_api_key_service rows = map_sum id (\<lambda>c. \<lparr>as_table = rows, as_cache = c\<rparr>) (new_lru CACHE_MAX CACHE_TTL_MS)"

definition hash_taken :: js_error where
  "hash_taken = JsError ''Error'' ''duplicate key value violates unique constraint''"

definition generate_key ::
  "(string \<Rightarrow> string) \<Rightarrow> string option \<Rightarrow> string \<Rightarrow> string \<Rightarrow> string \<Rightarrow> string \<Rightarrow> jsnum option \<Rightarrow> jsnum \<Rightarrow> api_key_service \<Rightarrow>
   (js_error + string \<times> api_key) \<times> api_key_service" where
  "generate_key digest prefix random rowId name owner expires now s =
     (let namespace = nullish prefix ''sk_live_'';
          raw = namespace @ random;
          row = \<lparr>ak_id = rowId, ak_keyHash = digest raw, ak_prefix = namespace, ak_name = name, ak_ownerId = owner,
                 ak_expiresAt = expires, ak_createdAt = now\<rparr>
      in if rowId \<in> ak_id ` set (as_table s) \<or> digest raw \<in> ak_keyHash ` set (as_table s) then (Inl hash_taken, s)
         else (Inr (raw, row), s\<lparr>as_table := as_table s @ [row]\<rparr>))"

definition select_key :: "string \<Rightarrow> api_key_service \<Rightarrow> api_key option" where
  "select_key hash s = find (\<lambda>r. ak_keyHash r = hash) (as_table s)"

text \<open>The first half answers from the cache, or goes to the database with the hash.\<close>

definition verify_begin ::
  "(string \<Rightarrow> string) \<Rightarrow> string \<Rightarrow> jsnum \<Rightarrow> api_key_service \<Rightarrow> api_key option option \<times> api_key_service" where
  "verify_begin digest rawKey now s =
     (case lru_get (digest rawKey) now (as_cache s) of (cached, c) \<Rightarrow> (cached, s\<lparr>as_cache := c\<rparr>))"

definition key_expired :: "jsnum \<Rightarrow> api_key \<Rightarrow> bool" where
  "key_expired now k = (case ak_expiresAt k of None \<Rightarrow> False | Some e \<Rightarrow> e < now)"

definition remember :: "string \<Rightarrow> api_key option \<Rightarrow> jsnum \<Rightarrow> api_key_service \<Rightarrow> api_key option \<times> api_key_service" where
  "remember hash v now s = (v, s\<lparr>as_cache := lru_set hash v now (as_cache s)\<rparr>)"

definition verify_end :: "string \<Rightarrow> api_key option \<Rightarrow> jsnum \<Rightarrow> api_key_service \<Rightarrow> api_key option \<times> api_key_service" where
  "verify_end hash row now s =
     (case row of
        None \<Rightarrow> remember hash None now s
      | Some apiKey \<Rightarrow>
          if key_expired now apiKey then remember hash None now s
          else if ak_keyHash apiKey \<noteq> hash then remember hash None now s
          else remember hash (Some apiKey) now s)"

definition verify_key ::
  "(string \<Rightarrow> string) \<Rightarrow> string \<Rightarrow> jsnum \<Rightarrow> api_key_service \<Rightarrow> api_key option \<times> api_key_service" where
  "verify_key digest rawKey now s =
     (case verify_begin digest rawKey now s of
        (Some cached, s') \<Rightarrow> (cached, s')
      | (None, s') \<Rightarrow> verify_end (digest rawKey) (select_key (digest rawKey) s') now s')"

definition revoke_key :: "string \<Rightarrow> api_key_service \<Rightarrow> api_key_service" where
  "revoke_key rowId s =
     (let hash = map_option ak_keyHash (find (\<lambda>r. ak_id r = rowId) (as_table s));
          s = s\<lparr>as_table := filter (\<lambda>r. ak_id r \<noteq> rowId) (as_table s)\<rparr>
      in case hash of None \<Rightarrow> s | Some h \<Rightarrow> if h = [] then s else s\<lparr>as_cache := snd (lru_delete h (as_cache s))\<rparr>)"

text \<open>\<open>apiKeyMiddleware\<close>: \<open>verify\<close> is what the service returns for the key of the header.\<close>

definition api_key_middleware :: "(string \<Rightarrow> api_key option) \<Rightarrow> ('j http_context, http_error) hmw" where
  "api_key_middleware verify =
     HRead (\<lambda>c.
       case map_of (hc_headers c) ''authorization'' of
         None \<Rightarrow> HSettle (Inl (unauthorized ''Missing or invalid Authorization header''))
       | Some auth \<Rightarrow>
           if \<not> starts_with ''Bearer '' auth then HSettle (Inl (unauthorized ''Missing or invalid Authorization header''))
           else
             (case verify (trim (drop 7 auth)) of
                None \<Rightarrow> HSettle (Inl (unauthorized ''Invalid or expired API key''))
              | Some k \<Rightarrow> HWrite (\<lambda>c. c\<lparr>hc_user := Some \<lparr>hu_id = ak_ownerId k, hu_email = [], hu_roles = []\<rparr>\<rparr>) await_next))"

section \<open>The invariant\<close>

definition fresh_key :: "string \<Rightarrow> api_key option \<Rightarrow> jsnum \<Rightarrow> bool" where
  "fresh_key hash v t \<longleftrightarrow>
     (\<forall>k. v = Some k \<longrightarrow> ak_keyHash k = hash \<and> (\<forall>e. ak_expiresAt k = Some e \<longrightarrow> t \<le> e + CACHE_TTL_MS))"

definition keys_ok :: "api_key_service \<Rightarrow> bool" where
  "keys_ok s \<longleftrightarrow>
     lru_ok CACHE_MAX CACHE_TTL_MS (as_cache s) \<and> all_entries fresh_key (lru_contents (as_cache s)) \<and>
     distinct (map ak_id (as_table s)) \<and> distinct (map ak_keyHash (as_table s))"

lemma keys_okD:
  "keys_ok s \<Longrightarrow> lru_ok CACHE_MAX CACHE_TTL_MS (as_cache s)"
  "keys_ok s \<Longrightarrow> all_entries fresh_key (lru_contents (as_cache s))"
  by (simp_all add: keys_ok_def)

lemma new_service_ok: "new_api_key_service rows = Inr s \<Longrightarrow> distinct (map ak_id rows) \<Longrightarrow> distinct (map ak_keyHash rows) \<Longrightarrow> keys_ok s"
  by (cases "new_lru CACHE_MAX CACHE_TTL_MS :: js_error + api_key option lru_cache")
    (auto simp: new_api_key_service_def keys_ok_def all_entries_def dest: new_refines)

lemma remember_ok: "keys_ok s \<Longrightarrow> fresh_key hash v (now + CACHE_TTL_MS) \<Longrightarrow> keys_ok (snd (remember hash v now s))"
  using lc.set_law [OF keys_okD(1), of s hash v now] lc.set_entries [OF keys_okD, of s hash v now]
  by (simp add: keys_ok_def remember_def)

lemma verify_end_remembers: "\<exists>v. verify_end hash row now s = remember hash v now s \<and> fresh_key hash v (now + CACHE_TTL_MS)"
  by (cases row) (auto simp: verify_end_def fresh_key_def key_expired_def not_less split: option.splits)

lemma verify_begin_ok: "keys_ok s \<Longrightarrow> keys_ok (snd (verify_begin digest raw now s))"
  using lc.get_law [OF keys_okD(1), of s "digest raw" now] lc.get_entries [OF keys_okD, of s "digest raw" now]
  by (simp add: keys_ok_def verify_begin_def case_prod_beta)

lemma verify_end_ok: "keys_ok s \<Longrightarrow> keys_ok (snd (verify_end hash row now s))"
  using verify_end_remembers [of hash row now s] remember_ok by metis

lemma verify_key_ok: "keys_ok s \<Longrightarrow> keys_ok (snd (verify_key digest raw now s))"
  using verify_begin_ok [of s digest raw now] verify_end_ok
  by (cases "verify_begin digest raw now s") (auto simp: verify_key_def split: option.split)

lemma generate_key_ok: "keys_ok s \<Longrightarrow> keys_ok (snd (generate_key digest prefix random rowId name owner expires now s))"
  by (auto simp: generate_key_def Let_def keys_ok_def)

lemma revoke_key_ok: "keys_ok s \<Longrightarrow> keys_ok (revoke_key rowId s)"
  using lc.remove_law [OF keys_okD(1), of s] lc.remove_entries [OF keys_okD, of s]
  by (auto simp: revoke_key_def keys_ok_def Let_def distinct_map_filter split: option.split)

section \<open>What is accepted\<close>

lemma verify_begin_hit:
  "keys_ok s \<Longrightarrow> fst (verify_begin digest raw now s) = Some (Some k) \<Longrightarrow>
   ak_keyHash k = digest raw \<and> (\<forall>e. ak_expiresAt k = Some e \<longrightarrow> now \<le> e + CACHE_TTL_MS)"
  using lc.get_hit [OF keys_okD, of s "digest raw" now "Some k"]
  by (fastforce simp: verify_begin_def case_prod_beta fresh_key_def)

lemma verify_end_hit:
  "fst (verify_end hash row now s) = Some k \<Longrightarrow> row = Some k \<and> ak_keyHash k = hash \<and> (\<forall>e. ak_expiresAt k = Some e \<longrightarrow> now \<le> e)"
  by (auto simp: verify_end_def remember_def key_expired_def not_less split: option.splits if_splits)

lemma accepted_key:
  assumes "keys_ok s" "fst (verify_key digest raw now s) = Some k"
  shows "ak_keyHash k = digest raw \<and> (\<forall>e. ak_expiresAt k = Some e \<longrightarrow> now \<le> e + CACHE_TTL_MS)"
proof (cases "fst (verify_begin digest raw now s)")
  case None
  then obtain s' where b: "verify_begin digest raw now s = (None, s')" by (cases "verify_begin digest raw now s") auto
  then have "fst (verify_end (digest raw) (select_key (digest raw) s') now s') = Some k"
    using assms(2) by (simp add: verify_key_def)
  from verify_end_hit [OF this] show ?thesis by (force simp: CACHE_TTL_MS_def)
next
  case (Some v)
  then obtain s' where "verify_begin digest raw now s = (Some v, s')" by (cases "verify_begin digest raw now s") auto
  then have "v = Some k" using assms(2) by (simp add: verify_key_def)
  with Some verify_begin_hit [OF assms(1)] show ?thesis by simp
qed

section \<open>Revocation\<close>

definition refused_entry :: "string \<Rightarrow> string \<Rightarrow> api_key option \<Rightarrow> jsnum \<Rightarrow> bool" where
  "refused_entry h hash v t \<longleftrightarrow> hash = h \<longrightarrow> v = None"

definition key_gone :: "string \<Rightarrow> api_key_service \<Rightarrow> bool" where
  "key_gone h s \<longleftrightarrow>
     keys_ok s \<and> h \<notin> ak_keyHash ` set (as_table s) \<and> all_entries (refused_entry h) (lru_contents (as_cache s))"

lemma revoke_establishes:
  assumes "keys_ok s" "row \<in> set (as_table s)" "ak_keyHash row \<noteq> []"
  shows "key_gone (ak_keyHash row) (revoke_key (ak_id row) s)"
proof -
  have inj: "inj_on ak_id (set (as_table s))" "inj_on ak_keyHash (set (as_table s))"
    using assms(1) by (simp_all add: keys_ok_def distinct_map)
  obtain r where r: "find (\<lambda>r. ak_id r = ak_id row) (as_table s) = Some r"
    using assms(2) by (cases "find (\<lambda>r. ak_id r = ak_id row) (as_table s)") (auto simp: find_None_iff)
  then have "r \<in> set (as_table s)" "ak_id r = ak_id row" by (auto simp: find_Some_iff)
  then have "r = row" using inj(1) assms(2) by (auto dest: inj_onD)
  with r assms(3) have rev: "as_table (revoke_key (ak_id row) s) = filter (\<lambda>r. ak_id r \<noteq> ak_id row) (as_table s)"
    "as_cache (revoke_key (ak_id row) s) = snd (lru_delete (ak_keyHash row) (as_cache s))"
    by (simp_all add: revoke_key_def)
  have "ak_keyHash row \<notin> ak_keyHash ` set (filter (\<lambda>r. ak_id r \<noteq> ak_id row) (as_table s))"
    using inj(2) assms(2) by (auto dest: inj_onD)
  moreover have "all_entries (refused_entry (ak_keyHash row)) (lru_contents (snd (lru_delete (ak_keyHash row) (as_cache s))))"
    using lc.remove_absent [OF keys_okD(1) [OF assms(1)], of "ak_keyHash row"]
    by (auto simp: all_entries_def refused_entry_def)
  ultimately show ?thesis using revoke_key_ok [OF assms(1)] by (simp add: key_gone_def rev)
qed

lemma select_gone: "key_gone h s \<Longrightarrow> select_key h s = None"
  by (auto simp: key_gone_def select_key_def find_None_iff)

lemma remember_gone: "key_gone h s \<Longrightarrow> keys_ok (snd (remember hash v now s)) \<Longrightarrow> hash = h \<longrightarrow> v = None \<Longrightarrow> key_gone h (snd (remember hash v now s))"
  using lc.set_entries [of CACHE_MAX CACHE_TTL_MS "as_cache s" "refused_entry h" hash v now]
  by (auto simp: key_gone_def remember_def keys_ok_def refused_entry_def)

lemma verify_begin_gone:
  assumes "key_gone h s"
  shows "key_gone h (snd (verify_begin digest raw now s))"
    "digest raw = h \<Longrightarrow> fst (verify_begin digest raw now s) \<in> {None, Some None}"
proof -
  have ok: "keys_ok s" and e: "all_entries (refused_entry h) (lru_contents (as_cache s))" using assms by (simp_all add: key_gone_def)
  show "key_gone h (snd (verify_begin digest raw now s))"
    using assms verify_begin_ok [OF ok, of digest raw now] lc.get_entries [OF keys_okD(1) [OF ok] e, of "digest raw" now]
    by (simp add: key_gone_def verify_begin_def case_prod_beta)
  show "digest raw = h \<Longrightarrow> fst (verify_begin digest raw now s) \<in> {None, Some None}"
    using lc.get_hit [OF keys_okD(1) [OF ok] e, of "digest raw" now]
    by (cases "fst (verify_begin digest raw now s)") (auto simp: verify_begin_def case_prod_beta refused_entry_def)
qed

lemma verify_gone:
  assumes "key_gone h s"
  shows "key_gone h (snd (verify_key digest raw now s))" "digest raw = h \<Longrightarrow> fst (verify_key digest raw now s) = None"
proof -
  obtain r s' where b: "verify_begin digest raw now s = (r, s')" by (cases "verify_begin digest raw now s")
  note gone = verify_begin_gone [OF assms, of digest raw now, unfolded b, simplified]
  have ok: "keys_ok (snd (verify_end (digest raw) (select_key (digest raw) s') now s'))"
    using gone(1) by (intro verify_end_ok) (simp add: key_gone_def)
  obtain v where v: "verify_end (digest raw) (select_key (digest raw) s') now s' = remember (digest raw) v now s'"
    using verify_end_remembers by blast
  have none: "v = None" if "digest raw = h"
    using v that select_gone [OF gone(1)] by (simp add: verify_end_def remember_def)
  have "key_gone h (snd (verify_end (digest raw) (select_key (digest raw) s') now s'))"
    using remember_gone [OF gone(1), of "digest raw" v now] ok none v by simp
  then show "key_gone h (snd (verify_key digest raw now s))"
    using gone(1) by (cases r) (simp_all add: verify_key_def b)
  show "digest raw = h \<Longrightarrow> fst (verify_key digest raw now s) = None"
    using gone(2) none v by (cases r) (auto simp: verify_key_def b remember_def)
qed

lemma generate_gone:
  "key_gone h s \<Longrightarrow> digest (nullish prefix ''sk_live_'' @ random) \<noteq> h \<Longrightarrow>
   key_gone h (snd (generate_key digest prefix random rowId name owner expires now s))"
  using generate_key_ok by (auto simp: key_gone_def generate_key_def Let_def keys_ok_def)

lemma revoke_gone: "key_gone h s \<Longrightarrow> key_gone h (revoke_key rowId s)"
proof -
  assume g: "key_gone h s"
  then have ok: "keys_ok s" by (simp add: key_gone_def)
  show ?thesis
    using g revoke_key_ok [OF ok, of rowId] lc.remove_entries [OF keys_okD(1) [OF ok], of "refused_entry h"]
    by (auto simp: key_gone_def revoke_key_def Let_def split: option.splits)
qed

text \<open>A history of one process: every operation runs to its end before the next.\<close>

datatype key_op =
    KGenerate "string option" string string string string "jsnum option" jsnum
  | KVerify string jsnum
  | KRevoke string

definition key_step :: "(string \<Rightarrow> string) \<Rightarrow> api_key_service \<Rightarrow> key_op \<Rightarrow> api_key_service" where
  "key_step digest s op =
     (case op of
        KGenerate prefix random rowId name owner expires now \<Rightarrow>
          snd (generate_key digest prefix random rowId name owner expires now s)
      | KVerify raw now \<Rightarrow> snd (verify_key digest raw now s)
      | KRevoke rowId \<Rightarrow> revoke_key rowId s)"

definition draws_anew :: "(string \<Rightarrow> string) \<Rightarrow> string \<Rightarrow> key_op \<Rightarrow> bool" where
  "draws_anew digest h op =
     (case op of KGenerate prefix random rowId name owner expires now \<Rightarrow> digest (nullish prefix ''sk_live_'' @ random) \<noteq> h | _ \<Rightarrow> True)"

lemma run_ok: "keys_ok s \<Longrightarrow> keys_ok (foldl (key_step digest) s ops)"
  by (induction ops arbitrary: s) (auto simp: key_step_def generate_key_ok verify_key_ok revoke_key_ok split: key_op.split)

lemma run_gone: "key_gone h s \<Longrightarrow> list_all (draws_anew digest h) ops \<Longrightarrow> key_gone h (foldl (key_step digest) s ops)"
proof (induction ops arbitrary: s)
  case (Cons op ops)
  then have "key_gone h (key_step digest s op)"
    by (cases op) (auto simp: key_step_def draws_anew_def generate_gone verify_gone(1) revoke_gone)
  with Cons show ?case by simp
qed simp

section \<open>A verification overtaken by a revocation\<close>

lemma spec_get_set: "now' \<le> t \<Longrightarrow> 1 \<le> capacity \<Longrightarrow> fst (spec_get k now' (spec_set capacity k v t L)) = Some v"
proof -
  assume "now' \<le> t" "1 \<le> capacity"
  moreover have "map_of (spec_set capacity k v t L) k = Some (v, t)"
    using \<open>1 \<le> capacity\<close> by (cases "AList.delete k L") (auto simp: spec_set_def Let_def)
  ultimately show ?thesis by (simp add: spec_get_def)
qed

lemma overtaken_revival:
  assumes "keys_ok s" "verify_begin digest raw now s = (None, s1)" "select_key (digest raw) s1 = Some row" "\<not> key_expired now row"
    "now' \<le> now + CACHE_TTL_MS"
  defines "s2 \<equiv> revoke_key (ak_id row) s1"
  defines "s3 \<equiv> snd (verify_end (digest raw) (Some row) now s2)"
  shows "row \<notin> set (as_table s3)" "fst (verify_key digest raw now' s3) = Some row"
proof -
  have h: "ak_keyHash row = digest raw" using assms(3) by (auto simp: select_key_def find_Some_iff)
  have ok: "keys_ok s2" using revoke_key_ok verify_begin_ok [OF assms(1), of digest raw now] assms(2) by (simp add: s2_def)
  have s3: "s3 = snd (remember (digest raw) (Some row) now s2)" using h assms(4) by (simp add: s3_def verify_end_def)
  have "row \<notin> set (as_table s2)" by (auto simp: s2_def revoke_key_def Let_def split: option.split)
  then show "row \<notin> set (as_table s3)" by (simp add: s3 remember_def)
  have c: "lru_ok CACHE_MAX CACHE_TTL_MS (as_cache s3)"
    "lru_contents (as_cache s3) = spec_set CACHE_MAX (digest raw) (Some row) (now + CACHE_TTL_MS) (lru_contents (as_cache s2))"
    using lc.set_law [OF keys_okD(1) [OF ok], of "digest raw" "Some row" now] by (simp_all add: s3 remember_def)
  have "fst (lru_get (digest raw) now' (as_cache s3)) = Some (Some row)"
    using lc.get_law [OF c(1), of "digest raw" now'] spec_get_set [OF assms(5)] unfolding c(2)
    by (metis CACHE_MAX_def fst_conv one_le_numeral)
  then show "fst (verify_key digest raw now' s3) = Some row"
    by (simp add: verify_key_def verify_begin_def case_prod_beta)
qed

end
