(* ===== verification/Base32.thy ===== *)
theory Base32
  imports Wire
begin

text \<open>
  \<open>base32Encode\<close> and \<open>base32Decode\<close> of \<open>packages/core/src/auth/mfa.ts\<close> (RFC 4648, without padding).  Both loops keep a
  32-bit accumulator that they shift left and never mask, so its upper bits are what is left of earlier bytes and fall out at
  the top; \<open>bits\<close> counts the low bits still to come out.

  \<open>base32_round_trip\<close>: the decoder gives the bytes back.  The proof follows the two loops byte by byte: between two bytes
  the encoder holds the low bits of the last byte and the decoder its high bits (\<open>shared\<close>).
\<close>

definition B32_ALPHABET :: string where
  "B32_ALPHABET = ''ABCDEFGHIJKLMNOPQRSTUVWXYZ234567''"

definition b32_digit :: "32 word \<Rightarrow> char" where
  "b32_digit w = B32_ALPHABET ! unat (w AND 31)"

text \<open>\<open>while (bits >= 5)\<close>.\<close>

fun b32_emit :: "32 word \<Rightarrow> nat \<Rightarrow> string \<times> nat" where
  "b32_emit value bits =
     (if 5 \<le> bits
      then (case b32_emit value (bits - 5) of (out, rest) \<Rightarrow> (b32_digit (drop_bit (bits - 5) value) # out, rest))
      else ([], bits))"

declare b32_emit.simps [simp del]

fun b32_encode_from :: "32 word \<Rightarrow> nat \<Rightarrow> byte list \<Rightarrow> string" where
  "b32_encode_from value bits [] = (if 0 < bits then [b32_digit (push_bit (5 - bits) value)] else [])"
| "b32_encode_from value bits (b # bs) =
     (let value = push_bit 8 value OR ucast b
      in case b32_emit value (bits + 8) of (out, bits') \<Rightarrow> out @ b32_encode_from value bits' bs)"

definition base32_encode :: "byte list \<Rightarrow> string" where
  "base32_encode buf = b32_encode_from 0 0 buf"

definition index_of :: "char \<Rightarrow> string \<Rightarrow> nat option" where
  "index_of c s = (let n = length (takeWhile (\<lambda>x. x \<noteq> c) s) in if n < length s then Some n else None)"

definition bad_base32 :: "char \<Rightarrow> js_error" where
  "bad_base32 ch = JsError ''Error'' (''Invalid base32 character: '' @ [ch])"

fun b32_decode_from :: "32 word \<Rightarrow> nat \<Rightarrow> string \<Rightarrow> js_error + byte list" where
  "b32_decode_from value bits [] = Inr []"
| "b32_decode_from value bits (ch # cs) =
     (case index_of ch B32_ALPHABET of
        None \<Rightarrow> Inl (bad_base32 ch)
      | Some idx \<Rightarrow>
          (let value = push_bit 5 value OR of_nat idx; bits = bits + 5
           in if 8 \<le> bits
              then and_then (b32_decode_from value (bits - 8) cs) (\<lambda>r. Inr (ucast (drop_bit (bits - 8) value) # r))
              else b32_decode_from value bits cs))"

definition strip_padding :: "string \<Rightarrow> string" where
  "strip_padding s = rev (dropWhile (\<lambda>c. c = CHR ''='') (rev s))"

definition base32_decode :: "string \<Rightarrow> js_error + byte list" where
  "base32_decode input = b32_decode_from 0 0 (filter (\<lambda>c. \<not> is_space c) (strip_padding (to_upper input)))"

section \<open>The alphabet\<close>

lemma and_31: "w AND (31 :: 32 word) = take_bit 5 w"
  by (simp add: take_bit_eq_mask mask_eq_exp_minus_1)

lemma b32_digit_index: "index_of (b32_digit w) B32_ALPHABET = Some (unat (take_bit 5 w))"
proof -
  have "list_all (\<lambda>n. index_of (B32_ALPHABET ! n) B32_ALPHABET = Some n) [0..<32]" by code_simp
  moreover have "unat (take_bit 5 w) < 32"
    using take_bit_nat_less_exp [of 5 "unat w"] by (simp add: unsigned_take_bit_eq)
  ultimately show ?thesis by (simp add: list_all_iff b32_digit_def and_31)
qed

lemma decode_digit:
  "b32_decode_from v bits (b32_digit w # cs) =
   (let u = push_bit 5 v OR take_bit 5 w
    in if 3 \<le> bits then and_then (b32_decode_from u (bits - 3) cs) (\<lambda>r. Inr (ucast (drop_bit (bits - 3) u) # r))
       else b32_decode_from u (bits + 5) cs)"
  by (simp add: b32_digit_index Let_def)

section \<open>Between two bytes\<close>

definition shared :: "byte \<Rightarrow> nat \<Rightarrow> 32 word \<Rightarrow> nat \<Rightarrow> 32 word \<Rightarrow> bool" where
  "shared l be ve bd vd \<longleftrightarrow>
     be < 5 \<and> bd = (if be = 0 then 0 else 8 - be) \<and>
     (\<forall>i < be. bit ve i = bit l i) \<and> (\<forall>i < bd. bit vd i = bit l (i + be))"

definition taken :: "32 word \<Rightarrow> byte \<Rightarrow> 32 word" where
  "taken ve b = push_bit 8 ve OR ucast b"

lemma bit_taken:
  "i < 8 \<Longrightarrow> bit (taken ve b) i = bit b i"
  "i < 5 \<Longrightarrow> bit (taken ve b) (i + 8) = bit ve i"
  by (auto simp: taken_def bit_simps dest: bit_imp_le_length)

lemma byte_eqI: "(\<And>i. i < 8 \<Longrightarrow> bit x i = bit y i) \<Longrightarrow> x = (y :: byte)"
  by (rule bit_word_eqI) simp

text \<open>The next five bits complete the last byte, and leave the high bits of the next one.\<close>

lemma completes:
  assumes "shared l be ve bd vd" "0 < be"
  shows "ucast (drop_bit (5 - be) (push_bit 5 vd OR take_bit 5 (drop_bit (be + 3) (taken ve b)))) = l" (is "?x = l")
proof (rule byte_eqI)
  fix i :: nat
  assume i: "i < 8"
  have be: "be < 5" "bd = 8 - be" and low: "\<forall>i < be. bit ve i = bit l i" and high: "\<forall>i < bd. bit vd i = bit l (i + be)"
    using assms by (simp_all add: shared_def)
  have e: "bit ?x i = (bit (push_bit 5 vd) (i + (5 - be)) \<or> i + (5 - be) < 5 \<and> bit (taken ve b) (i + (5 - be) + (be + 3)))"
    using i be by (simp add: bit_simps ac_simps)
  show "bit ?x i = bit l i"
  proof (cases "be \<le> i")
    case True
    then obtain j where j: "i = be + j" using le_Suc_ex by blast
    then have "i + (5 - be) = j + 5" "j < bd" using be i by simp_all
    with high i be j show ?thesis by (simp add: e bit_simps ac_simps)
  next
    case False
    then have lt: "i + (5 - be) < 5" "i + (5 - be) + (be + 3) = i + 8" using be by simp_all
    then have "\<not> bit (push_bit 5 vd) (i + (5 - be))" unfolding bit_push_bit_iff by (metis leD)
    with False low bit_taken(2) [of i ve b] be lt show ?thesis unfolding e lt(2) by simp
  qed
qed

lemma leaves_high:
  "be < 5 \<Longrightarrow> i < 5 - be \<Longrightarrow>
   bit (push_bit 5 vd OR take_bit 5 (drop_bit (be + 3) (taken ve b))) i = bit b (i + (be + 3))"
  by (auto simp: bit_simps bit_taken(1) ac_simps)

lemma second_digit:
  assumes "be < 5" "2 \<le> be" "\<forall>i < 5 - be. bit v i = bit b (i + (be + 3))" "i < 10 - be"
  shows "bit (push_bit 5 v OR take_bit 5 (drop_bit (be - 2) (taken ve b))) i = bit b (i + (be - 2))"
proof (cases "i < 5")
  case True
  then have "bit (taken ve b) (i + (be - 2)) = bit b (i + (be - 2))" using assms by (intro bit_taken) simp
  with True assms(4) show ?thesis by (simp add: bit_simps ac_simps)
next
  case False
  then have "bit v (i - 5) = bit b (i - 5 + (be + 3))" "i - 5 + (be + 3) = i + (be - 2)" using assms by auto
  moreover have "i < 32" using assms(4) by simp
  ultimately show ?thesis using False assms(2) by (simp add: bit_simps)
qed

lemma completes_last:
  assumes "shared l be ve bd vd" "0 < be"
  shows "ucast (drop_bit (5 - be) (push_bit 5 vd OR take_bit 5 (push_bit (5 - be) ve))) = l" (is "?x = l")
proof (rule byte_eqI)
  fix i :: nat
  assume i: "i < 8"
  have be: "be < 5" "bd = 8 - be" and low: "\<forall>i < be. bit ve i = bit l i" and high: "\<forall>i < bd. bit vd i = bit l (i + be)"
    using assms by (simp_all add: shared_def)
  show "bit ?x i = bit l i"
  proof (cases "be \<le> i")
    case True
    then obtain j where j: "i = be + j" using le_Suc_ex by blast
    then have "be + j + (5 - be) = j + 5" "j < bd" using be i by simp_all
    with high i be j show ?thesis by (simp add: bit_simps ac_simps)
  next
    case False
    then have "5 + i - be < 5" "5 - be \<le> 5 + i - be" "5 + i - be - (5 - be) = i" using be by simp_all
    with False low be i show ?thesis by (simp add: bit_simps ac_simps)
  qed
qed

lemma emit_rest: "bits < 5 \<Longrightarrow> b32_emit v bits = ([], bits)"
  by (subst b32_emit.simps) simp

lemma emit_digit: "b32_emit v (bits + 5) = (case b32_emit v bits of (out, rest) \<Rightarrow> (b32_digit (drop_bit bits v) # out, rest))"
  by (subst b32_emit.simps) simp

lemma emit_byte:
  assumes "be < 5"
  shows "b32_emit v (be + 8) =
    (if be < 2 then ([b32_digit (drop_bit (be + 3) v)], be + 3)
     else ([b32_digit (drop_bit (be + 3) v), b32_digit (drop_bit (be - 2) v)], be - 2))"
proof (cases "be < 2")
  case True
  then show ?thesis using emit_digit [of v "be + 3"] by (simp add: emit_rest add.assoc)
next
  case False
  then obtain k where "be = k + 2" by (metis add.commute le_Suc_ex not_less)
  then show ?thesis using emit_digit [of v "k + 5"] emit_digit [of v k] assms by (simp add: emit_rest ac_simps)
qed

lemma encode_from_Cons:
  "be < 5 \<Longrightarrow> b32_encode_from ve be (b # bs) =
   (if be < 2 then b32_digit (drop_bit (be + 3) (taken ve b)) # b32_encode_from (taken ve b) (be + 3) bs
    else b32_digit (drop_bit (be + 3) (taken ve b)) # b32_digit (drop_bit (be - 2) (taken ve b)) #
      b32_encode_from (taken ve b) (be - 2) bs)"
  unfolding b32_encode_from.simps Let_def taken_def [symmetric] by (simp add: emit_byte)

lemma decode_encode:
  "shared l be ve bd vd \<Longrightarrow> b32_decode_from vd bd (b32_encode_from ve be bs) = Inr ((if be = 0 then [] else [l]) @ bs)"
proof (induction bs arbitrary: l be ve bd vd)
  case Nil
  then have be: "be < 5" "bd = (if be = 0 then 0 else 8 - be)" by (simp_all add: shared_def)
  show ?case
  proof (cases "be = 0")
    case False
    then have "8 - be - 3 = 5 - be" "3 \<le> 8 - be" using be by simp_all
    with False be completes_last [OF Nil] show ?thesis by (simp add: decode_digit Let_def del: b32_decode_from.simps(2))
  qed simp
next
  case (Cons b bs)
  then have be: "be < 5" "bd = (if be = 0 then 0 else 8 - be)" by (simp_all add: shared_def)
  define u where "u = push_bit 5 vd OR take_bit 5 (drop_bit (be + 3) (taken ve b))"
  have first: "b32_decode_from vd bd (b32_digit (drop_bit (be + 3) (taken ve b)) # cs) =
      and_then (b32_decode_from u (5 - be) cs) (\<lambda>r. Inr ((if be = 0 then [] else [l]) @ r))" for cs
  proof (cases "be = 0")
    case True
    then show ?thesis using be
      by (cases "b32_decode_from u 5 cs") (simp_all add: decode_digit u_def del: b32_decode_from.simps(2))
  next
    case False
    then have "3 \<le> 8 - be" using be by simp
    with False be completes [OF Cons.prems, of b] show ?thesis
      by (simp add: decode_digit u_def [symmetric] del: b32_decode_from.simps(2))
  qed
  have high: "\<forall>i < 5 - be. bit u i = bit b (i + (be + 3))" using leaves_high [OF be(1)] by (simp add: u_def)
  show ?case
  proof (cases "be < 2")
    case True
    then have "shared b (be + 3) (taken ve b) (5 - be) u" using high by (simp add: shared_def bit_taken)
    from Cons.IH [OF this] show ?thesis
      unfolding encode_from_Cons [OF be(1)] if_P [OF True] first by simp
  next
    case False
    define w where "w = push_bit 5 u OR take_bit 5 (drop_bit (be - 2) (taken ve b))"
    have w: "bit w i = bit b (i + (be - 2))" if "i < 10 - be" for i
      using second_digit [OF be(1) _ high that] False by (simp add: w_def)
    have second: "b32_decode_from u (5 - be) (b32_digit (drop_bit (be - 2) (taken ve b)) # cs) =
        (if be = 2 then and_then (b32_decode_from w 0 cs) (\<lambda>r. Inr (ucast w # r)) else b32_decode_from w (10 - be) cs)" for cs
      using False be by (auto simp: decode_digit w_def [symmetric] Let_def simp del: b32_decode_from.simps(2))
    have sh: "shared b (be - 2) (taken ve b) (if be = 2 then 0 else 10 - be) w"
    proof -
      have "be - 2 < 5" using be by simp
      then show ?thesis using w False be by (simp add: shared_def bit_taken)
    qed
    have "ucast w = b" if "be = 2" using w that by (intro byte_eqI) (simp add: bit_simps)
    with Cons.IH [OF sh] False be show ?thesis
      unfolding encode_from_Cons [OF be(1)] if_not_P [OF False] first second by (cases "be = 2") simp_all
  qed
qed

section \<open>The round trip\<close>

definition b32_char :: "char \<Rightarrow> bool" where
  "b32_char c \<longleftrightarrow> c \<in> set B32_ALPHABET"

lemma b32_alphabet_plain: "b32_char c \<Longrightarrow> upper_char c = c \<and> \<not> is_space c \<and> c \<noteq> CHR ''=''"
proof -
  have "list_all (\<lambda>c. upper_char c = c \<and> \<not> is_space c \<and> c \<noteq> CHR ''='') B32_ALPHABET" by code_simp
  then show "b32_char c \<Longrightarrow> ?thesis" by (simp add: list_all_iff b32_char_def)
qed

lemma b32_digit_char: "b32_char (b32_digit w)"
proof -
  have "unat (take_bit 5 w) < 32"
    using take_bit_nat_less_exp [of 5 "unat w"] by (simp add: unsigned_take_bit_eq)
  moreover have "length B32_ALPHABET = 32" by (simp add: B32_ALPHABET_def)
  ultimately show ?thesis by (simp add: b32_char_def b32_digit_def and_31)
qed

lemma b32_emit_chars: "list_all b32_char (fst (b32_emit v bits))"
  by (induction v bits rule: b32_emit.induct) (subst b32_emit.simps, auto simp: b32_digit_char case_prod_beta)

lemma b32_encode_chars: "list_all b32_char (b32_encode_from v bits bs)"
proof (induction bs arbitrary: v bits)
  case Nil
  then show ?case by (simp add: b32_digit_char)
next
  case (Cons b bs)
  then show ?case using b32_emit_chars by (simp add: case_prod_beta Let_def)
qed

text \<open>Padding and letter case do not matter.\<close>

lemma strip_padding_more: "strip_padding (s @ replicate n CHR ''='') = strip_padding s"
proof -
  have "dropWhile (\<lambda>c. c = CHR ''='') (replicate n CHR ''='' @ t) = dropWhile (\<lambda>c. c = CHR ''='') t" for t by (induction n) auto
  then show ?thesis by (simp add: strip_padding_def)
qed

lemma base32_padded: "base32_decode (s @ replicate n CHR ''='') = base32_decode s"
proof -
  have "upper_char CHR ''='' = CHR ''=''" by code_simp
  then have "to_upper (s @ replicate n CHR ''='') = to_upper s @ replicate n CHR ''=''" by (simp add: to_upper_def)
  then show ?thesis by (simp add: base32_decode_def strip_padding_more)
qed

lemma base32_case: "to_upper s = to_upper s' \<Longrightarrow> base32_decode s = base32_decode s'"
  by (simp add: base32_decode_def)

lemma base32_round_trip: "base32_decode (base32_encode buf) = Inr buf"
proof -
  let ?s = "base32_encode buf"
  have c: "\<forall>c \<in> set ?s. upper_char c = c \<and> \<not> is_space c \<and> c \<noteq> CHR ''=''"
    using b32_encode_chars [of 0 0 buf] b32_alphabet_plain by (auto simp: base32_encode_def list_all_iff)
  have "to_upper ?s = ?s" using c by (simp add: to_upper_def map_idI)
  moreover have "strip_padding ?s = ?s"
  proof -
    have d: "dropWhile (\<lambda>c. c = CHR ''='') t = t" if "\<forall>c \<in> set t. c \<noteq> CHR ''=''" for t :: string using that by (cases t) auto
    have "dropWhile (\<lambda>c. c = CHR ''='') (rev ?s) = rev ?s" using c by (intro d) simp
    then show ?thesis by (simp add: strip_padding_def)
  qed
  moreover have "filter (\<lambda>c. \<not> is_space c) ?s = ?s" using c by (simp add: filter_id_conv)
  moreover have "shared 0 0 0 0 0" by (simp add: shared_def)
  ultimately show ?thesis using decode_encode [of 0 0 0 0 0 buf] by (simp add: base32_decode_def base32_encode_def)
qed

end
