(* ===== verification/Mfa.thy ===== *)
theory Mfa
  imports Base32 HttpContext
begin

text \<open>
  \<open>packages/core/src/auth/mfa.ts\<close>: one-time passwords (RFC 4226 and RFC 6238), enrolment and recovery codes over the table
  \<open>street_mfa\<close>, and the step-up guard.  Arguments: the HMAC (\<open>hmac secret counter\<close>, whose digest has at least 20
  bytes for each of the three algorithms), the SHA-256 digest of recovery codes, the random secret and codes, the clocks.

  \<open>hotp_shape\<close>: a code has exactly the configured number of digits.  \<open>verify_totp_iff\<close>: a code is accepted exactly when it is
  the code of a period within the window.  \<open>recovery_once\<close>: a recovery code works once.
\<close>

section \<open>One-time passwords\<close>

record totp_options =
  to_digits :: nat
  to_periodSec :: jsnum

definition default_totp :: totp_options where
  "default_totp = \<lparr>to_digits = 6, to_periodSec = 30\<rparr>"

definition pad_start :: "nat \<Rightarrow> char \<Rightarrow> string \<Rightarrow> string" where
  "pad_start n c s = replicate (n - length s) c @ s"

definition truncate_hmac :: "byte list \<Rightarrow> 32 word" where
  "truncate_hmac mac =
     (let offset = unat (last mac AND 0x0F); part = (\<lambda>i. ucast (mac ! (offset + i)) :: 32 word)
      in push_bit 24 (part 0 AND 0x7F) OR push_bit 16 (part 1 AND 0xFF) OR push_bit 8 (part 2 AND 0xFF) OR (part 3 AND 0xFF))"

definition hotp :: "(byte list \<Rightarrow> byte list \<Rightarrow> byte list) \<Rightarrow> totp_options \<Rightarrow> byte list \<Rightarrow> int \<Rightarrow> js_error + string" where
  "hotp hmac opts secret counter =
     and_then (write_uint 8 counter) (\<lambda>counterBuf.
       Inr (pad_start (to_digits opts) CHR ''0''
              (show_nat (unat (truncate_hmac (hmac secret counterBuf)) mod 10 ^ to_digits opts))))"

text \<open>
  \<open>Math.floor(nowMs / 1000 / period)\<close>.  With a period of 0 it is not finite, and \<open>BigInt\<close> of it (or of its sum with a step of the
  window) throws: \<open>step_code\<close> is \<open>hotp\<close> at \<open>BigInt(counter)\<close>.
\<close>

definition not_an_integer :: js_error where
  "not_an_integer = JsError ''RangeError'' ''The number cannot be converted to a BigInt because it is not an integer''"

definition time_counter :: "totp_options \<Rightarrow> jsnum \<Rightarrow> int" where
  "time_counter opts nowMs = floor (nowMs / 1000 / to_periodSec opts)"

definition step_code :: "(byte list \<Rightarrow> byte list \<Rightarrow> byte list) \<Rightarrow> totp_options \<Rightarrow> byte list \<Rightarrow> int \<Rightarrow> js_error + string" where
  "step_code hmac opts secret counter = (if to_periodSec opts = 0 then Inl not_an_integer else hotp hmac opts secret counter)"

lemma step_code_hotp: "to_periodSec opts \<noteq> 0 \<Longrightarrow> step_code hmac opts secret = hotp hmac opts secret"
  by (rule ext) (simp add: step_code_def)

definition totp :: "(byte list \<Rightarrow> byte list \<Rightarrow> byte list) \<Rightarrow> totp_options \<Rightarrow> byte list \<Rightarrow> jsnum \<Rightarrow> js_error + string" where
  "totp hmac opts secret nowMs = step_code hmac opts secret (time_counter opts nowMs)"

text \<open>The loop over the periods of the window.\<close>

fun try_periods :: "(int \<Rightarrow> js_error + string) \<Rightarrow> string \<Rightarrow> int list \<Rightarrow> js_error + bool" where
  "try_periods code candidate [] = Inr False"
| "try_periods code candidate (c # cs) =
     and_then (code c) (\<lambda>expected. if expected = candidate then Inr True else try_periods code candidate cs)"

definition verify_totp ::
  "(byte list \<Rightarrow> byte list \<Rightarrow> byte list) \<Rightarrow> totp_options \<Rightarrow> int \<Rightarrow> byte list \<Rightarrow> string \<Rightarrow> jsnum \<Rightarrow> js_error + bool" where
  "verify_totp hmac opts window secret code nowMs =
     (let candidate = trim code; counter = time_counter opts nowMs
      in if candidate = [] \<or> \<not> list_all is_digit candidate \<or> length candidate \<noteq> to_digits opts then Inr False
         else try_periods (step_code hmac opts secret) candidate (map (\<lambda>w. counter + w) [- window..window]))"

lemma pad_start_length: "length s \<le> n \<Longrightarrow> length (pad_start n c s) = n"
  by (simp add: pad_start_def)

lemma hotp_shape:
  assumes "0 < to_digits opts" "hotp hmac opts secret counter = Inr code"
  shows "length code = to_digits opts \<and> list_all is_digit code"
proof -
  let ?n = "unat (truncate_hmac (hmac secret (be_bytes 8 counter))) mod 10 ^ to_digits opts"
  have code: "code = pad_start (to_digits opts) CHR ''0'' (show_nat ?n)"
    using assms(2) by (auto simp: hotp_def write_uint_def split: if_splits)
  have "?n < 10 ^ to_digits opts" by simp
  then have "length (show_nat ?n) \<le> to_digits opts" by (rule show_nat_length [OF assms(1)])
  moreover have "is_digit CHR ''0''" by (simp add: is_digit_def)
  ultimately show ?thesis using show_nat_digits [of ?n]
    by (simp add: code pad_start_length) (auto simp: pad_start_def list_all_iff)
qed

lemma try_periods_iff:
  "\<forall>c \<in> set cs. code c = Inr (f c) \<Longrightarrow> try_periods code candidate cs = Inr (candidate \<in> f ` set cs)"
  by (induction cs) auto

lemma hotp_returns: "0 \<le> c \<Longrightarrow> c < 2 ^ 64 \<Longrightarrow> \<exists>s. hotp hmac opts secret c = Inr s"
  by (simp add: hotp_def write_uint_def)

lemma verify_totp_iff:
  assumes "0 < to_digits opts" "window \<le> time_counter opts nowMs" "time_counter opts nowMs + window < 2 ^ 64" "to_periodSec opts \<noteq> 0"
  shows "verify_totp hmac opts window secret code nowMs =
    Inr (\<exists>w \<in> {- window..window}. hotp hmac opts secret (time_counter opts nowMs + w) = Inr (trim code))"
proof -
  let ?t = "time_counter opts nowMs"
  define f where "f = (\<lambda>c. case hotp hmac opts secret c of Inr s \<Rightarrow> s | Inl e \<Rightarrow> [])"
  have f: "hotp hmac opts secret (?t + w) = Inr (f (?t + w))" if "w \<in> {- window..window}" for w
  proof -
    have "0 \<le> ?t + w" "?t + w < 2 ^ 64" using that assms(2,3) by auto
    then obtain s where "hotp hmac opts secret (?t + w) = Inr s"
      using hotp_returns by blast
    then show ?thesis by (simp add: f_def)
  qed
  show ?thesis
  proof (cases "trim code = [] \<or> \<not> list_all is_digit (trim code) \<or> length (trim code) \<noteq> to_digits opts")
    case True
    moreover have "\<not> (\<exists>w \<in> {- window..window}. hotp hmac opts secret (?t + w) = Inr (trim code))"
      using True hotp_shape [OF assms(1)] assms(1) by force
    ultimately show ?thesis by (simp add: verify_totp_def Let_def)
  next
    case False
    have "try_periods (hotp hmac opts secret) (trim code) (map (\<lambda>w. ?t + w) [- window..window]) =
        Inr (trim code \<in> f ` set (map (\<lambda>w. ?t + w) [- window..window]))"
      using f by (intro try_periods_iff) (simp only: set_map set_upto ball_simps, blast)
    moreover have "trim code \<in> f ` set (map (\<lambda>w. ?t + w) [- window..window]) \<longleftrightarrow> (\<exists>w \<in> {- window..window}. f (?t + w) = trim code)"
      unfolding set_map set_upto image_image image_iff by metis
    moreover have "\<dots> \<longleftrightarrow> (\<exists>w \<in> {- window..window}. hotp hmac opts secret (?t + w) = Inr (trim code))"
      by (rule bex_cong) (simp_all add: f)
    ultimately show ?thesis using False by (simp add: verify_totp_def Let_def step_code_hotp [OF assms(4)])
  qed
qed

lemma verify_totp_no_period:
  assumes "to_periodSec opts = 0" "0 \<le> window" "trim code \<noteq> []" "list_all is_digit (trim code)" "length (trim code) = to_digits opts"
  shows "verify_totp hmac opts window secret code nowMs = Inl not_an_integer"
proof -
  have "[- window..window] = - window # [- window + 1..window]" using assms(2) by (subst upto_rec1) simp_all
  then show ?thesis using assms by (simp add: verify_totp_def Let_def step_code_def)
qed

section \<open>Enrolment and recovery codes\<close>

record mfa_row =
  mf_user_id :: string
  mf_secret_b32 :: string
  mf_enabled :: bool
  mf_recovery_hashes :: "string list"
  mf_confirmed_at :: "jsnum option"

type_synonym mfa_table = "mfa_row list"

definition mfa_lookup :: "string \<Rightarrow> mfa_table \<Rightarrow> mfa_row option" where
  "mfa_lookup userId t = find (\<lambda>r. mf_user_id r = userId) t"

definition mfa_update :: "string \<Rightarrow> (mfa_row \<Rightarrow> mfa_row) \<Rightarrow> mfa_table \<Rightarrow> mfa_table" where
  "mfa_update userId f t = map (\<lambda>r. if mf_user_id r = userId then f r else r) t"

definition hash_code :: "(string \<Rightarrow> string) \<Rightarrow> string \<Rightarrow> string" where
  "hash_code sha code = sha (to_lower (filter (\<lambda>c. \<not> is_space c \<and> c \<noteq> CHR ''-'') code))"

text \<open>The statement is an upsert: for a user who has a row it replaces the secret and the codes and switches MFA off.\<close>

definition begin_enrollment :: "(string \<Rightarrow> string) \<Rightarrow> string \<Rightarrow> byte list \<Rightarrow> string list \<Rightarrow> mfa_table \<Rightarrow> string \<times> mfa_table" where
  "begin_enrollment sha userId secretBuf recoveryCodes t =
     (let secret = base32_encode secretBuf; hashes = map (hash_code sha) recoveryCodes
      in (secret,
          if mfa_lookup userId t = None
          then t @ [\<lparr>mf_user_id = userId, mf_secret_b32 = secret, mf_enabled = False, mf_recovery_hashes = hashes,
                     mf_confirmed_at = None\<rparr>]
          else mfa_update userId (\<lambda>r. r\<lparr>mf_secret_b32 := secret, mf_enabled := False, mf_recovery_hashes := hashes\<rparr>) t))"

definition check_code ::
  "(byte list \<Rightarrow> byte list \<Rightarrow> byte list) \<Rightarrow> totp_options \<Rightarrow> mfa_row \<Rightarrow> string \<Rightarrow> jsnum \<Rightarrow> js_error + bool" where
  "check_code hmac opts row code now =
     and_then (base32_decode (mf_secret_b32 row)) (\<lambda>secret. verify_totp hmac opts 1 secret code now)"

definition confirm_enrollment ::
  "(byte list \<Rightarrow> byte list \<Rightarrow> byte list) \<Rightarrow> totp_options \<Rightarrow> string \<Rightarrow> string \<Rightarrow> jsnum \<Rightarrow> mfa_table \<Rightarrow> js_error + bool \<times> mfa_table" where
  "confirm_enrollment hmac opts userId code now t =
     (case mfa_lookup userId t of
        None \<Rightarrow> Inr (False, t)
      | Some row \<Rightarrow>
          and_then (check_code hmac opts row code now) (\<lambda>ok.
            Inr (if ok then (True, mfa_update userId (\<lambda>r. r\<lparr>mf_enabled := True, mf_confirmed_at := Some now\<rparr>) t) else (False, t))))"

definition mfa_enabled :: "string \<Rightarrow> mfa_table \<Rightarrow> bool" where
  "mfa_enabled userId t = (case mfa_lookup userId t of None \<Rightarrow> False | Some r \<Rightarrow> mf_enabled r)"

definition mfa_verify ::
  "(byte list \<Rightarrow> byte list \<Rightarrow> byte list) \<Rightarrow> totp_options \<Rightarrow> string \<Rightarrow> string \<Rightarrow> jsnum \<Rightarrow> mfa_table \<Rightarrow> js_error + bool" where
  "mfa_verify hmac opts userId code now t =
     (case mfa_lookup userId t of
        None \<Rightarrow> Inr False
      | Some row \<Rightarrow> if \<not> mf_enabled row then Inr False else check_code hmac opts row code now)"

text \<open>\<open>useRecoveryCode\<close>: it writes back the hashes of the row it read, less the first that matches.\<close>

definition use_recovery_row :: "(string \<Rightarrow> string) \<Rightarrow> mfa_row option \<Rightarrow> string \<Rightarrow> string \<Rightarrow> mfa_table \<Rightarrow> bool \<times> mfa_table" where
  "use_recovery_row sha row userId code t =
     (case row of
        None \<Rightarrow> (False, t)
      | Some r \<Rightarrow>
          if \<not> mf_enabled r \<or> hash_code sha code \<notin> set (mf_recovery_hashes r) then (False, t)
          else (True, mfa_update userId (\<lambda>q. q\<lparr>mf_recovery_hashes := remove1 (hash_code sha code) (mf_recovery_hashes r)\<rparr>) t))"

definition use_recovery_code :: "(string \<Rightarrow> string) \<Rightarrow> string \<Rightarrow> string \<Rightarrow> mfa_table \<Rightarrow> bool \<times> mfa_table" where
  "use_recovery_code sha userId code t = use_recovery_row sha (mfa_lookup userId t) userId code t"

definition mfa_disable :: "string \<Rightarrow> mfa_table \<Rightarrow> mfa_table" where
  "mfa_disable userId t = filter (\<lambda>r. mf_user_id r \<noteq> userId) t"

datatype mfa_method = TotpMethod | RecoveryMethod

text \<open>\<open>verifyMfaStepUp\<close>: the outcome's method, if any; on success the caller's context is marked as verified.\<close>

definition verify_step_up ::
  "(byte list \<Rightarrow> byte list \<Rightarrow> byte list) \<Rightarrow> (string \<Rightarrow> string) \<Rightarrow> totp_options \<Rightarrow> string \<Rightarrow> string \<Rightarrow> jsnum \<Rightarrow> mfa_table \<Rightarrow>
   js_error + mfa_method option \<times> mfa_table" where
  "verify_step_up hmac sha opts userId code now t =
     and_then (mfa_verify hmac opts userId code now t) (\<lambda>ok.
       if ok then Inr (Some TotpMethod, t)
       else (case use_recovery_code sha userId code t of (used, t') \<Rightarrow> Inr (if used then Some RecoveryMethod else None, t')))"

section \<open>The guard\<close>

text \<open>\<open>verified c\<close> is \<open>ctx.state[key] === true\<close>, \<open>enabled\<close> what \<open>isEnabled\<close> returns, \<open>body\<close> the JSON of the refusal.\<close>

definition mfa_guard ::
  "('j http_context \<Rightarrow> bool) \<Rightarrow> (string \<Rightarrow> bool) \<Rightarrow> 'j \<Rightarrow> ('j http_context, http_error) hmw" where
  "mfa_guard verified enabled body =
     HRead (\<lambda>c.
       case hc_user c of
         None \<Rightarrow> await_next
       | Some u \<Rightarrow>
           if hu_id u = [] then await_next
           else if verified c then await_next
           else if \<not> enabled (hu_id u) then await_next
           else handler_step (send (JsonReply body) 403))"

section \<open>Lemmas\<close>

definition mfa_ok :: "mfa_table \<Rightarrow> bool" where
  "mfa_ok t \<longleftrightarrow> distinct (map mf_user_id t)"

lemma mfa_update_users [simp]: "(\<And>r. mf_user_id (f r) = mf_user_id r) \<Longrightarrow> map mf_user_id (mfa_update u f t) = map mf_user_id t"
  by (simp add: mfa_update_def)

lemma mfa_lookup_update:
  "(\<And>r. mf_user_id (f r) = mf_user_id r) \<Longrightarrow> mfa_lookup u (mfa_update u f t) = map_option f (mfa_lookup u t)"
  by (induction t) (auto simp: mfa_update_def mfa_lookup_def)

lemma mfa_update_other:
  "(\<And>r. mf_user_id (f r) = mf_user_id r) \<Longrightarrow> u \<noteq> v \<Longrightarrow> mfa_lookup v (mfa_update u f t) = mfa_lookup v t"
  by (induction t) (auto simp: mfa_update_def mfa_lookup_def)

lemma recovery_once:
  assumes "use_recovery_code sha u code t = (True, t')" "mfa_lookup u t = Some r" "distinct (mf_recovery_hashes r)"
    "hash_code sha code' = hash_code sha code"
  shows "use_recovery_code sha u code' t' = (False, t')"
  using assms by (auto simp: use_recovery_code_def use_recovery_row_def mfa_lookup_update split: if_splits)

lemma recovery_keeps_others:
  assumes "use_recovery_code sha u code t = (True, t')" "hash_code sha code' \<noteq> hash_code sha code"
  shows "fst (use_recovery_code sha u code' t') = fst (use_recovery_code sha u code' t)"
  using assms by (auto simp: use_recovery_code_def use_recovery_row_def mfa_lookup_update split: if_splits option.splits)

text \<open>Two requests that read the row before either writes both spend the code.\<close>

lemma recovery_spent_twice:
  assumes "mfa_lookup u t = Some r" "mf_enabled r" "hash_code sha code \<in> set (mf_recovery_hashes r)"
  shows "fst (use_recovery_row sha (Some r) u code t) \<and>
    fst (use_recovery_row sha (Some r) u code (snd (use_recovery_row sha (Some r) u code t)))"
  using assms by (simp add: use_recovery_row_def)

lemma enrollment_switches_off:
  "\<not> mfa_enabled u (snd (begin_enrollment sha u secret recovery t))"
proof (cases "mfa_lookup u t")
  case None
  then have "mfa_lookup u (t @ [x]) = (if mf_user_id x = u then Some x else None)" for x
    by (induction t) (auto simp: mfa_lookup_def split: if_splits)
  with None show ?thesis by (simp add: begin_enrollment_def Let_def mfa_enabled_def)
next
  case (Some r)
  then show ?thesis by (simp add: begin_enrollment_def Let_def mfa_enabled_def mfa_lookup_update)
qed

text \<open>An enrolment that is confirmed with the secret it handed out checks codes against that secret.\<close>

lemma enrolled_secret:
  "mfa_lookup u t = Some r \<Longrightarrow> mf_secret_b32 r = base32_encode secret \<Longrightarrow>
   check_code hmac opts r code now = verify_totp hmac opts 1 secret code now"
  by (simp add: check_code_def base32_round_trip)

lemma run_mfa_guard:
  "run_hmw (mfa_guard verified enabled body) nxt c =
   (if (\<exists>u. hc_user c = Some u \<and> hu_id u \<noteq> [] \<and> \<not> verified c \<and> enabled (hu_id u))
    then send (JsonReply body) 403 c else nxt c)"
  by (auto simp: mfa_guard_def split: option.split)

end
