(* ===== verification/PgPool.thy ===== *)
theory PgPool
  imports Prelude
begin

text \<open>
  \<open>PgPool\<close> of \<open>packages/pool/src/pool.ts\<close> as a machine whose steps are what runs between two \<open>await\<close>s: the synchronous part of
  an \<open>acquire\<close> or \<open>release\<close>, the two continuations of a connection that is being created (\<open>_createConnection\<close> pushes it, the
  code that awaited it takes it over), a timer, the idle sweep, the two parts of \<open>close\<close>, and the environment, which
  changes the state of a connection at any time.

  A connection is the number of the creation that made it.  Callers are numbers; \<open>pg_outcomes\<close> is what their promises settled
  with, in order.  \<open>pg_held\<close> records for the proofs which connections are lent, one entry for each loan.

  \<open>pool_within_max\<close>: the pool and the connections under way never exceed the maximum.  \<open>loans_distinct\<close>: no connection is lent
  twice, when a pushed connection is taken over before anything else runs.  \<open>lent_twice\<close>: otherwise it can be.
  \<open>waiter_stranded\<close>: a waiter stays in the queue beside an idle connection.  \<open>open_after_close\<close>: a connection under
  creation outlives \<open>close\<close>.
\<close>

section \<open>State\<close>

datatype conn_state = ConnReady | ConnBusy | ConnClosed

record pooled_connection =
  pc_conn :: nat
  pc_lastUsed :: jsnum
  pc_inUse :: bool

datatype purpose = ForCaller nat | ForReplacement

datatype acquire_outcome = Acquired nat | AcquireFailed js_error

record pool_config =
  pf_minConnections :: nat
  pf_maxConnections :: nat
  pf_idleTimeoutMs :: jsnum

record pg_pool =
  pg_connections :: "pooled_connection list"
  pg_waitQueue :: "nat list"
  pg_pendingCreations :: nat
  pg_initialized :: bool
  pg_closed :: bool
  pg_connecting :: "(nat \<times> purpose) list"
  pg_pushed :: "(nat \<times> purpose) list"
  pg_state :: "nat \<Rightarrow> conn_state"
  pg_next :: nat
  pg_outcomes :: "(nat \<times> acquire_outcome) list"
  pg_held :: "nat list"

definition MAX_WAIT :: nat where
  "MAX_WAIT = 100"

definition new_pool :: pg_pool where
  "new_pool =
     \<lparr>pg_connections = [], pg_waitQueue = [], pg_pendingCreations = 0, pg_initialized = False, pg_closed = False,
      pg_connecting = [], pg_pushed = [], pg_state = (\<lambda>_. ConnReady), pg_next = 0, pg_outcomes = [], pg_held = []\<rparr>"

definition pool_error :: "string \<Rightarrow> js_error" where
  "pool_error m = JsError ''Error'' m"

section \<open>Steps\<close>

definition fail_caller :: "nat \<Rightarrow> js_error \<Rightarrow> pg_pool \<Rightarrow> pg_pool" where
  "fail_caller caller e s = s\<lparr>pg_outcomes := pg_outcomes s @ [(caller, AcquireFailed e)]\<rparr>"

definition mark_connection :: "nat \<Rightarrow> (pooled_connection \<Rightarrow> pooled_connection) \<Rightarrow> pg_pool \<Rightarrow> pg_pool" where
  "mark_connection c f s = s\<lparr>pg_connections := map (\<lambda>p. if pc_conn p = c then f p else p) (pg_connections s)\<rparr>"

text \<open>\<open>inUse = true\<close> and the resolution of the caller's promise.\<close>

definition lend :: "nat \<Rightarrow> nat \<Rightarrow> pg_pool \<Rightarrow> pg_pool" where
  "lend c caller s =
     (mark_connection c (\<lambda>p. p\<lparr>pc_inUse := True\<rparr>) s)
       \<lparr>pg_outcomes := pg_outcomes s @ [(caller, Acquired c)], pg_held := c # pg_held s\<rparr>"

definition remove_connection :: "nat \<Rightarrow> pg_pool \<Rightarrow> pg_pool" where
  "remove_connection c s = s\<lparr>pg_connections := filter (\<lambda>p. pc_conn p \<noteq> c) (pg_connections s)\<rparr>"

definition below_max :: "pool_config \<Rightarrow> pg_pool \<Rightarrow> bool" where
  "below_max cfg s \<longleftrightarrow> length (pg_connections s) + pg_pendingCreations s < pf_maxConnections cfg"

definition start_creation :: "purpose \<Rightarrow> pg_pool \<Rightarrow> pg_pool" where
  "start_creation p s =
     s\<lparr>pg_pendingCreations := Suc (pg_pendingCreations s), pg_connecting := pg_connecting s @ [(pg_next s, p)],
       pg_next := Suc (pg_next s)\<rparr>"

text \<open>The loop of \<open>_doAcquire\<close> stops at the first connection that is dead, or idle and ready.\<close>

datatype scan_result = NothingFree | DeadConnection nat | IdleConnection nat

fun scan_connections :: "(nat \<Rightarrow> conn_state) \<Rightarrow> pooled_connection list \<Rightarrow> scan_result" where
  "scan_connections st [] = NothingFree"
| "scan_connections st (p # ps) =
     (if st (pc_conn p) = ConnClosed then DeadConnection (pc_conn p)
      else if \<not> pc_inUse p \<and> st (pc_conn p) = ConnReady then IdleConnection (pc_conn p)
      else scan_connections st ps)"

definition create_or_wait :: "pool_config \<Rightarrow> nat \<Rightarrow> pg_pool \<Rightarrow> pg_pool" where
  "create_or_wait cfg caller s =
     (if below_max cfg s then start_creation (ForCaller caller) s
      else if MAX_WAIT \<le> length (pg_waitQueue s) then fail_caller caller (pool_error ''Connection pool wait queue full'') s
      else s\<lparr>pg_waitQueue := pg_waitQueue s @ [caller]\<rparr>)"

definition do_acquire :: "pool_config \<Rightarrow> nat \<Rightarrow> jsnum \<Rightarrow> pg_pool \<Rightarrow> pg_pool" where
  "do_acquire cfg caller now s =
     (if pg_closed s then fail_caller caller (pool_error ''Pool is closed'') s
      else
        (case scan_connections (pg_state s) (pg_connections s) of
           IdleConnection c \<Rightarrow> lend c caller (mark_connection c (\<lambda>p. p\<lparr>pc_lastUsed := now\<rparr>) s)
         | DeadConnection c \<Rightarrow> create_or_wait cfg caller (remove_connection c s)
         | NothingFree \<Rightarrow> create_or_wait cfg caller s))"

text \<open>\<open>_createConnection\<close> after its \<open>await\<close>, then the code that awaited it.\<close>

definition push_connection :: "nat \<Rightarrow> jsnum \<Rightarrow> pg_pool \<Rightarrow> pg_pool" where
  "push_connection c now s =
     s\<lparr>pg_connections := pg_connections s @ [\<lparr>pc_conn = c, pc_lastUsed = now, pc_inUse = False\<rparr>]\<rparr>"

definition connected :: "nat \<Rightarrow> jsnum \<Rightarrow> pg_pool \<Rightarrow> pg_pool" where
  "connected c now s =
     (case map_of (pg_connecting s) c of
        None \<Rightarrow> s
      | Some p \<Rightarrow>
          (push_connection c now s)
            \<lparr>pg_connecting := AList.delete c (pg_connecting s), pg_pushed := pg_pushed s @ [(c, p)],
             pg_state := (pg_state s)(c := ConnReady)\<rparr>)"

definition serve_waiter :: "nat \<Rightarrow> pg_pool \<Rightarrow> pg_pool" where
  "serve_waiter c s =
     (case pg_waitQueue s of [] \<Rightarrow> s | w # ws \<Rightarrow> lend c w (s\<lparr>pg_waitQueue := ws\<rparr>))"

definition take_over :: "nat \<Rightarrow> pg_pool \<Rightarrow> pg_pool" where
  "take_over c s =
     (case map_of (pg_pushed s) c of
        None \<Rightarrow> s
      | Some p \<Rightarrow>
          (let s = s\<lparr>pg_pushed := AList.delete c (pg_pushed s), pg_pendingCreations := pg_pendingCreations s - 1\<rparr>
           in case p of ForCaller caller \<Rightarrow> lend c caller s | ForReplacement \<Rightarrow> serve_waiter c s))"

definition connect_failed :: "nat \<Rightarrow> js_error \<Rightarrow> pg_pool \<Rightarrow> pg_pool" where
  "connect_failed c e s =
     (case map_of (pg_connecting s) c of
        None \<Rightarrow> s
      | Some p \<Rightarrow>
          (let s = s\<lparr>pg_connecting := AList.delete c (pg_connecting s), pg_pendingCreations := pg_pendingCreations s - 1\<rparr>
           in case p of ForCaller caller \<Rightarrow> fail_caller caller e s | ForReplacement \<Rightarrow> s))"

definition maybe_create_replacement :: "pool_config \<Rightarrow> pg_pool \<Rightarrow> pg_pool" where
  "maybe_create_replacement cfg s =
     (if pg_closed s then s else if \<not> below_max cfg s then s else start_creation ForReplacement s)"

definition has_connection :: "nat \<Rightarrow> pg_pool \<Rightarrow> bool" where
  "has_connection c s \<longleftrightarrow> c \<in> pc_conn ` set (pg_connections s)"

definition release :: "pool_config \<Rightarrow> nat \<Rightarrow> jsnum \<Rightarrow> pg_pool \<Rightarrow> pg_pool" where
  "release cfg c now s =
     (let s = s\<lparr>pg_held := remove1 c (pg_held s)\<rparr>
      in if \<not> has_connection c s then s
         else if pg_state s c = ConnClosed then maybe_create_replacement cfg (remove_connection c s)
         else
           (let s = mark_connection c (\<lambda>p. p\<lparr>pc_inUse := False, pc_lastUsed := now\<rparr>) s
            in if pg_state s c = ConnReady then serve_waiter c s else s))"

definition acquire_timeout :: "nat \<Rightarrow> pg_pool \<Rightarrow> pg_pool" where
  "acquire_timeout caller s =
     (if caller \<in> set (pg_waitQueue s)
      then fail_caller caller (pool_error ''Connection acquire timeout'') (s\<lparr>pg_waitQueue := remove1 caller (pg_waitQueue s)\<rparr>)
      else s)"

text \<open>\<open>_sweepIdle\<close>: idle connections in order, as long as more than the minimum would be left.\<close>

fun idle_to_remove :: "pool_config \<Rightarrow> jsnum \<Rightarrow> nat \<Rightarrow> nat list \<Rightarrow> pooled_connection list \<Rightarrow> nat list" where
  "idle_to_remove cfg now n toRemove [] = toRemove"
| "idle_to_remove cfg now n toRemove (p # ps) =
     (if \<not> pc_inUse p \<and> pf_idleTimeoutMs cfg < now - pc_lastUsed p \<and> pf_minConnections cfg < n - length toRemove
      then idle_to_remove cfg now n (toRemove @ [pc_conn p]) ps
      else idle_to_remove cfg now n toRemove ps)"

definition sweep_idle :: "pool_config \<Rightarrow> jsnum \<Rightarrow> pg_pool \<Rightarrow> pg_pool" where
  "sweep_idle cfg now s =
     (let gone = idle_to_remove cfg now (length (pg_connections s)) [] (pg_connections s)
      in s\<lparr>pg_connections := filter (\<lambda>p. pc_conn p \<notin> set gone) (pg_connections s),
           pg_state := (\<lambda>c. if c \<in> set gone then ConnClosed else pg_state s c)\<rparr>)"

text \<open>\<open>close\<close> up to its \<open>await\<close>, and after it.\<close>

definition close_begin :: "pg_pool \<Rightarrow> pg_pool" where
  "close_begin s =
     s\<lparr>pg_closed := True, pg_waitQueue := [],
       pg_outcomes := pg_outcomes s @ map (\<lambda>w. (w, AcquireFailed (pool_error ''Connection pool is closed''))) (pg_waitQueue s),
       pg_state := (\<lambda>c. if has_connection c s then ConnClosed else pg_state s c)\<rparr>"

definition close_end :: "pg_pool \<Rightarrow> pg_pool" where
  "close_end s = s\<lparr>pg_connections := []\<rparr>"

text \<open>A connection of \<open>initialize\<close>: no pending creation is counted for it.\<close>

definition warm_connection :: "jsnum \<Rightarrow> pg_pool \<Rightarrow> pg_pool" where
  "warm_connection now s =
     (push_connection (pg_next s) now s)\<lparr>pg_next := Suc (pg_next s), pg_state := (pg_state s)(pg_next s := ConnReady)\<rparr>"

datatype pool_event =
    WarmConnection jsnum
  | WarmDone
  | Acquire nat jsnum
  | Connected nat jsnum
  | TakeOver nat
  | ConnectFailed nat js_error
  | Release nat jsnum
  | AcquireTimeout nat
  | SweepIdle jsnum
  | CloseBegin
  | CloseEnd
  | ConnState nat conn_state

text \<open>An \<open>acquire\<close> on a pool that is not warm waits for the warm-up, and then does what it does here.\<close>

definition pool_step :: "pool_config \<Rightarrow> pg_pool \<Rightarrow> pool_event \<Rightarrow> pg_pool" where
  "pool_step cfg s e =
     (case e of
        WarmConnection now \<Rightarrow> warm_connection now s
      | WarmDone \<Rightarrow> s\<lparr>pg_initialized := True\<rparr>
      | Acquire caller now \<Rightarrow> if pg_initialized s then do_acquire cfg caller now s else s
      | Connected c now \<Rightarrow> connected c now s
      | TakeOver c \<Rightarrow> take_over c s
      | ConnectFailed c err \<Rightarrow> connect_failed c err s
      | Release c now \<Rightarrow> release cfg c now s
      | AcquireTimeout caller \<Rightarrow> acquire_timeout caller s
      | SweepIdle now \<Rightarrow> sweep_idle cfg now s
      | CloseBegin \<Rightarrow> close_begin s
      | CloseEnd \<Rightarrow> close_end s
      | ConnState c st \<Rightarrow> s\<lparr>pg_state := (pg_state s)(c := st)\<rparr>)"

definition pool_run :: "pool_config \<Rightarrow> pg_pool \<Rightarrow> pool_event list \<Rightarrow> pg_pool" where
  "pool_run cfg s es = foldl (pool_step cfg) s es"

lemma pool_run_simps [simp]: "pool_run cfg s [] = s" "pool_run cfg s (e # es) = pool_run cfg (pool_step cfg s e) es"
  by (simp_all add: pool_run_def)

lemma pool_run_append: "pool_run cfg s (es @ fs) = pool_run cfg (pool_run cfg s es) fs"
  by (simp add: pool_run_def)

section \<open>The bound\<close>

text \<open>Creations are under way or pushed and not yet taken over; ids are given once.\<close>

definition creations_ok :: "pg_pool \<Rightarrow> bool" where
  "creations_ok s \<longleftrightarrow>
     pg_pendingCreations s = length (pg_connecting s) + length (pg_pushed s) \<and>
     keys_distinct (pg_connecting s) \<and> keys_distinct (pg_pushed s) \<and>
     (\<forall>c \<in> fst ` set (pg_connecting s). c < pg_next s) \<and> (\<forall>c \<in> fst ` set (pg_pushed s). c < pg_next s) \<and>
     fst ` set (pg_connecting s) \<inter> fst ` set (pg_pushed s) = {}"

definition within_max :: "pool_config \<Rightarrow> pg_pool \<Rightarrow> bool" where
  "within_max cfg s \<longleftrightarrow>
     length (pg_connections s) + length (pg_connecting s) \<le> pf_maxConnections cfg \<and> length (pg_waitQueue s) \<le> MAX_WAIT"

named_theorems pool_defs

lemmas [pool_defs] =
  fail_caller_def mark_connection_def lend_def remove_connection_def start_creation_def push_connection_def
  serve_waiter_def Let_def

text \<open>Taking one entry out of a list of creations.\<close>

lemma delete_length: "keys_distinct m \<Longrightarrow> map_of m c = Some p \<Longrightarrow> length m = Suc (length (AList.delete c m))"
proof (induction m)
  case (Cons e m)
  obtain k v where e: "e = (k, v)" by (cases e)
  show ?case
  proof (cases "k = c")
    case True
    then have "map_of m c = None" using Cons.prems(1) e by (simp add: keys_distinct_Cons)
    then show ?thesis using True e by (simp add: delete_absent)
  next
    case False
    with Cons e show ?thesis by (simp add: keys_distinct_Cons)
  qed
qed simp

lemma delete_keys: "fst ` set (AList.delete c m) = fst ` set m - {c}"
proof -
  have "fst ` set n = dom (map_of n)" for n :: "('a \<times> 'b) list" by (simp add: dom_map_of_conv_image_fst)
  then show ?thesis by simp
qed

lemma delete_present:
  assumes "keys_distinct m" "map_of m c = Some p"
  obtains m' where "AList.delete c m = m'" "keys_distinct m'" "length m = Suc (length m')"
    "fst ` set m = insert c (fst ` set m')" "c \<notin> fst ` set m'"
proof (rule that [OF refl])
  have "c \<in> fst ` set m" using map_of_SomeD [OF assms(2)] by force
  then show "fst ` set m = insert c (fst ` set (AList.delete c m))" unfolding delete_keys by blast
  show "c \<notin> fst ` set (AList.delete c m)" unfolding delete_keys by blast
  show "length m = Suc (length (AList.delete c m))" by (rule delete_length [OF assms])
  show "keys_distinct (AList.delete c m)" using assms(1) by simp
qed

lemma new_pool_ok: "creations_ok new_pool" "within_max cfg new_pool"
  by (simp_all add: new_pool_def creations_ok_def within_max_def)

lemma start_creation_ok: "creations_ok s \<Longrightarrow> creations_ok (start_creation p s)"
  by (auto simp: creations_ok_def start_creation_def keys_distinct_def less_Suc_eq)

lemma creations_ok_cong:
  "pg_pendingCreations s = pg_pendingCreations t \<Longrightarrow> pg_connecting s = pg_connecting t \<Longrightarrow> pg_pushed s = pg_pushed t \<Longrightarrow>
   pg_next s = pg_next t \<Longrightarrow> creations_ok s = creations_ok t"
  by (simp add: creations_ok_def)

lemma connected_ok:
  assumes "creations_ok s"
  shows "creations_ok (connected c now s)"
proof (cases "map_of (pg_connecting s) c")
  case (Some p)
  have d: "keys_distinct (pg_connecting s)" using assms by (simp add: creations_ok_def)
  from delete_present [OF d Some] obtain m where
    m: "AList.delete c (pg_connecting s) = m" "keys_distinct m" "length (pg_connecting s) = Suc (length m)"
    "fst ` set (pg_connecting s) = insert c (fst ` set m)" "c \<notin> fst ` set m" by blast
  have "fst ` set (pg_connecting s) \<inter> fst ` set (pg_pushed s) = {}"
    using assms unfolding creations_ok_def by (elim conjE)
  moreover have "\<forall>c \<in> fst ` set (pg_connecting s). c < pg_next s"
    using assms unfolding creations_ok_def by (elim conjE)
  ultimately have "c \<notin> fst ` set (pg_pushed s)" "c < pg_next s" unfolding m(4) by simp_all
  moreover have "keys_distinct (pg_pushed s)" using assms by (simp add: creations_ok_def)
  ultimately have p: "keys_distinct (pg_pushed s @ [(c, p)])" by (simp add: keys_distinct_def)
  have "connected c now s = (push_connection c now s)\<lparr>pg_connecting := m, pg_pushed := pg_pushed s @ [(c, p)], pg_state := (pg_state s)(c := ConnReady)\<rparr>"
    by (simp only: connected_def Some option.case m(1))
  then show ?thesis using assms m(2-5) p \<open>c \<notin> fst ` set (pg_pushed s)\<close> \<open>c < pg_next s\<close>
    by (simp add: creations_ok_def push_connection_def)
qed (simp add: connected_def assms)

lemma taken_ok:
  assumes "creations_ok s" "map_of (pg_pushed s) c = Some p"
  shows "creations_ok (s\<lparr>pg_pushed := AList.delete c (pg_pushed s), pg_pendingCreations := pg_pendingCreations s - 1\<rparr>)"
proof -
  have d: "keys_distinct (pg_pushed s)" using assms by (simp add: creations_ok_def)
  from delete_present [OF d assms(2)] obtain m where
    m: "AList.delete c (pg_pushed s) = m" "keys_distinct m" "length (pg_pushed s) = Suc (length m)"
    "fst ` set (pg_pushed s) = insert c (fst ` set m)" "c \<notin> fst ` set m" by blast
  then show ?thesis using assms(1) unfolding m(1) by (simp add: creations_ok_def)
qed

lemma failed_ok:
  assumes "creations_ok s" "map_of (pg_connecting s) c = Some p"
  shows "creations_ok (s\<lparr>pg_connecting := AList.delete c (pg_connecting s), pg_pendingCreations := pg_pendingCreations s - 1\<rparr>)"
proof -
  have d: "keys_distinct (pg_connecting s)" using assms by (simp add: creations_ok_def)
  from delete_present [OF d assms(2)] obtain m where
    m: "AList.delete c (pg_connecting s) = m" "keys_distinct m" "length (pg_connecting s) = Suc (length m)"
    "fst ` set (pg_connecting s) = insert c (fst ` set m)" "c \<notin> fst ` set m" by blast
  then show ?thesis using assms(1) unfolding m(1) by (simp add: creations_ok_def)
qed

lemma lend_creations [simp]: "creations_ok (lend c w s) = creations_ok s"
  by (rule creations_ok_cong) (simp_all add: pool_defs)

lemma serve_waiter_creations [simp]: "creations_ok (serve_waiter c s) = creations_ok s"
  by (cases "pg_waitQueue s") (simp_all add: creations_ok_def pool_defs)

lemma mark_creations [simp]: "creations_ok (mark_connection c f s) = creations_ok s" "creations_ok (fail_caller w e s) = creations_ok s"
  "creations_ok (remove_connection c s) = creations_ok s"
  by (simp_all add: creations_ok_def pool_defs)

lemma update_creations [simp]:
  "creations_ok (s\<lparr>pg_waitQueue := q\<rparr>) = creations_ok s" "creations_ok (s\<lparr>pg_held := h\<rparr>) = creations_ok s"
  "creations_ok (s\<lparr>pg_state := st\<rparr>) = creations_ok s" "creations_ok (s\<lparr>pg_connections := ps\<rparr>) = creations_ok s"
  "creations_ok (s\<lparr>pg_initialized := b\<rparr>) = creations_ok s"
  by (simp_all add: creations_ok_def)

lemma create_or_wait_ok: "creations_ok s \<Longrightarrow> creations_ok (create_or_wait cfg w s)"
  by (simp add: create_or_wait_def start_creation_ok)

lemma pool_step_creations: "creations_ok s \<Longrightarrow> creations_ok (pool_step cfg s e)"
proof (cases e)
  case (TakeOver c)
  assume "creations_ok s"
  then show ?thesis using TakeOver taken_ok [of s c]
    by (auto simp: pool_step_def take_over_def Let_def split: option.split purpose.split)
next
  case (ConnectFailed c err)
  assume "creations_ok s"
  then show ?thesis using ConnectFailed failed_ok [of s c]
    by (auto simp: pool_step_def connect_failed_def Let_def split: option.split purpose.split)
next
  case (WarmConnection now)
  assume "creations_ok s"
  then show ?thesis using WarmConnection by (auto simp: pool_step_def warm_connection_def creations_ok_def push_connection_def)
next
  case CloseBegin
  assume "creations_ok s"
  then show ?thesis using CloseBegin by (auto simp: pool_step_def close_begin_def creations_ok_def)
qed (auto simp: pool_step_def do_acquire_def create_or_wait_ok connected_ok release_def Let_def maybe_create_replacement_def
    start_creation_ok acquire_timeout_def sweep_idle_def close_end_def creations_ok_def [of "pg_pool.pg_connections_update _ _"]
    split: scan_result.split)


definition is_warm :: "pool_event \<Rightarrow> bool" where
  "is_warm e = (case e of WarmConnection now \<Rightarrow> True | _ \<Rightarrow> False)"

lemma within_max_lend [simp]: "within_max cfg (lend c w s) = within_max cfg s"
  "within_max cfg (mark_connection c f s) = within_max cfg s" "within_max cfg (fail_caller w e s) = within_max cfg s"
  by (simp_all add: within_max_def pool_defs)

lemma within_max_updates [simp]:
  "within_max cfg (s\<lparr>pg_held := h\<rparr>) = within_max cfg s" "within_max cfg (s\<lparr>pg_state := st\<rparr>) = within_max cfg s"
  "within_max cfg (s\<lparr>pg_initialized := b\<rparr>) = within_max cfg s"
  "within_max cfg (s\<lparr>pg_pushed := q, pg_pendingCreations := n\<rparr>) = within_max cfg s"
  by (simp_all add: within_max_def)

lemma within_max_filter: "within_max cfg s \<Longrightarrow> within_max cfg (s\<lparr>pg_connections := filter P (pg_connections s)\<rparr>)"
proof -
  assume w: "within_max cfg s"
  have "length (filter P (pg_connections s)) + length (pg_connecting s) \<le> pf_maxConnections cfg"
    using w length_filter_le [of P "pg_connections s"] unfolding within_max_def by linarith
  then show ?thesis using w by (simp add: within_max_def)
qed

lemma within_max_remove: "within_max cfg s \<Longrightarrow> within_max cfg (remove_connection c s)"
  unfolding remove_connection_def by (rule within_max_filter)

lemma within_max_serve: "within_max cfg s \<Longrightarrow> within_max cfg (serve_waiter c s)"
  by (cases "pg_waitQueue s") (simp_all add: within_max_def pool_defs)

lemma within_max_start: "creations_ok s \<Longrightarrow> below_max cfg s \<Longrightarrow> within_max cfg s \<Longrightarrow> within_max cfg (start_creation p s)"
  by (simp add: creations_ok_def below_max_def within_max_def start_creation_def)

lemma within_max_create: "creations_ok s \<Longrightarrow> within_max cfg s \<Longrightarrow> within_max cfg (create_or_wait cfg w s)"
  using within_max_start [of s cfg "ForCaller w"]
  by (auto simp: create_or_wait_def) (simp add: within_max_def)

lemma delete_connecting:
  assumes "creations_ok s" "map_of (pg_connecting s) c = Some p"
  shows "length (pg_connecting s) = Suc (length (AList.delete c (pg_connecting s)))"
  using assms by (intro delete_length) (simp_all add: creations_ok_def)

lemma within_max_step:
  assumes ok: "creations_ok s" and w: "within_max cfg s" and n: "\<not> is_warm e"
  shows "within_max cfg (pool_step cfg s e)"
proof (cases e)
  case (Acquire caller now)
  then show ?thesis using ok w
    by (auto simp: pool_step_def do_acquire_def within_max_create within_max_remove split: scan_result.split)
next
  case (Connected c now)
  then show ?thesis using w delete_connecting [OF ok, of c]
    by (auto simp: pool_step_def connected_def within_max_def push_connection_def split: option.split)
next
  case (TakeOver c)
  then show ?thesis using w
    by (auto simp: pool_step_def take_over_def Let_def within_max_serve split: option.split purpose.split)
next
  case (ConnectFailed c err)
  then show ?thesis using w delete_connecting [OF ok, of c]
    by (auto simp: pool_step_def connect_failed_def Let_def within_max_def fail_caller_def split: option.split purpose.split)
next
  case (Release c now)
  have "within_max cfg (maybe_create_replacement cfg (remove_connection c (s\<lparr>pg_held := h\<rparr>)))" for h
    using ok w by (simp add: maybe_create_replacement_def within_max_start within_max_remove)
  then show ?thesis using Release w by (simp add: pool_step_def release_def Let_def within_max_serve)
next
  case (AcquireTimeout caller)
  then show ?thesis using w by (auto simp: pool_step_def acquire_timeout_def within_max_def fail_caller_def length_remove1)
next
  case (SweepIdle now)
  then show ?thesis using within_max_filter [OF w]
    by (simp add: pool_step_def sweep_idle_def Let_def within_max_def)
next
  case CloseBegin
  then show ?thesis using w by (simp add: pool_step_def close_begin_def within_max_def)
next
  case CloseEnd
  then show ?thesis using w by (simp add: pool_step_def close_end_def within_max_def)
qed (use n w in \<open>simp_all add: pool_step_def is_warm_def\<close>)

lemma pool_within_max:
  "creations_ok s \<Longrightarrow> within_max cfg s \<Longrightarrow> list_all (\<lambda>e. \<not> is_warm e) es \<Longrightarrow>
   creations_ok (pool_run cfg s es) \<and> within_max cfg (pool_run cfg s es)"
  by (induction es arbitrary: s) (simp_all add: pool_step_creations within_max_step)

text \<open>A warm-up of at most the maximum.\<close>

definition warm_up :: "nat \<Rightarrow> jsnum \<Rightarrow> pool_event list" where
  "warm_up n now = replicate n (WarmConnection now) @ [WarmDone]"

lemma warm_connections:
  "creations_ok s \<Longrightarrow> pg_connecting s = [] \<Longrightarrow> length (pg_waitQueue s) \<le> MAX_WAIT \<Longrightarrow>
   creations_ok (pool_run cfg s (replicate n (WarmConnection now))) \<and>
   pg_connecting (pool_run cfg s (replicate n (WarmConnection now))) = [] \<and>
   length (pg_waitQueue (pool_run cfg s (replicate n (WarmConnection now)))) \<le> MAX_WAIT \<and>
   length (pg_connections (pool_run cfg s (replicate n (WarmConnection now)))) = length (pg_connections s) + n"
proof (induction n arbitrary: s)
  case (Suc n)
  have "creations_ok (pool_step cfg s (WarmConnection now))" using Suc.prems(1) by (rule pool_step_creations)
  moreover have "pg_connecting (pool_step cfg s (WarmConnection now)) = []"
    "length (pg_waitQueue (pool_step cfg s (WarmConnection now))) \<le> MAX_WAIT"
    "length (pg_connections (pool_step cfg s (WarmConnection now))) = Suc (length (pg_connections s))"
    using Suc.prems(2,3) by (simp_all add: pool_step_def warm_connection_def push_connection_def)
  ultimately show ?case using Suc.IH by simp
qed simp

section \<open>Loans\<close>

definition pool_ids :: "pg_pool \<Rightarrow> nat list" where
  "pool_ids s = map pc_conn (pg_connections s)"

definition idle_of :: "pooled_connection list \<Rightarrow> nat list" where
  "idle_of ps = map pc_conn (filter (\<lambda>p. \<not> pc_inUse p) ps)"

definition idle_ids :: "pg_pool \<Rightarrow> nat set" where
  "idle_ids s = set (idle_of (pg_connections s))"

definition loans_ok :: "pg_pool \<Rightarrow> bool" where
  "loans_ok s \<longleftrightarrow>
     distinct (pg_held s) \<and> distinct (pool_ids s) \<and>
     (\<forall>c \<in> set (pg_held s). c < pg_next s) \<and> (\<forall>c \<in> set (pool_ids s). c < pg_next s) \<and>
     idle_ids s \<inter> set (pg_held s) = {} \<and>
     (\<forall>c \<in> fst ` set (pg_connecting s). c \<notin> set (pg_held s) \<and> c \<notin> set (pool_ids s)) \<and>
     (\<forall>c \<in> fst ` set (pg_pushed s). c \<notin> set (pg_held s))"

lemma has_connection_ids: "has_connection c s \<longleftrightarrow> c \<in> set (pool_ids s)"
  by (simp add: has_connection_def pool_ids_def)

named_theorems loan_simps

lemma mark_ids [loan_simps]:
  "(\<And>p. pc_conn (f p) = pc_conn p) \<Longrightarrow> pool_ids (mark_connection c f s) = pool_ids s"
  by (simp add: pool_ids_def mark_connection_def)

lemma mark_frame [loan_simps]:
  "pg_held (mark_connection c f s) = pg_held s" "pg_next (mark_connection c f s) = pg_next s"
  "pg_connecting (mark_connection c f s) = pg_connecting s" "pg_pushed (mark_connection c f s) = pg_pushed s"
  by (simp_all add: mark_connection_def)

lemma idle_of_marks:
  "idle_of (map (\<lambda>p. if pc_conn p = c then p\<lparr>pc_inUse := True\<rparr> else p) ps) = filter (\<lambda>d. d \<noteq> c) (idle_of ps)"
  "idle_of (map (\<lambda>p. if pc_conn p = c then p\<lparr>pc_lastUsed := now\<rparr> else p) ps) = idle_of ps"
  "set (idle_of (map (\<lambda>p. if pc_conn p = c then p\<lparr>pc_inUse := False, pc_lastUsed := now\<rparr> else p) ps)) \<subseteq> insert c (set (idle_of ps))"
  "set (idle_of (filter P ps)) \<subseteq> set (idle_of ps)"
  by (induction ps) (auto simp: idle_of_def)

lemma mark_idle [loan_simps]:
  "idle_ids (mark_connection c (\<lambda>p. p\<lparr>pc_inUse := True\<rparr>) s) = idle_ids s - {c}"
  "idle_ids (mark_connection c (\<lambda>p. p\<lparr>pc_lastUsed := now\<rparr>) s) = idle_ids s"
  by (auto simp: idle_ids_def mark_connection_def idle_of_marks)

lemma mark_free: "idle_ids (mark_connection c (\<lambda>p. p\<lparr>pc_inUse := False, pc_lastUsed := now\<rparr>) s) \<subseteq> insert c (idle_ids s)"
  using idle_of_marks(3) by (simp add: idle_ids_def mark_connection_def)

lemma loans_lend:
  assumes "loans_ok s" "c \<notin> set (pg_held s)" "c < pg_next s" "c \<notin> fst ` set (pg_connecting s)" "c \<notin> fst ` set (pg_pushed s)"
  shows "loans_ok (lend c w s)"
proof -
  have "pool_ids (lend c w s) = pool_ids s" "idle_ids (lend c w s) = idle_ids s - {c}"
    using mark_ids [of "\<lambda>p. p\<lparr>pc_inUse := True\<rparr>" c s] mark_idle(1) [of c s]
    by (simp_all add: lend_def pool_ids_def idle_ids_def)
  moreover have "pg_held (lend c w s) = c # pg_held s" "pg_next (lend c w s) = pg_next s"
    "pg_connecting (lend c w s) = pg_connecting s" "pg_pushed (lend c w s) = pg_pushed s"
    by (simp_all add: lend_def mark_connection_def)
  ultimately show ?thesis using assms unfolding loans_ok_def by auto
qed

lemma ids_updates [simp]:
  "pool_ids (s\<lparr>pg_waitQueue := q\<rparr>) = pool_ids s" "pool_ids (s\<lparr>pg_state := st\<rparr>) = pool_ids s"
  "pool_ids (s\<lparr>pg_initialized := b\<rparr>) = pool_ids s" "pool_ids (s\<lparr>pg_held := h\<rparr>) = pool_ids s"
  "pool_ids (s\<lparr>pg_outcomes := out\<rparr>) = pool_ids s" "pool_ids (s\<lparr>pg_closed := b\<rparr>) = pool_ids s"
  "pool_ids (s\<lparr>pg_pendingCreations := n\<rparr>) = pool_ids s" "pool_ids (s\<lparr>pg_pushed := ps\<rparr>) = pool_ids s"
  "pool_ids (s\<lparr>pg_connecting := ps\<rparr>) = pool_ids s" "pool_ids (s\<lparr>pg_next := n\<rparr>) = pool_ids s"
  "idle_ids (s\<lparr>pg_waitQueue := q\<rparr>) = idle_ids s" "idle_ids (s\<lparr>pg_state := st\<rparr>) = idle_ids s"
  "idle_ids (s\<lparr>pg_initialized := b\<rparr>) = idle_ids s" "idle_ids (s\<lparr>pg_held := h\<rparr>) = idle_ids s"
  "idle_ids (s\<lparr>pg_outcomes := out\<rparr>) = idle_ids s" "idle_ids (s\<lparr>pg_closed := b\<rparr>) = idle_ids s"
  "idle_ids (s\<lparr>pg_pendingCreations := n\<rparr>) = idle_ids s" "idle_ids (s\<lparr>pg_pushed := ps\<rparr>) = idle_ids s"
  "idle_ids (s\<lparr>pg_connecting := ps\<rparr>) = idle_ids s" "idle_ids (s\<lparr>pg_next := n\<rparr>) = idle_ids s"
  by (simp_all add: pool_ids_def idle_ids_def)

lemma loans_updates [simp]:
  "loans_ok (s\<lparr>pg_waitQueue := q\<rparr>) = loans_ok s" "loans_ok (s\<lparr>pg_state := st\<rparr>) = loans_ok s"
  "loans_ok (s\<lparr>pg_initialized := b\<rparr>) = loans_ok s" "loans_ok (fail_caller w e s) = loans_ok s"
  "loans_ok (s\<lparr>pg_pendingCreations := n\<rparr>) = loans_ok s"
  by (simp_all add: loans_ok_def fail_caller_def)

lemma loans_touch: "loans_ok s \<Longrightarrow> loans_ok (mark_connection c (\<lambda>p. p\<lparr>pc_lastUsed := now\<rparr>) s)"
  by (simp add: loans_ok_def loan_simps)

lemma filter_ids:
  "set (pool_ids (s\<lparr>pg_connections := filter P (pg_connections s)\<rparr>)) \<subseteq> set (pool_ids s)"
  "idle_ids (s\<lparr>pg_connections := filter P (pg_connections s)\<rparr>) \<subseteq> idle_ids s"
  "distinct (pool_ids s) \<Longrightarrow> distinct (pool_ids (s\<lparr>pg_connections := filter P (pg_connections s)\<rparr>))"
  using idle_of_marks(4) by (auto simp: pool_ids_def idle_ids_def distinct_map_filter)

lemma loans_filter: "loans_ok s \<Longrightarrow> loans_ok (s\<lparr>pg_connections := filter P (pg_connections s)\<rparr>)"
  using filter_ids [where P = P and s = s] by (simp add: loans_ok_def) blast

lemma loans_start: "loans_ok s \<Longrightarrow> loans_ok (start_creation p s)"
  by (auto simp: loans_ok_def start_creation_def less_Suc_eq)

lemma loans_create: "loans_ok s \<Longrightarrow> loans_ok (create_or_wait cfg w s)"
  by (simp add: create_or_wait_def loans_start)

lemma loans_return: "loans_ok s \<Longrightarrow> loans_ok (s\<lparr>pg_held := remove1 c (pg_held s)\<rparr>) \<and> c \<notin> set (remove1 c (pg_held s))"
  by (auto simp: loans_ok_def distinct_remove1)

lemma loans_idle:
  "loans_ok s \<Longrightarrow> c \<notin> set (pg_held s) \<Longrightarrow> loans_ok (mark_connection c (\<lambda>p. p\<lparr>pc_inUse := False, pc_lastUsed := now\<rparr>) s)"
  using mark_free [of c now s] by (auto simp: loans_ok_def loan_simps)

text \<open>The idle connection the loop finds is not lent.\<close>

lemma scan_idle:
  "scan_connections st ps = IdleConnection c \<Longrightarrow> \<exists>p \<in> set ps. pc_conn p = c \<and> \<not> pc_inUse p \<and> st c = ConnReady"
  by (induction ps) (auto split: if_splits)

definition free_for_loan :: "pg_pool \<Rightarrow> nat \<Rightarrow> bool" where
  "free_for_loan s c \<longleftrightarrow>
     c \<notin> set (pg_held s) \<and> c < pg_next s \<and> c \<notin> fst ` set (pg_connecting s) \<and> c \<notin> fst ` set (pg_pushed s)"

lemma loans_serve: "loans_ok s \<Longrightarrow> free_for_loan s c \<Longrightarrow> loans_ok (serve_waiter c s)"
  by (cases "pg_waitQueue s") (auto simp: serve_waiter_def free_for_loan_def intro!: loans_lend)

lemma idle_in_ids: "idle_ids s \<subseteq> set (pool_ids s)"
  by (auto simp: idle_ids_def idle_of_def pool_ids_def)

lemma idle_free: "loans_ok s \<Longrightarrow> pg_pushed s = [] \<Longrightarrow> c \<in> idle_ids s \<Longrightarrow> free_for_loan s c"
  using idle_in_ids [of s] by (auto simp: loans_ok_def free_for_loan_def)

lemma scan_idle_ids: "scan_connections st (pg_connections s) = IdleConnection c \<Longrightarrow> c \<in> idle_ids s"
  by (auto simp: idle_ids_def idle_of_def image_iff dest!: scan_idle)

lemma loans_acquire:
  assumes "loans_ok s" "pg_pushed s = []"
  shows "loans_ok (do_acquire cfg w now s)"
proof (cases "scan_connections (pg_state s) (pg_connections s)")
  case (IdleConnection c)
  then have "free_for_loan s c" using idle_free [OF assms] scan_idle_ids by blast
  then have "loans_ok (lend c w (mark_connection c (\<lambda>p. p\<lparr>pc_lastUsed := now\<rparr>) s))"
    using loans_touch [OF assms(1)] by (intro loans_lend) (simp_all add: free_for_loan_def loan_simps)
  then show ?thesis using IdleConnection assms(1) by (simp add: do_acquire_def)
next
  case (DeadConnection c)
  then show ?thesis using assms(1) by (simp add: do_acquire_def loans_create remove_connection_def loans_filter)
qed (use assms(1) in \<open>simp add: do_acquire_def loans_create\<close>)

lemma loans_release:
  assumes "loans_ok s" "pg_pushed s = []"
  shows "loans_ok (release cfg c now s)"
proof -
  let ?s = "s\<lparr>pg_held := remove1 c (pg_held s)\<rparr>"
  have ok: "loans_ok ?s" "c \<notin> set (pg_held ?s)" using loans_return [OF assms(1), of c] by simp_all
  note idle = loans_idle [OF ok, of now]
  have free: "free_for_loan (mark_connection c (\<lambda>p. p\<lparr>pc_inUse := False, pc_lastUsed := now\<rparr>) ?s) c" if "has_connection c ?s"
    using that ok assms(2) by (auto simp: free_for_loan_def loan_simps loans_ok_def has_connection_ids)
  have "loans_ok (maybe_create_replacement cfg (remove_connection c ?s))"
    using loans_filter [OF ok(1)] by (simp add: maybe_create_replacement_def remove_connection_def loans_start)
  then show ?thesis using ok idle loans_serve [OF idle free] by (simp add: release_def Let_def)
qed

lemma loans_fewer:
  assumes "loans_ok s" "fst ` set cs \<subseteq> fst ` set (pg_connecting s)"
  shows "loans_ok (s\<lparr>pg_connecting := cs\<rparr>)"
proof -
  have "\<forall>c \<in> fst ` set (pg_connecting s). c \<notin> set (pg_held s) \<and> c \<notin> set (pool_ids s)"
    using assms(1) unfolding loans_ok_def by (elim conjE)
  then have "\<forall>c \<in> fst ` set cs. c \<notin> set (pg_held s) \<and> c \<notin> set (pool_ids s)"
    using assms(2) by (meson subset_iff)
  moreover have frame: "pg_held (s\<lparr>pg_connecting := cs\<rparr>) = pg_held s" "pg_next (s\<lparr>pg_connecting := cs\<rparr>) = pg_next s"
    "pg_pushed (s\<lparr>pg_connecting := cs\<rparr>) = pg_pushed s" "pg_connecting (s\<lparr>pg_connecting := cs\<rparr>) = cs"
    by simp_all
  ultimately show ?thesis using assms(1) unfolding loans_ok_def ids_updates frame by (elim conjE) (intro conjI)
qed

lemma loans_failed: "loans_ok s \<Longrightarrow> loans_ok (connect_failed c e s)"
proof -
  assume "loans_ok s"
  then have "loans_ok (s\<lparr>pg_connecting := AList.delete c (pg_connecting s)\<rparr>)"
    by (rule loans_fewer) (simp only: delete_keys Diff_subset)
  then have "loans_ok (s\<lparr>pg_connecting := AList.delete c (pg_connecting s), pg_pendingCreations := n\<rparr>)" for n by simp
  with \<open>loans_ok s\<close> show ?thesis by (simp add: connect_failed_def Let_def split: option.split purpose.split)
qed

lemma push_ids [simp]:
  "pool_ids (push_connection c now s) = pool_ids s @ [c]" "idle_ids (push_connection c now s) = insert c (idle_ids s)"
  by (auto simp: pool_ids_def idle_ids_def idle_of_def push_connection_def)

lemma push_frame [simp]:
  "pg_held (push_connection c now s) = pg_held s" "pg_next (push_connection c now s) = pg_next s"
  "pg_connecting (push_connection c now s) = pg_connecting s" "pg_pushed (push_connection c now s) = pg_pushed s"
  "pg_waitQueue (push_connection c now s) = pg_waitQueue s" "pg_outcomes (push_connection c now s) = pg_outcomes s"
  by (simp_all add: push_connection_def)

lemma loans_warm:
  assumes "loans_ok s" "creations_ok s"
  shows "loans_ok (warm_connection now s)"
proof -
  have "pg_next s \<notin> set (pg_held s)" "pg_next s \<notin> set (pool_ids s)" using assms(1) by (auto simp: loans_ok_def)
  moreover have "\<forall>c \<in> fst ` set (pg_connecting s). c < pg_next s" using assms(2) unfolding creations_ok_def by (elim conjE)
  ultimately show ?thesis using assms(1) by (auto simp: warm_connection_def loans_ok_def less_Suc_eq)
qed

text \<open>A connection that is taken over as soon as it is pushed.\<close>

lemma loans_created:
  assumes "loans_ok s" "creations_ok s" "pg_pushed s = []"
  shows "loans_ok (take_over c (connected c now s)) \<and> pg_pushed (take_over c (connected c now s)) = []"
proof (cases "map_of (pg_connecting s) c")
  case None
  then show ?thesis using assms by (simp add: connected_def take_over_def)
next
  case (Some p)
  have c: "c \<in> fst ` set (pg_connecting s)" using map_of_SomeD [OF Some] by force
  have bound: "\<forall>c \<in> fst ` set (pg_connecting s). c < pg_next s" using assms(2) unfolding creations_ok_def by (elim conjE)
  define t where "t = (push_connection c now s)\<lparr>pg_connecting := AList.delete c (pg_connecting s), pg_state := (pg_state s)(c := ConnReady),
    pg_pushed := [], pg_pendingCreations := pg_pendingCreations s - 1\<rparr>"
  have to: "take_over c (connected c now s) = (case p of ForCaller w \<Rightarrow> lend c w t | ForReplacement \<Rightarrow> serve_waiter c t)"
    using Some assms(3) by (cases p) (simp_all add: connected_def take_over_def t_def push_connection_def Let_def)
  have "pg_connecting t = AList.delete c (pg_connecting s)" by (simp add: t_def)
  then have keys: "fst ` set (pg_connecting t) = fst ` set (pg_connecting s) - {c}" by (simp only: delete_keys)
  have frame: "pg_held t = pg_held s" "pg_next t = pg_next s" "pg_pushed t = []"
    "pool_ids t = pool_ids s @ [c]" "idle_ids t = insert c (idle_ids s)"
    by (simp_all add: t_def)
  have out: "c \<notin> set (pg_held s)" "c \<notin> set (pool_ids s)" "c < pg_next s" using assms(1) c bound by (auto simp: loans_ok_def)
  have t: "loans_ok t" using assms(1) out by (auto simp: loans_ok_def frame keys)
  moreover have "free_for_loan t c" using out by (auto simp: free_for_loan_def frame keys)
  ultimately have "loans_ok (take_over c (connected c now s))"
    unfolding to by (auto simp: free_for_loan_def loans_serve intro: loans_lend split: purpose.split)
  moreover have "pg_pushed (take_over c (connected c now s)) = []"
    unfolding to by (cases p; cases "pg_waitQueue t") (simp_all add: lend_def mark_connection_def serve_waiter_def frame)
  ultimately show ?thesis by blast
qed

section \<open>Schedules\<close>

text \<open>In a prompt schedule nothing runs between the two continuations of a creation; in a proper one a connection is
  released by who holds it.\<close>

primrec prompt_from :: "nat option \<Rightarrow> pool_event list \<Rightarrow> bool" where
  "prompt_from pushed [] \<longleftrightarrow> pushed = None"
| "prompt_from pushed (e # es) \<longleftrightarrow>
     (case pushed of
        Some c \<Rightarrow> e = TakeOver c \<and> prompt_from None es
      | None \<Rightarrow> (case e of Connected c now \<Rightarrow> prompt_from (Some c) es | TakeOver c \<Rightarrow> False | _ \<Rightarrow> prompt_from None es))"

definition prompt :: "pool_event list \<Rightarrow> bool" where
  "prompt es \<longleftrightarrow> prompt_from None es"

definition is_creation :: "pool_event \<Rightarrow> bool" where
  "is_creation e = (case e of Connected c now \<Rightarrow> True | TakeOver c \<Rightarrow> True | _ \<Rightarrow> False)"

lemma loans_step:
  assumes "loans_ok s" "creations_ok s" "pg_pushed s = []" "\<not> is_creation e"
  shows "loans_ok (pool_step cfg s e)"
proof (cases e)
  case (SweepIdle now)
  then show ?thesis using loans_filter [OF assms(1)] by (simp add: pool_step_def sweep_idle_def Let_def loans_ok_def)
next
  case CloseEnd
  then show ?thesis using loans_filter [OF assms(1), of "\<lambda>p. False"] by (simp add: pool_step_def close_end_def)
next
  case CloseBegin
  then show ?thesis using assms(1) by (simp add: pool_step_def close_begin_def loans_ok_def)
next
  case (AcquireTimeout w)
  then show ?thesis using assms(1) by (simp add: pool_step_def acquire_timeout_def)
qed (use assms in \<open>simp_all add: pool_step_def loans_acquire loans_release loans_failed loans_warm is_creation_def\<close>)

lemma pushed_step: "pg_pushed s = [] \<Longrightarrow> \<not> is_creation e \<Longrightarrow> pg_pushed (pool_step cfg s e) = []"
proof -
  have create: "pg_pushed (create_or_wait cfg w t) = pg_pushed t" for w t
    by (simp add: create_or_wait_def start_creation_def fail_caller_def)
  have serve: "pg_pushed (serve_waiter c t) = pg_pushed t" for c t
    by (cases "pg_waitQueue t") (simp_all add: serve_waiter_def lend_def mark_connection_def)
  assume "pg_pushed s = []" "\<not> is_creation e"
  then show ?thesis
    by (cases e)
      (auto simp: pool_step_def is_creation_def warm_connection_def do_acquire_def create serve lend_def mark_connection_def
        remove_connection_def fail_caller_def connect_failed_def release_def maybe_create_replacement_def start_creation_def
        acquire_timeout_def sweep_idle_def close_begin_def close_end_def Let_def
        split: scan_result.split option.split purpose.split)
qed

text \<open>Between two steps of a prompt schedule: all is settled, or one creation has just been pushed.\<close>

definition pool_settled :: "pg_pool \<Rightarrow> bool" where
  "pool_settled s \<longleftrightarrow> loans_ok s \<and> creations_ok s \<and> pg_pushed s = []"

lemma pool_settled_step: "pool_settled s \<Longrightarrow> \<not> is_creation e \<Longrightarrow> pool_settled (pool_step cfg s e)"
  by (simp add: pool_settled_def loans_step pushed_step pool_step_creations)

lemma pool_settled_created: "pool_settled s \<Longrightarrow> pool_settled (take_over c (connected c now s))"
  using pool_step_creations [of s undefined "Connected c now"] pool_step_creations [of "connected c now s" undefined "TakeOver c"]
  by (simp add: pool_settled_def loans_created) (simp add: pool_step_def)

lemma loans_run:
  "prompt_from q es \<Longrightarrow> (case q of None \<Rightarrow> pool_settled s | Some c \<Rightarrow> \<exists>now t. pool_settled t \<and> s = connected c now t) \<Longrightarrow>
   pool_settled (pool_run cfg s es)"
proof (induction es arbitrary: q s)
  case Nil
  then show ?case by simp
next
  case (Cons e es)
  show ?case
  proof (cases q)
    case (Some c)
    then obtain now t where t: "pool_settled t" "s = connected c now t" "e = TakeOver c" "prompt_from None es" using Cons.prems by auto
    have "pool_settled (pool_step cfg s e)" using pool_settled_created [OF t(1)] by (simp add: t pool_step_def)
    with Cons.IH [OF t(4)] show ?thesis by simp
  next
    case None
    then have s: "pool_settled s" using Cons.prems(2) by simp
    show ?thesis
    proof (cases "is_creation e")
      case True
      then obtain c now where c: "e = Connected c now" using Cons.prems(1) None
        by (cases e) (auto simp: is_creation_def)
      then have "prompt_from (Some c) es" using Cons.prems(1) None by simp
      from Cons.IH [OF this, of "connected c now s"] s show ?thesis by (auto simp: c pool_step_def)
    next
      case False
      then have "prompt_from None es" using Cons.prems(1) None by (cases e) (auto simp: is_creation_def)
      from Cons.IH [OF this, of "pool_step cfg s e"] pool_settled_step [OF s False] show ?thesis by simp
    qed
  qed
qed

lemma loans_distinct: "prompt es \<Longrightarrow> pool_settled s \<Longrightarrow> distinct (pg_held (pool_run cfg s es))"
  using loans_run [of None es s cfg] by (auto simp: prompt_def pool_settled_def loans_ok_def)

lemma new_pool_settled: "pool_settled new_pool"
  by (simp add: pool_settled_def new_pool_ok) (simp add: new_pool_def loans_ok_def pool_ids_def idle_ids_def idle_of_def)

section \<open>What a schedule that is not prompt does\<close>

text \<open>Another caller runs between the two continuations of a creation.\<close>

lemma scan_append: "scan_connections st ps = NothingFree \<Longrightarrow> scan_connections st (ps @ qs) = scan_connections st qs"
  by (induction ps) (auto split: if_splits)

lemma scan_cong: "(\<forall>p \<in> set ps. st (pc_conn p) = st' (pc_conn p)) \<Longrightarrow> scan_connections st ps = scan_connections st' ps"
  by (induction ps) auto

lemma lent_twice:
  assumes s: "pool_settled s" "map_of (pg_connecting s) c = Some (ForCaller w)" "scan_connections (pg_state s) (pg_connections s) = NothingFree"
    and on: "pg_initialized s" "\<not> pg_closed s"
    and t_def: "t = pool_run cfg s [Connected c now, Acquire w' now', TakeOver c]"
  shows "pg_outcomes t = pg_outcomes s @ [(w', Acquired c), (w, Acquired c)]" "\<not> distinct (pg_held t)"
proof -
  let ?st = "(pg_state s)(c := ConnReady)"
  have "c \<in> fst ` set (pg_connecting s)" using map_of_SomeD [OF s(2)] by force
  then have "c \<notin> set (pool_ids s)" using s(1) unfolding pool_settled_def loans_ok_def by blast
  then have "scan_connections ?st (pg_connections s) = NothingFree"
    using scan_cong [of "pg_connections s" ?st "pg_state s"] s(3) by (force simp: pool_ids_def)
  then have "scan_connections ?st (pg_connections s @ [\<lparr>pc_conn = c, pc_lastUsed = now, pc_inUse = False\<rparr>]) = IdleConnection c"
    by (simp add: scan_append)
  moreover have "pg_pushed s = []" using s(1) by (simp add: pool_settled_def)
  ultimately show "pg_outcomes t = pg_outcomes s @ [(w', Acquired c), (w, Acquired c)]" "\<not> distinct (pg_held t)"
    using s(2) on
    by (simp_all add: t_def pool_step_def connected_def push_connection_def do_acquire_def take_over_def lend_def mark_connection_def)
qed

text \<open>A connection that is released while its socket is busy becomes idle without serving the queue.  When it is ready again, the
  waiter is still there, and only the next release or its own timeout takes it out.\<close>

lemma waiter_stranded:
  assumes "has_connection c s" "pg_state s c = ConnBusy" "pg_waitQueue s = w # ws"
    and t_def: "t = pool_run cfg s [Release c now, ConnState c ConnReady]"
  shows "pg_waitQueue t = w # ws" "pg_outcomes t = pg_outcomes s" "c \<in> idle_ids t" "pg_state t c = ConnReady"
proof -
  have t: "t = (mark_connection c (\<lambda>p. p\<lparr>pc_inUse := False, pc_lastUsed := now\<rparr>) (s\<lparr>pg_held := remove1 c (pg_held s)\<rparr>))
      \<lparr>pg_state := (pg_state s)(c := ConnReady)\<rparr>"
    using assms by (simp add: t_def pool_step_def release_def has_connection_def Let_def mark_connection_def)
  from assms(1) obtain p where p: "p \<in> set (pg_connections s)" "pc_conn p = c" by (auto simp: has_connection_def)
  have "c \<in> set (idle_of (map (\<lambda>p. if pc_conn p = c then p\<lparr>pc_inUse := False, pc_lastUsed := now\<rparr> else p) ps))"
    if "p \<in> set ps" for ps
    using that p(2) by (induction ps) (auto simp: idle_of_def)
  with p(1) show "c \<in> idle_ids t" by (simp add: t idle_ids_def mark_connection_def)
  show "pg_waitQueue t = w # ws" "pg_outcomes t = pg_outcomes s" "pg_state t c = ConnReady"
    using assms(3) by (simp_all add: t mark_connection_def)
qed

text \<open>A connection whose creation ends after \<open>close\<close> is kept and lent.\<close>

lemma open_after_close:
  assumes "pool_settled s" "map_of (pg_connecting s) c = Some (ForCaller w)"
    and t_def: "t = pool_run cfg s [CloseBegin, CloseEnd, Connected c now, TakeOver c]"
  shows "pg_closed t" "pool_ids t = [c]" "pg_state t c = ConnReady"
    "pg_outcomes t = pg_outcomes s @ map (\<lambda>w. (w, AcquireFailed (pool_error ''Connection pool is closed''))) (pg_waitQueue s) @ [(w, Acquired c)]"
  using assms
  by (simp_all add: t_def pool_step_def close_begin_def close_end_def connected_def push_connection_def take_over_def lend_def
    mark_connection_def pool_settled_def pool_ids_def)

text \<open>A warm-up ends settled, with as many connections as it asked for.\<close>

lemma prompt_warm_up: "prompt (warm_up n now)"
  by (induction n) (simp_all add: prompt_def warm_up_def)

lemma warm_up_settled: "pool_settled (pool_run cfg new_pool (warm_up n now))"
  using loans_run [of None "warm_up n now" new_pool cfg] prompt_warm_up new_pool_settled by (simp add: prompt_def)

lemma warm_up_within: "n \<le> pf_maxConnections cfg \<Longrightarrow> within_max cfg (pool_run cfg new_pool (warm_up n now))"
proof -
  assume "n \<le> pf_maxConnections cfg"
  moreover have "pg_connecting new_pool = []" "length (pg_waitQueue new_pool) \<le> MAX_WAIT" "pg_connections new_pool = []"
    by (simp_all add: new_pool_def)
  ultimately show ?thesis
    using warm_connections [OF new_pool_ok(1), of cfg n now]
    by (simp add: warm_up_def pool_run_append pool_step_def) (simp add: within_max_def)
qed

end
