(* ===== verification/SagaOrchestrator.thy ===== *)
theory SagaOrchestrator
  imports Prelude
begin

text \<open>
  \<open>packages/core/src/microservices/saga.ts\<close> and \<open>cqrs.ts\<close>.

  A step of a saga is a pair of functions of the world \<open>'w\<close> they change; a promise that rejects is \<open>Inl\<close>.  The last component of a result collects
  what is written to \<open>console.error\<close>.  A command or query bus is a map from the constructor to the
  handler.

  \<open>saga_completed\<close>, \<open>saga_failed\<close>: what a saga has done when it returns and when it throws.  \<open>saga_undone\<close>: when each
  compensation undoes its action, a saga that fails leaves no trace.
\<close>

section \<open>Sagas\<close>

record 'w orchestrated_step =
  sg_action :: "'w \<Rightarrow> (js_error + unit) \<times> 'w"
  sg_compensate :: "'w \<Rightarrow> (js_error + unit) \<times> 'w"
  sg_name :: "string option"

definition compensation_failed :: "'w orchestrated_step \<Rightarrow> js_error \<Rightarrow> string \<times> js_error" where
  "compensation_failed step e = (nullish (sg_name step) ''(unnamed step)'', e)"

text \<open>The loop over the completed steps: an error is logged, and the loop goes on.\<close>

fun compensate_steps :: "'w orchestrated_step list \<Rightarrow> 'w \<Rightarrow> (string \<times> js_error) list \<Rightarrow> 'w \<times> (string \<times> js_error) list" where
  "compensate_steps [] w errs = (w, errs)"
| "compensate_steps (completedStep # steps) w errs =
     (case sg_compensate completedStep w of
        (Inl compensationErr, w') \<Rightarrow> compensate_steps steps w' (errs @ [compensation_failed completedStep compensationErr])
      | (Inr _, w') \<Rightarrow> compensate_steps steps w' errs)"

fun run_saga ::
  "'w orchestrated_step list \<Rightarrow> 'w orchestrated_step list \<Rightarrow> 'w \<Rightarrow> (js_error + unit) \<times> 'w \<times> (string \<times> js_error) list" where
  "run_saga completed [] w = (Inr (), w, [])"
| "run_saga completed (step # steps) w =
     (case sg_action step w of
        (Inr _, w') \<Rightarrow> run_saga (completed @ [step]) steps w'
      | (Inl err, w') \<Rightarrow> (Inl err, compensate_steps (rev completed) w' []))"

definition execute_saga :: "'w orchestrated_step list \<Rightarrow> 'w \<Rightarrow> (js_error + unit) \<times> 'w \<times> (string \<times> js_error) list" where
  "execute_saga steps w = run_saga [] steps w"

text \<open>The actions of a list of steps, all of which succeed; the compensations of a list, whatever they return.\<close>

inductive actions_succeed :: "'w orchestrated_step list \<Rightarrow> 'w \<Rightarrow> 'w \<Rightarrow> bool" where
  no_actions: "actions_succeed [] w w"
| next_action: "sg_action s w = (Inr (), w') \<Longrightarrow> actions_succeed ss w' w'' \<Longrightarrow> actions_succeed (s # ss) w w''"

inductive_cases actions_ConsE: "actions_succeed (s # ss) w w'"
inductive_simps actions_Nil [simp]: "actions_succeed [] w w'"

definition compensated :: "'w orchestrated_step list \<Rightarrow> 'w \<Rightarrow> 'w" where
  "compensated steps w = foldl (\<lambda>w s. snd (sg_compensate s w)) w steps"

lemma compensate_steps_world: "fst (compensate_steps steps w errs) = compensated steps w"
  by (induction steps arbitrary: w errs) (auto simp: compensated_def split: prod.split sum.split)

lemma run_saga_actions:
  "actions_succeed pre w w' \<Longrightarrow> run_saga completed (pre @ steps) w = run_saga (completed @ pre) steps w'"
  by (induction arbitrary: completed rule: actions_succeed.induct) simp_all

lemma saga_completed: "actions_succeed steps w w' \<Longrightarrow> execute_saga steps w = (Inr (), w', [])"
  using run_saga_actions [of steps w w' "[]" "[]"] by (simp add: execute_saga_def)

lemma saga_failed:
  assumes "actions_succeed pre w w'" "sg_action s w' = (Inl e, w'')"
  shows "execute_saga (pre @ s # post) w = (Inl e, compensate_steps (rev pre) w'' [])"
  using run_saga_actions [OF assms(1), of "[]" "s # post"] assms(2) by (simp add: execute_saga_def)

text \<open>A saga either completes or fails at some step.\<close>

lemma saga_cases: "(\<exists>w'. actions_succeed steps w w') \<or>
   (\<exists>pre s post w' e w''. steps = pre @ s # post \<and> actions_succeed pre w w' \<and> sg_action s w' = (Inl e, w''))"
proof (induction steps arbitrary: w)
  case Nil
  then show ?case by simp
next
  case (Cons s steps)
  show ?case
  proof (cases "sg_action s w")
    case (Pair r w1)
    show ?thesis
    proof (cases r)
      case (Inl e)
      have "s # steps = [] @ s # steps \<and> actions_succeed [] w w \<and> sg_action s w = (Inl e, w1)" using Pair Inl by simp
      then show ?thesis by blast
    next
      case (Inr u)
      then have act: "sg_action s w = (Inr (), w1)" using Pair by simp
      from Cons.IH [of w1] show ?thesis
      proof (elim disjE exE conjE)
        fix w' assume "actions_succeed steps w1 w'"
        then show ?thesis using next_action [OF act] by blast
      next
        fix pre t post w' e w''
        assume h: "steps = pre @ t # post" "actions_succeed pre w1 w'" "sg_action t w' = (Inl e, w'')"
        have "s # steps = (s # pre) @ t # post \<and> actions_succeed (s # pre) w w'" using h next_action [OF act] by simp
        then show ?thesis using h(3) by blast
      qed
    qed
  qed
qed

text \<open>When a compensation undoes its action, and an action that fails does nothing.\<close>

definition undoes :: "'w orchestrated_step \<Rightarrow> bool" where
  "undoes s \<longleftrightarrow>
     (\<forall>w w'. sg_action s w = (Inr (), w') \<longrightarrow> snd (sg_compensate s w') = w) \<and>
     (\<forall>w w' e. sg_action s w = (Inl e, w') \<longrightarrow> w' = w)"

lemma undo_actions: "actions_succeed pre w w' \<Longrightarrow> list_all undoes pre \<Longrightarrow> compensated (rev pre) w' = w"
proof (induction rule: actions_succeed.induct)
  case (no_actions w)
  then show ?case by (simp add: compensated_def)
next
  case (next_action s w w' ss w'')
  then have "compensated (rev ss) w'' = w'" "snd (sg_compensate s w') = w" by (auto simp: undoes_def)
  then show ?case by (simp add: compensated_def)
qed

lemma saga_undone:
  assumes "list_all undoes steps" "fst (execute_saga steps w) = Inl e"
  shows "fst (snd (execute_saga steps w)) = w"
  using saga_cases [of steps w]
proof (elim disjE exE conjE)
  fix w' assume "actions_succeed steps w w'"
  with assms(2) show ?thesis by (simp add: saga_completed)
next
  fix pre s post w' e' w''
  assume h: "steps = pre @ s # post" "actions_succeed pre w w'" "sg_action s w' = (Inl e', w'')"
  then have "w'' = w'" "compensated (rev pre) w' = w" using assms(1) undo_actions [OF h(2)] by (auto simp: undoes_def)
  then show ?thesis using saga_failed [OF h(2,3), of post] h(1) by (simp add: compensate_steps_world)
qed

section \<open>Buses\<close>

text \<open>\<open>'c\<close> is the type of constructors, which are compared by identity; \<open>ctor_name\<close> reads their \<open>name\<close>.\<close>

type_synonym ('c, 'q, 'r) bus = "('c, 'q \<Rightarrow> 'r) jsmap"

definition bus_register ::
  "string \<Rightarrow> ('c \<Rightarrow> string) \<Rightarrow> 'c \<Rightarrow> ('q \<Rightarrow> 'r) \<Rightarrow> ('c, 'q, 'r) bus \<Rightarrow> js_error + ('c, 'q, 'r) bus" where
  "bus_register busName ctor_name ctor handler handlers =
     (if map_has handlers ctor
      then Inl (JsError ''Error'' (busName @ '': handler already registered for '' @ ctor_name ctor))
      else Inr (AList.update ctor handler handlers))"

definition bus_dispatch :: "string \<Rightarrow> ('c \<Rightarrow> string) \<Rightarrow> ('q \<Rightarrow> 'c) \<Rightarrow> 'q \<Rightarrow> ('c, 'q, 'r) bus \<Rightarrow> js_error + 'r" where
  "bus_dispatch busName ctor_name constructor q handlers =
     (case map_of handlers (constructor q) of
        None \<Rightarrow> Inl (JsError ''Error'' (busName @ '': no handler registered for '' @ ctor_name (constructor q)))
      | Some handler \<Rightarrow> Inr (handler q))"

text \<open>A registered handler stays: later registrations cannot replace it.\<close>

lemma bus_register_keeps:
  "bus_register b n c h m = Inr m' \<Longrightarrow> map_of m u = Some k \<Longrightarrow> map_of m' u = Some k"
  by (auto simp: bus_register_def map_has_def split: if_splits)

lemma bus_dispatch_registered:
  "bus_register b n (constructor q) h m = Inr m' \<Longrightarrow> bus_dispatch b n constructor q m' = Inr (h q)"
  by (auto simp: bus_register_def bus_dispatch_def split: if_splits)

end
