(* ===== verification/EventStore.thy ===== *)
theory EventStore
  imports Prelude
begin

text \<open>
  \<open>EventStore\<close> of \<open>packages/core/src/microservices/event-store.ts\<close>: the table \<open>street_events\<close> with its unique key, and \<open>append\<close> as the
  sequence of statements it sends, each in a transaction of its own.  \<open>'p\<close> is the type of payloads, which are stored as JSON and read
  back.

  \<open>append_step\<close> is one statement of one running \<open>append\<close>; appends run interleaved.  \<open>contiguous\<close> is the invariant of events
  without explicit versions: the versions of an aggregate are \<open>0, 1, \<dots>, n - 1\<close>, each once, under every interleaving.
  \<open>load_append\<close>: an append that runs alone is seen by \<open>load\<close>.  \<open>append_torn\<close>: one that is overtaken may stop halfway.
\<close>

record 'p event_row =
  er_aggregate :: string
  er_version :: int
  er_type :: string
  er_payload :: 'p

record 'p new_event =
  ne_version :: "int option"
  ne_type :: string
  ne_payload :: 'p

section \<open>Statements\<close>

definition current_version :: "string \<Rightarrow> 'p event_row list \<Rightarrow> int" where
  "current_version a t = (let vs = map er_version (filter (\<lambda>r. er_aggregate r = a) t) in if vs = [] then - 1 else Max (set vs))"

definition insert_event :: "string \<Rightarrow> int \<Rightarrow> string \<Rightarrow> 'p \<Rightarrow> 'p event_row list \<Rightarrow> js_error + 'p event_row list" where
  "insert_event a v ty p t =
     (if list_ex (\<lambda>r. er_aggregate r = a \<and> er_version r = v) t
      then Inl (JsError ''Error'' ''duplicate key value violates unique constraint'')
      else Inr (t @ [\<lparr>er_aggregate = a, er_version = v, er_type = ty, er_payload = p\<rparr>]))"

definition conflict :: "string \<Rightarrow> int \<Rightarrow> int \<Rightarrow> js_error" where
  "conflict a expected found =
     JsError ''Error'' (''EventStore: optimistic concurrency conflict for aggregate '' @ CHR 0x22 # a @ CHR 0x22 #
       ''. Expected version '' @ show_int expected @ '' but found '' @ show_int found @ ''.'')"

text \<open>A running \<open>append\<close>: before the first statement, between insertions, and done.\<close>

datatype 'p append_state =
    Reading string "'p new_event list" "int option"
  | Inserting string "'p new_event list" int
  | Appended
  | AppendFailed js_error

definition begin_append :: "string \<Rightarrow> 'p new_event list \<Rightarrow> int option \<Rightarrow> 'p append_state" where
  "begin_append aggregateId events expectedVersion =
     (if events = [] then Appended else Reading aggregateId events expectedVersion)"

fun append_step :: "'p append_state \<Rightarrow> 'p event_row list \<Rightarrow> 'p append_state \<times> 'p event_row list" where
  "append_step (Reading a events expected) t =
     (let currentVersion = current_version a t
      in if expected \<noteq> None \<and> currentVersion \<noteq> the expected then (AppendFailed (conflict a (the expected) currentVersion), t)
         else (Inserting a events (currentVersion + 1), t))"
| "append_step (Inserting a [] nextVersion) t = (Appended, t)"
| "append_step (Inserting a (e # es) nextVersion) t =
     (case insert_event a (nullish (ne_version e) nextVersion) (ne_type e) (ne_payload e) t of
        Inl err \<Rightarrow> (AppendFailed err, t)
      | Inr t' \<Rightarrow> (if es = [] then Appended else Inserting a es (nextVersion + 1), t'))"
| "append_step Appended t = (Appended, t)"
| "append_step (AppendFailed err) t = (AppendFailed err, t)"

fun run_append :: "nat \<Rightarrow> 'p append_state \<Rightarrow> 'p event_row list \<Rightarrow> 'p append_state \<times> 'p event_row list" where
  "run_append 0 s t = (s, t)"
| "run_append (Suc n) s t = (case append_step s t of (s', t') \<Rightarrow> run_append n s' t')"

text \<open>One statement to read the version and one for each event.\<close>

definition append_events :: "string \<Rightarrow> 'p new_event list \<Rightarrow> int option \<Rightarrow> 'p event_row list \<Rightarrow> 'p append_state \<times> 'p event_row list" where
  "append_events aggregateId events expectedVersion t =
     run_append (Suc (length events)) (begin_append aggregateId events expectedVersion) t"

definition load_events :: "string \<Rightarrow> int \<Rightarrow> 'p event_row list \<Rightarrow> 'p event_row list" where
  "load_events aggregateId fromVersion t =
     sort_key er_version (filter (\<lambda>r. er_aggregate r = aggregateId \<and> fromVersion \<le> er_version r) t)"

section \<open>The invariant\<close>

definition versions :: "string \<Rightarrow> 'p event_row list \<Rightarrow> int list" where
  "versions a t = map er_version (filter (\<lambda>r. er_aggregate r = a) t)"

definition contiguous :: "'p event_row list \<Rightarrow> bool" where
  "contiguous t \<longleftrightarrow> (\<forall>a. distinct (versions a t) \<and> set (versions a t) = {0..<int (length (versions a t))})"

text \<open>A running append takes the next version, or one that is taken.\<close>

fun append_ok :: "'p append_state \<Rightarrow> 'p event_row list \<Rightarrow> bool" where
  "append_ok (Reading a events expected) t \<longleftrightarrow> list_all (\<lambda>e. ne_version e = None) events"
| "append_ok (Inserting a events nextVersion) t \<longleftrightarrow>
     list_all (\<lambda>e. ne_version e = None) events \<and> 0 \<le> nextVersion \<and> nextVersion \<le> int (length (versions a t))"
| "append_ok _ t \<longleftrightarrow> True"

lemma contiguous_Nil [simp]: "contiguous []"
  by (simp add: contiguous_def versions_def)

lemma versions_snoc [simp]: "versions a (t @ [r]) = versions a t @ (if er_aggregate r = a then [er_version r] else [])"
  by (simp add: versions_def)

lemma taken_iff: "list_ex (\<lambda>r. er_aggregate r = a \<and> er_version r = v) t \<longleftrightarrow> v \<in> set (versions a t)"
  by (auto simp: versions_def list_ex_iff)

lemma current_version_contiguous: "contiguous t \<Longrightarrow> current_version a t = int (length (versions a t)) - 1"
proof -
  assume c: "contiguous t"
  show ?thesis
  proof (cases "versions a t = []")
    case True
    then show ?thesis by (simp add: current_version_def versions_def)
  next
    case False
    have "Max {0..<int (length (versions a t))} = int (length (versions a t)) - 1"
    proof (rule Max_eqI)
      show "int (length (versions a t)) - 1 \<in> {0..<int (length (versions a t))}" using False by (cases "versions a t") auto
    qed auto
    moreover have "set (versions a t) = {0..<int (length (versions a t))}" using c by (simp add: contiguous_def)
    ultimately show ?thesis using False unfolding current_version_def versions_def Let_def by simp
  qed
qed

lemma contiguous_next:
  assumes "contiguous t" "er_version r = int (length (versions (er_aggregate r) t))"
  shows "contiguous (t @ [r])"
proof -
  have "set (versions a t) = {0..<int (length (versions a t))}" "distinct (versions a t)" for a
    using assms(1) by (simp_all add: contiguous_def)
  then show ?thesis using assms(2) by (auto simp: contiguous_def)
qed

lemma append_step_ok:
  assumes "contiguous t" "append_ok s t" "append_step s t = (s', t')"
  shows "contiguous t' \<and> append_ok s' t' \<and> (\<exists>new. t' = t @ new)"
proof (cases "(s, t)" rule: append_step.cases)
  case (1 a events expected t)
  then show ?thesis using assms current_version_contiguous [of t a] by (auto simp: Let_def split: if_splits)
next
  case (3 a e es n t)
  have v: "0 \<le> n" "n \<le> int (length (versions a t))" "ne_version e = None" and n: "list_all (\<lambda>e. ne_version e = None) es"
    using assms(2) 3 by auto
  show ?thesis
  proof (cases "n \<in> set (versions a t)")
    case True
    then show ?thesis using assms 3 v by (auto simp: insert_event_def taken_iff)
  next
    case False
    have "n = int (length (versions a t))" using False v assms(1) 3 by (auto simp: contiguous_def)
    then have "contiguous (t @ [\<lparr>er_aggregate = a, er_version = n, er_type = ne_type e, er_payload = ne_payload e\<rparr>])"
      using assms(1) 3 by (intro contiguous_next) simp_all
    then show ?thesis using assms(3) 3 v n False by (auto simp: insert_event_def taken_iff)
  qed
qed (use assms in auto)

text \<open>What one append does, the others keep.\<close>

lemma append_ok_grows: "append_ok s t \<Longrightarrow> append_ok s (t @ new)"
  by (cases s) (auto simp: versions_def)

text \<open>Appends that run at the same time: a list of their states; a schedule names the one whose statement runs next.\<close>

definition store_step :: "'p append_state list \<times> 'p event_row list \<Rightarrow> nat \<Rightarrow> 'p append_state list \<times> 'p event_row list" where
  "store_step st i =
     (case st of (ss, t) \<Rightarrow>
        if i < length ss then (case append_step (ss ! i) t of (s', t') \<Rightarrow> (ss[i := s'], t')) else (ss, t))"

definition event_store_ok :: "'p append_state list \<times> 'p event_row list \<Rightarrow> bool" where
  "event_store_ok st \<longleftrightarrow> contiguous (snd st) \<and> list_all (\<lambda>s. append_ok s (snd st)) (fst st)"

lemma event_store_step_ok: "event_store_ok st \<Longrightarrow> event_store_ok (store_step st i)"
proof (cases st)
  case (Pair ss t)
  assume ok: "event_store_ok st"
  show ?thesis
  proof (cases "i < length ss")
    case True
    obtain s' t' where s: "append_step (ss ! i) t = (s', t')" by (cases "append_step (ss ! i) t")
    have "contiguous t" "append_ok (ss ! i) t" using ok True by (simp_all add: Pair event_store_ok_def list_all_length)
    from append_step_ok [OF this s] obtain new where new: "contiguous t'" "append_ok s' t'" "t' = t @ new" by blast
    have "list_all (\<lambda>s. append_ok s t') ss" using ok append_ok_grows new(3) by (auto simp: Pair event_store_ok_def list_all_iff)
    then have "list_all (\<lambda>s. append_ok s t') (ss[i := s'])"
      using new(2) by (auto simp: list_all_iff dest!: subsetD [OF set_update_subset_insert])
    then show ?thesis using True s new(1) by (simp add: Pair store_step_def event_store_ok_def)
  qed (use ok Pair in \<open>simp add: store_step_def\<close>)
qed

interpretation store: machine store_step event_store_ok
  by unfold_locales (rule event_store_step_ok)

section \<open>One append alone\<close>

definition assigned :: "string \<Rightarrow> int \<Rightarrow> 'p new_event list \<Rightarrow> 'p event_row list" where
  "assigned a v events =
     map (\<lambda>(i, e). \<lparr>er_aggregate = a, er_version = v + int i, er_type = ne_type e, er_payload = ne_payload e\<rparr>) (enumerate 0 events)"

lemma assigned_Cons: "assigned a v (e # es) =
   \<lparr>er_aggregate = a, er_version = v, er_type = ne_type e, er_payload = ne_payload e\<rparr> # assigned a (v + 1) es"
proof -
  have "enumerate (Suc 0) es = map (\<lambda>(i, e). (Suc i, e)) (enumerate 0 es)" by (rule nth_equalityI) (simp_all add: nth_enumerate_eq)
  then show ?thesis by (simp add: assigned_def comp_def case_prod_beta algebra_simps)
qed

lemma run_inserting:
  assumes "contiguous t" "v = int (length (versions a t))" "list_all (\<lambda>e. ne_version e = None) es" "es \<noteq> []"
  shows "run_append (length es) (Inserting a es v) t = (Appended, t @ assigned a v es)"
  using assms
proof (induction es arbitrary: v t)
  case (Cons e es)
  let ?r = "\<lparr>er_aggregate = a, er_version = v, er_type = ne_type e, er_payload = ne_payload e\<rparr>"
  have free: "v \<notin> set (versions a t)" using Cons.prems(1,2) by (auto simp: contiguous_def)
  have c: "contiguous (t @ [?r])" using Cons.prems(1,2) by (intro contiguous_next) simp_all
  have l: "v + 1 = int (length (versions a (t @ [?r])))" using Cons.prems(2) by simp
  show ?case
  proof (cases "es = []")
    case True
    then show ?thesis using free Cons.prems(3) by (simp add: insert_event_def taken_iff assigned_def)
  next
    case False
    from Cons.IH [OF c l _ False] Cons.prems(3) free False show ?thesis
      by (simp add: insert_event_def taken_iff assigned_Cons)
  qed
qed simp

lemma append_alone:
  assumes "contiguous t" "list_all (\<lambda>e. ne_version e = None) events" "events \<noteq> []" "expected = None \<or> expected = Some (int (length (versions a t)) - 1)"
  shows "append_events a events expected t = (Appended, t @ assigned a (int (length (versions a t))) events)"
  using run_inserting [OF assms(1) refl assms(2,3)] current_version_contiguous [OF assms(1), of a] assms(3,4)
  by (auto simp: append_events_def begin_append_def)

lemma append_conflict:
  assumes "events \<noteq> []" "expected = Some v" "v \<noteq> current_version a t"
  shows "append_events a events expected t = (AppendFailed (conflict a v (current_version a t)), t)"
proof -
  have stuck: "run_append n (AppendFailed e) t = (AppendFailed e, t)" for n and e by (induction n) simp_all
  show ?thesis using assms stuck by (simp add: append_events_def begin_append_def Let_def)
qed

text \<open>Loading gives the versions in order, the appended events last.\<close>

lemma load_versions: "sorted (map er_version (load_events a f t))" "mset (load_events a f t) = mset (filter (\<lambda>r. er_aggregate r = a \<and> f \<le> er_version r) t)"
  by (simp_all add: load_events_def)

lemma assigned_versions: "map er_version (assigned a v es) = map (\<lambda>i. v + int i) [0..<length es]"
  by (rule nth_equalityI) (simp_all add: assigned_def nth_enumerate_eq)

lemma assigned_aggregate: "r \<in> set (assigned a v es) \<Longrightarrow> er_aggregate r = a \<and> v \<le> er_version r"
  by (auto simp: assigned_def)

lemma insort_front: "\<forall>y \<in> set ys. f x \<le> f y \<Longrightarrow> insort_key f x (zs @ ys) = insort_key f x zs @ ys"
  by (induction zs) (auto simp: insort_is_Cons)

lemma sort_key_later:
  assumes "\<forall>x \<in> set xs. \<forall>y \<in> set ys. f x \<le> f y" "sorted (map f ys)"
  shows "sort_key f (xs @ ys) = sort_key f xs @ ys"
  using assms(1)
proof (induction xs)
  case Nil
  then show ?case using assms(2) by (simp add: sort_key_sorted)
next
  case (Cons x xs)
  then show ?case by (simp add: insort_front)
qed

lemma load_append:
  assumes "contiguous t" "0 \<le> f" "f \<le> int (length (versions a t))"
  shows "load_events a f (t @ assigned a (int (length (versions a t))) es) = load_events a f t @ assigned a (int (length (versions a t))) es"
proof -
  let ?n = "int (length (versions a t))"
  have old: "er_version r < ?n" if "r \<in> set t" "er_aggregate r = a" for r
  proof -
    have "er_version r \<in> set (versions a t)" using that by (auto simp: versions_def)
    then show ?thesis using assms(1) by (auto simp: contiguous_def)
  qed
  have "\<forall>r \<in> set (assigned a ?n es). er_aggregate r = a \<and> f \<le> er_version r"
    using assigned_aggregate [of _ a ?n es] assms(3) by force
  then have "filter (\<lambda>r. er_aggregate r = a \<and> f \<le> er_version r) (assigned a ?n es) = assigned a ?n es" by (simp add: filter_id_conv)
  moreover have "sorted (map er_version (assigned a ?n es))" unfolding assigned_versions by (simp add: sorted_iff_nth_mono)
  moreover have "\<forall>x \<in> set (filter (\<lambda>r. er_aggregate r = a \<and> f \<le> er_version r) t). \<forall>y \<in> set (assigned a ?n es). er_version x \<le> er_version y"
  proof (intro ballI)
    fix x y assume "x \<in> set (filter (\<lambda>r. er_aggregate r = a \<and> f \<le> er_version r) t)" "y \<in> set (assigned a ?n es)"
    then have "er_version x < ?n" "?n \<le> er_version y" using old assigned_aggregate [of y a ?n es] by auto
    then show "er_version x \<le> er_version y" by linarith
  qed
  ultimately show ?thesis unfolding load_events_def filter_append by (simp only: sort_key_later)
qed

section \<open>An append that is overtaken\<close>

text \<open>Another append that starts after the first insertion and takes the next version: the first one fails, and the event it has
  written stays.\<close>

lemma append_torn:
  assumes "contiguous t" "ne_version e1 = None" "ne_version e2 = None" "ne_version o1 = None"
    "n = int (length (versions a t))" "expected' = None \<or> expected' = Some (n - 1)"
    and row: "row = (\<lambda>v (e :: 'p new_event). \<lparr>er_aggregate = a, er_version = v, er_type = ne_type e, er_payload = ne_payload e\<rparr>)"
  shows "\<exists>err. foldl store_step ([Reading a (e1 # e2 # es) expected', Reading a [o1] None], t) [0, 0, 1, 1, 0] =
      ([AppendFailed err, Appended], t @ [row n e1, row (n + 1) o1])"
proof -
  have c: "current_version a t = n - 1" using current_version_contiguous [OF assms(1)] assms(5) by simp
  have free: "n \<notin> set (versions a t)" using assms(1,5) by (auto simp: contiguous_def)
  have free2: "n + 1 \<notin> set (versions a t)" using assms(1,5) by (auto simp: contiguous_def)
  have c1: "contiguous (t @ [row n e1])" using assms(1,5) by (intro contiguous_next) (simp_all add: row)
  have "current_version a (t @ [row n e1]) = n" using current_version_contiguous [OF c1, of a] assms(5) by (simp add: row)
  moreover have "n + 1 \<in> set (versions a (t @ [row n e1, row (n + 1) o1]))" by (simp add: versions_def row)
  ultimately show ?thesis using c free free2 assms(2-4,6)
    by (auto simp: store_step_def Let_def insert_event_def taken_iff row)
qed

end
