(* ===== verification/DistributedLock.thy ===== *)
theory DistributedLock
  imports Prelude
begin

text \<open>
  \<open>DistributedLock\<close> of \<open>packages/core/src/microservices/distributed-lock.ts\<close>: session-level advisory locks of PostgreSQL, each
  statement sent through the pool and so on whichever session the pool picks.  The two functions of the server are parameters, a
  record \<open>'t advisory\<close>; \<open>postgres_locks\<close> is what its manual says of them: a lock is held by at most one session,
  which may take it again and then has to release it as often, and releasing a lock the session does not hold changes nothing.

  \<open>acquire\<close> tries once and then up to ten times with growing delays (\<open>acquire_lock\<close>); \<open>lock_step\<close> lets tries, releases and expiries of
  many callers run interleaved, each on the session it is given.  \<open>exclusive_on_own_sessions\<close>: the lock excludes as long
  as every holder has a session of its own; \<open>shared_session_shares_lock\<close> and \<open>stray_release_leaks\<close>: what happens on the sessions of a pool.
\<close>

record 't advisory =
  try_advisory_lock :: "nat \<Rightarrow> int \<Rightarrow> 't \<Rightarrow> bool \<times> 't"
  advisory_unlock :: "nat \<Rightarrow> int \<Rightarrow> 't \<Rightarrow> bool \<times> 't"
  lock_count :: "'t \<Rightarrow> int \<Rightarrow> nat \<Rightarrow> nat"

definition postgres_locks :: "'t advisory \<Rightarrow> bool" where
  "postgres_locks db \<longleftrightarrow>
     (\<forall>s i t. (fst (try_advisory_lock db s i t) \<longleftrightarrow> (\<forall>s'. s' \<noteq> s \<longrightarrow> lock_count db t i s' = 0)) \<and>
        (\<forall>j r. lock_count db (snd (try_advisory_lock db s i t)) j r =
           lock_count db t j r + (if fst (try_advisory_lock db s i t) \<and> j = i \<and> r = s then 1 else 0)) \<and>
        (\<forall>j r. lock_count db (snd (advisory_unlock db s i t)) j r = lock_count db t j r - (if j = i \<and> r = s then 1 else 0)))"

lemma lock_laws:
  assumes "postgres_locks db"
  shows "fst (try_advisory_lock db s i t) \<longleftrightarrow> (\<forall>s'. s' \<noteq> s \<longrightarrow> lock_count db t i s' = 0)"
    "lock_count db (snd (try_advisory_lock db s i t)) j r =
       lock_count db t j r + (if fst (try_advisory_lock db s i t) \<and> j = i \<and> r = s then 1 else 0)"
    "lock_count db (snd (advisory_unlock db s i t)) j r = lock_count db t j r - (if j = i \<and> r = s then 1 else 0)"
  using assms unfolding postgres_locks_def by blast+

section \<open>Acquiring\<close>

definition lock_timeout :: "string \<Rightarrow> nat \<Rightarrow> js_error" where
  "lock_timeout key attempts =
     JsError ''Error'' (''DistributedLock: failed to acquire lock for key '' @ CHR 0x22 # key @ CHR 0x22 # '' after '' @
       show_nat attempts @ '' attempts'')"

text \<open>\<open>turn n\<close>: the session of the \<open>n\<close>-th retry, and what the others do to the locks while it waits.  The result records the delays.\<close>

function retry_lock ::
  "'t advisory \<Rightarrow> string \<Rightarrow> int \<Rightarrow> (nat \<Rightarrow> nat \<times> ('t \<Rightarrow> 't)) \<Rightarrow> nat \<Rightarrow> nat \<Rightarrow> nat list \<Rightarrow> 't \<Rightarrow> (js_error + unit) \<times> nat list \<times> 't" where
  "retry_lock db key lockId turn attempts delay waits t =
     (if 10 \<le> attempts then (Inr (), waits, t)
      else
        (case try_advisory_lock db (fst (turn attempts)) lockId (snd (turn attempts) t) of
           (True, t') \<Rightarrow> (Inr (), waits @ [delay], t')
         | (False, t') \<Rightarrow>
             if 10 \<le> attempts + 1 then (Inl (lock_timeout key (attempts + 1)), waits @ [delay], t')
             else retry_lock db key lockId turn (attempts + 1) (min (delay * 2) 5000) (waits @ [delay]) t'))"
  by pat_completeness auto
termination by (relation "measure (\<lambda>(db, key, i, turn, attempts, d, w, t). 10 - attempts)") auto

declare retry_lock.simps [simp del]

definition acquire_lock ::
  "'t advisory \<Rightarrow> (string \<Rightarrow> int) \<Rightarrow> string \<Rightarrow> nat \<Rightarrow> (nat \<Rightarrow> nat \<times> ('t \<Rightarrow> 't)) \<Rightarrow> 't \<Rightarrow> (js_error + unit) \<times> nat list \<times> 't" where
  "acquire_lock db hashKey key session turn t =
     (case try_advisory_lock db session (hashKey key) t of
        (True, t') \<Rightarrow> (Inr (), [], t')
      | (False, t') \<Rightarrow> retry_lock db key (hashKey key) turn 0 100 [] t')"

text \<open>How often it waits, and that a success is a lock taken.\<close>

lemma retry_lock_waits:
  "attempts < 10 \<Longrightarrow> retry_lock db key i turn attempts delay waits t = (r, ws, t') \<Longrightarrow>
   length waits < length ws \<and> length ws \<le> length waits + (10 - attempts) \<and> (\<forall>e. r = Inl e \<longrightarrow> length ws = length waits + (10 - attempts))"
proof (induction "10 - attempts" arbitrary: attempts delay waits t)
  case (Suc n)
  obtain ok t1 where t1: "try_advisory_lock db (fst (turn attempts)) i (snd (turn attempts) t) = (ok, t1)"
    by (cases "try_advisory_lock db (fst (turn attempts)) i (snd (turn attempts) t)")
  note step = Suc.prems(2) [unfolded retry_lock.simps [of db key i turn attempts delay waits t] t1]
  show ?case
  proof (cases "ok \<or> 10 \<le> attempts + 1")
    case True
    then show ?thesis using step Suc.prems(1) by (auto split: if_splits bool.splits)
  next
    case False
    then have rec: "retry_lock db key i turn (attempts + 1) (min (delay * 2) 5000) (waits @ [delay]) t1 = (r, ws, t')" and a: "attempts + 1 < 10"
      using step by (auto split: if_splits)
    have n: "n = 10 - (attempts + 1)" using Suc.hyps(2) by simp
    from Suc.hyps(1) [OF n a rec] a show ?thesis by (simp del: retry_lock.simps) linarith
  qed
qed simp

lemma acquire_lock_waits:
  assumes "acquire_lock db hash key s turn t = (r, ws, t')"
  shows "length ws \<le> 10" "r = Inl e \<Longrightarrow> length ws = 10"
  using assms retry_lock_waits [of 0 db key "hash key" turn 100 "[]"]
  by (auto simp: acquire_lock_def split: prod.splits bool.splits)

section \<open>Many callers\<close>

text \<open>A handle: its lock and, for the proofs, the session that took it.  \<open>lm_live\<close> holds the handles that are neither released nor expired.\<close>

record 't lock_machine =
  lm_db :: 't
  lm_live :: "(nat \<times> int \<times> nat) list"
  lm_next :: nat

datatype lock_event = TryLock int nat | ReleaseLock nat nat

text \<open>\<open>release\<close> and the expiry timer do the same, once: mark the handle and unlock on the session the pool gives.\<close>

definition lock_step :: "'t advisory \<Rightarrow> 't lock_machine \<Rightarrow> lock_event \<Rightarrow> 't lock_machine" where
  "lock_step db m e =
     (case e of
        TryLock i s \<Rightarrow>
          (case try_advisory_lock db s i (lm_db m) of
             (ok, t) \<Rightarrow>
               if ok then m\<lparr>lm_db := t, lm_live := (lm_next m, i, s) # lm_live m, lm_next := Suc (lm_next m)\<rparr> else m\<lparr>lm_db := t\<rparr>)
      | ReleaseLock h s \<Rightarrow>
          (case map_of (lm_live m) h of
             None \<Rightarrow> m
           | Some (i, s') \<Rightarrow> m\<lparr>lm_live := AList.delete h (lm_live m), lm_db := snd (advisory_unlock db s i (lm_db m))\<rparr>))"

definition holders :: "int \<Rightarrow> 't lock_machine \<Rightarrow> nat list" where
  "holders i m = map fst (filter (\<lambda>(h, j, s). j = i) (lm_live m))"

text \<open>Every holder has a session of its own, on which it also releases.\<close>

definition own_session :: "'t lock_machine \<Rightarrow> lock_event \<Rightarrow> bool" where
  "own_session m e =
     (case e of
        TryLock i s \<Rightarrow> s \<notin> (snd \<circ> snd) ` set (lm_live m)
      | ReleaseLock h s \<Rightarrow> (\<forall>i s'. map_of (lm_live m) h = Some (i, s') \<longrightarrow> s' = s))"

fun on_own_sessions :: "'t advisory \<Rightarrow> 't lock_machine \<Rightarrow> lock_event list \<Rightarrow> bool" where
  "on_own_sessions db m [] \<longleftrightarrow> True"
| "on_own_sessions db m (e # es) \<longleftrightarrow> own_session m e \<and> on_own_sessions db (lock_step db m e) es"

definition locks_ok :: "'t advisory \<Rightarrow> 't lock_machine \<Rightarrow> bool" where
  "locks_ok db m \<longleftrightarrow>
     keys_distinct (lm_live m) \<and> (\<forall>h \<in> fst ` set (lm_live m). h < lm_next m) \<and> distinct (map (snd \<circ> snd) (lm_live m)) \<and>
     (\<forall>(h, i, s) \<in> set (lm_live m). 0 < lock_count db (lm_db m) i s) \<and>
     (\<forall>i s s'. 0 < lock_count db (lm_db m) i s \<longrightarrow> 0 < lock_count db (lm_db m) i s' \<longrightarrow> s = s')"

lemma try_ok:
  assumes db: "postgres_locks db" and ok: "locks_ok db m" and s: "s \<notin> (snd \<circ> snd) ` set (lm_live m)"
  shows "locks_ok db (lock_step db m (TryLock i s))"
proof -
  obtain b t where t: "try_advisory_lock db s i (lm_db m) = (b, t)" by (cases "try_advisory_lock db s i (lm_db m)")
  note laws = lock_laws(1,2) [OF db, of s i "lm_db m", unfolded t, simplified]
  have one: "0 < lock_count db (lm_db m) j r \<Longrightarrow> 0 < lock_count db (lm_db m) j r' \<Longrightarrow> r = r'" for j r r'
    using ok by (simp add: locks_ok_def)
  have new: "0 < lock_count db t j r \<Longrightarrow> 0 < lock_count db t j r' \<Longrightarrow> r = r'" for j r r'
    using laws one by (cases b) (auto split: if_splits)
  have grow: "lock_count db (lm_db m) j r \<le> lock_count db t j r" for j r using laws(2) by simp
  have held: "\<forall>(h, j, r) \<in> set (lm_live m). 0 < lock_count db t j r"
    using ok grow unfolding locks_ok_def by (fastforce intro: less_le_trans)
  have keys: "lm_next m \<notin> fst ` set (lm_live m)" using ok by (auto simp: locks_ok_def)
  show ?thesis
  proof (cases b)
    case False
    then show ?thesis using ok new held by (simp add: lock_step_def t locks_ok_def)
  next
    case True
    then have "0 < lock_count db t i s" using laws(2) [of i s] by simp
    with True show ?thesis using ok new held keys s
      by (auto simp: lock_step_def t locks_ok_def keys_distinct_Cons map_of_eq_None_iff less_Suc_eq)
  qed
qed

lemma release_ok:
  assumes db: "postgres_locks db" and ok: "locks_ok db m" and s: "own_session m (ReleaseLock h s)"
  shows "locks_ok db (lock_step db m (ReleaseLock h s))"
proof (cases "map_of (lm_live m) h")
  case None
  then show ?thesis using ok by (simp add: lock_step_def)
next
  case (Some p)
  obtain i where p: "p = (i, s)" using s Some by (cases p) (auto simp: own_session_def)
  let ?t = "snd (advisory_unlock db s i (lm_db m))"
  note law = lock_laws(3) [OF db, of s i "lm_db m"]
  have set: "set (AList.delete h (lm_live m)) = {q \<in> set (lm_live m). fst q \<noteq> h}" by (rule set_delete)
  have inj: "inj_on (snd \<circ> snd) (set (lm_live m))" and d: "distinct (map (snd \<circ> snd) (lm_live m))"
    using ok by (simp_all add: locks_ok_def distinct_map)
  have mem: "(h, i, s) \<in> set (lm_live m)" using map_of_SomeD [OF Some] p by simp
  have other: "r \<noteq> s" if "(k, j, r) \<in> set (lm_live m)" "k \<noteq> h" for k j r
    using inj_onD [OF inj _ mem that(1)] that(2) by (auto dest: inj_onD)
  have "\<forall>(k, j, r) \<in> set (AList.delete h (lm_live m)). 0 < lock_count db ?t j r"
    using ok other unfolding set law by (fastforce simp: locks_ok_def)
  moreover have "\<forall>j r r'. 0 < lock_count db ?t j r \<longrightarrow> 0 < lock_count db ?t j r' \<longrightarrow> r = r'"
  proof (intro allI impI)
    have one: "\<forall>j s s'. 0 < lock_count db (lm_db m) j s \<longrightarrow> 0 < lock_count db (lm_db m) j s' \<longrightarrow> s = s'"
      using ok unfolding locks_ok_def by (elim conjE)
    fix j r r' assume "0 < lock_count db ?t j r" "0 < lock_count db ?t j r'"
    then have "0 < lock_count db (lm_db m) j r" "0 < lock_count db (lm_db m) j r'" unfolding law by linarith+
    then show "r = r'" using one by blast
  qed
  moreover have "distinct (map (snd \<circ> snd) (AList.delete h (lm_live m)))" using d by (simp add: AList.delete_eq distinct_map_filter)
  moreover have "\<forall>k \<in> fst ` set (AList.delete h (lm_live m)). k < lm_next m"
  proof -
    have "\<forall>k \<in> fst ` set (lm_live m). k < lm_next m" using ok unfolding locks_ok_def by (elim conjE)
    then show ?thesis unfolding set by blast
  qed
  moreover have "keys_distinct (AList.delete h (lm_live m))" using ok by (simp add: locks_ok_def)
  ultimately show ?thesis using Some p by (simp add: lock_step_def locks_ok_def)
qed

lemma locks_run:
  "postgres_locks db \<Longrightarrow> locks_ok db m \<Longrightarrow> on_own_sessions db m es \<Longrightarrow> locks_ok db (foldl (lock_step db) m es)"
proof (induction es arbitrary: m)
  case (Cons e es)
  then have "locks_ok db (lock_step db m e)" by (cases e) (auto simp: try_ok release_ok own_session_def)
  with Cons show ?case by simp
qed simp

lemma exclusive_on_own_sessions:
  assumes "postgres_locks db" "locks_ok db m" "on_own_sessions db m es"
  shows "length (holders i (foldl (lock_step db) m es)) \<le> 1"
proof -
  let ?m = "foldl (lock_step db) m es"
  have ok: "locks_ok db ?m" by (rule locks_run [OF assms])
  have "length xs \<le> 1" if "distinct (map f xs)" "\<forall>x \<in> set xs. \<forall>y \<in> set xs. f x = f y" for f :: "nat \<times> int \<times> nat \<Rightarrow> nat" and xs
  proof (rule ccontr)
    assume "\<not> length xs \<le> 1"
    then obtain x y zs where "xs = x # y # zs" by (cases xs; cases "tl xs") auto
    with that(1) that(2) [rule_format, of x y] show False by simp
  qed
  moreover have "distinct (map (snd \<circ> snd) (filter (\<lambda>(h, j, s). j = i) (lm_live ?m)))"
    using ok by (simp add: locks_ok_def distinct_map_filter)
  moreover have "\<forall>x \<in> set (filter (\<lambda>(h, j, s). j = i) (lm_live ?m)). \<forall>y \<in> set (filter (\<lambda>(h, j, s). j = i) (lm_live ?m)).
      (snd \<circ> snd) x = (snd \<circ> snd) y"
  proof (intro ballI)
    have held: "\<forall>(h, j, s) \<in> set (lm_live ?m). 0 < lock_count db (lm_db ?m) j s"
      and one: "\<forall>j s s'. 0 < lock_count db (lm_db ?m) j s \<longrightarrow> 0 < lock_count db (lm_db ?m) j s' \<longrightarrow> s = s'"
      using ok unfolding locks_ok_def by blast+
    fix x y assume "x \<in> set (filter (\<lambda>(h, j, s). j = i) (lm_live ?m))" "y \<in> set (filter (\<lambda>(h, j, s). j = i) (lm_live ?m))"
    then have in_live: "x \<in> set (lm_live ?m)" "y \<in> set (lm_live ?m)" "fst (snd x) = i" "fst (snd y) = i"
      unfolding set_filter by (simp_all add: case_prod_beta)
    from bspec [OF held in_live(1)] bspec [OF held in_live(2)]
    have "0 < lock_count db (lm_db ?m) i (snd (snd x))" "0 < lock_count db (lm_db ?m) i (snd (snd y))"
      unfolding case_prod_beta in_live(3,4) .
    with one show "(snd \<circ> snd) x = (snd \<circ> snd) y" unfolding comp_apply by blast
  qed
  ultimately show ?thesis by (simp add: holders_def)
qed

section \<open>On the sessions of a pool\<close>

lemma shared_session_shares_lock:
  assumes "postgres_locks db" "\<forall>s'. lock_count db (lm_db m) i s' = 0"
  shows "holders i (foldl (lock_step db) m [TryLock i s, TryLock i s]) = [Suc (lm_next m), lm_next m] @ holders i m"
proof -
  obtain b t where t: "try_advisory_lock db s i (lm_db m) = (b, t)" by (cases "try_advisory_lock db s i (lm_db m)")
  note l = lock_laws(1,2) [OF assms(1), of s i "lm_db m", unfolded t, simplified]
  obtain b' t' where t': "try_advisory_lock db s i t = (b', t')" by (cases "try_advisory_lock db s i t")
  note l' = lock_laws(1) [OF assms(1), of s i t, unfolded t', simplified]
  have "b" "b'" using l l' assms(2) by auto
  then show ?thesis by (simp add: lock_step_def t t' holders_def)
qed

text \<open>A release that the pool sends on another session unlocks nothing: no handle is live, and no other session gets the lock.\<close>

lemma stray_release_leaks:
  assumes db: "postgres_locks db" and free: "\<forall>s'. lock_count db (lm_db m) i s' = 0" "lm_live m = []" and s: "s \<noteq> s'" "s'' \<noteq> s"
    and m': "m' = foldl (lock_step db) m [TryLock i s, ReleaseLock (lm_next m) s']"
  shows "lm_live m' = [] \<and> \<not> fst (try_advisory_lock db s'' i (lm_db m'))"
proof -
  obtain b t where t: "try_advisory_lock db s i (lm_db m) = (b, t)" by (cases "try_advisory_lock db s i (lm_db m)")
  note l = lock_laws(1,2) [OF db, of s i "lm_db m", unfolded t, simplified]
  have b: "b" and c: "lock_count db t i s = 1" using l free by auto
  have m: "m' = m\<lparr>lm_db := snd (advisory_unlock db s' i t), lm_live := [], lm_next := Suc (lm_next m)\<rparr>"
    using b free(2) by (simp add: m' lock_step_def t)
  have "lock_count db (lm_db m') i s = 1" using lock_laws(3) [OF db, of s' i t i s] s(1) c by (simp add: m)
  then show ?thesis using lock_laws(1) [OF db, of s'' i "lm_db m'"] s(2) by (auto simp: m)
qed

end
