(* ===== verification/EventEmitter.thy ===== *)
theory EventEmitter
  imports Prelude
begin

text \<open>
  Event subscriptions: \<open>packages/events/src/matcher.ts\<close> and the class \<open>Emitter\<close> of \<open>emitter.ts\<close>.

  \<open>seg_match\<close> says when a pattern matches a name; \<open>matches_pattern_iff\<close>: the matcher, its fast path included, decides it.

  A subscription object is shared by the registry and the closures that cancel it.  It is identified by its \<open>order\<close>, and its one
  field that changes, \<open>active\<close>, is kept in the registry: \<open>em_inactive\<close> are the orders of the subscriptions that were cancelled.
  A \<open>Set\<close> is a list in insertion order.  The locale \<open>subscription_registry\<close> is the contract of the emitter, one list in order of
  registration, and the emitter with its two indices implements it.
\<close>

section \<open>Patterns\<close>

definition is_wildcard :: "string \<Rightarrow> bool" where
  "is_wildcard pattern \<longleftrightarrow> CHR ''*'' \<in> set pattern"

fun match_event_segments :: "string list \<Rightarrow> string list \<Rightarrow> bool" where
  "match_event_segments [] name \<longleftrightarrow> name = []"
| "match_event_segments (head # patRest) name \<longleftrightarrow>
     (if head = ''**'' then name \<noteq> [] \<and> list_ex (\<lambda>take. match_event_segments patRest (drop take name)) [1..<Suc (length name)]
      else name \<noteq> [] \<and> (head = ''*'' \<or> head = hd name) \<and> match_event_segments patRest (drop 1 name))"

definition matches_pattern :: "string \<Rightarrow> string \<Rightarrow> bool" where
  "matches_pattern name pattern =
     (if \<not> is_wildcard pattern then name = pattern else match_event_segments (split_on CHR ''.'' pattern) (split_on CHR ''.'' name))"

text \<open>The semantics of the header of \<open>matcher.ts\<close>.\<close>

inductive seg_match :: "string list \<Rightarrow> string list \<Rightarrow> bool" where
  no_segments: "seg_match [] []"
| one_segment: "seg_match ps ns \<Longrightarrow> seg_match (''*'' # ps) (n # ns)"
| more_segments: "seg_match ps ns \<Longrightarrow> ms \<noteq> [] \<Longrightarrow> seg_match (''**'' # ps) (ms @ ns)"
| literal_segment: "p \<noteq> ''*'' \<Longrightarrow> p \<noteq> ''**'' \<Longrightarrow> seg_match ps ns \<Longrightarrow> seg_match (p # ps) (p # ns)"

inductive_simps seg_match_Nil: "seg_match [] ns"
inductive_simps seg_match_star: "seg_match (''*'' # ps) ns"
inductive_simps seg_match_double: "seg_match (''**'' # ps) ns"
inductive_cases seg_match_ConsE: "seg_match (p # ps) ns"

lemma match_segments_iff: "match_event_segments ps ns \<longleftrightarrow> seg_match ps ns"
proof (induction ps arbitrary: ns)
  case Nil
  then show ?case by (simp add: seg_match_Nil)
next
  case (Cons p ps)
  consider (double) "p = ''**''" | (star) "p = ''*''" | (literal) "p \<noteq> ''*''" "p \<noteq> ''**''" by blast
  then show ?case
  proof cases
    case double
    have "(\<exists>k \<in> {1..length ns}. seg_match ps (drop k ns)) \<longleftrightarrow> (\<exists>ms rest. ns = ms @ rest \<and> seg_match ps rest \<and> ms \<noteq> [])"
    proof
      assume "\<exists>k \<in> {1..length ns}. seg_match ps (drop k ns)"
      then obtain k where k: "1 \<le> k" "k \<le> length ns" "seg_match ps (drop k ns)" by auto
      then have "ns = take k ns @ drop k ns \<and> seg_match ps (drop k ns) \<and> take k ns \<noteq> []" by auto
      then show "\<exists>ms rest. ns = ms @ rest \<and> seg_match ps rest \<and> ms \<noteq> []" by blast
    next
      assume "\<exists>ms rest. ns = ms @ rest \<and> seg_match ps rest \<and> ms \<noteq> []"
      then obtain ms rest where "ns = ms @ rest" "seg_match ps rest" "ms \<noteq> []" by blast
      then show "\<exists>k \<in> {1..length ns}. seg_match ps (drop k ns)" by (intro bexI [of _ "length ms"]) (auto simp: Suc_le_eq)
    qed
    then show ?thesis using double by (auto simp: Cons.IH list_ex_iff seg_match_double Bex_def less_Suc_eq_le)
  next
    case star
    then show ?thesis by (cases ns) (auto simp: Cons.IH seg_match_star)
  next
    case literal
    then show ?thesis by (cases ns) (auto simp: Cons.IH elim: seg_match_ConsE intro: literal_segment)
  qed
qed

lemma seg_match_literals: "\<forall>p \<in> set ps. CHR ''*'' \<notin> set p \<Longrightarrow> seg_match ps ns \<longleftrightarrow> ns = ps"
proof (induction ps arbitrary: ns)
  case Nil
  then show ?case by (simp add: seg_match_Nil)
next
  case (Cons p ps)
  then have "p \<noteq> ''*''" "p \<noteq> ''**''" by auto
  with Cons show ?case by (auto elim!: seg_match_ConsE intro: literal_segment)
qed

lemma split_on_inject: "split_on c s = split_on c t \<longleftrightarrow> s = t"
  by (metis join_split_on)

lemma set_split_on: "w \<in> set (split_on c s) \<Longrightarrow> set w \<subseteq> set s"
proof (induction s arbitrary: w)
  case (Cons x s)
  obtain v vs where v: "split_on c s = v # vs" by (cases "split_on c s") auto
  have "set u \<subseteq> set s" if "u = v \<or> u \<in> set vs" for u using Cons.IH [of u] that v by auto
  with Cons.prems v show ?case by (fastforce split: if_splits)
qed simp

text \<open>The matcher decides \<open>seg_match\<close>; in particular the fast path agrees with it.\<close>

lemma matches_pattern_iff:
  "matches_pattern name pattern \<longleftrightarrow> seg_match (split_on CHR ''.'' pattern) (split_on CHR ''.'' name)"
proof (cases "is_wildcard pattern")
  case True
  then show ?thesis by (simp add: matches_pattern_def match_segments_iff)
next
  case False
  then have "\<forall>p \<in> set (split_on CHR ''.'' pattern). CHR ''*'' \<notin> set p" using set_split_on by (fastforce simp: is_wildcard_def)
  from seg_match_literals [OF this] False show ?thesis by (auto simp: matches_pattern_def split_on_inject)
qed

text \<open>The comment says that the empty name matches no wildcard; it is one empty segment.\<close>

lemma empty_name_matches: "matches_pattern [] ''*''" "matches_pattern [] ''**''"
  by (simp_all add: matches_pattern_def is_wildcard_def)

section \<open>The registry\<close>

record 'l subscription =
  sb_order :: nat
  sb_key :: string
  sb_wildcard :: bool
  sb_listener :: 'l
  sb_once :: bool

record 'l emitter =
  em_nextOrder :: nat
  em_exact :: "(string, 'l subscription list) jsmap"
  em_wildcards :: "'l subscription list"
  em_inactive :: "nat list"

definition new_emitter :: "'l emitter" where
  "new_emitter = \<lparr>em_nextOrder = 0, em_exact = [], em_wildcards = [], em_inactive = []\<rparr>"

definition sub_active :: "'l emitter \<Rightarrow> 'l subscription \<Rightarrow> bool" where
  "sub_active e sub \<longleftrightarrow> sb_order sub \<notin> set (em_inactive e)"

text \<open>\<open>add\<close> returns the subscription the unsubscribe function closes over.\<close>

definition emitter_add :: "string \<Rightarrow> 'l \<Rightarrow> bool \<Rightarrow> 'l emitter \<Rightarrow> 'l subscription \<times> 'l emitter" where
  "emitter_add key listener once e =
     (let wildcard = is_wildcard key;
          sub = \<lparr>sb_order = em_nextOrder e, sb_key = key, sb_wildcard = wildcard, sb_listener = listener, sb_once = once\<rparr>;
          e1 = e\<lparr>em_nextOrder := em_nextOrder e + 1\<rparr>
      in (sub,
          if wildcard then e1\<lparr>em_wildcards := em_wildcards e @ [sub]\<rparr>
          else e1\<lparr>em_exact := AList.update key (nullish (map_of (em_exact e) key) [] @ [sub]) (em_exact e)\<rparr>))"

definition set_remove :: "'l subscription \<Rightarrow> 'l subscription list \<Rightarrow> 'l subscription list" where
  "set_remove sub ss = filter (\<lambda>s. sb_order s \<noteq> sb_order sub) ss"

definition emitter_remove :: "'l subscription \<Rightarrow> 'l emitter \<Rightarrow> 'l emitter" where
  "emitter_remove sub e =
     (if \<not> sub_active e sub then e
      else
        (let e1 = e\<lparr>em_inactive := sb_order sub # em_inactive e\<rparr>
         in if sb_wildcard sub then e1\<lparr>em_wildcards := set_remove sub (em_wildcards e)\<rparr>
            else (case map_of (em_exact e) (sb_key sub) of
                    None \<Rightarrow> e1
                  | Some ss \<Rightarrow>
                      (let rest = set_remove sub ss
                       in e1\<lparr>em_exact := if rest = [] then AList.delete (sb_key sub) (em_exact e)
                                          else AList.update (sb_key sub) rest (em_exact e)\<rparr>))))"

definition exact_matches :: "string \<Rightarrow> 'l emitter \<Rightarrow> 'l subscription list" where
  "exact_matches name e = filter (sub_active e) (nullish (map_of (em_exact e) name) [])"

definition wildcard_matches :: "string \<Rightarrow> 'l emitter \<Rightarrow> 'l subscription list" where
  "wildcard_matches name e = filter (\<lambda>sub. sub_active e sub \<and> matches_pattern name (sb_key sub)) (em_wildcards e)"

definition emitter_resolve :: "string \<Rightarrow> 'l emitter \<Rightarrow> 'l subscription list" where
  "emitter_resolve name e = sort_key sb_order (exact_matches name e @ wildcard_matches name e)"

definition listener_count :: "string option \<Rightarrow> 'l emitter \<Rightarrow> nat" where
  "listener_count name e =
     (case name of
        Some n \<Rightarrow> length (exact_matches n e) + length (wildcard_matches n e)
      | None \<Rightarrow> length (filter (sub_active e) (concat (map snd (em_exact e)))) + length (filter (sub_active e) (em_wildcards e)))"

definition pattern_count :: "'l emitter \<Rightarrow> nat" where
  "pattern_count e = length (filter (sub_active e) (em_wildcards e))"

definition emitter_clear :: "'l emitter \<Rightarrow> 'l emitter" where
  "emitter_clear e =
     e\<lparr>em_inactive := map sb_order (concat (map snd (em_exact e)) @ em_wildcards e) @ em_inactive e,
       em_exact := [], em_wildcards := []\<rparr>"

section \<open>The contract\<close>

text \<open>
  One list of subscriptions.  \<open>known e\<close> are the subscriptions that were ever handed out; cancelling one that is not in the
  list any more changes nothing.
\<close>

locale subscription_registry =
  fixes empty :: 'e
    and add :: "string \<Rightarrow> 'l \<Rightarrow> bool \<Rightarrow> 'e \<Rightarrow> 'l subscription \<times> 'e"
    and remove :: "'l subscription \<Rightarrow> 'e \<Rightarrow> 'e"
    and resolve :: "string \<Rightarrow> 'e \<Rightarrow> 'l subscription list"
    and invar :: "'e \<Rightarrow> bool"
    and issued :: "'l subscription \<Rightarrow> 'e \<Rightarrow> bool"
    and subs :: "'e \<Rightarrow> 'l subscription list"
    and active :: "'e \<Rightarrow> 'l subscription \<Rightarrow> bool"
  assumes invar_empty: "invar empty" "subs empty = []"
    and invar_add: "invar e \<Longrightarrow> add k l once e = (s, e') \<Longrightarrow> invar e' \<and> issued s e' \<and> (\<forall>t. issued t e \<longrightarrow> issued t e')"
    and subs_add: "invar e \<Longrightarrow> add k l once e = (s, e') \<Longrightarrow> subs e' = subs e @ [s]"
    and fields_add: "add k l once e = (s, e') \<Longrightarrow> sb_key s = k \<and> sb_listener s = l \<and> sb_once s = once"
    and order_add: "invar e \<Longrightarrow> add k l once e = (s, e') \<Longrightarrow> issued t e \<Longrightarrow> sb_order t < sb_order s"
    and invar_remove: "invar e \<Longrightarrow> issued s e \<Longrightarrow> invar (remove s e) \<and> (issued t e \<longrightarrow> issued t (remove s e))"
    and subs_remove: "invar e \<Longrightarrow> issued s e \<Longrightarrow> subs (remove s e) = removeAll s (subs e)"
    and resolve_subs: "invar e \<Longrightarrow> resolve name e = filter (\<lambda>s. matches_pattern name (sb_key s)) (subs e)"
    and issued_subs: "invar e \<Longrightarrow> s \<in> set (subs e) \<Longrightarrow> issued s e"
    and active_subs: "invar e \<Longrightarrow> issued s e \<Longrightarrow> active e s \<longleftrightarrow> s \<in> set (subs e)"
    and sorted_subs: "invar e \<Longrightarrow> sorted_wrt (<) (map sb_order (subs e))"
begin

lemma removed_not_resolved: "invar e \<Longrightarrow> issued s e \<Longrightarrow> s \<notin> set (resolve name (remove s e))"
  by (simp add: resolve_subs invar_remove subs_remove)

lemma added_resolved_last:
  assumes "invar e" "add k l once e = (s, e')"
  shows "resolve name e' = resolve name e @ (if matches_pattern name k then [s] else [])"
  using assms invar_add [OF assms] fields_add [OF assms(2)] by (simp add: resolve_subs subs_add)

lemma resolve_sorted: "invar e \<Longrightarrow> sorted_wrt (<) (map sb_order (resolve name e))"
  using sorted_subs [of e] by (simp add: resolve_subs sorted_wrt_map sorted_wrt_filter)

end

section \<open>The emitter implements it\<close>

definition em_all :: "'l emitter \<Rightarrow> 'l subscription list" where
  "em_all e = concat (map snd (em_exact e)) @ em_wildcards e"

definition em_subs :: "'l emitter \<Rightarrow> 'l subscription list" where
  "em_subs e = sort_key sb_order (em_all e)"

text \<open>Each subscription is in the index of its kind, active and older than the next one; no two have the same order.\<close>

definition emitter_indexed :: "string \<Rightarrow> 'l subscription list \<Rightarrow> bool" where
  "emitter_indexed k ss \<longleftrightarrow> ss \<noteq> [] \<and> (\<forall>s \<in> set ss. sb_key s = k \<and> \<not> sb_wildcard s)"

definition em_ok :: "'l emitter \<Rightarrow> bool" where
  "em_ok e \<longleftrightarrow>
     keys_distinct (em_exact e) \<and>
     (\<forall>(k, ss) \<in> set (em_exact e). emitter_indexed k ss) \<and>
     (\<forall>s \<in> set (em_wildcards e). sb_wildcard s) \<and>
     (\<forall>s \<in> set (em_all e). sb_wildcard s = is_wildcard (sb_key s) \<and> sb_order s < em_nextOrder e \<and> sub_active e s) \<and>
     (\<forall>i \<in> set (em_inactive e). i < em_nextOrder e) \<and>
     distinct (map sb_order (em_all e))"

definition em_issued :: "'l subscription \<Rightarrow> 'l emitter \<Rightarrow> bool" where
  "em_issued s e \<longleftrightarrow> sb_order s < em_nextOrder e \<and> (sub_active e s \<longrightarrow> s \<in> set (em_all e))"

lemma em_okD:
  assumes "em_ok e"
  shows "keys_distinct (em_exact e)"
    "map_of (em_exact e) k = Some ss \<Longrightarrow> emitter_indexed k ss"
    "s \<in> set (em_wildcards e) \<Longrightarrow> sb_wildcard s"
    "s \<in> set (em_all e) \<Longrightarrow> sb_wildcard s = is_wildcard (sb_key s)"
    "s \<in> set (em_all e) \<Longrightarrow> sb_order s < em_nextOrder e"
    "s \<in> set (em_all e) \<Longrightarrow> sub_active e s"
    "i \<in> set (em_inactive e) \<Longrightarrow> i < em_nextOrder e"
    "distinct (map sb_order (em_all e))"
  using assms unfolding em_ok_def by (blast dest: map_of_SomeD)+

text \<open>The contents of the exact index as a multiset.\<close>

lemma mset_em_all: "mset (em_all e) = bag (em_exact e) + mset (em_wildcards e)"
  by (simp add: em_all_def bag_def)

lemma set_em_all: "set (em_all e) = (\<Union>(k, ss) \<in> set (em_exact e). set ss) \<union> set (em_wildcards e)"
  by (auto simp: em_all_def)

lemma mset_add:
  assumes "emitter_add k l once e = (s, e')"
  shows "mset (em_all e') = add_mset s (mset (em_all e))"
  using assms bag_update_add [of "nullish (map_of (em_exact e) k) [] @ [s]" "em_exact e" k "{#s#}"]
  by (auto simp: emitter_add_def Let_def mset_em_all split: if_splits)

lemma sort_key_unique:
  assumes "mset ys = mset xs" "sorted_wrt (<) (map f ys)"
  shows "sort_key f xs = ys"
proof -
  have sorted: "sorted (map f ys)" "distinct (map f ys)"
    using assms(2) strict_sorted_iff by blast+
  have set: "set ys = set xs" using mset_eq_setD [OF assms(1)] .
  have "mset (map f xs) = mset (map f ys)" using assms(1) by (metis mset_map)
  then have "distinct (map f (sort_key f xs))" using sorted(2) mset_eq_imp_distinct_iff
    by (metis mset_map mset_sort)
  then have "map f (sort_key f xs) = map f ys" using sorted set by (intro sorted_distinct_set_unique) simp_all
  moreover have "inj_on f (set ys)" using sorted(2) by (simp add: distinct_map)
  ultimately show ?thesis using set by (intro inj_on_map_eq_map [THEN iffD1, of f]) simp_all
qed

lemma em_subs_sorted: "em_ok e \<Longrightarrow> sorted_wrt (<) (map sb_order (em_subs e))"
proof -
  assume "em_ok e"
  then have "distinct (map sb_order (em_all e))" by (rule em_okD)
  then have "distinct (map sb_order (em_subs e))"
    unfolding em_subs_def by (metis mset_map mset_sort mset_eq_imp_distinct_iff)
  then show ?thesis unfolding em_subs_def by (simp add: strict_sorted_iff)
qed

lemma set_em_subs [simp]: "set (em_subs e) = set (em_all e)"
  by (simp add: em_subs_def)

lemma em_subs_unique: "mset ys = mset (em_all e) \<Longrightarrow> sorted_wrt (<) (map sb_order ys) \<Longrightarrow> em_subs e = ys"
  unfolding em_subs_def by (rule sort_key_unique)

lemma emitter_add_fields:
  assumes "emitter_add k l once e = (s, e')"
  shows "s = \<lparr>sb_order = em_nextOrder e, sb_key = k, sb_wildcard = is_wildcard k, sb_listener = l, sb_once = once\<rparr>"
    "em_nextOrder e' = Suc (em_nextOrder e)" "em_inactive e' = em_inactive e"
  using assms by (auto simp: emitter_add_def Let_def split: if_splits)

lemma emitter_add_ok:
  assumes ok: "em_ok e" and add: "emitter_add k l once e = (s, e')"
  shows "em_ok e'"
proof -
  note s = emitter_add_fields [OF add]
  have m: "mset (em_all e') = add_mset s (mset (em_all e))" by (rule mset_add [OF add])
  have set: "set (em_all e') = insert s (set (em_all e))" using m by (metis set_mset_add_mset_insert set_mset_mset)
  have act: "sub_active e' t = sub_active e t" for t by (simp add: sub_active_def s(3))
  have old: "t \<in> set (em_all e) \<Longrightarrow> sb_wildcard t = is_wildcard (sb_key t) \<and> sb_order t < em_nextOrder e \<and> sub_active e t" for t
    using em_okD [OF ok] by blast
  have low: "i < em_nextOrder e" if "i \<in> set (em_inactive e)" for i using em_okD(7) [OF ok that] .
  have "keys_distinct (em_exact e')" "\<forall>t \<in> set (em_wildcards e'). sb_wildcard t"
    using add em_okD(1,3) [OF ok] by (auto simp: emitter_add_def Let_def split: if_splits)
  moreover have "\<forall>(j, ss) \<in> set (em_exact e'). emitter_indexed j ss"
  proof (clarify, rename_tac j ss)
    fix j ss assume "(j, ss) \<in> set (em_exact e')"
    then have "map_of (em_exact e') j = Some ss" using \<open>keys_distinct (em_exact e')\<close> by (simp add: keys_distinct_in)
    moreover have "emitter_indexed k (nullish (map_of (em_exact e) k) [] @ [s])" if "\<not> is_wildcard k"
      using em_okD(2) [OF ok, of k] that by (cases "map_of (em_exact e) k") (auto simp: emitter_indexed_def s(1))
    ultimately show "emitter_indexed j ss"
      using add em_okD(2) [OF ok, of j] by (auto simp: emitter_add_def Let_def split: if_splits)
  qed
  moreover have "\<forall>t \<in> set (em_all e'). sb_wildcard t = is_wildcard (sb_key t) \<and> sb_order t < em_nextOrder e' \<and> sub_active e' t"
    using old low unfolding set act s(2) by (fastforce simp: s(1) sub_active_def)
  moreover have "\<forall>i \<in> set (em_inactive e'). i < em_nextOrder e'" using low by (fastforce simp: s)
  moreover have "distinct (map sb_order (em_all e'))"
  proof -
    have "mset (map sb_order (em_all e')) = mset (sb_order s # map sb_order (em_all e))" using m by (metis list.simps(9) mset.simps(2) mset_map)
    moreover have "distinct (sb_order s # map sb_order (em_all e))" using old em_okD(8) [OF ok] by (force simp: s(1))
    ultimately show ?thesis using mset_eq_imp_distinct_iff by blast
  qed
  ultimately show ?thesis unfolding em_ok_def by blast
qed

lemma emitter_add_subs:
  assumes ok: "em_ok e" and add: "emitter_add k l once e = (s, e')"
  shows "em_subs e' = em_subs e @ [s]"
proof (rule em_subs_unique)
  show "mset (em_subs e @ [s]) = mset (em_all e')" using mset_add [OF add] by (simp add: em_subs_def)
  show "sorted_wrt (<) (map sb_order (em_subs e @ [s]))"
    using em_subs_sorted [OF ok] em_okD(5) [OF ok] by (simp add: sorted_wrt_append emitter_add_fields(1) [OF add])
qed

lemma emitter_add_issued:
  assumes ok: "em_ok e" and add: "emitter_add k l once e = (s, e')"
  shows "em_issued s e'" "em_issued t e \<Longrightarrow> em_issued t e'"
proof -
  have "set (em_all e') = insert s (set (em_all e))"
    using mset_add [OF add] by (metis set_mset_add_mset_insert set_mset_mset)
  then show "em_issued s e'" "em_issued t e \<Longrightarrow> em_issued t e'"
    using emitter_add_fields [OF add] by (auto simp: em_issued_def sub_active_def)
qed


text \<open>Removal.\<close>

lemma bag_mset: "bag m = (\<Sum>\<^sub># (image_mset (mset \<circ> snd) (mset m)))"
  by (induction m) simp_all

lemma set_remove_mset:
  "distinct (map sb_order ss) \<Longrightarrow> s \<in> set ss \<Longrightarrow> mset ss = add_mset s (mset (set_remove s ss))"
proof (induction ss)
  case (Cons t ss)
  show ?case
  proof (cases "t = s")
    case True
    then have "filter (\<lambda>u. sb_order u \<noteq> sb_order s) ss = ss" using Cons.prems(1) by (intro filter_True) (metis distinct.simps(2) image_eqI list.simps(9) list.set_map)
    then show ?thesis using True by (simp add: set_remove_def)
  next
    case False
    then have "sb_order t \<noteq> sb_order s" using Cons.prems by auto
    with Cons False show ?thesis by (simp add: set_remove_def)
  qed
qed simp

lemma distinct_exact:
  assumes "em_ok e" "map_of (em_exact e) k = Some ss"
  shows "distinct (map sb_order ss)"
proof -
  obtain a b where "em_exact e = a @ (k, ss) # b" using split_list [OF map_of_SomeD [OF assms(2)]] by blast
  with em_okD(8) [OF assms(1)] show ?thesis by (simp add: em_all_def)
qed

text \<open>A subscription that is issued and active is in its index.\<close>

lemma issued_in_index:
  assumes "em_ok e" "em_issued s e" "sub_active e s"
  shows "if sb_wildcard s then s \<in> set (em_wildcards e) else (\<exists>ss. map_of (em_exact e) (sb_key s) = Some ss \<and> s \<in> set ss)"
proof -
  have "s \<in> set (em_all e)" using assms(2,3) by (simp add: em_issued_def)
  then consider "s \<in> set (em_wildcards e)" | k ss where "(k, ss) \<in> set (em_exact e)" "s \<in> set ss" by (auto simp: set_em_all)
  then show ?thesis
  proof cases
    case 1
    then show ?thesis using em_okD(3) [OF assms(1)] by simp
  next
    case 2
    then have "map_of (em_exact e) k = Some ss" using em_okD(1) [OF assms(1)] by (simp add: keys_distinct_in)
    with 2(2) em_okD(2) [OF assms(1) this] show ?thesis by (auto simp: emitter_indexed_def)
  qed
qed

lemma mset_remove:
  assumes ok: "em_ok e" and s: "em_issued s e" "sub_active e s"
  shows "mset (em_all e) = add_mset s (mset (em_all (emitter_remove s e)))"
proof (cases "sb_wildcard s")
  case True
  then have "s \<in> set (em_wildcards e)" using issued_in_index [OF assms] by simp
  moreover have "distinct (map sb_order (em_wildcards e))" using em_okD(8) [OF ok] by (simp add: em_all_def)
  ultimately show ?thesis using True s(2) set_remove_mset [of "em_wildcards e" s]
    by (simp add: emitter_remove_def Let_def mset_em_all)
next
  case False
  then obtain ss where ss: "map_of (em_exact e) (sb_key s) = Some ss" "s \<in> set ss" using issued_in_index [OF assms] by auto
  have m: "mset ss = add_mset s (mset (set_remove s ss))" by (rule set_remove_mset [OF distinct_exact [OF ok ss(1)] ss(2)])
  have "bag (em_exact e) = bag (em_exact (emitter_remove s e)) + {#s#}"
  proof (cases "set_remove s ss = []")
    case True
    then show ?thesis using False s(2) ss(1) m mset_delete_split [OF em_okD(1) [OF ok] ss(1)]
      by (simp add: emitter_remove_def Let_def bag_mset)
  next
    case ne: False
    then show ?thesis using False s(2) ss(1) bag_update_sub [of "em_exact e" "sb_key s" "set_remove s ss" "{#s#}"] m
      by (simp add: emitter_remove_def Let_def)
  qed
  then show ?thesis using False s(2) ss(1) by (simp add: mset_em_all emitter_remove_def Let_def)
qed

lemma remove_inactive: "\<not> sub_active e s \<Longrightarrow> emitter_remove s e = e"
  by (simp add: emitter_remove_def)

lemma emitter_remove_fields:
  assumes "sub_active e s"
  shows "em_nextOrder (emitter_remove s e) = em_nextOrder e" "em_inactive (emitter_remove s e) = sb_order s # em_inactive e"
  using assms by (auto simp: emitter_remove_def Let_def split: option.split)


lemma set_remove_all:
  assumes "em_ok e" "em_issued s e" "sub_active e s"
  shows "set (em_all (emitter_remove s e)) = set (em_all e) - {s}" "s \<in> set (em_all e)"
    "t \<in> set (em_all (emitter_remove s e)) \<Longrightarrow> sb_order t \<noteq> sb_order s"
    "distinct (map sb_order (em_all (emitter_remove s e)))"
proof -
  have m: "mset (em_all e) = add_mset s (mset (em_all (emitter_remove s e)))" by (rule mset_remove [OF assms])
  then have "mset (map sb_order (em_all e)) = mset (sb_order s # map sb_order (em_all (emitter_remove s e)))" by simp
  then have d: "distinct (sb_order s # map sb_order (em_all (emitter_remove s e)))"
    using em_okD(8) [OF assms(1)] mset_eq_imp_distinct_iff by blast
  then show "distinct (map sb_order (em_all (emitter_remove s e)))"
    "t \<in> set (em_all (emitter_remove s e)) \<Longrightarrow> sb_order t \<noteq> sb_order s"
    unfolding distinct.simps set_map by (blast, metis image_eqI)
  have eq: "set (em_all e) = insert s (set (em_all (emitter_remove s e)))"
    using m by (metis set_mset_add_mset_insert set_mset_mset)
  moreover have "s \<notin> set (em_all (emitter_remove s e))" using d by force
  ultimately show "set (em_all (emitter_remove s e)) = set (em_all e) - {s}" "s \<in> set (em_all e)" by blast+
qed

lemma exact_remove:
  assumes ok: "em_ok e"
  shows "keys_distinct (em_exact (emitter_remove s e))"
    "map_of (em_exact (emitter_remove s e)) k = Some ss \<Longrightarrow> emitter_indexed k ss"
  using em_okD(1) [OF ok] em_okD(2) [OF ok, of k] em_okD(2) [OF ok, of "sb_key s"]
  by (auto simp: emitter_remove_def Let_def emitter_indexed_def set_remove_def split: option.splits if_splits)

lemma emitter_remove_ok:
  assumes ok: "em_ok e" and s: "em_issued s e"
  shows "em_ok (emitter_remove s e)"
proof (cases "sub_active e s")
  case True
  note set = set_remove_all [OF ok s True] and f = emitter_remove_fields [OF True]
  have "\<forall>t \<in> set (em_all (emitter_remove s e)).
      sb_wildcard t = is_wildcard (sb_key t) \<and> sb_order t < em_nextOrder (emitter_remove s e) \<and> sub_active (emitter_remove s e) t"
  proof
    fix t assume t: "t \<in> set (em_all (emitter_remove s e))"
    then have "t \<in> set (em_all e)" "sb_order t \<noteq> sb_order s" using set by blast+
    with em_okD(4-6) [OF ok, of t]
    show "sb_wildcard t = is_wildcard (sb_key t) \<and> sb_order t < em_nextOrder (emitter_remove s e) \<and> sub_active (emitter_remove s e) t"
      by (simp add: f sub_active_def)
  qed
  moreover have "\<forall>(k, ss) \<in> set (em_exact (emitter_remove s e)). emitter_indexed k ss"
    using exact_remove [OF ok, of s] by (auto simp: keys_distinct_in)
  moreover have "\<forall>t \<in> set (em_wildcards (emitter_remove s e)). sb_wildcard t"
    using em_okD(3) [OF ok] by (auto simp: emitter_remove_def Let_def set_remove_def split: option.splits)
  moreover have "\<forall>i \<in> set (em_inactive (emitter_remove s e)). i < em_nextOrder (emitter_remove s e)"
    using em_okD(7) [OF ok] s by (auto simp: f em_issued_def)
  ultimately show ?thesis using exact_remove(1) [OF ok] set(4) unfolding em_ok_def by blast
qed (simp add: remove_inactive ok)

lemma emitter_remove_issued:
  assumes "em_ok e" "em_issued s e" "em_issued t e"
  shows "em_issued t (emitter_remove s e)"
proof (cases "sub_active e s")
  case True
  then show ?thesis using assms set_remove_all [OF assms(1,2) True]
    by (auto simp: em_issued_def sub_active_def emitter_remove_fields [OF True])
qed (simp add: remove_inactive assms)

lemma emitter_remove_subs:
  assumes ok: "em_ok e" and s: "em_issued s e"
  shows "em_subs (emitter_remove s e) = removeAll s (em_subs e)"
proof (cases "sub_active e s")
  case True
  have d: "distinct (em_all e)" using em_okD(8) [OF ok] by (simp add: distinct_map)
  show ?thesis
  proof (rule em_subs_unique)
    show "mset (removeAll s (em_subs e)) = mset (em_all (emitter_remove s e))"
    proof -
      have "distinct (em_subs e)" using d by (simp add: em_subs_def)
      then have "mset (removeAll s (em_subs e)) = mset (em_subs e) - {#s#}"
        by (simp add: distinct_remove1_removeAll [symmetric])
      then show ?thesis using mset_remove [OF ok s True] by (simp add: em_subs_def)
    qed
    show "sorted_wrt (<) (map sb_order (removeAll s (em_subs e)))"
      using em_subs_sorted [OF ok] by (simp add: sorted_wrt_map removeAll_filter_not_eq sorted_wrt_filter)
  qed
next
  case False
  then have "s \<notin> set (em_all e)" using em_okD(6) [OF ok] by blast
  with False show ?thesis by (simp add: remove_inactive)
qed

text \<open>Resolution: both indices together hold what matches, an exact subscription exactly under its own name.\<close>

lemma matches_exact: "\<not> is_wildcard k \<Longrightarrow> matches_pattern name k \<longleftrightarrow> name = k"
  by (simp add: matches_pattern_def)

lemma exact_resolved:
  assumes ok: "em_ok e"
  shows "mset (nullish (map_of (em_exact e) name) []) = filter_mset (\<lambda>s. matches_pattern name (sb_key s)) (bag (em_exact e))"
proof -
  have "keys_distinct m \<Longrightarrow> \<forall>(k, ss) \<in> set m. emitter_indexed k ss \<and> \<not> is_wildcard k \<Longrightarrow>
      mset (nullish (map_of m name) []) = filter_mset (\<lambda>s. matches_pattern name (sb_key s)) (bag m)" for m :: "(string, 'a subscription list) jsmap"
  proof (induction m)
    case (Cons p m)
    obtain k ss where p: "p = (k, ss)" by (cases p)
    have all: "\<forall>s \<in> set ss. sb_key s = k" "\<not> is_wildcard k" using Cons.prems(2) by (auto simp: p emitter_indexed_def)
    have here: "mset (filter (\<lambda>s. matches_pattern name (sb_key s)) ss) = (if name = k then mset ss else {#})"
      using all by (cases "name = k") (simp_all add: matches_exact filter_id_conv filter_empty_conv flip: mset_filter)
    have d: "keys_distinct m" "map_of m k = None" using Cons.prems(1) by (simp_all add: p keys_distinct_Cons)
    have IH: "mset (nullish (map_of m name) []) = filter_mset (\<lambda>s. matches_pattern name (sb_key s)) (bag m)"
      using Cons.IH [OF d(1)] Cons.prems(2) by simp
    show ?case
    proof (cases "name = k")
      case True
      then show ?thesis using here IH d(2) by (simp add: p)
    next
      case False
      then show ?thesis using here IH by (simp add: p)
    qed
  qed simp
  moreover have "\<not> is_wildcard k" if "(k, ss) \<in> set (em_exact e)" for k ss
  proof -
    have "emitter_indexed k ss" using that ok by (auto simp: em_ok_def)
    then obtain s where "s \<in> set ss" "sb_key s = k" "\<not> sb_wildcard s" unfolding emitter_indexed_def by (cases ss) auto
    with that em_okD(4) [OF ok, of s] show ?thesis by (force simp: set_em_all)
  qed
  ultimately show ?thesis using ok by (fastforce simp: em_ok_def)
qed

lemma emitter_resolve_subs:
  assumes ok: "em_ok e"
  shows "emitter_resolve name e = filter (\<lambda>s. matches_pattern name (sb_key s)) (em_subs e)"
  unfolding emitter_resolve_def
proof (rule sort_key_unique)
  have act: "exact_matches name e = nullish (map_of (em_exact e) name) []"
    "wildcard_matches name e = filter (\<lambda>s. matches_pattern name (sb_key s)) (em_wildcards e)"
  proof -
    have "sub_active e s" if "map_of (em_exact e) name = Some ss" "s \<in> set ss" for s ss
      using em_okD(6) [OF ok] map_of_SomeD [OF that(1)] that(2) by (force simp: set_em_all)
    then show "exact_matches name e = nullish (map_of (em_exact e) name) []"
      by (cases "map_of (em_exact e) name") (auto simp: exact_matches_def filter_id_conv)
    show "wildcard_matches name e = filter (\<lambda>s. matches_pattern name (sb_key s)) (em_wildcards e)"
      unfolding wildcard_matches_def by (rule filter_cong) (auto intro: em_okD(6) [OF ok] simp: set_em_all)
  qed
  show "mset (filter (\<lambda>s. matches_pattern name (sb_key s)) (em_subs e)) = mset (exact_matches name e @ wildcard_matches name e)"
    unfolding act mset_append exact_resolved [OF ok] by (simp add: em_subs_def mset_em_all)
  show "sorted_wrt (<) (map sb_order (filter (\<lambda>s. matches_pattern name (sb_key s)) (em_subs e)))"
    using em_subs_sorted [OF ok] by (simp add: sorted_wrt_map sorted_wrt_filter)
qed

interpretation em: subscription_registry new_emitter emitter_add emitter_remove emitter_resolve em_ok em_issued em_subs sub_active
proof (unfold_locales, goal_cases)
  case 1
  show ?case by (simp add: em_ok_def new_emitter_def em_all_def)
next
  case 2
  show ?case by (simp add: new_emitter_def em_subs_def em_all_def)
next
  case (3 e k l once s e')
  then show ?case using emitter_add_ok [OF 3] emitter_add_issued [OF 3] by simp
next
  case (4 e k l once s e')
  then show ?case by (rule emitter_add_subs)
next
  case (5 k l once e s e')
  then show ?case using emitter_add_fields(1) by fastforce
next
  case (6 e k l once s e' t)
  then show ?case by (simp add: emitter_add_fields(1) [OF 6(2)] em_issued_def)
next
  case (7 e s t)
  then show ?case using emitter_remove_ok emitter_remove_issued by blast
next
  case (8 e s)
  then show ?case by (rule emitter_remove_subs)
next
  case (9 e name)
  then show ?case by (rule emitter_resolve_subs)
next
  case (10 e s)
  then show ?case using em_okD(5) by (auto simp: em_issued_def)
next
  case (11 e s)
  then show ?case using em_okD(6) [OF 11(1)] by (auto simp: em_issued_def)
next
  case (12 e)
  then show ?case by (rule em_subs_sorted)
qed

text \<open>The counts, and \<open>clear\<close>.\<close>

lemma listener_count_subs:
  assumes ok: "em_ok e"
  shows "listener_count (Some name) e = length (emitter_resolve name e)" "listener_count None e = length (em_subs e)"
proof -
  show "listener_count (Some name) e = length (emitter_resolve name e)" by (simp add: listener_count_def emitter_resolve_def)
  have "filter (sub_active e) (concat (map snd (em_exact e))) = concat (map snd (em_exact e))" "filter (sub_active e) (em_wildcards e) = em_wildcards e"
    using em_okD(6) [OF ok] by (auto simp: filter_id_conv em_all_def)
  then show "listener_count None e = length (em_subs e)" by (simp add: listener_count_def em_subs_def em_all_def)
qed

lemma emitter_clear_ok:
  assumes ok: "em_ok e"
  shows "em_ok (emitter_clear e)" "em_subs (emitter_clear e) = []" "em_issued t e \<Longrightarrow> em_issued t (emitter_clear e)"
proof -
  have "sb_order s < em_nextOrder e" if "s \<in> set (concat (map snd (em_exact e)) @ em_wildcards e)" for s
    using em_okD(5) [OF ok, of s] that by (simp add: em_all_def)
  then show "em_ok (emitter_clear e)" using em_okD(7) [OF ok] by (auto simp: em_ok_def emitter_clear_def em_all_def)
  show "em_subs (emitter_clear e) = []" by (simp add: emitter_clear_def em_subs_def em_all_def)
  show "em_issued t e \<Longrightarrow> em_issued t (emitter_clear e)"
    by (auto simp: em_issued_def emitter_clear_def em_all_def sub_active_def)
qed

end
