(* ===== verification/EventFacade.thy ===== *)
theory EventFacade
  imports EventEmitter QueueMiddleware "HOL-Library.Sublist"
begin

text \<open>
  The event facade of \<open>packages/events/src\<close>: \<open>buildEnvelope\<close> (event.ts), \<open>composePipeline\<close> (middleware.ts), the in-process store
  (store/memory.ts) and \<open>EventsFacade\<close> (facade.ts).

  Middleware, listeners and stores are asynchronous and may subscribe, cancel and publish while they run, so dispatches
  overlap: \<open>facade_step\<close> is what the facade does between two awaits, and a listener's own calls are events of their own.
  A dispatch is a \<open>dispatch_run\<close>; \<open>rn_snapshot\<close> (what \<open>resolve\<close> returned) and \<open>rn_called\<close> (the listeners called) are history variables,
  as is \<open>fc_handles\<close>, the subscriptions whose unsubscribe function was handed out.  \<open>deliver\<close> runs at most once per dispatch, which is what \<open>event_pipeline\<close>
  guarantees (\<open>event_pipeline_trace\<close>).  Payloads are of type \<open>'p\<close>, metadata values of type \<open>'v\<close>; the random part of an id is an argument.
\<close>

section \<open>Envelopes, contexts, the pipeline\<close>

record ('p, 'v) event_envelope =
  en_id :: string
  en_name :: string
  en_payload :: 'p
  en_timestamp :: jsnum
  en_seq :: nat
  en_metadata :: "(string, 'v) jsmap"

record 'v event_ctx =
  ec_event :: string
  ec_id :: string
  ec_timestamp :: jsnum
  ec_metadata :: "(string, 'v) jsmap"
  ec_tenantId :: "'v option"

record 'v publish_options =
  po_metadata :: "(string, 'v) jsmap"
  po_tenantId :: "'v option"

definition build_event_envelope :: "string \<Rightarrow> string \<Rightarrow> 'p \<Rightarrow> jsnum \<Rightarrow> nat \<Rightarrow> (string, 'v) jsmap \<Rightarrow> ('p, 'v) event_envelope" where
  "build_event_envelope eid name p timestamp seq metadata =
     \<lparr>en_id = eid, en_name = name, en_payload = p, en_timestamp = timestamp, en_seq = seq, en_metadata = metadata\<rparr>"

definition context_for :: "('p, 'v) event_envelope \<Rightarrow> 'v option \<Rightarrow> 'v event_ctx" where
  "context_for env tenantId =
     \<lparr>ec_event = en_name env, ec_id = en_id env, ec_timestamp = en_timestamp env, ec_metadata = en_metadata env,
      ec_tenantId = (case tenantId of None \<Rightarrow> map_of (en_metadata env) ''tenantId'' | Some t \<Rightarrow> Some t)\<rparr>"

definition event_next_twice :: js_error where
  "event_next_twice = JsError ''Error'' ''next() called multiple times in an event middleware.''"

text \<open>The composer is that of the queue, with its own error.\<close>

definition event_pipeline :: "'c queue_mw list \<Rightarrow> ('c \<Rightarrow> outcome \<times> 'c) \<Rightarrow> 'c \<Rightarrow> outcome \<times> 'c chain_state" where
  "event_pipeline chain deliver ctx = invoke event_next_twice deliver chain 0 \<lparr>cs_ctx = ctx, cs_lastIndex = - 1, cs_trace = []\<rparr>"

lemma event_pipeline_trace:
  "\<exists>k \<le> Suc (length chain). cs_trace (snd (event_pipeline chain h ctx)) = [0..<k]"
proof -
  have "ran 0 \<lparr>cs_ctx = ctx, cs_lastIndex = - 1, cs_trace = []\<rparr>" by (simp add: ran_def)
  from invoke_ran [OF this, of 0 chain event_next_twice h] show ?thesis
    unfolding event_pipeline_def ran_def by auto
qed

section \<open>The in-process store\<close>

text \<open>\<open>ms_max\<close>: 0 is unbounded.\<close>

record ('p, 'v) event_memory =
  ms_events :: "('p, 'v) event_envelope list"
  ms_max :: nat

record replay_filter =
  rf_name :: "string option"
  rf_pattern :: "string option"
  rf_since :: "jsnum option"
  rf_until :: "jsnum option"
  rf_fromSeq :: "nat option"
  rf_limit :: "int option"

definition new_event_memory :: "int option \<Rightarrow> ('p, 'v) event_memory" where
  "new_event_memory maxEvents = \<lparr>ms_events = [], ms_max = (case maxEvents of None \<Rightarrow> 0 | Some m \<Rightarrow> if 0 < m then nat m else 0)\<rparr>"

definition memory_append :: "('p, 'v) event_envelope \<Rightarrow> ('p, 'v) event_memory \<Rightarrow> ('p, 'v) event_memory" where
  "memory_append env st =
     (let events = ms_events st @ [env]
      in st\<lparr>ms_events := if 0 < ms_max st \<and> ms_max st < length events then drop (length events - ms_max st) events else events\<rparr>)"

definition filter_admits :: "replay_filter \<Rightarrow> ('p, 'v) event_envelope \<Rightarrow> bool" where
  "filter_admits f e \<longleftrightarrow>
     (\<forall>n \<in> set_option (rf_name f). en_name e = n) \<and> (\<forall>p \<in> set_option (rf_pattern f). matches_pattern (en_name e) p) \<and>
     (\<forall>t \<in> set_option (rf_since f). t \<le> en_timestamp e) \<and> (\<forall>t \<in> set_option (rf_until f). en_timestamp e \<le> t) \<and>
     (\<forall>n \<in> set_option (rf_fromSeq f). n \<le> en_seq e)"

definition memory_select :: "replay_filter option \<Rightarrow> ('p, 'v) event_memory \<Rightarrow> ('p, 'v) event_envelope list" where
  "memory_select f st = (case f of None \<Rightarrow> ms_events st | Some f \<Rightarrow> filter (filter_admits f) (ms_events st))"

definition memory_read :: "replay_filter option \<Rightarrow> ('p, 'v) event_memory \<Rightarrow> ('p, 'v) event_envelope list" where
  "memory_read f st =
     (let selected = sort_key en_seq (memory_select f st)
      in case f of
           Some f' \<Rightarrow> (case rf_limit f' of Some l \<Rightarrow> if 0 \<le> l then take (nat l) selected else selected | None \<Rightarrow> selected)
         | None \<Rightarrow> selected)"

definition memory_count :: "replay_filter option \<Rightarrow> ('p, 'v) event_memory \<Rightarrow> nat" where
  "memory_count f st = length (memory_select f st)"

definition memory_clear :: "('p, 'v) event_memory \<Rightarrow> ('p, 'v) event_memory" where
  "memory_clear st = st\<lparr>ms_events := []\<rparr>"

text \<open>The ring keeps the last \<open>maxEvents\<close> of what was appended.\<close>

definition last_events :: "nat \<Rightarrow> 'a list \<Rightarrow> 'a list" where
  "last_events n xs = (if n = 0 then xs else drop (length xs - n) xs)"

lemma memory_append_ring:
  "ms_events st = last_events (ms_max st) xs \<Longrightarrow>
   ms_events (memory_append env st) = last_events (ms_max (memory_append env st)) (xs @ [env])"
  by (auto simp: memory_append_def last_events_def Let_def Suc_diff_le)

lemma memory_append_max [simp]: "ms_max (memory_append env st) = ms_max st"
  by (simp add: memory_append_def Let_def)

lemma memory_fold_max [simp]: "ms_max (fold memory_append envs st) = ms_max st"
  by (induction envs arbitrary: st) simp_all

lemma memory_ring: "ms_events st = [] \<Longrightarrow> ms_events (fold memory_append envs st) = last_events (ms_max st) envs"
proof (induction envs rule: rev_induct)
  case Nil
  then show ?case by (simp add: last_events_def)
next
  case (snoc e envs)
  then have "ms_events (fold memory_append envs st) = last_events (ms_max (fold memory_append envs st)) envs" by simp
  from memory_append_ring [OF this, of e] show ?case by simp
qed

lemma memory_read_all: "sorted (map en_seq (ms_events st)) \<Longrightarrow> memory_read None st = ms_events st"
  by (simp add: memory_read_def memory_select_def sort_key_sorted)

section \<open>The facade\<close>

datatype 'l delivery = NotReached | Calling "'l subscription" "'l subscription list" | Delivered

text \<open>What became of the call \<open>store.append(envelope)\<close> of a dispatch, which is awaited before the delivery.\<close>

datatype ('p, 'v) append_progress =
  NoAppend | Appending "('p, 'v) event_envelope" | AppendResolved "('p, 'v) event_envelope" | AppendRejected "('p, 'v) event_envelope"

record ('l, 'p, 'v) dispatch_run =
  rn_ctx :: "'v event_ctx"
  rn_payload :: 'p
  rn_append :: "('p, 'v) append_progress"
  rn_delivery :: "'l delivery"
  rn_outcome :: "outcome option"
  rn_delivered :: nat
  rn_failed :: nat
  rn_snapshot :: "'l subscription list"
  rn_called :: "'l subscription list"

text \<open>
  \<open>fc_stored\<close>: the envelopes whose append has resolved, as they did.
  \<open>fc_queue\<close>: the fire-and-forget publishes chained on \<open>asyncTail\<close> that have not started; \<open>fc_current\<close> the run of the one that has.
\<close>

record ('l, 'p, 'v) facade =
  fc_persist :: bool
  fc_emitter :: "'l emitter"
  fc_handles :: "'l subscription list"
  fc_seq :: nat
  fc_published :: nat
  fc_delivered :: nat
  fc_failed :: nat
  fc_stored :: "('p, 'v) event_envelope list"
  fc_reported :: "(js_error \<times> 'v event_ctx) list"
  fc_runs :: "('l, 'p, 'v) dispatch_run list"
  fc_queue :: "(string \<times> 'p \<times> 'v publish_options) list"
  fc_current :: "nat option"
  fc_asyncPending :: nat
  fc_closed :: bool

definition new_facade :: "bool \<Rightarrow> bool option \<Rightarrow> ('l, 'p, 'v) facade" where
  "new_facade has_store persist =
     \<lparr>fc_persist = has_store \<and> nullish persist has_store, fc_emitter = new_emitter, fc_handles = [], fc_seq = 0, fc_published = 0,
      fc_delivered = 0, fc_failed = 0, fc_stored = [], fc_reported = [], fc_runs = [], fc_queue = [], fc_current = None,
      fc_asyncPending = 0, fc_closed = False\<rparr>"

definition rn_storing :: "('l, 'p, 'v) dispatch_run \<Rightarrow> bool" where
  "rn_storing r \<longleftrightarrow> (case rn_append r of Appending _ \<Rightarrow> True | _ \<Rightarrow> False)"

definition new_run :: "'v event_ctx \<Rightarrow> 'p \<Rightarrow> ('p, 'v) append_progress \<Rightarrow> ('l, 'p, 'v) dispatch_run" where
  "new_run ctx p append_progress =
     \<lparr>rn_ctx = ctx, rn_payload = p, rn_append = append_progress, rn_delivery = NotReached, rn_outcome = None, rn_delivered = 0, rn_failed = 0,
      rn_snapshot = [], rn_called = []\<rparr>"

definition subscribe :: "string \<Rightarrow> 'l \<Rightarrow> bool \<Rightarrow> ('l, 'p, 'v) facade \<Rightarrow> ('l, 'p, 'v) facade" where
  "subscribe key listener once f =
     (case emitter_add key listener once (fc_emitter f) of (sub, e) \<Rightarrow> f\<lparr>fc_emitter := e, fc_handles := fc_handles f @ [sub]\<rparr>)"

definition unsubscribe :: "nat \<Rightarrow> ('l, 'p, 'v) facade \<Rightarrow> ('l, 'p, 'v) facade" where
  "unsubscribe n f = (if n < length (fc_handles f) then f\<lparr>fc_emitter := emitter_remove (fc_handles f ! n) (fc_emitter f)\<rparr> else f)"

text \<open>\<open>dispatch\<close> up to its first await: the envelope, the counters, the call of the store.\<close>

definition event_envelope_of :: "string \<Rightarrow> 'p \<Rightarrow> 'v publish_options \<Rightarrow> jsnum \<Rightarrow> string \<Rightarrow> nat \<Rightarrow> ('p, 'v) event_envelope" where
  "event_envelope_of name p opts timestamp eid seq =
     (let metadata = (case po_tenantId opts of None \<Rightarrow> po_metadata opts | Some t \<Rightarrow> AList.update ''tenantId'' t (po_metadata opts))
      in build_event_envelope eid name p timestamp seq metadata)"

definition event_dispatch :: "string \<Rightarrow> 'p \<Rightarrow> 'v publish_options \<Rightarrow> jsnum \<Rightarrow> string \<Rightarrow> ('l, 'p, 'v) facade \<Rightarrow> ('l, 'p, 'v) facade" where
  "event_dispatch name p opts now eid f =
     (let envelope = event_envelope_of name p opts now eid (fc_seq f)
      in f\<lparr>fc_seq := fc_seq f + 1, fc_published := fc_published f + 1,
           fc_runs := fc_runs f @
             [new_run (context_for envelope (po_tenantId opts)) p (if fc_persist f then Appending envelope else NoAppend)]\<rparr>)"

text \<open>A replayed envelope is delivered, not counted and not stored.\<close>

definition redeliver :: "('p, 'v) event_envelope \<Rightarrow> ('l, 'p, 'v) facade \<Rightarrow> ('l, 'p, 'v) facade" where
  "redeliver env f = f\<lparr>fc_runs := fc_runs f @ [new_run (context_for env None) (en_payload env) NoAppend]\<rparr>"

text \<open>The append resolves, or rejects with \<open>failure\<close>: then the envelope is not in the store, and the error is only reported.\<close>

definition stored :: "nat \<Rightarrow> js_error option \<Rightarrow> ('l, 'p, 'v) facade \<Rightarrow> ('l, 'p, 'v) facade" where
  "stored i failure f =
     (let r = fc_runs f ! i in
      if i < length (fc_runs f)
      then (case rn_append r of
              Appending envelope \<Rightarrow>
                (case failure of
                   None \<Rightarrow> f\<lparr>fc_runs := (fc_runs f)[i := r\<lparr>rn_append := AppendResolved envelope\<rparr>], fc_stored := fc_stored f @ [envelope]\<rparr>
                 | Some err \<Rightarrow> f\<lparr>fc_runs := (fc_runs f)[i := r\<lparr>rn_append := AppendRejected envelope\<rparr>],
                                 fc_reported := fc_reported f @ [(err, rn_ctx r)]\<rparr>)
            | _ \<Rightarrow> f)
      else f)"

text \<open>The loop over the snapshot, up to the next call of a listener.\<close>

fun next_listener :: "'l subscription list \<Rightarrow> 'l emitter \<Rightarrow> ('l subscription \<times> 'l subscription list) option \<times> 'l emitter" where
  "next_listener [] e = (None, e)"
| "next_listener (sub # subs) e =
     (if \<not> sub_active e sub then next_listener subs e
      else (Some (sub, subs), if sb_once sub then emitter_remove sub e else e))"

definition deliver_on :: "nat \<Rightarrow> 'l subscription list \<Rightarrow> ('l, 'p, 'v) facade \<Rightarrow> ('l, 'p, 'v) facade" where
  "deliver_on i subs f =
     (let r = fc_runs f ! i in
      case next_listener subs (fc_emitter f) of
        (None, e) \<Rightarrow> f\<lparr>fc_emitter := e, fc_runs := (fc_runs f)[i := r\<lparr>rn_delivery := Delivered\<rparr>]\<rparr>
      | (Some (sub, rest), e) \<Rightarrow>
          f\<lparr>fc_emitter := e, fc_runs := (fc_runs f)[i := r\<lparr>rn_delivery := Calling sub rest, rn_called := rn_called r @ [sub]\<rparr>]\<rparr>)"

definition deliver :: "nat \<Rightarrow> ('l, 'p, 'v) facade \<Rightarrow> ('l, 'p, 'v) facade" where
  "deliver i f =
     (let r = fc_runs f ! i; subs = emitter_resolve (ec_event (rn_ctx r)) (fc_emitter f) in
      if i < length (fc_runs f) \<and> \<not> rn_storing r \<and> rn_delivery r = NotReached
      then deliver_on i subs (f\<lparr>fc_runs := (fc_runs f)[i := r\<lparr>rn_snapshot := subs\<rparr>]\<rparr>)
      else f)"

definition listener_settled :: "nat \<Rightarrow> outcome \<Rightarrow> ('l, 'p, 'v) facade \<Rightarrow> ('l, 'p, 'v) facade" where
  "listener_settled i result f =
     (let r = fc_runs f ! i in
      if i < length (fc_runs f)
      then (case rn_delivery r of
              Calling sub rest \<Rightarrow>
                (case result of
                   Inr _ \<Rightarrow>
                     deliver_on i rest
                       (f\<lparr>fc_delivered := fc_delivered f + 1, fc_runs := (fc_runs f)[i := r\<lparr>rn_delivered := rn_delivered r + 1\<rparr>]\<rparr>)
                 | Inl err \<Rightarrow>
                     deliver_on i rest
                       (f\<lparr>fc_failed := fc_failed f + 1, fc_reported := fc_reported f @ [(err, rn_ctx r)],
                          fc_runs := (fc_runs f)[i := r\<lparr>rn_failed := rn_failed r + 1\<rparr>]\<rparr>))
            | _ \<Rightarrow> f)
      else f)"

text \<open>The chain of middleware settles: \<open>publish\<close> resolves with the context or rejects.  It need not have waited for \<open>next()\<close>.\<close>

definition pipeline_settled :: "nat \<Rightarrow> outcome \<Rightarrow> ('l, 'p, 'v) facade \<Rightarrow> ('l, 'p, 'v) facade" where
  "pipeline_settled i result f =
     (let r = fc_runs f ! i in
      if i < length (fc_runs f) \<and> \<not> rn_storing r \<and> rn_outcome r = None
      then f\<lparr>fc_runs := (fc_runs f)[i := r\<lparr>rn_outcome := Some result\<rparr>]\<rparr> else f)"

text \<open>Middleware and listeners may change the metadata and the tenant of the context, which is shared by all of them.\<close>

definition enrich :: "nat \<Rightarrow> (string, 'v) jsmap \<Rightarrow> 'v option \<Rightarrow> ('l, 'p, 'v) facade \<Rightarrow> ('l, 'p, 'v) facade" where
  "enrich i metadata tenant f =
     (let r = fc_runs f ! i in
      if i < length (fc_runs f)
      then f\<lparr>fc_runs := (fc_runs f)[i := r\<lparr>rn_ctx := (rn_ctx r)\<lparr>ec_metadata := metadata, ec_tenantId := tenant\<rparr>\<rparr>]\<rparr> else f)"

definition publish_async :: "string \<Rightarrow> 'p \<Rightarrow> 'v publish_options \<Rightarrow> ('l, 'p, 'v) facade \<Rightarrow> ('l, 'p, 'v) facade" where
  "publish_async name p opts f = f\<lparr>fc_asyncPending := fc_asyncPending f + 1, fc_queue := fc_queue f @ [(name, p, opts)]\<rparr>"

definition async_start :: "jsnum \<Rightarrow> string \<Rightarrow> ('l, 'p, 'v) facade \<Rightarrow> ('l, 'p, 'v) facade" where
  "async_start now eid f =
     (case fc_queue f of
        (name, p, opts) # queue \<Rightarrow>
          if fc_current f = None
          then event_dispatch name p opts now eid (f\<lparr>fc_queue := queue, fc_current := Some (length (fc_runs f))\<rparr>) else f
      | [] \<Rightarrow> f)"

definition async_done :: "('l, 'p, 'v) facade \<Rightarrow> ('l, 'p, 'v) facade" where
  "async_done f =
     (case fc_current f of
        Some i \<Rightarrow> if rn_outcome (fc_runs f ! i) \<noteq> None then f\<lparr>fc_asyncPending := fc_asyncPending f - 1, fc_current := None\<rparr> else f
      | None \<Rightarrow> f)"

text \<open>\<open>close\<close> before and after its await; it waits for what is queued when it is called.\<close>

definition events_close_begin :: "('l, 'p, 'v) facade \<Rightarrow> ('l, 'p, 'v) facade" where
  "events_close_begin f = f\<lparr>fc_closed := True\<rparr>"

definition events_close_end :: "('l, 'p, 'v) facade \<Rightarrow> ('l, 'p, 'v) facade" where
  "events_close_end f = (if fc_closed f then f\<lparr>fc_emitter := emitter_clear (fc_emitter f)\<rparr> else f)"

datatype ('l, 'p, 'v) facade_event =
    Subscribe string 'l bool
  | Unsubscribe nat
  | Publish string 'p "'v publish_options" jsnum string
  | Redeliver "('p, 'v) event_envelope"
  | Stored nat "js_error option"
  | Deliver nat
  | ListenerSettled nat outcome
  | PipelineSettled nat outcome
  | Enrich nat "(string, 'v) jsmap" "'v option"
  | PublishAsync string 'p "'v publish_options"
  | AsyncStart jsnum string
  | AsyncDone
  | EventsCloseBegin
  | EventsCloseEnd

fun facade_step :: "('l, 'p, 'v) facade \<Rightarrow> ('l, 'p, 'v) facade_event \<Rightarrow> ('l, 'p, 'v) facade" where
  "facade_step f (Subscribe key listener once) = subscribe key listener once f"
| "facade_step f (Unsubscribe n) = unsubscribe n f"
| "facade_step f (Publish name p opts now eid) = event_dispatch name p opts now eid f"
| "facade_step f (Redeliver env) = redeliver env f"
| "facade_step f (Stored i failure) = stored i failure f"
| "facade_step f (Deliver i) = deliver i f"
| "facade_step f (ListenerSettled i result) = listener_settled i result f"
| "facade_step f (PipelineSettled i result) = pipeline_settled i result f"
| "facade_step f (Enrich i metadata tenant) = enrich i metadata tenant f"
| "facade_step f (PublishAsync name p opts) = publish_async name p opts f"
| "facade_step f (AsyncStart now eid) = async_start now eid f"
| "facade_step f AsyncDone = async_done f"
| "facade_step f EventsCloseBegin = events_close_begin f"
| "facade_step f EventsCloseEnd = events_close_end f"

section \<open>The invariant\<close>

text \<open>
  Of a dispatch: its snapshot matches its event, in order of registration; the listeners called are a part of the snapshot, in that order; whatever of the
  snapshot lies behind was called or is cancelled.
\<close>

lemma subseq_subset: "subseq xs ys \<Longrightarrow> set xs \<subseteq> set ys"
  by (auto elim: list_emb_set)

definition seen :: "'l emitter \<Rightarrow> 'l subscription list \<Rightarrow> 'l subscription list \<Rightarrow> bool" where
  "seen e called ss \<longleftrightarrow> subseq called ss \<and> (\<forall>s \<in> set ss. s \<in> set called \<or> \<not> sub_active e s)"

fun delivery_ok :: "'l emitter \<Rightarrow> 'l delivery \<Rightarrow> 'l subscription list \<Rightarrow> 'l subscription list \<Rightarrow> bool" where
  "delivery_ok e NotReached snapshot called \<longleftrightarrow> snapshot = [] \<and> called = []"
| "delivery_ok e (Calling sub rest) snapshot called \<longleftrightarrow>
     (\<exists>pre cs. snapshot = pre @ sub # rest \<and> called = cs @ [sub] \<and> seen e cs pre)"
| "delivery_ok e Delivered snapshot called \<longleftrightarrow> seen e called snapshot"

definition event_run_ok :: "'l emitter \<Rightarrow> ('l, 'p, 'v) dispatch_run \<Rightarrow> bool" where
  "event_run_ok e r \<longleftrightarrow>
     sorted_wrt (<) (map sb_order (rn_snapshot r)) \<and>
     (\<forall>s \<in> set (rn_snapshot r). matches_pattern (ec_event (rn_ctx r)) (sb_key s) \<and> em_issued s e) \<and>
     delivery_ok e (rn_delivery r) (rn_snapshot r) (rn_called r) \<and>
     rn_delivered r + rn_failed r + (case rn_delivery r of Calling _ _ \<Rightarrow> 1 | _ \<Rightarrow> 0) = length (rn_called r)"

definition all_calls :: "('l, 'p, 'v) facade \<Rightarrow> 'l subscription list" where
  "all_calls f = concat (map rn_called (fc_runs f))"

definition facade_ok :: "('l, 'p, 'v) facade \<Rightarrow> bool" where
  "facade_ok f \<longleftrightarrow>
     em_ok (fc_emitter f) \<and> (\<forall>s \<in> set (fc_handles f). em_issued s (fc_emitter f)) \<and>
     (\<forall>r \<in> set (fc_runs f). event_run_ok (fc_emitter f) r) \<and>
     (\<forall>s \<in> set (all_calls f). sb_once s \<longrightarrow> \<not> sub_active (fc_emitter f) s) \<and>
     (\<forall>s. sb_once s \<longrightarrow> count (mset (all_calls f)) s \<le> 1)"

lemma facade_okI:
  assumes "em_ok (fc_emitter f)" "\<forall>s \<in> set (fc_handles f). em_issued s (fc_emitter f)" "\<forall>r \<in> set (fc_runs f). event_run_ok (fc_emitter f) r"
    "mset (all_calls f) = mset A" "\<forall>s \<in> set A. sb_once s \<longrightarrow> \<not> sub_active (fc_emitter f) s"
    "\<forall>s. sb_once s \<longrightarrow> count (mset A) s \<le> 1"
  shows "facade_ok f"
  using assms mset_eq_setD [OF assms(4)] by (simp add: facade_ok_def)

text \<open>The emitter only grows: what is issued stays issued, what is cancelled stays cancelled.\<close>

definition grows :: "'l emitter \<Rightarrow> 'l emitter \<Rightarrow> bool" where
  "grows e e' \<longleftrightarrow> (\<forall>s. em_issued s e \<longrightarrow> em_issued s e') \<and> (\<forall>s. em_issued s e \<longrightarrow> \<not> sub_active e s \<longrightarrow> \<not> sub_active e' s)"

lemma grows_refl [simp]: "grows e e"
  by (simp add: grows_def)

lemma grows_add:
  assumes "em_ok e" "emitter_add k l once e = (s, e')"
  shows "grows e e'"
  using em.invar_add [OF assms] emitter_add_fields(3) [OF assms(2)] by (simp add: grows_def sub_active_def)

lemma grows_remove:
  assumes "em_ok e" "em_issued s e"
  shows "grows e (emitter_remove s e)"
proof -
  have "em_issued t (emitter_remove s e)" if "em_issued t e" for t using em.invar_remove [OF assms] that by blast
  moreover have "\<not> sub_active (emitter_remove s e) t" if "\<not> sub_active e t" for t
    using that by (cases "sub_active e s") (auto simp: emitter_remove_fields sub_active_def remove_inactive)
  ultimately show ?thesis by (simp add: grows_def)
qed

lemma grows_clear: "em_ok e \<Longrightarrow> grows e (emitter_clear e)"
  using emitter_clear_ok(3) by (auto simp: grows_def emitter_clear_def sub_active_def)

lemma seen_grows: "grows e e' \<Longrightarrow> \<forall>s \<in> set ss. em_issued s e \<Longrightarrow> seen e called ss \<Longrightarrow> seen e' called ss"
  by (auto simp: seen_def grows_def)

lemma event_run_ok_grows: "grows e e' \<Longrightarrow> event_run_ok e r \<Longrightarrow> event_run_ok e' r"
proof -
  assume g: "grows e e'" and ok: "event_run_ok e r"
  have iss: "\<forall>s \<in> set (rn_snapshot r). em_issued s e" using ok by (simp add: event_run_ok_def)
  have "delivery_ok e' (rn_delivery r) (rn_snapshot r) (rn_called r)"
    using ok iss seen_grows [OF g] by (cases "rn_delivery r") (fastforce simp: event_run_ok_def)+
  with ok g show ?thesis by (simp add: event_run_ok_def grows_def)
qed

text \<open>Steps that change no call.\<close>

lemma facade_ok_grows:
  assumes ok: "facade_ok f" and e: "grows (fc_emitter f) (fc_emitter f')" "em_ok (fc_emitter f')"
    and h: "\<forall>s \<in> set (fc_handles f'). em_issued s (fc_emitter f')" and runs: "fc_runs f' = fc_runs f"
  shows "facade_ok f'"
proof -
  have iss: "em_issued s (fc_emitter f)" if called: "s \<in> set (all_calls f)" for s
  proof -
    obtain r where r: "r \<in> set (fc_runs f)" "s \<in> set (rn_called r)" using called by (auto simp: all_calls_def)
    then have "event_run_ok (fc_emitter f) r" using ok by (simp add: facade_ok_def)
    then have "s \<in> set (rn_snapshot r)" using r(2) subseq_subset by (cases "rn_delivery r") (fastforce simp: event_run_ok_def seen_def)+
    with \<open>event_run_ok (fc_emitter f) r\<close> show ?thesis by (simp add: event_run_ok_def)
  qed
  have "all_calls f' = all_calls f" using runs by (simp add: all_calls_def)
  moreover have "\<forall>r \<in> set (fc_runs f). event_run_ok (fc_emitter f') r"
    using ok event_run_ok_grows [OF e(1)] unfolding facade_ok_def by blast
  ultimately show ?thesis using ok e h runs iss by (simp add: facade_ok_def grows_def)
qed

lemma calls_update:
  "i < length rs \<Longrightarrow> rn_called r' = rn_called (rs ! i) @ new \<Longrightarrow>
   mset (concat (map rn_called (rs[i := r']))) = mset (concat (map rn_called rs)) + mset new"
proof (induction rs arbitrary: i)
  case (Cons r rs)
  then show ?case by (cases i) simp_all
qed simp

text \<open>A step that changes one dispatch but calls nobody.\<close>

lemma facade_ok_run:
  assumes ok: "facade_ok f" and i: "i < length (fc_runs f)" and f': "fc_emitter f' = fc_emitter f" "fc_handles f' = fc_handles f"
    and runs: "fc_runs f' = (fc_runs f)[i := r']" and r': "rn_called r' = rn_called (fc_runs f ! i)" "event_run_ok (fc_emitter f) r'"
  shows "facade_ok f'"
proof -
  have m: "mset (all_calls f') = mset (all_calls f)" using calls_update [OF i, of r' "[]"] r'(1) by (simp add: all_calls_def runs)
  then have s: "set (all_calls f') = set (all_calls f)" by (rule mset_eq_setD)
  have "\<forall>r \<in> set (fc_runs f'). event_run_ok (fc_emitter f) r"
    using ok r'(2) set_update_subset_insert [of "fc_runs f" i r'] by (auto simp: facade_ok_def runs)
  then show ?thesis using ok m s by (simp add: facade_ok_def f')
qed

text \<open>The loop: what it skips is cancelled, what it calls is active, and not any more if it is a \<open>once\<close>.\<close>

lemma next_listener_ok:
  assumes "em_ok e" "\<forall>s \<in> set subs. em_issued s e" "next_listener subs e = (res, e')"
  shows "em_ok e' \<and> grows e e' \<and>
    (case res of
       None \<Rightarrow> e' = e \<and> (\<forall>s \<in> set subs. \<not> sub_active e s)
     | Some (sub, rest) \<Rightarrow> (\<exists>skipped. subs = skipped @ sub # rest \<and> (\<forall>s \<in> set skipped. \<not> sub_active e s)) \<and>
         sub_active e sub \<and> (sb_once sub \<longrightarrow> \<not> sub_active e' sub))"
  using assms(2,3)
proof (induction subs)
  case Nil
  then show ?case using assms(1) by simp
next
  case (Cons s subs)
  show ?case
  proof (cases "sub_active e s")
    case True
    have "sub_active (emitter_remove s e) s = False" using True by (simp add: sub_active_def emitter_remove_fields)
    then show ?thesis using True Cons.prems assms(1) em.invar_remove [of e s] grows_remove [of e s]
      by (auto intro: exI [of _ "[]"] split: if_splits)
  next
    case False
    then have "next_listener subs e = (res, e')" using Cons.prems(2) by simp
    with Cons.IH Cons.prems(1) have IH: "em_ok e' \<and> grows e e' \<and>
      (case res of
         None \<Rightarrow> e' = e \<and> (\<forall>s \<in> set subs. \<not> sub_active e s)
       | Some (sub, rest) \<Rightarrow> (\<exists>skipped. subs = skipped @ sub # rest \<and> (\<forall>s \<in> set skipped. \<not> sub_active e s)) \<and>
           sub_active e sub \<and> (sb_once sub \<longrightarrow> \<not> sub_active e' sub))" by simp
    show ?thesis
    proof (cases res)
      case None
      then have "e' = e" using IH by simp
      with None IH False show ?thesis by simp
    next
      case (Some p)
      obtain sub rest where p: "p = (sub, rest)" by (cases p)
      then obtain skipped where "subs = skipped @ sub # rest" "\<forall>s \<in> set skipped. \<not> sub_active e s" using IH Some by auto
      then have "s # subs = (s # skipped) @ sub # rest \<and> (\<forall>t \<in> set (s # skipped). \<not> sub_active e t)" using False by simp
      then show ?thesis using IH unfolding Some p option.case prod.case by blast
    qed
  qed
qed

text \<open>\<open>deliver_on\<close> from a dispatch all of whose earlier snapshot \<open>pre\<close> has been seen to.\<close>

definition between_calls :: "'l emitter \<Rightarrow> 'l subscription list \<Rightarrow> ('l, 'p, 'v) dispatch_run \<Rightarrow> bool" where
  "between_calls e subs r \<longleftrightarrow>
     sorted_wrt (<) (map sb_order (rn_snapshot r)) \<and>
     (\<forall>s \<in> set (rn_snapshot r). matches_pattern (ec_event (rn_ctx r)) (sb_key s) \<and> em_issued s e) \<and>
     (\<exists>pre. rn_snapshot r = pre @ subs \<and> seen e (rn_called r) pre) \<and> rn_delivered r + rn_failed r = length (rn_called r)"

lemma seen_skip:
  assumes "seen e called pre" "\<forall>s \<in> set skipped. \<not> sub_active e s"
  shows "seen e called (pre @ skipped)"
proof -
  have "subseq called (pre @ skipped)" using assms(1) by (simp add: seen_def subseq_rev_drop_many)
  then show ?thesis using assms by (auto simp: seen_def)
qed

lemma deliver_on_ok:
  assumes ok: "facade_ok (f\<lparr>fc_runs := (fc_runs f)[i := r0]\<rparr>)" and i: "i < length (fc_runs f)"
    and r0: "rn_called r0 = rn_called (fc_runs f ! i)" and b: "between_calls (fc_emitter f) subs (fc_runs f ! i)"
  shows "facade_ok (deliver_on i subs f)"
proof -
  let ?e = "fc_emitter f" and ?r = "fc_runs f ! i"
  let ?f0 = "f\<lparr>fc_runs := (fc_runs f)[i := r0]\<rparr>"
  have eok: "em_ok ?e" using ok by (simp add: facade_ok_def)
  have calls0: "mset (all_calls ?f0) = mset (all_calls f)"
    using calls_update [OF i, of r0 "[]"] r0 by (simp add: all_calls_def)
  have scalls: "set (all_calls ?f0) = set (all_calls f)" by (rule mset_eq_setD [OF calls0])
  have once: "\<forall>s \<in> set (all_calls f). sb_once s \<longrightarrow> \<not> sub_active ?e s" "\<forall>s. sb_once s \<longrightarrow> count (mset (all_calls f)) s \<le> 1"
    using ok unfolding facade_ok_def scalls calls0 by simp_all
  have others: "event_run_ok ?e r" if r: "r \<in> set ((fc_runs f)[i := r'])" "r \<noteq> r'" for r r'
  proof -
    obtain j where j: "j < length (fc_runs f)" "r = (fc_runs f)[i := r'] ! j" using r(1) by (auto simp: in_set_conv_nth)
    then have "j \<noteq> i" using r(2) by auto
    then have "r = (fc_runs f)[i := r0] ! j" using j(2) by simp
    then have "r \<in> set (fc_runs ?f0)" using j(1) by simp
    then show ?thesis using ok by (simp add: facade_ok_def)
  qed
  obtain pre where pre: "rn_snapshot ?r = pre @ subs" "seen ?e (rn_called ?r) pre" using b by (auto simp: between_calls_def)
  have iss: "\<forall>s \<in> set (rn_snapshot ?r). em_issued s ?e" "\<forall>s \<in> set subs. em_issued s ?e"
    using b pre(1) by (simp_all add: between_calls_def)
  obtain res e' where n: "next_listener subs ?e = (res, e')" by (cases "next_listener subs ?e")
  note nx = next_listener_ok [OF eok iss(2) n]
  have g: "grows ?e e'" "em_ok e'" using nx by simp_all
  have h: "\<forall>s \<in> set (fc_handles f). em_issued s e'" using ok g(1) by (simp add: facade_ok_def grows_def)
  have in_calls: "em_issued s ?e" if called: "s \<in> set (all_calls f)" for s
  proof -
    obtain r where r: "r \<in> set ((fc_runs f)[i := r0])" "s \<in> set (rn_called r)" using called scalls by (auto simp: all_calls_def)
    then have "event_run_ok ?e r" using ok by (simp add: facade_ok_def)
    moreover have "s \<in> set (rn_snapshot r)" using r(2) calculation subseq_subset
      by (cases "rn_delivery r") (fastforce simp: event_run_ok_def seen_def)+
    ultimately show ?thesis by (simp add: event_run_ok_def)
  qed
  show ?thesis
  proof (cases res)
    case None
    let ?r' = "?r\<lparr>rn_delivery := Delivered\<rparr>"
    have f': "deliver_on i subs f = f\<lparr>fc_emitter := e', fc_runs := (fc_runs f)[i := ?r']\<rparr>" using n None by (simp add: deliver_on_def Let_def)
    have e': "e' = ?e" using nx None by simp
    have "seen ?e (rn_called ?r) (rn_snapshot ?r)" using seen_skip [OF pre(2)] nx None pre(1) by simp
    then have "event_run_ok ?e ?r'" using b by (simp add: event_run_ok_def between_calls_def)
    then have "\<forall>r \<in> set ((fc_runs f)[i := ?r']). event_run_ok ?e r" using others by blast
    moreover have "mset (concat (map rn_called ((fc_runs f)[i := ?r']))) = mset (all_calls f)"
      using calls_update [OF i, of ?r' "[]"] by (simp add: all_calls_def)
    ultimately show ?thesis unfolding f' e'
      by (intro facade_okI [where A = "all_calls f"]) (use once eok h e' in \<open>simp_all add: all_calls_def\<close>)
  next
    case (Some p)
    obtain sub rest where p: "p = (sub, rest)" by (cases p)
    let ?r' = "?r\<lparr>rn_delivery := Calling sub rest, rn_called := rn_called ?r @ [sub]\<rparr>"
    have f': "deliver_on i subs f = f\<lparr>fc_emitter := e', fc_runs := (fc_runs f)[i := ?r']\<rparr>" using n Some p by (simp add: deliver_on_def Let_def)
    obtain skipped where sk: "subs = skipped @ sub # rest" "\<forall>s \<in> set skipped. \<not> sub_active ?e s"
      and act: "sub_active ?e sub" "sb_once sub \<longrightarrow> \<not> sub_active e' sub" using nx Some p by auto
    have "seen ?e (rn_called ?r) (pre @ skipped)" by (rule seen_skip [OF pre(2) sk(2)])
    then have "seen e' (rn_called ?r) (pre @ skipped)" by (rule seen_grows [OF g(1), rotated]) (use iss(1) pre(1) sk(1) in auto)
    then have "event_run_ok e' ?r'"
      using b g(1) pre(1) sk(1) by (auto simp: event_run_ok_def between_calls_def grows_def intro!: exI [of _ "pre @ skipped"])
    then have runs: "\<forall>r \<in> set ((fc_runs f)[i := ?r']). event_run_ok e' r" using others event_run_ok_grows [OF g(1)] by blast
    have m: "mset (concat (map rn_called ((fc_runs f)[i := ?r']))) = mset (sub # all_calls f)"
      using calls_update [OF i, of ?r' "[sub]"] by (simp add: all_calls_def)
    have "count (mset (all_calls f)) sub = 0" if "sb_once sub" using once(1) act(1) that by (auto simp: count_eq_zero_iff)
    then have c: "\<forall>s. sb_once s \<longrightarrow> count (mset (sub # all_calls f)) s \<le> 1" using once(2) by simp
    have a: "\<forall>s \<in> set (sub # all_calls f). sb_once s \<longrightarrow> \<not> sub_active e' s"
      using once(1) act(2) in_calls g(1) by (auto simp: grows_def)
    show ?thesis unfolding f' by (rule facade_okI [where A = "sub # all_calls f"]) (use g(2) h runs m c a in \<open>simp_all add: all_calls_def\<close>)
  qed
qed

text \<open>The steps.\<close>

lemma update_same: "rs[i := r, i := r'] = rs[i := r']"
  by simp

lemma deliver_ok:
  assumes ok: "facade_ok f"
  shows "facade_ok (deliver i f)"
proof (cases "i < length (fc_runs f) \<and> \<not> rn_storing (fc_runs f ! i) \<and> rn_delivery (fc_runs f ! i) = NotReached")
  case True
  let ?r = "fc_runs f ! i" and ?e = "fc_emitter f"
  define subs where "subs = emitter_resolve (ec_event (rn_ctx ?r)) ?e"
  define f1 where "f1 = f\<lparr>fc_runs := (fc_runs f)[i := ?r\<lparr>rn_snapshot := subs\<rparr>]\<rparr>"
  have eok: "em_ok ?e" and r: "event_run_ok ?e ?r" using ok True by (simp_all add: facade_ok_def)
  have s: "sorted_wrt (<) (map sb_order subs)" "\<forall>s \<in> set subs. matches_pattern (ec_event (rn_ctx ?r)) (sb_key s) \<and> em_issued s ?e"
    using em.resolve_sorted [OF eok] em.issued_subs [OF eok] by (simp_all add: subs_def em.resolve_subs [OF eok] del: set_em_subs)
  have "between_calls (fc_emitter f1) subs (fc_runs f1 ! i)"
    using r s True by (simp add: between_calls_def f1_def event_run_ok_def seen_def)
  moreover have "facade_ok (f1\<lparr>fc_runs := (fc_runs f1)[i := ?r]\<rparr>)" using ok by (simp add: f1_def)
  moreover have "deliver i f = deliver_on i subs f1" using True by (simp add: deliver_def Let_def subs_def f1_def)
  ultimately show ?thesis using deliver_on_ok [of f1 i ?r subs] True by (simp add: f1_def)
next
  case False
  then show ?thesis using ok by (auto simp: deliver_def Let_def)
qed

lemma settled_between:
  assumes "event_run_ok e r" "rn_delivery r = Calling sub rest" and same: "rn_ctx r' = rn_ctx r" "rn_snapshot r' = rn_snapshot r" "rn_called r' = rn_called r"
    and count: "rn_delivered r' + rn_failed r' = Suc (rn_delivered r + rn_failed r)"
  shows "between_calls e rest r'"
proof -
  obtain pre cs where c: "rn_snapshot r = pre @ sub # rest" "rn_called r = cs @ [sub]" "seen e cs pre"
    using assms(1,2) by (auto simp: event_run_ok_def)
  then have "seen e (rn_called r) (pre @ [sub])" by (auto simp: seen_def)
  then have "rn_snapshot r' = (pre @ [sub]) @ rest \<and> seen e (rn_called r') (pre @ [sub])" using c(1) same by simp
  then have "\<exists>pre. rn_snapshot r' = pre @ rest \<and> seen e (rn_called r') pre" by blast
  moreover have "Suc (rn_delivered r + rn_failed r) = length (rn_called r)" using assms(1,2) by (simp add: event_run_ok_def)
  ultimately show ?thesis using assms(1) same count by (simp add: between_calls_def event_run_ok_def)
qed

lemma event_run_ok_same:
  assumes "event_run_ok e r" "rn_snapshot r' = rn_snapshot r" "rn_called r' = rn_called r" "rn_delivery r' = rn_delivery r"
    "rn_delivered r' = rn_delivered r" "rn_failed r' = rn_failed r" "ec_event (rn_ctx r') = ec_event (rn_ctx r)"
  shows "event_run_ok e r'"
  using assms by (simp add: event_run_ok_def)

lemma listener_settled_ok:
  assumes ok: "facade_ok f"
  shows "facade_ok (listener_settled i result f)"
proof (cases "i < length (fc_runs f) \<and> (\<exists>sub rest. rn_delivery (fc_runs f ! i) = Calling sub rest)")
  case True
  then obtain sub rest where i: "i < length (fc_runs f)" and c: "rn_delivery (fc_runs f ! i) = Calling sub rest" by blast
  let ?r = "fc_runs f ! i"
  have r: "event_run_ok (fc_emitter f) ?r" using ok i by (simp add: facade_ok_def)
  show ?thesis
  proof (cases result)
    case (Inl err)
    let ?r' = "?r\<lparr>rn_failed := rn_failed ?r + 1\<rparr>"
    let ?f = "f\<lparr>fc_failed := fc_failed f + 1, fc_reported := fc_reported f @ [(err, rn_ctx ?r)], fc_runs := (fc_runs f)[i := ?r']\<rparr>"
    have "between_calls (fc_emitter f) rest ?r'" by (rule settled_between [OF r c]) simp_all
    moreover have "facade_ok (?f\<lparr>fc_runs := (fc_runs ?f)[i := ?r]\<rparr>)" using ok by (simp add: facade_ok_def all_calls_def)
    ultimately have "facade_ok (deliver_on i rest ?f)" using i by (intro deliver_on_ok [where ?r0.0 = ?r]) simp_all
    then show ?thesis using i c Inl by (simp add: listener_settled_def Let_def)
  next
    case (Inr u)
    let ?r' = "?r\<lparr>rn_delivered := rn_delivered ?r + 1\<rparr>"
    let ?f = "f\<lparr>fc_delivered := fc_delivered f + 1, fc_runs := (fc_runs f)[i := ?r']\<rparr>"
    have "between_calls (fc_emitter f) rest ?r'" by (rule settled_between [OF r c]) simp_all
    moreover have "facade_ok (?f\<lparr>fc_runs := (fc_runs ?f)[i := ?r]\<rparr>)" using ok by (simp add: facade_ok_def all_calls_def)
    ultimately have "facade_ok (deliver_on i rest ?f)" using i by (intro deliver_on_ok [where ?r0.0 = ?r]) simp_all
    then show ?thesis using i c Inr by (simp add: listener_settled_def Let_def)
  qed
next
  case False
  then show ?thesis using ok by (auto simp: listener_settled_def Let_def split: delivery.split)
qed

lemma new_run_ok: "event_run_ok e (new_run ctx p st)"
  by (simp add: event_run_ok_def new_run_def)

lemma facade_ok_append:
  assumes "facade_ok f" "fc_emitter f' = fc_emitter f" "fc_handles f' = fc_handles f" "fc_runs f' = fc_runs f @ [new_run ctx p st]"
  shows "facade_ok f'"
proof -
  have "all_calls f' = all_calls f" using assms(4) by (simp add: all_calls_def new_run_def)
  then show ?thesis using assms new_run_ok by (simp add: facade_ok_def)
qed

lemma dispatch_run_added:
  "fc_runs (event_dispatch name p opts now eid f) =
     fc_runs f @ [new_run (context_for (event_envelope_of name p opts now eid (fc_seq f)) (po_tenantId opts)) p
       (if fc_persist f then Appending (event_envelope_of name p opts now eid (fc_seq f)) else NoAppend)]"
  "fc_emitter (event_dispatch name p opts now eid f) = fc_emitter f" "fc_handles (event_dispatch name p opts now eid f) = fc_handles f"
  by (simp_all add: event_dispatch_def Let_def)

lemma event_dispatch_ok: "facade_ok f \<Longrightarrow> facade_ok (event_dispatch name p opts now eid f)"
  by (rule facade_ok_append [OF _ dispatch_run_added(2,3,1)])

lemma facade_step_ok: "facade_ok f \<Longrightarrow> facade_ok (facade_step f e)"
proof (cases e)
  assume ok: "facade_ok f"
  then have eok: "em_ok (fc_emitter f)" and h: "\<forall>s \<in> set (fc_handles f). em_issued s (fc_emitter f)" by (simp_all add: facade_ok_def)
  note same = facade_ok_grows [OF ok]
  have rok: "i < length (fc_runs f) \<Longrightarrow> event_run_ok (fc_emitter f) (fc_runs f ! i)" for i using ok by (simp add: facade_ok_def)
  {
    case (Subscribe k l once)
    obtain s e' where a: "emitter_add k l once (fc_emitter f) = (s, e')" by (cases "emitter_add k l once (fc_emitter f)")
    have "facade_ok (f\<lparr>fc_emitter := e', fc_handles := fc_handles f @ [s]\<rparr>)"
      using em.invar_add [OF eok a] grows_add [OF eok a] h by (intro facade_ok_grows [OF ok]) (simp_all add: grows_def)
    then show ?thesis by (simp add: Subscribe subscribe_def a)
  next
    case (Unsubscribe n)
    show ?thesis
    proof (cases "n < length (fc_handles f)")
      case True
      then have i: "em_issued (fc_handles f ! n) (fc_emitter f)" using h by simp
      then have "facade_ok (f\<lparr>fc_emitter := emitter_remove (fc_handles f ! n) (fc_emitter f)\<rparr>)"
        using em.invar_remove [OF eok i] grows_remove [OF eok i] h by (intro facade_ok_grows [OF ok]) (simp_all add: grows_def)
      then show ?thesis using True by (simp add: Unsubscribe unsubscribe_def)
    qed (use ok in \<open>simp add: Unsubscribe unsubscribe_def\<close>)
  next
    case (Publish name p opts now eid)
    then show ?thesis using ok by (simp add: event_dispatch_ok)
  next
    case (Redeliver env)
    then show ?thesis using ok by (auto simp: redeliver_def intro: facade_ok_append)
  next
    case (Stored i failure)
    have "facade_ok (f\<lparr>fc_runs := (fc_runs f)[i := (fc_runs f ! i)\<lparr>rn_append := a\<rparr>], fc_reported := rep\<rparr>)"
      "facade_ok (f\<lparr>fc_runs := (fc_runs f)[i := (fc_runs f ! i)\<lparr>rn_append := a\<rparr>], fc_stored := st\<rparr>)"
      if "i < length (fc_runs f)" for rep st a
      using that by (intro facade_ok_run [OF ok, where i = i and r' = "(fc_runs f ! i)\<lparr>rn_append := a\<rparr>"]; simp add: event_run_ok_same [OF rok])+
    then show ?thesis using ok by (simp add: Stored stored_def Let_def split: append_progress.split option.split)
  next
    case (Deliver i)
    then show ?thesis using ok by (simp add: deliver_ok)
  next
    case (ListenerSettled i result)
    then show ?thesis using ok by (simp add: listener_settled_ok)
  next
    case (PipelineSettled i result)
    have "i < length (fc_runs f) \<Longrightarrow> facade_ok (f\<lparr>fc_runs := (fc_runs f)[i := (fc_runs f ! i)\<lparr>rn_outcome := Some result\<rparr>]\<rparr>)"
      by (rule facade_ok_run [OF ok, where i = i and r' = "(fc_runs f ! i)\<lparr>rn_outcome := Some result\<rparr>"]) (simp_all add: event_run_ok_same [OF rok])
    then show ?thesis using ok by (simp add: PipelineSettled pipeline_settled_def Let_def)
  next
    case (Enrich i md tenant)
    let ?r = "fc_runs f ! i"
    have "i < length (fc_runs f) \<Longrightarrow>
        facade_ok (f\<lparr>fc_runs := (fc_runs f)[i := ?r\<lparr>rn_ctx := (rn_ctx ?r)\<lparr>ec_metadata := md, ec_tenantId := tenant\<rparr>\<rparr>]\<rparr>)"
      by (rule facade_ok_run [OF ok, where i = i and r' = "?r\<lparr>rn_ctx := (rn_ctx ?r)\<lparr>ec_metadata := md, ec_tenantId := tenant\<rparr>\<rparr>"])
        (simp_all add: event_run_ok_same [OF rok])
    then show ?thesis using ok by (simp add: Enrich enrich_def Let_def)
  next
    case (PublishAsync name p opts)
    then show ?thesis using ok eok h by (auto simp: publish_async_def intro!: same)
  next
    case (AsyncStart now eid)
    have "facade_ok (f\<lparr>fc_queue := q, fc_current := c\<rparr>)" for q c using eok h by (intro same) simp_all
    then show ?thesis using ok by (auto simp: AsyncStart async_start_def event_dispatch_ok split: list.split)
  next
    case AsyncDone
    then show ?thesis using ok eok h by (auto simp: async_done_def intro!: same split: option.split)
  next
    case EventsCloseBegin
    then show ?thesis using eok h by (auto simp: events_close_begin_def intro!: same)
  next
    case EventsCloseEnd
    have "facade_ok (f\<lparr>fc_emitter := emitter_clear (fc_emitter f)\<rparr>)"
      using emitter_clear_ok [OF eok] grows_clear [OF eok] h by (intro facade_ok_grows [OF ok]) simp_all
    then show ?thesis using ok by (simp add: EventsCloseEnd events_close_end_def)
  }
qed

interpretation facade: machine facade_step facade_ok
  by unfold_locales (rule facade_step_ok)

section \<open>What a step calls\<close>

text \<open>A step calls active listeners only, and what it does to the emitter is growth.\<close>

definition calls_active :: "('l, 'p, 'v) facade \<Rightarrow> ('l, 'p, 'v) facade \<Rightarrow> bool" where
  "calls_active f f' \<longleftrightarrow> grows (fc_emitter f) (fc_emitter f') \<and>
     (\<exists>new. mset (all_calls f') = mset (all_calls f) + mset new \<and> (\<forall>s \<in> set new. sub_active (fc_emitter f) s))"

lemma calls_active_same: "grows (fc_emitter f) (fc_emitter f') \<Longrightarrow> mset (all_calls f') = mset (all_calls f) \<Longrightarrow> calls_active f f'"
  unfolding calls_active_def by (auto intro: exI [of _ "[]"])

lemma calls_active_run:
  assumes "i < length (fc_runs f)" "fc_emitter f' = fc_emitter f" "fc_runs f' = (fc_runs f)[i := r']" "rn_called r' = rn_called (fc_runs f ! i)"
  shows "calls_active f f'"
  using calls_update [OF assms(1), of r' "[]"] assms by (intro calls_active_same) (simp_all add: all_calls_def)

lemma deliver_on_calls:
  assumes ok: "em_ok (fc_emitter f)" and i: "i < length (fc_runs f)" and iss: "\<forall>s \<in> set subs. em_issued s (fc_emitter f)"
  shows "calls_active f (deliver_on i subs f)"
proof -
  obtain res e' where n: "next_listener subs (fc_emitter f) = (res, e')" by (cases "next_listener subs (fc_emitter f)")
  note nx = next_listener_ok [OF ok iss n]
  show ?thesis
  proof (cases res)
    case None
    then show ?thesis using nx n calls_active_run [OF i, of "deliver_on i subs f"] by (simp add: deliver_on_def Let_def)
  next
    case (Some p)
    obtain sub rest where p: "p = (sub, rest)" by (cases p)
    let ?r' = "(fc_runs f ! i)\<lparr>rn_delivery := Calling sub rest, rn_called := rn_called (fc_runs f ! i) @ [sub]\<rparr>"
    have "mset (all_calls (deliver_on i subs f)) = mset (all_calls f) + mset [sub]"
      using calls_update [OF i, of ?r' "[sub]"] n Some p by (simp add: all_calls_def deliver_on_def Let_def)
    moreover have "\<forall>s \<in> set [sub]. sub_active (fc_emitter f) s" using nx Some p by simp
    ultimately show ?thesis using nx n Some p unfolding calls_active_def by (auto simp: deliver_on_def Let_def)
  qed
qed

lemma calls_active_via:
  assumes "fc_emitter g = fc_emitter f" "mset (all_calls g) = mset (all_calls f)" "calls_active g f'"
  shows "calls_active f f'"
  using assms by (simp add: calls_active_def)

lemma facade_step_calls:
  assumes ok: "facade_ok f"
  shows "calls_active f (facade_step f e)"
proof (cases e)
  have eok: "em_ok (fc_emitter f)" and h: "\<forall>s \<in> set (fc_handles f). em_issued s (fc_emitter f)" using ok by (simp_all add: facade_ok_def)
  note same = calls_active_same
  have refl: "calls_active f f" by (rule same) simp_all
  {
    case (Subscribe k l once)
    obtain s e' where a: "emitter_add k l once (fc_emitter f) = (s, e')" by (cases "emitter_add k l once (fc_emitter f)")
    then show ?thesis using grows_add [OF eok a] by (intro same) (simp_all add: Subscribe subscribe_def all_calls_def)
  next
    case (Unsubscribe n)
    then show ?thesis using grows_remove [OF eok] h by (intro same) (simp_all add: unsubscribe_def all_calls_def)
  next
    case (Publish name p opts now eid)
    then show ?thesis by (intro same) (simp_all add: dispatch_run_added all_calls_def new_run_def)
  next
    case (Redeliver env)
    then show ?thesis by (intro same) (simp_all add: redeliver_def all_calls_def new_run_def)
  next
    case (Stored i failure)
    then show ?thesis using refl
      by (auto simp: stored_def Let_def intro!: calls_active_run [of i] split: append_progress.split option.split)
  next
    case (Deliver i)
    let ?r = "fc_runs f ! i"
    let ?subs = "emitter_resolve (ec_event (rn_ctx ?r)) (fc_emitter f)"
    let ?g = "f\<lparr>fc_runs := (fc_runs f)[i := ?r\<lparr>rn_snapshot := ?subs\<rparr>]\<rparr>"
    have "calls_active f (deliver_on i ?subs ?g)" if i: "i < length (fc_runs f)"
    proof (rule calls_active_via [of ?g])
      show "mset (all_calls ?g) = mset (all_calls f)" using calls_update [OF i, of "?r\<lparr>rn_snapshot := ?subs\<rparr>" "[]"] by (simp add: all_calls_def)
      show "calls_active ?g (deliver_on i ?subs ?g)"
        using i eok em.issued_subs [OF eok] by (intro deliver_on_calls) (simp_all add: em.resolve_subs [OF eok] del: set_em_subs)
    qed simp
    then show ?thesis using refl by (simp add: Deliver deliver_def Let_def)
  next
    case (ListenerSettled i result)
    show ?thesis
    proof (cases "i < length (fc_runs f) \<and> (\<exists>sub rest. rn_delivery (fc_runs f ! i) = Calling sub rest)")
      case True
      then obtain sub rest where i: "i < length (fc_runs f)" and c: "rn_delivery (fc_runs f ! i) = Calling sub rest" by blast
      have iss: "\<forall>s \<in> set rest. em_issued s (fc_emitter f)"
      proof -
        have "event_run_ok (fc_emitter f) (fc_runs f ! i)" using ok i by (simp add: facade_ok_def)
        then show ?thesis using c by (auto simp: event_run_ok_def)
      qed
      have via: "calls_active f (deliver_on i rest g)"
        if g: "fc_emitter g = fc_emitter f" "fc_runs g = (fc_runs f)[i := r']" "rn_called r' = rn_called (fc_runs f ! i)" for g r'
      proof (rule calls_active_via [of g])
        show "mset (all_calls g) = mset (all_calls f)" using calls_update [OF i, of r' "[]"] g by (simp add: all_calls_def)
        show "calls_active g (deliver_on i rest g)" using g i eok iss by (intro deliver_on_calls) simp_all
      qed (rule g)
      show ?thesis
      proof (cases result)
        case (Inl err)
        then show ?thesis using i c
          by (auto simp: ListenerSettled listener_settled_def Let_def
              intro!: via [where r' = "(fc_runs f ! i)\<lparr>rn_failed := rn_failed (fc_runs f ! i) + 1\<rparr>"])
      next
        case (Inr u)
        then show ?thesis using i c
          by (auto simp: ListenerSettled listener_settled_def Let_def
              intro!: via [where r' = "(fc_runs f ! i)\<lparr>rn_delivered := rn_delivered (fc_runs f ! i) + 1\<rparr>"])
      qed
    next
      case False
      then show ?thesis using refl by (auto simp: ListenerSettled listener_settled_def Let_def split: delivery.split)
    qed
  next
    case (PipelineSettled i result)
    then show ?thesis using refl by (auto simp: pipeline_settled_def Let_def intro!: calls_active_run [of i])
  next
    case (Enrich i md tenant)
    then show ?thesis using refl by (auto simp: enrich_def Let_def intro!: calls_active_run [of i])
  next
    case (PublishAsync name p opts)
    then show ?thesis by (intro same) (simp_all add: publish_async_def all_calls_def)
  next
    case (AsyncStart now eid)
    then show ?thesis
      by (intro same) (auto simp: async_start_def dispatch_run_added all_calls_def new_run_def split: list.split)
  next
    case AsyncDone
    then show ?thesis by (intro same) (auto simp: async_done_def all_calls_def split: option.split)
  next
    case EventsCloseBegin
    then show ?thesis by (intro same) (simp_all add: events_close_begin_def all_calls_def)
  next
    case EventsCloseEnd
    then show ?thesis using grows_clear [OF eok] by (intro same) (simp_all add: events_close_end_def all_calls_def)
  }
qed

lemma new_facade_ok: "facade_ok (new_facade st p)"
  by (simp add: facade_ok_def new_facade_def em.invar_empty(1) all_calls_def)

text \<open>A cancelled subscription is not called any more, whatever is in flight.\<close>

lemma cancelled_not_called:
  assumes "facade_ok f" "em_issued s (fc_emitter f)" "\<not> sub_active (fc_emitter f) s"
  shows "count (mset (all_calls (foldl facade_step f es))) s = count (mset (all_calls f)) s"
proof -
  let ?Q = "\<lambda>g. em_issued s (fc_emitter g) \<and> \<not> sub_active (fc_emitter g) s \<and> count (mset (all_calls g)) s = count (mset (all_calls f)) s"
  have "?Q (facade_step g e)" if q: "facade_ok g" "?Q g" for g and e :: "('a, 'b, 'c) facade_event"
  proof -
    obtain new where new: "mset (all_calls (facade_step g e)) = mset (all_calls g) + mset new" "\<forall>t \<in> set new. sub_active (fc_emitter g) t"
      and gr: "grows (fc_emitter g) (fc_emitter (facade_step g e))" using facade_step_calls [OF q(1), of e] by (auto simp: calls_active_def)
    have "s \<notin> set new" using new(2) q(2) by blast
    then have "count (mset new) s = 0" by (simp add: count_eq_zero_iff)
    then show ?thesis using new(1) gr q(2) by (simp add: grows_def)
  qed
  from facade.run_keeps [where Q = ?Q, OF this assms(1)] assms(2,3) show ?thesis by simp
qed

lemma unsubscribed_not_called:
  assumes "facade_ok f" "n < length (fc_handles f)"
  shows "count (mset (all_calls (foldl facade_step (unsubscribe n f) es))) (fc_handles f ! n) = count (mset (all_calls f)) (fc_handles f ! n)"
proof -
  let ?f = "unsubscribe n f" and ?s = "fc_handles f ! n"
  have iss: "em_issued ?s (fc_emitter f)" and eok: "em_ok (fc_emitter f)" using assms by (simp_all add: facade_ok_def)
  have ok: "facade_ok ?f" using facade_step_ok [OF assms(1), of "Unsubscribe n"] by simp
  have "em_issued ?s (fc_emitter ?f)" using em.invar_remove [OF eok iss] iss assms(2) by (simp add: unsubscribe_def)
  moreover have "\<not> sub_active (fc_emitter ?f) ?s"
    using assms(2) by (cases "sub_active (fc_emitter f) ?s") (auto simp: unsubscribe_def remove_inactive emitter_remove_fields sub_active_def)
  ultimately have "count (mset (all_calls (foldl facade_step ?f es))) ?s = count (mset (all_calls ?f)) ?s"
    by (rule cancelled_not_called [OF ok])
  then show ?thesis by (simp add: unsubscribe_def all_calls_def)
qed

section \<open>Finished dispatches, counters, the store and the queue\<close>

text \<open>
  A delivery that is over has called its listeners in order of registration, only matching ones, each at most once; who of the snapshot was
  not called is cancelled.  A listener that throws is counted and stops nobody.
\<close>

lemma delivered_run:
  assumes ok: "facade_ok f" and r: "r \<in> set (fc_runs f)" "rn_delivery r = Delivered"
  shows "subseq (rn_called r) (rn_snapshot r)" "\<forall>s \<in> set (rn_snapshot r). s \<in> set (rn_called r) \<or> \<not> sub_active (fc_emitter f) s"
    "\<forall>s \<in> set (rn_called r). matches_pattern (ec_event (rn_ctx r)) (sb_key s)" "sorted_wrt (<) (map sb_order (rn_called r))"
    "rn_delivered r + rn_failed r = length (rn_called r)"
proof -
  have run: "event_run_ok (fc_emitter f) r" using ok r(1) by (simp add: facade_ok_def)
  then show sub: "subseq (rn_called r) (rn_snapshot r)" using r(2) by (simp add: event_run_ok_def seen_def)
  show "\<forall>s \<in> set (rn_snapshot r). s \<in> set (rn_called r) \<or> \<not> sub_active (fc_emitter f) s" using run r(2) by (simp add: event_run_ok_def seen_def)
  show "\<forall>s \<in> set (rn_called r). matches_pattern (ec_event (rn_ctx r)) (sb_key s)"
    using run subseq_subset [OF sub] by (auto simp: event_run_ok_def)
  have "sorted_wrt (<) (map sb_order (rn_snapshot r))" using run by (simp add: event_run_ok_def)
  moreover have "subseq (map sb_order (rn_called r)) (map sb_order (rn_snapshot r))" by (rule subseq_map [OF sub])
  ultimately show "sorted_wrt (<) (map sb_order (rn_called r))"
    by (metis strict_sorted_iff subseq_conv_nths distinct_nthsI sorted_nths)
  show "rn_delivered r + rn_failed r = length (rn_called r)" using run r(2) by (simp add: event_run_ok_def)
qed

text \<open>
  The calls of the store's append, in publish order, and those that have resolved.  The numbers of the calls are without gaps; what is
  stored is what has resolved.  The fire-and-forget depth counts what waits and what runs.
\<close>

definition append_call :: "('p, 'v) append_progress \<Rightarrow> ('p, 'v) event_envelope list" where
  "append_call a = (case a of NoAppend \<Rightarrow> [] | Appending e \<Rightarrow> [e] | AppendResolved e \<Rightarrow> [e] | AppendRejected e \<Rightarrow> [e])"

definition append_done :: "('p, 'v) append_progress \<Rightarrow> ('p, 'v) event_envelope list" where
  "append_done a = (case a of AppendResolved e \<Rightarrow> [e] | _ \<Rightarrow> [])"

definition append_calls :: "('l, 'p, 'v) facade \<Rightarrow> ('p, 'v) event_envelope list" where
  "append_calls f = concat (map append_call (map rn_append (fc_runs f)))"

definition counters_ok :: "('l, 'p, 'v) facade \<Rightarrow> bool" where
  "counters_ok f \<longleftrightarrow>
     fc_seq f = fc_published f \<and> map en_seq (append_calls f) = (if fc_persist f then [0..<fc_seq f] else []) \<and>
     mset (fc_stored f) = mset (concat (map append_done (map rn_append (fc_runs f)))) \<and>
     fc_asyncPending f = length (fc_queue f) + (case fc_current f of None \<Rightarrow> 0 | Some _ \<Rightarrow> 1)"

lemma append_simps [simp]:
  "append_call NoAppend = []" "append_call (Appending env) = [env]" "append_call (AppendResolved env) = [env]" "append_call (AppendRejected env) = [env]"
  "append_done NoAppend = []" "append_done (Appending env) = []" "append_done (AppendResolved env) = [env]" "append_done (AppendRejected env) = []"
  by (simp_all add: append_call_def append_done_def)

lemma counters_same:
  assumes "counters_ok f" "map rn_append (fc_runs f') = map rn_append (fc_runs f)" "fc_stored f' = fc_stored f" "fc_seq f' = fc_seq f"
    "fc_published f' = fc_published f" "fc_persist f' = fc_persist f"
    "fc_asyncPending f' = length (fc_queue f') + (case fc_current f' of None \<Rightarrow> 0 | Some _ \<Rightarrow> 1)"
  shows "counters_ok f'"
  using assms by (simp add: counters_ok_def append_calls_def)

lemma counters_pending:
  "counters_ok f \<Longrightarrow> fc_asyncPending f = length (fc_queue f) + (case fc_current f of None \<Rightarrow> 0 | Some _ \<Rightarrow> 1)"
  by (simp add: counters_ok_def)

lemma map_rn_append_update:
  "rn_append r = rn_append (rs ! i) \<Longrightarrow> map rn_append (rs[i := r]) = map rn_append rs"
  by (cases "i < length rs") (simp_all add: map_update list_update_same_conv list_update_beyond)

lemma counters_dispatch: "counters_ok f \<Longrightarrow> counters_ok (event_dispatch name p opts now eid f)"
  by (cases "fc_persist f")
     (auto simp: counters_ok_def append_calls_def event_dispatch_def Let_def event_envelope_of_def build_event_envelope_def new_run_def)

lemma deliver_on_frame:
  "map rn_append (fc_runs (deliver_on i subs f)) = map rn_append (fc_runs f)" "fc_stored (deliver_on i subs f) = fc_stored f"
  "fc_seq (deliver_on i subs f) = fc_seq f" "fc_published (deliver_on i subs f) = fc_published f"
  "fc_persist (deliver_on i subs f) = fc_persist f" "fc_asyncPending (deliver_on i subs f) = fc_asyncPending f"
  "fc_queue (deliver_on i subs f) = fc_queue f" "fc_current (deliver_on i subs f) = fc_current f"
  by (simp_all add: deliver_on_def Let_def map_rn_append_update split: prod.split option.split)

lemma mset_concat_update:
  "i < length xs \<Longrightarrow> mset (concat (map g (xs[i := y]))) + mset (g (xs ! i)) = mset (concat (map g xs)) + mset (g y)"
proof (induction xs arbitrary: i)
  case (Cons x xs)
  then show ?case by (cases i) (simp_all add: ac_simps)
qed simp

lemma counters_stored:
  assumes ok: "counters_ok f"
  shows "counters_ok (stored i failure f)"
proof (cases "i < length (fc_runs f) \<and> (\<exists>env. rn_append (fc_runs f ! i) = Appending env)")
  case True
  then obtain env where i: "i < length (fc_runs f)" and env: "rn_append (fc_runs f ! i) = Appending env" by blast
  let ?as = "map rn_append (fc_runs f)"
  have upd: "map append_call (?as[i := a]) = map append_call ?as" if "append_call a = [env]" for a
    using i env that by (simp add: map_update list_update_same_conv)
  have dn: "mset (concat (map append_done (?as[i := a]))) = mset (concat (map append_done ?as)) + mset (append_done a)" for a
    using mset_concat_update [of i ?as append_done a] i env by simp
  have fr: "map rn_append ((fc_runs f)[i := (fc_runs f ! i)\<lparr>rn_append := a\<rparr>]) = ?as[i := a]" for a by (simp add: map_update)
  show ?thesis
  proof (cases failure)
    case None
    have "stored i failure f = f\<lparr>fc_runs := (fc_runs f)[i := (fc_runs f ! i)\<lparr>rn_append := AppendResolved env\<rparr>], fc_stored := fc_stored f @ [env]\<rparr>"
      using i env None by (simp add: stored_def Let_def)
    then show ?thesis using ok upd [of "AppendResolved env"] dn [of "AppendResolved env"] by (simp add: counters_ok_def append_calls_def fr)
  next
    case (Some err)
    have "stored i failure f = f\<lparr>fc_runs := (fc_runs f)[i := (fc_runs f ! i)\<lparr>rn_append := AppendRejected env\<rparr>],
        fc_reported := fc_reported f @ [(err, rn_ctx (fc_runs f ! i))]\<rparr>"
      using i env Some by (simp add: stored_def Let_def)
    then show ?thesis using ok upd [of "AppendRejected env"] dn [of "AppendRejected env"] by (simp add: counters_ok_def append_calls_def fr)
  qed
next
  case False
  then have "stored i failure f = f" by (auto simp: stored_def Let_def split: append_progress.split)
  then show ?thesis using ok by simp
qed

lemma counters_step: "counters_ok f \<Longrightarrow> counters_ok (facade_step f e)"
proof (cases e)
  assume ok: "counters_ok f"
  note same = counters_same [OF ok] and pd = counters_pending [OF ok]
  {
    case (Publish name p opts now eid)
    then show ?thesis using ok by (simp add: counters_dispatch)
  next
    case (Stored i failure)
    then show ?thesis using ok by (simp add: counters_stored)
  next
    case (Redeliver env)
    then show ?thesis using ok by (simp add: redeliver_def new_run_def counters_ok_def append_calls_def)
  next
    case (Deliver i)
    then show ?thesis using ok pd
      by (auto simp: deliver_def Let_def deliver_on_frame map_rn_append_update intro!: same)
  next
    case (ListenerSettled i result)
    then show ?thesis using ok pd
      by (auto simp: listener_settled_def Let_def deliver_on_frame map_rn_append_update intro!: same split: delivery.split sum.split)
  next
    case (PipelineSettled i result)
    then show ?thesis using ok pd by (auto simp: pipeline_settled_def Let_def map_rn_append_update intro!: same)
  next
    case (Enrich i md tenant)
    then show ?thesis using ok pd by (auto simp: enrich_def Let_def map_rn_append_update intro!: same)
  next
    case (AsyncStart now eid)
    show ?thesis
    proof (cases "fc_queue f")
      case Nil
      then show ?thesis using ok by (simp add: AsyncStart async_start_def)
    next
      case (Cons job queue)
      obtain name p opts where job: "job = (name, p, opts)" by (cases job)
      have "counters_ok (f\<lparr>fc_queue := queue, fc_current := Some n\<rparr>)" if "fc_current f = None" for n
        using pd Cons that by (intro same) simp_all
      then show ?thesis using ok by (simp add: AsyncStart async_start_def Cons job counters_dispatch)
    qed
  next
    case AsyncDone
    then show ?thesis using ok pd by (auto simp: async_done_def intro!: same split: option.split)
  next
    case (Subscribe k l once)
    then show ?thesis using pd by (auto simp: subscribe_def intro!: same split: prod.split)
  next
    case (Unsubscribe n)
    then show ?thesis using ok pd by (auto simp: unsubscribe_def intro!: same)
  next
    case (PublishAsync name p opts)
    then show ?thesis using pd by (auto simp: publish_async_def intro!: same)
  next
    case EventsCloseBegin
    then show ?thesis using pd by (auto simp: events_close_begin_def intro!: same)
  next
    case EventsCloseEnd
    then show ?thesis using ok pd by (auto simp: events_close_end_def intro!: same)
  }
qed

interpretation counters: machine facade_step counters_ok
  by unfold_locales (rule counters_step)

lemma new_facade_counters: "counters_ok (new_facade st p)"
  by (simp add: counters_ok_def new_facade_def append_calls_def)

lemma append_done_call: "subseq (append_done a) (append_call a)"
  by (cases a) simp_all

lemma counters_stored_once:
  assumes "counters_ok f"
  shows "distinct (map en_seq (fc_stored f))" "set (fc_stored f) = {env. \<exists>r \<in> set (fc_runs f). rn_append r = AppendResolved env}"
proof -
  have "subseq (concat (map append_done as)) (concat (map append_call as))" for as :: "('p, 'v) append_progress list"
    by (induction as) (auto intro: list_emb_append_mono append_done_call)
  then have "subseq (map en_seq (concat (map append_done (map rn_append (fc_runs f))))) (map en_seq (append_calls f))"
    unfolding append_calls_def by (rule subseq_map)
  moreover have "distinct (map en_seq (append_calls f))" using assms by (simp add: counters_ok_def)
  ultimately have "distinct (map en_seq (concat (map append_done (map rn_append (fc_runs f)))))"
    by (metis subseq_conv_nths distinct_nthsI)
  moreover have "mset (fc_stored f) = mset (concat (map append_done (map rn_append (fc_runs f))))" using assms by (simp add: counters_ok_def)
  ultimately show "distinct (map en_seq (fc_stored f))"
    by (metis mset_eq_imp_distinct_iff mset_map)
  have "set (fc_stored f) = set (concat (map append_done (map rn_append (fc_runs f))))"
    using assms by (intro mset_eq_setD) (simp add: counters_ok_def)
  also have "\<dots> = {env. \<exists>r \<in> set (fc_runs f). rn_append r = AppendResolved env}"
    by (auto simp: append_done_def split: append_progress.splits)
  finally show "set (fc_stored f) = {env. \<exists>r \<in> set (fc_runs f). rn_append r = AppendResolved env}" .
qed

text \<open>
  The in-process store takes an envelope when its append is called, and never rejects: reading it gives the last \<open>maxEvents\<close> envelopes in
  publish order.
\<close>

lemma replay_order:
  assumes "counters_ok f" "ms_events st = []"
  shows "memory_read None (fold memory_append (append_calls f) st) = last_events (ms_max st) (append_calls f)"
proof -
  have e: "ms_events (fold memory_append (append_calls f) st) = last_events (ms_max st) (append_calls f)" by (rule memory_ring [OF assms(2)])
  have "sorted (map en_seq (append_calls f))" using assms(1) by (simp add: counters_ok_def)
  then have "sorted (map en_seq (last_events (ms_max st) (append_calls f)))" by (simp add: last_events_def sorted_wrt_drop drop_map [symmetric])
  then show ?thesis by (simp add: memory_read_all e)
qed

end
