(* ===== verification/Resp.thy ===== *)
theory Resp
  imports JsNumber
begin

text \<open>
  The Redis protocol of \<open>packages/core/src/transports/resp.ts\<close>: \<open>encodeCommand\<close>, the incremental \<open>RespParser\<close>, the
  classification of replies on a subscription and the reply queue of \<open>RedisClient\<close>.

  A position is a JavaScript number, since a length read from the wire may be negative, fractional or \<open>NaN\<close>.  Then the parser
  may move backwards and need not return, so \<open>parse_at\<close> and \<open>drain\<close> have fuel and give \<open>None\<close> without a result.
  \<open>server_reply\<close> is what a server sends, \<open>reply_bytes\<close> its wire form and \<open>reply_value\<close> what the client makes of it; for these a fuel of \<open>reply_size\<close> is enough.
  \<open>stream_replies\<close>: however the stream is cut into chunks, the client hands on exactly the replies that are complete, in order.
\<close>

datatype resp = RString code_points | RNumber jsvalue | RNull | RArray "resp list"

section \<open>Commands\<close>

datatype redis_arg = ArgText code_points | ArgInt int

definition arg_points :: "redis_arg \<Rightarrow> code_points" where
  "arg_points a = (case a of ArgText s \<Rightarrow> s | ArgInt i \<Rightarrow> int_points i)"

abbreviation CRLF :: "byte list" where
  "CRLF \<equiv> [13, 10]"

definition ascii :: "code_points \<Rightarrow> byte list" where
  "ascii s = utf8_encode s"

definition bulk_bytes :: "code_points \<Rightarrow> byte list" where
  "bulk_bytes s = 36 # ascii (nat_points (length (utf8_encode s))) @ CRLF @ utf8_encode s @ CRLF"

definition encode_command :: "redis_arg list \<Rightarrow> byte list" where
  "encode_command args = concat ((42 # ascii (nat_points (length args)) @ CRLF) # map (\<lambda>a. bulk_bytes (arg_points a)) args)"

section \<open>Buffers at arbitrary positions\<close>

text \<open>\<open>buf[pos]\<close> as \<open>String.fromCharCode\<close> takes it: what is not an index gives 0.\<close>

definition buf_at :: "byte list \<Rightarrow> jsvalue \<Rightarrow> nat" where
  "buf_at buf pos =
     (case pos of Fin q \<Rightarrow> if q = of_int \<lfloor>q\<rfloor> \<and> 0 \<le> q \<and> q < of_nat (length buf) then unat (buf ! nat \<lfloor>q\<rfloor>) else 0 | _ \<Rightarrow> 0)"

fun crlf_at :: "byte list \<Rightarrow> nat option" where
  "crlf_at (x # y # zs) = (if x = 13 \<and> y = 10 then Some 0 else map_option Suc (crlf_at (y # zs)))"
| "crlf_at zs = None"

text \<open>An offset of \<open>indexOf\<close> or \<open>subarray\<close>: negative ones count from the end, \<open>NaN\<close> is 0.\<close>

definition from_index :: "nat \<Rightarrow> jsvalue \<Rightarrow> nat" where
  "from_index len pos =
     (case pos of
        Fin q \<Rightarrow> if q < 0 then nat (int len + math_trunc q) else min (nat (math_trunc q)) len
      | PosInf \<Rightarrow> len
      | _ \<Rightarrow> 0)"

definition line_end :: "byte list \<Rightarrow> jsvalue \<Rightarrow> nat option" where
  "line_end buf start = (let i = from_index (length buf) start in map_option ((+) i) (crlf_at (drop i buf)))"

text \<open>\<open>buf.toString('utf8', start, end)\<close>.\<close>

definition to_string :: "byte list \<Rightarrow> jsvalue \<Rightarrow> jsvalue \<Rightarrow> code_points" where
  "to_string buf start stop =
     (let len = length buf;
          s = (case start of Fin q \<Rightarrow> if q \<le> 0 then 0 else if of_nat len \<le> q then len else nat (math_trunc q) | PosInf \<Rightarrow> len | _ \<Rightarrow> 0);
          e = (case stop of Fin q \<Rightarrow> if of_nat len < q then int len else math_trunc q | PosInf \<Rightarrow> int len | _ \<Rightarrow> 0)
      in if e \<le> int s then [] else utf8_decode (take (nat e - s) (drop s buf)))"

section \<open>The parser\<close>

datatype parsed = NeedMore | Parsed resp jsvalue

fun parse_at :: "nat \<Rightarrow> byte list \<Rightarrow> jsvalue \<Rightarrow> parsed option"
  and parse_elems :: "nat \<Rightarrow> byte list \<Rightarrow> jsvalue \<Rightarrow> nat \<Rightarrow> jsvalue \<Rightarrow> resp list \<Rightarrow> parsed option" where
  "parse_at 0 buf pos = None"
| "parse_at (Suc n) buf pos =
     (if js_le (js_int (int (length buf))) pos then Some NeedMore
      else
        (case line_end buf (js_add pos (Fin 1)) of
           None \<Rightarrow> Some NeedMore
         | Some lineEnd \<Rightarrow>
             (let type = buf_at buf pos;
                  line = to_string buf (js_add pos (Fin 1)) (js_int (int lineEnd));
                  after = js_int (int lineEnd + 2)
              in if type = 43 then Some (Parsed (RString line) after)
                 else if type = 45 then Some (Parsed (RString (codes ''ERR:'' @ line)) after)
                 else if type = 58 then Some (Parsed (RNumber (to_number line)) after)
                 else if type = 36 then
                   (let len = to_number line; stop = js_add after len
                    in if len = Fin (- 1) then Some (Parsed RNull after)
                       else if js_less (js_int (int (length buf))) (js_add stop (Fin 2)) then Some NeedMore
                       else Some (Parsed (RString (to_string buf after stop)) (js_add stop (Fin 2))))
                 else if type = 42 then
                   (let elems = to_number line
                    in if elems = Fin (- 1) then Some (Parsed RNull after) else parse_elems n buf elems 0 after [])
                 else Some (Parsed (RString line) after))))"
| "parse_elems 0 buf elems i cursor arr = None"
| "parse_elems (Suc n) buf elems i cursor arr =
     (if \<not> js_less (js_int (int i)) elems then Some (Parsed (RArray arr) cursor)
      else
        (case parse_at n buf cursor of
           None \<Rightarrow> None
         | Some NeedMore \<Rightarrow> Some NeedMore
         | Some (Parsed v next) \<Rightarrow> parse_elems n buf elems (i + 1) next (arr @ [v])))"

text \<open>\<open>parse\<close>: the reply and the rest of the buffer.\<close>

definition resp_parse :: "nat \<Rightarrow> byte list \<Rightarrow> (resp option \<times> byte list) option" where
  "resp_parse n buf =
     (case parse_at n buf (Fin 0) of
        None \<Rightarrow> None
      | Some NeedMore \<Rightarrow> Some (None, buf)
      | Some (Parsed v next) \<Rightarrow> Some (Some v, drop (from_index (length buf) next) buf))"

text \<open>The handler of \<open>data\<close>: push the chunk, then hand on replies until there is none.\<close>

fun drain :: "nat \<Rightarrow> byte list \<Rightarrow> (resp list \<times> byte list) option" where
  "drain 0 buf = None"
| "drain (Suc n) buf =
     (case resp_parse n buf of
        None \<Rightarrow> None
      | Some (None, buf') \<Rightarrow> Some ([], buf')
      | Some (Some v, buf') \<Rightarrow> map_option (apfst (Cons v)) (drain n buf'))"

definition on_data :: "nat \<Rightarrow> byte list \<Rightarrow> byte list \<Rightarrow> (resp list \<times> byte list) option" where
  "on_data n buf chunk = drain n (if buf = [] then chunk else buf @ chunk)"

fun on_chunks :: "nat \<Rightarrow> byte list \<Rightarrow> byte list list \<Rightarrow> (resp list \<times> byte list) option" where
  "on_chunks n buf [] = Some ([], buf)"
| "on_chunks n buf (c # cs) =
     (case on_data n buf c of
        None \<Rightarrow> None
      | Some (vs, buf') \<Rightarrow> map_option (apfst ((@) vs)) (on_chunks n buf' cs))"

section \<open>What the client does with replies\<close>

text \<open>\<open>pending.shift()\<close>: callbacks, here names, are served in the order of their commands.\<close>

fun settle_replies :: "'k list \<Rightarrow> resp list \<Rightarrow> ('k \<times> resp) list \<times> 'k list" where
  "settle_replies ks [] = ([], ks)"
| "settle_replies [] (v # vs) = settle_replies [] vs"
| "settle_replies (k # ks) (v # vs) = apfst (Cons (k, v)) (settle_replies ks vs)"

datatype pubsub = PubMessage code_points | PubCommand

definition classify_reply :: "resp \<Rightarrow> pubsub" where
  "classify_reply reply =
     (case reply of
        RArray (RString k # vs) \<Rightarrow>
          if k = codes ''message'' \<or> k = codes ''pmessage'' then
            (let i = (if k = codes ''pmessage'' then 3 else 2); arr = RString k # vs
             in if i < length arr then (case arr ! i of RString p \<Rightarrow> PubMessage p | _ \<Rightarrow> PubCommand) else PubCommand)
          else PubCommand
      | _ \<Rightarrow> PubCommand)"

definition client_get :: "resp \<Rightarrow> code_points option" where
  "client_get r = (case r of RString s \<Rightarrow> Some s | _ \<Rightarrow> None)"

definition set_args :: "code_points \<Rightarrow> code_points \<Rightarrow> jsnum option \<Rightarrow> redis_arg list" where
  "set_args key v ttlMs =
     (case ttlMs of
        Some t \<Rightarrow>
          if 0 < t then [ArgText (codes ''SET''), ArgText key, ArgText v, ArgText (codes ''PX''), ArgInt \<lfloor>t\<rfloor>]
          else [ArgText (codes ''SET''), ArgText key, ArgText v]
      | None \<Rightarrow> [ArgText (codes ''SET''), ArgText key, ArgText v])"

section \<open>Well-formed replies\<close>

datatype server_reply = SimpleReply code_points | ErrorReply code_points | IntReply int | BulkReply code_points | NullBulk | ArrayReply "server_reply list" | NullArray

fun reply_bytes :: "server_reply \<Rightarrow> byte list" where
  "reply_bytes (SimpleReply s) = 43 # utf8_encode s @ CRLF"
| "reply_bytes (ErrorReply s) = 45 # utf8_encode s @ CRLF"
| "reply_bytes (IntReply i) = 58 # ascii (int_points i) @ CRLF"
| "reply_bytes (BulkReply s) = bulk_bytes s"
| "reply_bytes NullBulk = 36 # ascii (int_points (- 1)) @ CRLF"
| "reply_bytes (ArrayReply rs) = 42 # ascii (nat_points (length rs)) @ CRLF @ concat (map reply_bytes rs)"
| "reply_bytes NullArray = 42 # ascii (int_points (- 1)) @ CRLF"

fun reply_value :: "server_reply \<Rightarrow> resp" where
  "reply_value (SimpleReply s) = RString s"
| "reply_value (ErrorReply s) = RString (codes ''ERR:'' @ s)"
| "reply_value (IntReply i) = RNumber (js_int i)"
| "reply_value (BulkReply s) = RString s"
| "reply_value NullBulk = RNull"
| "reply_value (ArrayReply rs) = RArray (map reply_value rs)"
| "reply_value NullArray = RNull"

definition line_ok :: "code_points \<Rightarrow> bool" where
  "line_ok s \<longleftrightarrow> list_all (\<lambda>c. scalar_value c \<and> c \<noteq> 13) s"

fun reply_ok :: "server_reply \<Rightarrow> bool" where
  "reply_ok (SimpleReply s) \<longleftrightarrow> line_ok s"
| "reply_ok (ErrorReply s) \<longleftrightarrow> line_ok s"
| "reply_ok (BulkReply s) \<longleftrightarrow> list_all scalar_value s"
| "reply_ok (ArrayReply rs) \<longleftrightarrow> (\<forall>r \<in> set rs. reply_ok r)"
| "reply_ok r \<longleftrightarrow> True"

fun reply_size :: "server_reply \<Rightarrow> nat" where
  "reply_size (ArrayReply rs) = Suc (sum_list (map reply_size rs) + Suc (length rs))"
| "reply_size r = 1"

text \<open>A command is an array of bulk strings.\<close>

lemma encode_command_reply: "encode_command args = reply_bytes (ArrayReply (map (BulkReply \<circ> arg_points) args))"
  by (simp add: encode_command_def comp_def)

section \<open>Positions that are indices\<close>

definition js_pos :: "nat \<Rightarrow> jsvalue" where
  "js_pos n = Fin (of_nat n)"

lemma js_pos_numerals: "Fin 0 = js_pos 0" "Fin 1 = js_pos 1" "Fin 2 = js_pos 2" "js_int (int n) = js_pos n" "js_int (int n + 2) = js_pos (n + 2)"
  by (simp_all add: js_pos_def)

lemma js_pos_order [simp]:
  "js_le (js_pos a) (js_pos b) \<longleftrightarrow> a \<le> b" "js_less (js_pos a) (js_pos b) \<longleftrightarrow> a < b" "js_add (js_pos a) (js_pos b) = js_pos (a + b)"
  "js_pos a \<noteq> Fin (- 1)" "js_pos a = js_pos b \<longleftrightarrow> a = b"
proof -
  have "(of_nat a :: rat) \<noteq> - 1" using of_nat_0_le_iff [of a] by linarith
  then show "js_pos a \<noteq> Fin (- 1)" by (simp add: js_pos_def)
qed (auto simp: js_pos_def js_le_def)

lemma math_trunc_nat [simp]: "math_trunc (of_nat n) = int n"
  using math_trunc_of_int [of "int n"] by simp

lemma from_index_pos [simp]: "from_index len (js_pos n) = min n len"
  by (simp add: from_index_def js_pos_def)

lemma buf_at_pos [simp]: "n < length buf \<Longrightarrow> buf_at buf (js_pos n) = unat (buf ! n)"
  by (simp add: buf_at_def js_pos_def)

lemma utf8_decode_Nil [simp]: "utf8_decode [] = []"
  by (simp add: utf8_decode_def)

lemma to_string_pos: "a \<le> b \<Longrightarrow> b \<le> length buf \<Longrightarrow> to_string buf (js_pos a) (js_pos b) = utf8_decode (take (b - a) (drop a buf))"
  by (auto simp: to_string_def js_pos_def Let_def)

section \<open>Line ends\<close>

lemma crlf_first: "13 \<notin> set l \<Longrightarrow> crlf_at (l @ 13 # 10 # rest) = Some (length l)"
proof (induction l)
  case (Cons x l)
  then show ?case by (cases l) auto
qed simp

lemma crlf_prefix: "13 \<notin> set l \<Longrightarrow> l @ CRLF = p @ q \<Longrightarrow> q \<noteq> [] \<Longrightarrow> crlf_at p = None"
proof (induction l arbitrary: p)
  case Nil
  then show ?case by (cases p; cases "tl p"; cases "tl (tl p)") auto
next
  case (Cons x l)
  show ?case
  proof (cases p)
    case (Cons y p')
    then have "crlf_at p' = None" "y \<noteq> 13" using Cons.IH [of p'] Cons.prems by auto
    then show ?thesis using Cons by (cases p') auto
  qed simp
qed

lemma high_byte: "128 \<le> n \<Longrightarrow> n < 256 \<Longrightarrow> (of_nat n :: byte) \<noteq> 13"
proof
  assume n: "128 \<le> n" "n < 256" "(of_nat n :: byte) = 13"
  have "n = unat (of_nat n :: byte)" using unat_byte [OF n(2)] by simp
  also have "\<dots> = 13" by (simp add: n(3))
  finally show False using n(1) by simp
qed

lemma utf8_point_no_cr: "scalar_value c \<Longrightarrow> c \<noteq> 13 \<Longrightarrow> 13 \<notin> set (utf8_point c)"
proof -
  assume c: "scalar_value c" "c \<noteq> 13"
  have "c < 128 \<Longrightarrow> (of_nat c :: byte) \<noteq> 13" using c(2) unat_byte [of c] unat_byte [of 13] by fastforce
  moreover have "c < 0x800 \<Longrightarrow> 0xC0 + c div 64 < 256" "c < 0x10000 \<Longrightarrow> 0xE0 + c div 4096 < 256" "0xF0 + c div 262144 < 256"
    "0x80 + c mod 64 < 256" "0x80 + c div 64 mod 64 < 256" "0x80 + c div 4096 mod 64 < 256"
    using c(1) by (auto simp: scalar_value_def)
  ultimately show ?thesis using c(1) high_byte
    by (auto simp: utf8_point_def scalar_value_def simp del: of_nat_add)
qed

lemma utf8_no_cr: "line_ok s \<Longrightarrow> 13 \<notin> set (utf8_encode s)"
  using utf8_point_no_cr by (auto simp: utf8_encode_def line_ok_def list_all_iff)

lemma line_ok_int: "line_ok (int_points i)" "line_ok (nat_points n)"
proof -
  have "digit_point c \<Longrightarrow> scalar_value c \<and> c \<noteq> 13" for c by (auto simp: digit_point_def scalar_value_def surrogate_def)
  then have "list_all digit_point ds \<Longrightarrow> line_ok ds" for ds by (auto simp: line_ok_def list_all_iff)
  then show "line_ok (nat_points n)" "line_ok (int_points i)" using nat_points_digits
    by (auto simp: int_points_def line_ok_def scalar_value_def surrogate_def)
qed

lemma line_decodes: "line_ok s \<Longrightarrow> utf8_decode (utf8_encode s) = s"
  by (rule utf8_round_trip) (simp add: line_ok_def list_all_iff)

text \<open>The parser on a complete line, and on an incomplete one.\<close>

lemma parse_at_pos:
  "parse_at (Suc n) buf (js_pos k) =
     (if length buf \<le> k then Some NeedMore
      else
        (case line_end buf (js_pos (k + 1)) of
           None \<Rightarrow> Some NeedMore
         | Some lineEnd \<Rightarrow>
             (let type = buf_at buf (js_pos k); line = to_string buf (js_pos (k + 1)) (js_pos lineEnd); after = js_pos (lineEnd + 2)
              in if type = 43 then Some (Parsed (RString line) after)
                 else if type = 45 then Some (Parsed (RString (codes ''ERR:'' @ line)) after)
                 else if type = 58 then Some (Parsed (RNumber (to_number line)) after)
                 else if type = 36 then
                   (let len = to_number line; stop = js_add after len
                    in if len = Fin (- 1) then Some (Parsed RNull after)
                       else if js_less (js_pos (length buf)) (js_add stop (js_pos 2)) then Some NeedMore
                       else Some (Parsed (RString (to_string buf after stop)) (js_add stop (js_pos 2))))
                 else if type = 42 then
                   (let elems = to_number line
                    in if elems = Fin (- 1) then Some (Parsed RNull after) else parse_elems n buf elems 0 after [])
                 else Some (Parsed (RString line) after))))"
  unfolding parse_at.simps js_pos_numerals js_pos_order by (rule refl)

lemma parse_line:
  assumes "13 \<notin> set l" and buf: "buf = seen @ t # l @ CRLF @ rest"
  shows "parse_at (Suc n) buf (js_pos (length seen)) =
    (let type = unat t; line = utf8_decode l; after = js_pos (length seen + length l + 3)
     in if type = 43 then Some (Parsed (RString line) after)
        else if type = 45 then Some (Parsed (RString (codes ''ERR:'' @ line)) after)
        else if type = 58 then Some (Parsed (RNumber (to_number line)) after)
        else if type = 36 then
          (let len = to_number line; stop = js_add after len
           in if len = Fin (- 1) then Some (Parsed RNull after)
              else if js_less (js_pos (length buf)) (js_add stop (js_pos 2)) then Some NeedMore
              else Some (Parsed (RString (to_string buf after stop)) (js_add stop (js_pos 2))))
        else if type = 42 then
          (let elems = to_number line
           in if elems = Fin (- 1) then Some (Parsed RNull after) else parse_elems n buf elems 0 after [])
        else Some (Parsed (RString line) after))"
proof -
  have 1: "line_end buf (js_pos (length seen + 1)) = Some (length seen + 1 + length l)"
    using crlf_first [OF assms(1), of rest] by (simp add: line_end_def buf)
  have 2: "to_string buf (js_pos (length seen + 1)) (js_pos (length seen + 1 + length l)) = utf8_decode l"
    by (subst to_string_pos) (simp_all add: buf)
  have 3: "buf_at buf (js_pos (length seen)) = unat t" by (simp add: buf)
  have 4: "\<not> length buf \<le> length seen" by (simp add: buf)
  have 5: "length seen + 1 + length l + 2 = length seen + length l + 3" by simp
  show ?thesis unfolding parse_at_pos 1 option.case Let_def 2 3 5 if_not_P [OF 4] by (rule refl)
qed

lemma parse_no_line: "crlf_at (drop 1 p) = None \<Longrightarrow> parse_at (Suc n) (seen @ p) (js_pos (length seen)) = Some NeedMore"
  unfolding parse_at_pos by (cases p) (simp_all add: line_end_def)

section \<open>Well-formed replies are parsed\<close>

lemma reply_bytes_nonempty [simp]: "reply_bytes r \<noteq> []"
  by (cases r) (simp_all add: bulk_bytes_def)

lemma to_number_nat_points: "to_number (nat_points n) = js_pos n"
  using to_number_nat(1) [of "nat_points n"] nat_points_digits [of n] by (simp add: js_pos_def)

lemma number_line [simp]:
  "utf8_decode (ascii (nat_points n)) = nat_points n" "utf8_decode (ascii (int_points i)) = int_points i"
  "13 \<notin> set (ascii (nat_points n))" "13 \<notin> set (ascii (int_points i))"
  using line_decodes line_ok_int utf8_no_cr by (simp_all add: ascii_def)

lemma to_string_middle: "buf = pre @ b @ post \<Longrightarrow> a = length pre \<Longrightarrow> e = length pre + length b \<Longrightarrow> to_string buf (js_pos a) (js_pos e) = utf8_decode b"
  by (subst to_string_pos) simp_all

lemma parse_elems_pos:
  "parse_elems (Suc n) buf (js_pos k) i cursor arr =
     (if \<not> i < k then Some (Parsed (RArray arr) cursor)
      else
        (case parse_at n buf cursor of
           None \<Rightarrow> None
         | Some NeedMore \<Rightarrow> Some NeedMore
         | Some (Parsed v next) \<Rightarrow> parse_elems n buf (js_pos k) (i + 1) next (arr @ [v])))"
  unfolding parse_elems.simps js_pos_numerals js_pos_order by (rule refl)

lemma parse_bulk:
  assumes "list_all scalar_value s" and buf: "buf = seen @ bulk_bytes s @ rest"
  shows "parse_at (Suc n) buf (js_pos (length seen)) = Some (Parsed (RString s) (js_pos (length seen + length (bulk_bytes s))))"
proof -
  let ?d = "ascii (nat_points (length (utf8_encode s)))" and ?b = "utf8_encode s"
  have split: "buf = seen @ 36 # ?d @ CRLF @ (?b @ CRLF @ rest)" by (simp add: buf bulk_bytes_def)
  have "to_string buf (js_pos (length seen + length ?d + 3)) (js_pos (length seen + length ?d + 3 + length ?b)) = utf8_decode ?b"
    by (rule to_string_middle [of _ "seen @ 36 # ?d @ CRLF" _ "CRLF @ rest"]) (simp_all add: split)
  then show ?thesis
    unfolding parse_line [OF number_line(3) split]
    by (simp add: to_number_nat_points utf8_round_trip [OF assms(1)] Let_def split bulk_bytes_def)
qed

text \<open>Elements: each is parsed where the last one ended.\<close>

lemma parse_elems_ok:
  assumes "\<And>r seen rest n. r \<in> set rs \<Longrightarrow> reply_size r \<le> n \<Longrightarrow>
      parse_at n (seen @ reply_bytes r @ rest) (js_pos (length seen)) = Some (Parsed (reply_value r) (js_pos (length seen + length (reply_bytes r))))"
    and "sum_list (map reply_size rs) + Suc (length rs) \<le> n"
  shows "parse_elems n (seen @ concat (map reply_bytes rs) @ rest) (js_pos (i + length rs)) i (js_pos (length seen)) arr =
    Some (Parsed (RArray (arr @ map reply_value rs)) (js_pos (length seen + length (concat (map reply_bytes rs)))))"
  using assms
proof (induction rs arbitrary: seen i arr n)
  case Nil
  then obtain m where "n = Suc m" by (cases n) auto
  then show ?case by (simp add: parse_elems_pos del: parse_elems.simps)
next
  case (Cons r rs)
  then obtain m where n: "n = Suc m" by (cases n) auto
  have r: "parse_at m (seen @ reply_bytes r @ (concat (map reply_bytes rs) @ rest)) (js_pos (length seen)) =
      Some (Parsed (reply_value r) (js_pos (length seen + length (reply_bytes r))))"
    using Cons.prems(2) n by (intro Cons.prems(1)) simp_all
  have "parse_elems m ((seen @ reply_bytes r) @ concat (map reply_bytes rs) @ rest) (js_pos (Suc i + length rs)) (Suc i)
      (js_pos (length (seen @ reply_bytes r))) (arr @ [reply_value r]) =
      Some (Parsed (RArray ((arr @ [reply_value r]) @ map reply_value rs)) (js_pos (length (seen @ reply_bytes r) + length (concat (map reply_bytes rs)))))"
    using Cons.prems n by (intro Cons.IH) simp_all
  with r show ?case unfolding n parse_elems_pos by (simp add: add.assoc)
qed

lemma parse_reply:
  "reply_ok r \<Longrightarrow> reply_size r \<le> n \<Longrightarrow>
   parse_at n (seen @ reply_bytes r @ rest) (js_pos (length seen)) = Some (Parsed (reply_value r) (js_pos (length seen + length (reply_bytes r))))"
proof (induction r arbitrary: seen rest n rule: reply_bytes.induct)
  case (1 s)
  then obtain m where n: "n = Suc m" by (cases n) auto
  have "seen @ reply_bytes (SimpleReply s) @ rest = seen @ 43 # utf8_encode s @ CRLF @ rest" by simp
  from parse_line [OF utf8_no_cr this] 1 n show ?case by (simp add: line_decodes Let_def)
next
  case (2 s)
  then obtain m where n: "n = Suc m" by (cases n) auto
  have "seen @ reply_bytes (ErrorReply s) @ rest = seen @ 45 # utf8_encode s @ CRLF @ rest" by simp
  from parse_line [OF utf8_no_cr this] 2 n show ?case by (simp add: line_decodes Let_def)
next
  case (3 i)
  then obtain m where n: "n = Suc m" by (cases n) auto
  have "seen @ reply_bytes (IntReply i) @ rest = seen @ 58 # ascii (int_points i) @ CRLF @ rest" by simp
  from parse_line [OF number_line(4) this] n show ?case by (simp add: to_number_int Let_def)
next
  case (4 s)
  then obtain m where n: "n = Suc m" by (cases n) auto
  from 4 show ?case using parse_bulk [OF _ refl, of s m seen rest] by (simp add: n)
next
  case 5
  then obtain m where n: "n = Suc m" by (cases n) auto
  have "seen @ reply_bytes NullBulk @ rest = seen @ 36 # ascii (int_points (- 1)) @ CRLF @ rest" by simp
  from parse_line [OF number_line(4) this] n show ?case by (simp add: to_number_int Let_def)
next
  case (6 rs)
  then obtain m where n: "n = Suc m" by (cases n) auto
  have split: "seen @ reply_bytes (ArrayReply rs) @ rest =
      seen @ 42 # ascii (nat_points (length rs)) @ CRLF @ (concat (map reply_bytes rs) @ rest)" by simp
  let ?seen = "seen @ 42 # ascii (nat_points (length rs)) @ CRLF"
  have "parse_elems m (?seen @ concat (map reply_bytes rs) @ rest) (js_pos (0 + length rs)) 0 (js_pos (length ?seen)) [] =
      Some (Parsed (RArray ([] @ map reply_value rs)) (js_pos (length ?seen + length (concat (map reply_bytes rs)))))"
    using 6 n by (intro parse_elems_ok) simp_all
  then show ?case unfolding n parse_line [OF number_line(3) split]
    by (simp add: to_number_nat_points Let_def numeral_3_eq_3)
next
  case 7
  then obtain m where n: "n = Suc m" by (cases n) auto
  have "seen @ reply_bytes NullArray @ rest = seen @ 42 # ascii (int_points (- 1)) @ CRLF @ rest" by simp
  from parse_line [OF number_line(4) this] n show ?case by (simp add: to_number_int Let_def)
qed

section \<open>Incomplete replies wait\<close>

lemma append_two: "xs @ ys = p @ q \<Longrightarrow> (\<exists>r. p = xs @ r \<and> ys = r @ q) \<or> (\<exists>r. r \<noteq> [] \<and> xs = p @ r \<and> q = r @ ys)"
  by (auto simp: append_eq_append_conv2)

lemma no_line_prefix: "13 \<notin> set l \<Longrightarrow> t # l @ CRLF = p @ q \<Longrightarrow> q \<noteq> [] \<Longrightarrow> crlf_at (drop 1 p) = None"
  using crlf_prefix by (cases p) auto

text \<open>The head of an array or a bulk string is a line.\<close>

lemma parse_head_prefix:
  assumes "13 \<notin> set l" "t # l @ CRLF @ body = p @ q" "q \<noteq> []"
  shows "parse_at (Suc n) (seen @ p) (js_pos (length seen)) = Some NeedMore \<or> (\<exists>p'. p = t # l @ CRLF @ p' \<and> body = p' @ q)"
proof -
  have "(t # l @ CRLF) @ body = p @ q" using assms(2) by simp
  from append_two [OF this] show ?thesis
  proof (elim disjE exE conjE)
    fix r assume "r \<noteq> []" "t # l @ CRLF = p @ r"
    then show ?thesis using parse_no_line no_line_prefix [OF assms(1)] by blast
  qed simp
qed

lemma parse_elems_prefix:
  assumes "\<And>r seen p q n. r \<in> set rs \<Longrightarrow> reply_size r \<le> n \<Longrightarrow> reply_bytes r = p @ q \<Longrightarrow> q \<noteq> [] \<Longrightarrow>
      parse_at n (seen @ p) (js_pos (length seen)) = Some NeedMore"
    and "\<forall>r \<in> set rs. reply_ok r" "sum_list (map reply_size rs) + Suc (length rs) \<le> n" "concat (map reply_bytes rs) = p @ q" "q \<noteq> []"
  shows "parse_elems n (seen @ p) (js_pos (i + length rs)) i (js_pos (length seen)) arr = Some NeedMore"
  using assms
proof (induction rs arbitrary: seen i arr n p)
  case (Cons r rs)
  then obtain m where n: "n = Suc m" by (cases n) auto
  have each: "parse_at k (sn @ p1) (js_pos (length sn)) = Some NeedMore"
    if "r' \<in> set rs" "reply_size r' \<le> k" "reply_bytes r' = p1 @ q1" "q1 \<noteq> []" for r' sn p1 q1 k
    using that by (intro Cons.prems(1)) simp_all
  have "reply_bytes r @ concat (map reply_bytes rs) = p @ q" using Cons.prems(4) by simp
  from append_two [OF this] show ?case
  proof (elim disjE exE conjE)
    fix p' assume p': "p = reply_bytes r @ p'" "concat (map reply_bytes rs) = p' @ q"
    have r: "parse_at m (seen @ reply_bytes r @ p') (js_pos (length seen)) =
        Some (Parsed (reply_value r) (js_pos (length seen + length (reply_bytes r))))"
      using Cons.prems(2,3) n by (intro parse_reply) simp_all
    have "parse_elems m ((seen @ reply_bytes r) @ p') (js_pos (Suc i + length rs)) (Suc i) (js_pos (length (seen @ reply_bytes r)))
        (arr @ [reply_value r]) = Some NeedMore"
    proof (rule Cons.IH)
      show "parse_at k (sn @ p1) (js_pos (length sn)) = Some NeedMore"
        if "r' \<in> set rs" "reply_size r' \<le> k" "reply_bytes r' = p1 @ q1" "q1 \<noteq> []" for r' sn p1 q1 k
        using that by (rule each)
    qed (use Cons.prems(2,3,5) n p'(2) in simp_all)
    with r show ?thesis unfolding n parse_elems_pos p'(1) by (simp add: add.assoc)
  next
    fix p' assume p': "p' \<noteq> []" "reply_bytes r = p @ p'"
    have "parse_at m (seen @ p) (js_pos (length seen)) = Some NeedMore"
      using Cons.prems(3) n p' by (intro Cons.prems(1)) simp_all
    then show ?thesis unfolding n parse_elems_pos by simp
  qed
qed simp

lemma parse_prefix:
  "reply_ok r \<Longrightarrow> reply_size r \<le> n \<Longrightarrow> reply_bytes r = p @ q \<Longrightarrow> q \<noteq> [] \<Longrightarrow>
   parse_at n (seen @ p) (js_pos (length seen)) = Some NeedMore"
proof (induction r arbitrary: seen p q n rule: reply_bytes.induct)
  case (4 s)
  then obtain m where n: "n = Suc m" by (cases n) auto
  let ?d = "ascii (nat_points (length (utf8_encode s)))" and ?b = "utf8_encode s"
  have "36 # ?d @ CRLF @ (?b @ CRLF) = p @ q" using 4(3) by (simp add: bulk_bytes_def)
  from parse_head_prefix [OF number_line(3) this 4(4), of m seen] show ?case
  proof (elim disjE exE conjE)
    fix p' assume p': "p = 36 # ?d @ CRLF @ p'" "?b @ CRLF = p' @ q"
    have "length (?b @ CRLF) = length p' + length q" using p'(2) by (metis length_append)
    then have "length p' < length ?b + 2" using 4(4) by (cases q) simp_all
    moreover have "seen @ p = seen @ 36 # ?d @ CRLF @ p'" by (simp add: p'(1))
    ultimately show ?thesis unfolding n parse_line [OF number_line(3) \<open>seen @ p = seen @ 36 # ?d @ CRLF @ p'\<close>]
      by (simp add: to_number_nat_points Let_def p'(1))
  qed (simp add: n)
next
  case (6 rs)
  then obtain m where n: "n = Suc m" by (cases n) auto
  let ?d = "ascii (nat_points (length rs))"
  have "42 # ?d @ CRLF @ concat (map reply_bytes rs) = p @ q" using 6(4) by simp
  from parse_head_prefix [OF number_line(3) this 6(5), of m seen] show ?case
  proof (elim disjE exE conjE)
    fix p' assume p': "p = 42 # ?d @ CRLF @ p'" "concat (map reply_bytes rs) = p' @ q"
    have split: "seen @ p = seen @ 42 # ?d @ CRLF @ p'" by (simp add: p'(1))
    have "parse_elems m ((seen @ 42 # ?d @ CRLF) @ p') (js_pos (0 + length rs)) 0 (js_pos (length (seen @ 42 # ?d @ CRLF))) [] = Some NeedMore"
      using 6 n p'(2) by (intro parse_elems_prefix) auto
    then show ?thesis unfolding n parse_line [OF number_line(3) split]
      by (simp add: to_number_nat_points Let_def numeral_3_eq_3 p'(1))
  qed (simp add: n)
next
  case (1 s)
  then show ?case using parse_no_line [OF no_line_prefix [OF utf8_no_cr]] by (cases n) auto
next
  case (2 s)
  then show ?case using parse_no_line [OF no_line_prefix [OF utf8_no_cr]] by (cases n) auto
next
  case (3 i)
  then show ?case using parse_no_line [OF no_line_prefix [OF number_line(4)]] by (cases n) auto
next
  case 5
  then show ?case using parse_no_line [OF no_line_prefix [OF number_line(4)]] by (cases n) auto
next
  case 7
  then show ?case using parse_no_line [OF no_line_prefix [OF number_line(4)]] by (cases n) auto
qed

section \<open>Streams\<close>

definition reply_stream :: "server_reply list \<Rightarrow> byte list" where
  "reply_stream rs = concat (map reply_bytes rs)"

definition stream_fuel :: "server_reply list \<Rightarrow> nat" where
  "stream_fuel rs = sum_list (map reply_size rs) + length rs + 2"

text \<open>\<open>buf\<close> is what has arrived of the replies \<open>rs\<close> and is not yet a whole one.\<close>

definition waiting :: "byte list \<Rightarrow> server_reply list \<Rightarrow> bool" where
  "waiting buf rs \<longleftrightarrow> (case rs of [] \<Rightarrow> buf = [] | r # _ \<Rightarrow> length buf < length (reply_bytes r))"

lemma reply_size_pos [simp]: "0 < reply_size r"
  by (cases r) simp_all

lemma resp_parse_reply:
  assumes "reply_ok r" "reply_size r \<le> n"
  shows "resp_parse n (reply_bytes r @ rest) = Some (Some (reply_value r), rest)"
  using parse_reply [OF assms, of "[]" rest] by (simp add: resp_parse_def js_pos_numerals)

lemma resp_parse_wait:
  assumes "reply_ok r" "reply_size r \<le> n" "reply_bytes r = p @ q" "q \<noteq> []"
  shows "resp_parse n p = Some (None, p)"
  using parse_prefix [OF assms, of "[]"] by (simp add: resp_parse_def js_pos_numerals)

lemma resp_parse_empty: "0 < n \<Longrightarrow> resp_parse n [] = Some (None, [])"
  by (cases n) (simp_all add: resp_parse_def js_pos_numerals parse_at_pos del: parse_at.simps)

lemma drain_stream:
  assumes "\<forall>r \<in> set rs. reply_ok r" "stream_fuel rs \<le> n" "buf @ rem = reply_stream rs"
  shows "\<exists>k \<le> length rs. \<exists>buf'. drain n buf = Some (map reply_value (take k rs), buf') \<and> buf' @ rem = reply_stream (drop k rs) \<and> waiting buf' (drop k rs)"
  using assms
proof (induction rs arbitrary: buf n)
  case Nil
  then obtain m where n: "n = Suc m" by (cases n) (auto simp: stream_fuel_def)
  have "buf = []" using Nil by (simp add: reply_stream_def)
  moreover have "0 < m" using Nil.prems(2) by (simp add: n stream_fuel_def)
  ultimately show ?case using Nil.prems(3) by (simp add: n waiting_def reply_stream_def resp_parse_empty)
next
  case (Cons r rs)
  then obtain m where n: "n = Suc m" by (cases n) (auto simp: stream_fuel_def)
  have fuel: "reply_size r \<le> m" "stream_fuel rs \<le> m" and ok: "reply_ok r" "\<forall>r \<in> set rs. reply_ok r"
    using Cons.prems(1,2) n by (simp_all add: stream_fuel_def)
  have "reply_bytes r @ reply_stream rs = buf @ rem" using Cons.prems(3) by (simp add: reply_stream_def)
  from append_two [OF this] show ?case
  proof (elim disjE exE conjE)
    fix b assume b: "buf = reply_bytes r @ b" "reply_stream rs = b @ rem"
    from Cons.IH [OF ok(2) fuel(2) b(2) [symmetric]] obtain k buf' where
      k: "k \<le> length rs" "drain m b = Some (map reply_value (take k rs), buf')" "buf' @ rem = reply_stream (drop k rs)" "waiting buf' (drop k rs)"
      by blast
    have "drain n buf = Some (map reply_value (take (Suc k) (r # rs)), buf')"
      using k(2) resp_parse_reply [OF ok(1) fuel(1), of b] by (simp add: n b(1))
    then show ?thesis using k by (intro exI [of _ "Suc k"] exI [of _ buf'] conjI) simp_all
  next
    fix b assume b: "b \<noteq> []" "reply_bytes r = buf @ b"
    have "drain n buf = Some (map reply_value (take 0 (r # rs)), buf)" using resp_parse_wait [OF ok(1) fuel(1) b(2,1)] by (simp add: n)
    moreover have "waiting buf (drop 0 (r # rs))" using b by (simp add: waiting_def)
    ultimately show ?thesis using Cons.prems(3) by (intro exI [of _ 0] exI [of _ buf] conjI) simp_all
  qed
qed

lemma stream_fuel_drop: "stream_fuel (drop k rs) \<le> stream_fuel rs"
proof -
  have "sum_list (map reply_size rs) = sum_list (map reply_size (take k rs)) + sum_list (map reply_size (drop k rs))"
    by (metis append_take_drop_id map_append sum_list_append)
  then show ?thesis by (simp add: stream_fuel_def)
qed

lemma chunks_stream:
  assumes "\<forall>r \<in> set rs. reply_ok r" "stream_fuel rs \<le> n" "waiting buf rs" "buf @ concat chunks @ rem = reply_stream rs"
  shows "\<exists>k \<le> length rs. \<exists>buf'. on_chunks n buf chunks = Some (map reply_value (take k rs), buf') \<and>
    buf' @ rem = reply_stream (drop k rs) \<and> waiting buf' (drop k rs)"
  using assms
proof (induction chunks arbitrary: buf rs)
  case Nil
  then show ?case by (intro exI [of _ 0] exI [of _ buf]) simp
next
  case (Cons c cs)
  have "(buf @ c) @ (concat cs @ rem) = reply_stream rs" using Cons.prems(4) by simp
  from drain_stream [OF Cons.prems(1,2) this] obtain k b where
    k: "k \<le> length rs" "drain n (buf @ c) = Some (map reply_value (take k rs), b)" "b @ concat cs @ rem = reply_stream (drop k rs)" "waiting b (drop k rs)"
    by blast
  have rest: "\<forall>r \<in> set (drop k rs). reply_ok r" "stream_fuel (drop k rs) \<le> n"
    using Cons.prems(1) in_set_dropD stream_fuel_drop [of k rs] Cons.prems(2) by fastforce+
  from Cons.IH [OF rest k(4,3)] obtain j b' where
    j: "j \<le> length (drop k rs)" "on_chunks n b cs = Some (map reply_value (take j (drop k rs)), b')"
      "b' @ rem = reply_stream (drop j (drop k rs))" "waiting b' (drop j (drop k rs))"
    by blast
  have "on_data n buf c = Some (map reply_value (take k rs), b)" using k(2) by (cases buf) (simp_all add: on_data_def)
  then have "on_chunks n buf (c # cs) = Some (map reply_value (take (k + j) rs), b')" using j(2) by (simp add: take_add)
  then show ?case using k(1) j by (intro exI [of _ "k + j"] exI [of _ b'] conjI) (simp_all add: add.commute)
qed

text \<open>When all bytes have arrived, all replies have been handed on, and the \<open>n\<close>-th command gets the \<open>n\<close>-th.\<close>

lemma stream_replies:
  assumes "\<forall>r \<in> set rs. reply_ok r" "stream_fuel rs \<le> n" "concat chunks = reply_stream rs"
  shows "on_chunks n [] chunks = Some (map reply_value rs, [])"
proof -
  have "waiting [] rs" by (cases rs) (simp_all add: waiting_def)
  with chunks_stream [OF assms(1,2), of "[]" chunks "[]"] assms(3) obtain k buf' where
    k: "k \<le> length rs" "on_chunks n [] chunks = Some (map reply_value (take k rs), buf')" "buf' = reply_stream (drop k rs)" "waiting buf' (drop k rs)"
    by auto
  have "drop k rs = []" using k(3,4) by (cases "drop k rs") (simp_all add: waiting_def reply_stream_def)
  then show ?thesis using k by (simp add: reply_stream_def)
qed

lemma settle_in_order: "length vs \<le> length ks \<Longrightarrow> settle_replies ks vs = (zip ks vs, drop (length vs) ks)"
  by (induction ks vs rule: settle_replies.induct) simp_all

text \<open>The server's side of a command: what \<open>encodeCommand\<close> writes is the array of its arguments.\<close>

lemma command_round_trip:
  assumes "\<forall>a \<in> set args. list_all scalar_value (arg_points a)" "2 * length args + 2 \<le> n"
  shows "resp_parse n (encode_command args @ rest) = Some (Some (RArray (map (RString \<circ> arg_points) args)), rest)"
proof -
  have "sum_list (map (\<lambda>a. 1) xs) = length xs" for xs :: "redis_arg list" by (induction xs) simp_all
  then have "reply_size (ArrayReply (map (BulkReply \<circ> arg_points) args)) \<le> n" using assms(2) by (simp add: comp_def)
  from resp_parse_reply [OF _ this] assms(1) show ?thesis by (simp add: encode_command_reply comp_def)
qed

section \<open>Malformed lengths\<close>

text \<open>A length that is no number is not an error: the reply is the empty string, the position becomes \<open>NaN\<close>, nothing is taken off
  the buffer, and the handler of \<open>data\<close> does not return.\<close>

lemma bad_length_parsed:
  "resp_parse (Suc n) [36, 120, 13, 10] = Some (Some (RString []), [36, 120, 13, 10])"
  by (simp add: resp_parse_def line_end_def from_index_def math_trunc_def to_string_def buf_at_def utf8_decode_def utf8_start_def
      to_number_def trim_points_def js_space_def decimal_literal_def strip_sign_def digit_point_def radix_literal_def codes_def Let_def js_le_def)

lemma bad_length_hangs: "drain n [36, 120, 13, 10] = None"
proof (induction n)
  case (Suc n)
  show ?case
  proof (cases n)
    case 0
    then show ?thesis by (simp add: resp_parse_def)
  next
    case (Suc m)
    with Suc.IH bad_length_parsed [of m] show ?thesis by (simp del: parse_at.simps)
  qed
qed simp

text \<open>An error reply and a value that begins with \<open>ERR:\<close> are the same string to the client, and \<open>get\<close> returns either.\<close>

lemma error_reply_is_a_value: "client_get (reply_value (ErrorReply e)) = Some (codes ''ERR:'' @ e)"
  by (simp add: client_get_def)

end
