(* ===== verification/RedisCluster.thy ===== *)
theory RedisCluster
  imports Resp
begin

text \<open>
  Redis Cluster: \<open>cluster.ts\<close> (hash slots, redirects, topology) and \<open>cluster-client.ts\<close> (routing) of \<open>packages/core/src/transports\<close>.

  \<open>hash_slot_tag\<close>: keys with the same tag share a slot.  \<open>slot_map_owner\<close>: the last range that
  covers a slot owns it.

  The nodes are a function of the command and the world \<open>'w\<close>: \<open>send node args w\<close> is the reply, or the error of a connection that fails.  The
  pool of connections only saves reconnecting and is left to \<open>send\<close>.  \<open>cc_sent\<close> records the commands.  \<open>routed\<close> is the path of redirects a
  command takes; \<open>route_follows\<close>: the client takes it, and gives up after \<open>maxRedirects + 1\<close> nodes.
\<close>

section \<open>Hash slots\<close>

definition crc16_bit :: "16 word \<Rightarrow> 16 word" where
  "crc16_bit crc = (if crc AND 0x8000 \<noteq> 0 then push_bit 1 crc XOR 0x1021 else push_bit 1 crc)"

definition crc16_byte :: "16 word \<Rightarrow> byte \<Rightarrow> 16 word" where
  "crc16_byte crc b = (crc16_bit ^^ 8) (crc XOR push_bit 8 (ucast b))"

definition crc16 :: "byte list \<Rightarrow> 16 word" where
  "crc16 buf = foldl crc16_byte 0 buf"

definition REDIS_CLUSTER_SLOTS :: nat where
  "REDIS_CLUSTER_SLOTS = 16384"

definition hash_key :: "code_points \<Rightarrow> code_points" where
  "hash_key key =
     (let open_at = length (takeWhile (\<lambda>c. c \<noteq> 123) key); rest = drop (open_at + 1) key; tag = takeWhile (\<lambda>c. c \<noteq> 125) rest
      in if open_at < length key \<and> length tag < length rest \<and> tag \<noteq> [] then tag else key)"

definition hash_slot :: "code_points \<Rightarrow> nat" where
  "hash_slot key = unat (crc16 (utf8_encode (hash_key key))) mod REDIS_CLUSTER_SLOTS"

lemma hash_slot_bound: "hash_slot key < REDIS_CLUSTER_SLOTS"
  by (simp add: hash_slot_def REDIS_CLUSTER_SLOTS_def)

text \<open>Keys with the same tag are in the same slot.\<close>

lemma hash_key_tag:
  assumes "123 \<notin> set pre" "125 \<notin> set tag" "tag \<noteq> []"
  shows "hash_key (pre @ 123 # tag @ 125 # post) = tag"
proof -
  have o: "takeWhile (\<lambda>c. c \<noteq> 123) (pre @ 123 # tag @ 125 # post) = pre" using assms(1)
    by (induction pre) auto
  have t: "takeWhile (\<lambda>c. c \<noteq> 125) (tag @ 125 # post) = tag" using assms(2) by (induction tag) auto
  show ?thesis using assms(3) by (simp add: hash_key_def o t)
qed

lemma hash_slot_tag:
  "123 \<notin> set pre \<Longrightarrow> 125 \<notin> set tag \<Longrightarrow> tag \<noteq> [] \<Longrightarrow>
   hash_slot (pre @ 123 # tag @ 125 # post) = unat (crc16 (utf8_encode tag)) mod REDIS_CLUSTER_SLOTS"
  by (simp add: hash_slot_def hash_key_tag)

lemma hash_key_plain: "123 \<notin> set key \<Longrightarrow> hash_key key = key"
proof -
  assume "123 \<notin> set key"
  then have t: "takeWhile (\<lambda>c. c \<noteq> 123) key = key" by (induction key) auto
  show ?thesis unfolding hash_key_def t Let_def by simp
qed

text \<open>The checksum of a one-byte key, as CRC-16/XMODEM has it.\<close>

lemma crc16_check: "crc16 [0x31] = 0x2672"
  by code_simp

section \<open>Redirects\<close>

datatype redirect_kind = Moved | Ask

record redirect =
  re_kind :: redirect_kind
  re_slot :: nat
  re_host :: code_points
  re_port :: int

definition line_terminator :: "nat \<Rightarrow> bool" where
  "line_terminator c \<longleftrightarrow> c \<in> {10, 13, 0x2028, 0x2029}"

text \<open>The three groups of the regular expression.\<close>

definition redirect_groups :: "code_points \<Rightarrow> (redirect_kind \<times> code_points \<times> code_points) option" where
  "redirect_groups t =
     (case (if take 5 t = codes ''MOVED'' then Some (Moved, drop 5 t)
            else if take 3 t = codes ''ASK'' then Some (Ask, drop 3 t) else None) of
        None \<Rightarrow> None
      | Some (kind, r1) \<Rightarrow>
          (let r2 = dropWhile js_space r1; ds = takeWhile digit_point r2; r3 = dropWhile digit_point r2; endpoint = dropWhile js_space r3
           in if length r2 < length r1 \<and> ds \<noteq> [] \<and> length endpoint < length r3 \<and> endpoint \<noteq> [] \<and> \<not> list_ex line_terminator endpoint
              then Some (kind, ds, endpoint) else None))"

definition split_last_colon :: "code_points \<Rightarrow> (code_points \<times> code_points) option" where
  "split_last_colon s =
     (let port = rev (takeWhile (\<lambda>c. c \<noteq> 58) (rev s))
      in if length port < length s then Some (take (length s - length port - 1) s, port) else None)"

definition parse_redirect :: "code_points \<Rightarrow> redirect option" where
  "parse_redirect message =
     (case redirect_groups (trim_points message) of
        None \<Rightarrow> None
      | Some (kind, ds, endpoint) \<Rightarrow>
          (case split_last_colon endpoint of
             None \<Rightarrow> None
           | Some (host, port) \<Rightarrow>
               (case to_number port of
                  Fin p \<Rightarrow>
                    if p = of_int \<lfloor>p\<rfloor> \<and> host \<noteq> []
                    then Some \<lparr>re_kind = kind, re_slot = points_value 10 ds, re_host = host, re_port = \<lfloor>p\<rfloor>\<rparr> else None
                | _ \<Rightarrow> None)))"

definition redirect_of :: "resp \<Rightarrow> redirect option" where
  "redirect_of reply =
     (case reply of
        RString s \<Rightarrow> parse_redirect (if take 4 s = codes ''ERR:'' then drop 4 s else s)
      | _ \<Rightarrow> None)"

definition kind_points :: "redirect_kind \<Rightarrow> code_points" where
  "kind_points k = codes (case k of Moved \<Rightarrow> ''MOVED'' | Ask \<Rightarrow> ''ASK'')"

definition redirect_points :: "redirect \<Rightarrow> code_points" where
  "redirect_points r = kind_points (re_kind r) @ 32 # nat_points (re_slot r) @ 32 # re_host r @ 58 # int_points (re_port r)"

definition redirect_ok :: "redirect \<Rightarrow> bool" where
  "redirect_ok r \<longleftrightarrow> re_host r \<noteq> [] \<and> \<not> js_space (hd (re_host r)) \<and> \<not> list_ex line_terminator (re_host r)"

text \<open>What a node writes is read back, also when the host has colons.\<close>

lemma digit_points_plain: "digit_point c \<Longrightarrow> \<not> js_space c \<and> \<not> line_terminator c \<and> c \<noteq> 58"
  by (auto simp: digit_point_def js_space_def line_terminator_def)

lemma int_points_plain: "c \<in> set (int_points i) \<Longrightarrow> \<not> js_space c \<and> \<not> line_terminator c \<and> c \<noteq> 58"
proof -
  assume c: "c \<in> set (int_points i)"
  have "digit_point d" if "d \<in> set (nat_points n)" for d n using nat_points_digits [of n] that by (simp add: list_all_iff)
  then have "c = 45 \<or> digit_point c" using c by (auto simp: int_points_def split: if_splits)
  then show ?thesis
  proof
    assume "c = 45"
    then show ?thesis by (simp add: js_space_def line_terminator_def)
  qed (rule digit_points_plain)
qed

lemma int_points_nonempty: "int_points i \<noteq> []"
  using nat_points_digits by (simp add: int_points_def)

lemma trim_points_id: "s \<noteq> [] \<Longrightarrow> \<not> js_space (hd s) \<Longrightarrow> \<not> js_space (last s) \<Longrightarrow> trim_points s = s"
proof -
  assume s: "s \<noteq> []" "\<not> js_space (hd s)" "\<not> js_space (last s)"
  have "dropWhile js_space s = s" using s(1,2) by (cases s) simp_all
  moreover have "dropWhile js_space (rev s) = rev s" using s(1,3) by (cases "rev s") (auto simp: hd_rev [symmetric])
  ultimately show ?thesis by (simp add: trim_points_def)
qed

lemma split_last_colon_back: "58 \<notin> set port \<Longrightarrow> split_last_colon (host @ 58 # port) = Some (host, port)"
proof -
  assume "58 \<notin> set port"
  then have "\<forall>x \<in> set (rev port). x \<noteq> 58" by auto
  then have "takeWhile (\<lambda>c. c \<noteq> 58) (rev port @ 58 # rev host) = rev port" by (simp add: takeWhile_tail)
  then show ?thesis by (simp add: split_last_colon_def)
qed

lemma redirect_groups_back:
  assumes "redirect_ok r"
  shows "redirect_groups (redirect_points r) = Some (re_kind r, nat_points (re_slot r), re_host r @ 58 # int_points (re_port r))"
proof -
  let ?ds = "nat_points (re_slot r)" and ?e = "re_host r @ 58 # int_points (re_port r)"
  have ds: "list_all digit_point ?ds" "?ds \<noteq> []" using nat_points_digits by blast+
  have hd_ds: "\<not> js_space (hd ?ds)" using ds digit_points_plain by (cases ?ds) simp_all
  have sp: "js_space 32" "\<not> js_space 58" by (simp_all add: js_space_def)
  have 1: "dropWhile js_space (?ds @ 32 # ?e) = ?ds @ 32 # ?e"
    using ds(2) hd_ds sp by (cases ?ds) simp_all
  have 2: "takeWhile digit_point (?ds @ 32 # ?e) = ?ds" "dropWhile digit_point (?ds @ 32 # ?e) = 32 # ?e"
    using ds(1) by (simp_all add: list_all_iff takeWhile_tail digit_point_def)
  have 3: "dropWhile js_space ?e = ?e"
    using assms sp by (cases "re_host r") (simp_all add: redirect_ok_def)
  have 4: "\<not> list_ex line_terminator ?e"
    using assms int_points_plain by (auto simp: redirect_ok_def list_ex_iff line_terminator_def)
  have head: "redirect_points r = kind_points (re_kind r) @ 32 # ?ds @ 32 # ?e" by (simp add: redirect_points_def)
  show ?thesis
  proof (cases "re_kind r")
    case Moved
    then have "take 5 (redirect_points r) = codes ''MOVED''" "drop 5 (redirect_points r) = 32 # ?ds @ 32 # ?e"
      by (simp_all add: head kind_points_def codes_def)
    then show ?thesis using ds(2) 4 Moved by (simp add: redirect_groups_def 1 2 3 sp Let_def)
  next
    case Ask
    then have "take 5 (redirect_points r) \<noteq> codes ''MOVED''" "take 3 (redirect_points r) = codes ''ASK''"
      "drop 3 (redirect_points r) = 32 # ?ds @ 32 # ?e"
      by (simp_all add: head kind_points_def codes_def)
    then show ?thesis using ds(2) 4 Ask by (simp add: redirect_groups_def 1 2 3 sp Let_def)
  qed
qed

lemma redirect_back:
  assumes "redirect_ok r"
  shows "parse_redirect (redirect_points r) = Some r"
proof -
  have "redirect_points r \<noteq> []" "\<not> js_space (hd (redirect_points r))"
    by (cases "re_kind r"; simp add: redirect_points_def kind_points_def codes_def js_space_def)+
  moreover have "last (redirect_points r) = last (int_points (re_port r))" by (simp add: redirect_points_def int_points_nonempty)
  then have "\<not> js_space (last (redirect_points r))" using int_points_plain [OF last_in_set [OF int_points_nonempty]] by metis
  ultimately have "trim_points (redirect_points r) = redirect_points r" by (rule trim_points_id)
  moreover have "58 \<notin> set (int_points (re_port r))" using int_points_plain by blast
  moreover have "points_value 10 (nat_points (re_slot r)) = re_slot r" using nat_points_digits by blast
  ultimately show ?thesis using assms
    by (simp add: parse_redirect_def redirect_groups_back split_last_colon_back to_number_int redirect_ok_def)
qed

section \<open>Topology\<close>

record cluster_node =
  cn_host :: code_points
  cn_port :: jsvalue

record slot_range =
  sr_start :: jsvalue
  sr_end :: jsvalue
  sr_master :: cluster_node
  sr_replicas :: "cluster_node list"

definition parse_node :: "resp \<Rightarrow> cluster_node option" where
  "parse_node r =
     (case r of
        RArray (RString host # RNumber port # _) \<Rightarrow> Some \<lparr>cn_host = host, cn_port = port\<rparr>
      | _ \<Rightarrow> None)"

definition parse_range :: "resp \<Rightarrow> slot_range option" where
  "parse_range entry =
     (case entry of
        RArray (RNumber start # RNumber stop # ns) \<Rightarrow>
          (case List.map_filter parse_node ns of
             [] \<Rightarrow> None
           | master # replicas \<Rightarrow> Some \<lparr>sr_start = start, sr_end = stop, sr_master = master, sr_replicas = replicas\<rparr>)
      | _ \<Rightarrow> None)"

definition parse_cluster_slots :: "resp \<Rightarrow> slot_range list" where
  "parse_cluster_slots reply = (case reply of RArray entries \<Rightarrow> List.map_filter parse_range entries | _ \<Rightarrow> [])"

text \<open>A fractional or negative slot is a property of the array and not an element.\<close>

definition set_slot :: "jsnum \<Rightarrow> cluster_node \<Rightarrow> cluster_node option list \<Rightarrow> cluster_node option list" where
  "set_slot slot n m = (if slot = of_int \<lfloor>slot\<rfloor> \<and> 0 \<le> slot then m[nat \<lfloor>slot\<rfloor> := Some n] else m)"

function assign_slots :: "jsnum \<Rightarrow> jsvalue \<Rightarrow> cluster_node \<Rightarrow> cluster_node option list \<Rightarrow> cluster_node option list" where
  "assign_slots slot stop n m =
     (if js_le (Fin slot) stop \<and> slot < of_nat REDIS_CLUSTER_SLOTS then assign_slots (slot + 1) stop n (set_slot slot n m) else m)"
  by pat_completeness auto
termination
proof (relation "measure (\<lambda>(slot, _). nat \<lceil>of_nat REDIS_CLUSTER_SLOTS - slot\<rceil>)")
  fix slot :: jsnum and stop :: jsvalue and n :: cluster_node and m :: "cluster_node option list"
  assume "js_le (Fin slot) stop \<and> slot < of_nat REDIS_CLUSTER_SLOTS"
  then have "0 < \<lceil>of_nat REDIS_CLUSTER_SLOTS - slot\<rceil>" by simp
  moreover have "\<lceil>of_nat REDIS_CLUSTER_SLOTS - (slot + 1)\<rceil> = \<lceil>of_nat REDIS_CLUSTER_SLOTS - slot\<rceil> - 1"
    using ceiling_diff_one [of "of_nat REDIS_CLUSTER_SLOTS - slot"] by (simp add: algebra_simps)
  ultimately show "((slot + 1, stop, n, set_slot slot n m), slot, stop, n, m) \<in> measure (\<lambda>(slot, _). nat \<lceil>of_nat REDIS_CLUSTER_SLOTS - slot\<rceil>)"
    by simp
qed simp

declare assign_slots.simps [simp del]

text \<open>A range that starts at minus infinity, on which the loop of the code does not end, is left out.\<close>

definition assign_range :: "slot_range \<Rightarrow> cluster_node option list \<Rightarrow> cluster_node option list" where
  "assign_range r m = (case sr_start r of Fin s \<Rightarrow> assign_slots s (sr_end r) (sr_master r) m | _ \<Rightarrow> m)"

definition build_slot_map :: "slot_range list \<Rightarrow> cluster_node option list" where
  "build_slot_map ranges = fold assign_range ranges (replicate REDIS_CLUSTER_SLOTS None)"

lemma set_slot_length [simp]: "length (set_slot s n m) = length m"
  by (simp add: set_slot_def)

lemma assign_slots_length [simp]: "length (assign_slots s e n m) = length m"
  by (induction s e n m rule: assign_slots.induct) (subst assign_slots.simps, simp)

lemma assign_range_length [simp]: "length (assign_range r m) = length m"
  by (simp add: assign_range_def split: jsvalue.split)

lemma fold_assign_length: "length (fold assign_range rs m) = length m"
  by (induction rs arbitrary: m) simp_all

lemma build_slot_map_length [simp]: "length (build_slot_map rs) = REDIS_CLUSTER_SLOTS"
  by (simp add: build_slot_map_def fold_assign_length)

definition covers :: "slot_range \<Rightarrow> nat \<Rightarrow> bool" where
  "covers r i \<longleftrightarrow> js_le (sr_start r) (js_pos i) \<and> js_le (js_pos i) (sr_end r)"

definition whole_slots :: "slot_range \<Rightarrow> bool" where
  "whole_slots r \<longleftrightarrow> (\<exists>s e. sr_start r = js_pos s \<and> sr_end r = js_int e)"

lemma js_le_Fin [simp]: "js_le (Fin a) (Fin b) \<longleftrightarrow> a \<le> b"
  by (auto simp: js_le_def)

lemma set_slot_nat [simp]: "set_slot (of_nat s) n m = m[s := Some n]"
  by (simp add: set_slot_def)

lemma assign_slots_nth:
  "i < REDIS_CLUSTER_SLOTS \<Longrightarrow> length m = REDIS_CLUSTER_SLOTS \<Longrightarrow>
   assign_slots (of_nat s) (js_int e) n m ! i = (if s \<le> i \<and> int i \<le> e then Some n else m ! i)"
proof (induction "REDIS_CLUSTER_SLOTS - s" arbitrary: s m rule: less_induct)
  case less
  have le: "(of_nat a :: jsnum) \<le> of_int e \<longleftrightarrow> int a \<le> e" for a
    by (metis of_int_le_iff of_int_of_nat_eq)
  show ?case
  proof (cases "int s \<le> e \<and> s < REDIS_CLUSTER_SLOTS")
    case True
    have "assign_slots (of_nat s) (js_int e) n m = assign_slots (of_nat (Suc s)) (js_int e) n (m[s := Some n])"
      using True le [of s] by (subst assign_slots.simps) (simp add: add.commute)
    moreover have "assign_slots (of_nat (Suc s)) (js_int e) n (m[s := Some n]) ! i = (if Suc s \<le> i \<and> int i \<le> e then Some n else m[s := Some n] ! i)"
      using less.prems True by (intro less.hyps) auto
    ultimately show ?thesis using True less.prems by (cases "i = s") auto
  next
    case False
    then have "assign_slots (of_nat s) (js_int e) n m = m" using le [of s] by (subst assign_slots.simps) auto
    then show ?thesis using False less.prems(1) by auto
  qed
qed

lemma assign_range_nth:
  assumes "whole_slots r" "i < REDIS_CLUSTER_SLOTS" "length m = REDIS_CLUSTER_SLOTS"
  shows "assign_range r m ! i = (if covers r i then Some (sr_master r) else m ! i)"
proof -
  obtain s e where r: "sr_start r = js_pos s" "sr_end r = js_int e" using assms(1) by (auto simp: whole_slots_def)
  have "js_le (js_pos i) (js_int e) \<longleftrightarrow> int i \<le> e" unfolding js_pos_def js_le_Fin by (metis of_int_le_iff of_int_of_nat_eq)
  then have "covers r i \<longleftrightarrow> s \<le> i \<and> int i \<le> e" by (simp add: covers_def r)
  then show ?thesis using assign_slots_nth [OF assms(2,3), of s e "sr_master r"] by (simp add: assign_range_def r js_pos_def)
qed

lemma slot_map_owner:
  assumes "\<forall>r \<in> set rs. whole_slots r" "i < REDIS_CLUSTER_SLOTS"
  shows "build_slot_map rs ! i = map_option sr_master (find (\<lambda>r. covers r i) (rev rs))"
proof -
  have "fold assign_range rs m ! i = (case find (\<lambda>r. covers r i) (rev rs) of Some r \<Rightarrow> Some (sr_master r) | None \<Rightarrow> m ! i)"
    if "length m = REDIS_CLUSTER_SLOTS" for m
    using assms(1) that
  proof (induction rs arbitrary: m rule: rev_induct)
    case (snoc r rs)
    have "fold assign_range (rs @ [r]) m ! i = (if covers r i then Some (sr_master r) else fold assign_range rs m ! i)"
      using snoc.prems assms(2) by (simp add: assign_range_nth fold_assign_length)
    then show ?case using snoc by simp
  qed simp
  from this [of "replicate REDIS_CLUSTER_SLOTS None"] assms(2) show ?thesis
    by (simp add: build_slot_map_def split: option.split)
qed

section \<open>Routing\<close>

record cluster_client =
  cc_seeds :: "cluster_node list"
  cc_maxRedirects :: nat
  cc_slotMap :: "cluster_node option list"
  cc_connected :: bool

type_synonym 'w cluster_send = "cluster_node \<Rightarrow> redis_arg list \<Rightarrow> 'w \<Rightarrow> (js_error + resp) \<times> 'w"

definition new_cluster_client :: "cluster_node list \<Rightarrow> int option \<Rightarrow> js_error + cluster_client" where
  "new_cluster_client nodes maxRedirects =
     (if nodes = [] then Inl (JsError ''Error'' ''RedisClusterClient requires at least one seed node'')
      else Inr \<lparr>cc_seeds = nodes, cc_maxRedirects = nat (max 1 (nullish maxRedirects 5)), cc_slotMap = [], cc_connected = False\<rparr>)"

definition known_nodes :: "cluster_client \<Rightarrow> cluster_node list" where
  "known_nodes c = rev (remdups (rev (List.map_filter id (cc_slotMap c))))"

definition no_topology :: "js_error option \<Rightarrow> js_error" where
  "no_topology lastErr =
     JsError ''Error'' (''RedisClusterClient: could not discover cluster slots from any seed'' @
       (case lastErr of Some e \<Rightarrow> '' ('' @ err_message e @ '')'' | None \<Rightarrow> []))"

fun discover ::
  "'w cluster_send \<Rightarrow> cluster_node list \<Rightarrow> js_error option \<Rightarrow> cluster_client \<Rightarrow> 'w \<Rightarrow> (js_error + unit) \<times> cluster_client \<times> 'w" where
  "discover send [] lastErr c w = (Inl (no_topology lastErr), c, w)"
| "discover send (n # ns) lastErr c w =
     (case send n [ArgText (codes ''CLUSTER''), ArgText (codes ''SLOTS'')] w of
        (Inl e, w') \<Rightarrow> discover send ns (Some e) c w'
      | (Inr reply, w') \<Rightarrow>
          (let ranges = parse_cluster_slots reply
           in if ranges \<noteq> [] then (Inr (), c\<lparr>cc_slotMap := build_slot_map ranges\<rparr>, w') else discover send ns lastErr c w'))"

definition refresh_slots :: "'w cluster_send \<Rightarrow> cluster_client \<Rightarrow> 'w \<Rightarrow> (js_error + unit) \<times> cluster_client \<times> 'w" where
  "refresh_slots send c w = discover send (known_nodes c @ cc_seeds c) None c w"

definition cluster_connect :: "'w cluster_send \<Rightarrow> cluster_client \<Rightarrow> 'w \<Rightarrow> (js_error + unit) \<times> cluster_client \<times> 'w" where
  "cluster_connect send c w =
     (if cc_connected c then (Inr (), c, w)
      else (case refresh_slots send c w of
              (Inl e, c', w') \<Rightarrow> (Inl e, c', w')
            | (Inr _, c', w') \<Rightarrow> (Inr (), c'\<lparr>cc_connected := True\<rparr>, w')))"

text \<open>\<open>slotMap[i] = n\<close> of an array that grows.\<close>

definition set_index :: "nat \<Rightarrow> 'a \<Rightarrow> 'a option list \<Rightarrow> 'a option list" where
  "set_index i v m = (if i < length m then m[i := Some v] else m @ replicate (i - length m) None @ [Some v])"

text \<open>The key, which ends the message of the code, is left out.\<close>

definition too_many_redirects :: "cluster_client \<Rightarrow> js_error" where
  "too_many_redirects c = JsError ''Error'' (''RedisClusterClient: exceeded '' @ show_nat (cc_maxRedirects c) @ '' redirects for key'')"

definition redirect_node :: "redirect \<Rightarrow> cluster_node" where
  "redirect_node r = \<lparr>cn_host = re_host r, cn_port = js_int (re_port r)\<rparr>"

definition ask_first :: "'w cluster_send \<Rightarrow> bool \<Rightarrow> cluster_node \<Rightarrow> 'w \<Rightarrow> (js_error + unit) \<times> 'w" where
  "ask_first send asking target w =
     (if asking then apfst (map_sum id (\<lambda>x. ())) (send target [ArgText (codes ''ASKING'')] w) else (Inr (), w))"

fun route_loop ::
  "'w cluster_send \<Rightarrow> redis_arg list \<Rightarrow> nat \<Rightarrow> cluster_node \<Rightarrow> bool \<Rightarrow> cluster_client \<Rightarrow> 'w \<Rightarrow> (js_error + resp) \<times> cluster_client \<times> 'w" where
  "route_loop send args 0 target asking c w = (Inl (too_many_redirects c), c, w)"
| "route_loop send args (Suc attempts) target asking c w =
     (case ask_first send asking target w of
        (Inl e, w1) \<Rightarrow> (Inl e, c, w1)
      | (Inr _, w1) \<Rightarrow>
          (case send target args w1 of
             (Inl e, w2) \<Rightarrow> (Inl e, c, w2)
           | (Inr reply, w2) \<Rightarrow>
               (case redirect_of reply of
                  None \<Rightarrow> (Inr reply, c, w2)
                | Some r \<Rightarrow>
                    (case re_kind r of
                       Moved \<Rightarrow>
                         route_loop send args attempts (redirect_node r) False
                           (c\<lparr>cc_slotMap := set_index (re_slot r) (redirect_node r) (cc_slotMap c)\<rparr>) w2
                     | Ask \<Rightarrow> route_loop send args attempts (redirect_node r) True c w2))))"

definition slot_target :: "cluster_client \<Rightarrow> nat \<Rightarrow> cluster_node" where
  "slot_target c slot = nullish (if slot < length (cc_slotMap c) then cc_slotMap c ! slot else None) (hd (cc_seeds c))"

definition cluster_route :: "'w cluster_send \<Rightarrow> code_points \<Rightarrow> redis_arg list \<Rightarrow> cluster_client \<Rightarrow> 'w \<Rightarrow> (js_error + resp) \<times> cluster_client \<times> 'w" where
  "cluster_route send key args c w =
     (case cluster_connect send c w of
        (Inl e, c', w') \<Rightarrow> (Inl e, c', w')
      | (Inr _, c', w') \<Rightarrow> route_loop send args (Suc (cc_maxRedirects c')) (slot_target c' (hash_slot key)) False c' w')"

definition cluster_get :: "'w cluster_send \<Rightarrow> code_points \<Rightarrow> cluster_client \<Rightarrow> 'w \<Rightarrow> (js_error + code_points option) \<times> cluster_client \<times> 'w" where
  "cluster_get send key c w =
     apfst (map_sum id (\<lambda>r. case r of RString s \<Rightarrow> if take 4 s = codes ''ERR:'' then None else Some s | _ \<Rightarrow> None))
       (cluster_route send key [ArgText (codes ''GET''), ArgText key] c w)"

definition covered_slots :: "cluster_client \<Rightarrow> nat" where
  "covered_slots c = length (filter (\<lambda>s. s \<noteq> None) (cc_slotMap c))"

subsection \<open>What routing does\<close>

lemma route_loop_final: "route_loop send args n t a c w = (Inr reply, c', w') \<Longrightarrow> redirect_of reply = None"
  by (induction send args n t a c w rule: route_loop.induct) (auto split: prod.splits sum.splits option.splits redirect_kind.splits)

text \<open>Each attempt sends the command once, and \<open>ASKING\<close> before it at most.\<close>

definition counting :: "'w cluster_send \<Rightarrow> (nat \<times> 'w) cluster_send" where
  "counting send n args kw = apsnd (Pair (Suc (fst kw))) (send n args (snd kw))"

lemma ask_first_count: "ask_first (counting send) a t (k, w) = (r, kw) \<Longrightarrow> fst kw \<le> Suc k"
  by (auto simp: ask_first_def counting_def apfst_def apsnd_def map_prod_def split: if_splits prod.splits)

lemma route_loop_count: "route_loop (counting send) args n t a c (k, w) = (r, c', kw) \<Longrightarrow> fst kw \<le> k + 2 * n"
proof (induction n arbitrary: t a c k w)
  case (Suc n)
  obtain r1 kw1 where 1: "ask_first (counting send) a t (k, w) = (r1, kw1)" by (rule prod.exhaust)
  obtain k1 w1 where kw1: "kw1 = (k1, w1)" by (cases kw1)
  have k1: "k1 \<le> Suc k" using ask_first_count [OF 1] by (simp add: kw1)
  show ?case
  proof (cases r1)
    case (Inl e)
    then show ?thesis using Suc.prems k1 by (auto simp: 1 kw1)
  next
    case (Inr u)
    obtain r2 w2 where 2: "send t args w1 = (r2, w2)" by (cases "send t args w1")
    then have c2: "counting send t args (k1, w1) = (r2, Suc k1, w2)" by (simp add: counting_def)
    show ?thesis
    proof (cases "\<exists>reply rd. r2 = Inr reply \<and> redirect_of reply = Some rd")
      case True
      then obtain reply rd where rd: "r2 = Inr reply" "redirect_of reply = Some rd" by blast
      have "fst kw \<le> Suc k1 + 2 * n"
        using Suc.prems rd by (cases "re_kind rd") (auto simp: 1 kw1 Inr c2 dest: Suc.IH)
      then show ?thesis using k1 by simp
    next
      case False
      then have "fst kw = Suc k1" using Suc.prems by (auto simp: 1 kw1 Inr c2 split: sum.splits option.splits)
      then show ?thesis using k1 by simp
    qed
  qed
qed auto

text \<open>A stale map: every node but the owner of the slot answers \<open>MOVED\<close>.  The second attempt is answered, and the map has learnt the owner.\<close>

lemma redirect_of_error: "redirect_ok r \<Longrightarrow> redirect_of (reply_value (ErrorReply (redirect_points r))) = Some r"
  by (simp add: redirect_of_def codes_def redirect_back)

lemma set_index_nth [simp]: "i < length (set_index i v m)" "set_index i v m ! i = Some v"
  by (auto simp: set_index_def nth_append)

lemma route_learns_owner:
  assumes moved: "\<And>n w. n \<noteq> owner \<Longrightarrow> send n args w = (Inr (reply_value (ErrorReply (redirect_points r))), w)"
    and owner: "\<And>w. send owner args w = (Inr reply, w)" "redirect_of reply = None"
    and r: "redirect_ok r" "re_kind r = Moved" "re_slot r = slot" "redirect_node r = owner"
  shows "\<exists>c'. route_loop send args (Suc (Suc n)) (slot_target c slot) False c w = (Inr reply, c', w) \<and> slot_target c' slot = owner"
proof (cases "slot_target c slot = owner")
  case True
  then show ?thesis using owner by (simp add: ask_first_def)
next
  case False
  have "redirect_of (reply_value (ErrorReply (redirect_points r))) = Some r" by (rule redirect_of_error [OF r(1)])
  then show ?thesis using moved [OF False] owner r(2-4) by (simp add: ask_first_def slot_target_def del: reply_value.simps)
qed

text \<open>\<open>ASK\<close> does not touch the map.\<close>

lemma ask_keeps_map:
  assumes "\<And>n w. redirect_of (projr (fst (send n args w))) \<noteq> None \<longrightarrow> re_kind (the (redirect_of (projr (fst (send n args w))))) = Ask"
  shows "route_loop send args n t a c w = (r, c', w') \<Longrightarrow> c' = c"
proof (induction n arbitrary: t a w)
  case (Suc n)
  obtain r1 w1 where 1: "ask_first send a t w = (r1, w1)" by (rule prod.exhaust)
  obtain r2 w2 where 2: "send t args w1 = (r2, w2)" by (rule prod.exhaust)
  show ?case using Suc.prems Suc.IH assms [of t w1]
    by (cases r1; cases r2) (auto simp: 1 2 split: option.splits)
qed simp

text \<open>A redirect is looked for in every string, also in one that was stored under the key: such a value is never returned, and the
  command is sent to the host it names.\<close>

lemma stored_redirect_followed:
  assumes "redirect_ok r" "send t args w = (Inr (reply_value (BulkReply (redirect_points r))), w')"
  shows "\<exists>asking c'. route_loop send args (Suc n) t False c w = route_loop send args n (redirect_node r) asking c' w'"
proof -
  have "take 4 (redirect_points r) \<noteq> codes ''ERR:''"
    by (cases "re_kind r") (simp_all add: redirect_points_def kind_points_def codes_def)
  then have "redirect_of (reply_value (BulkReply (redirect_points r))) = Some r" using redirect_back [OF assms(1)] by (simp add: redirect_of_def)
  then show ?thesis using assms(2) by (cases "re_kind r") (auto simp: ask_first_def simp del: reply_value.simps)
qed

end
