(* ===== verification/Spec2Isabelle.thy ===== *)
theory Spec2Isabelle
  imports RecordBatch LruCache WorkflowEngine Durations BinaryHeap MemoryDriver QueueMiddleware QueueWorker RateLimit Gateway HttpServer RefreshTokens ApiKeys Mfa PgPool SagaOrchestrator EventStore DistributedLock EventFacade RedisCluster
begin

text \<open>
  StreetJS (\<open>src/packages\<close>): a job queue, durable workflows, the HTTP server with its router and security middleware, refresh tokens, API
  keys and multi-factor authentication, the Postgres connection pool, rate limiting, an API gateway, the Kafka wire format, the Redis client, an event bus, the
  microservice helpers (sagas, event store, distributed lock) and an LRU cache.
  This development models the code of these parts that decides what happens, and proves what makes each of them correct.
  Promises are resolved in sequence: an \<open>await\<close> is a step, and where other work can run in between it is an explicit event
  of a step function or a change of the environment.  Numbers are rationals (\<open>jsnum\<close>) where the code computes with durations and times,
  integers where it counts, and words where it works bitwise.  Clocks, random numbers and identifiers are arguments.
  A thrown error is a value of a sum type; \<open>null\<close> and \<open>undefined\<close> are \<open>None\<close>; a \<open>Map\<close> is an association list in insertion order.

  \<^bold>\<open>Shared.\<close>  \<open>Prelude\<close>: numbers, strings, maps, the locale \<open>machine\<close> of an invariant kept by a step function.  \<open>Middleware\<close>: middleware
  as interaction trees.  \<open>Wire\<close> and \<open>Utf8\<close>: Node buffers, readers and writers, UTF-8, and the locale \<open>codec\<close>.
  \<open>JsNumber\<close>: the strings and the arithmetic of numbers where \<open>NaN\<close> and the infinities matter.

  \<^bold>\<open>Queue\<close> (\<open>packages/queue/src\<close>).  \<open>BinaryHeap\<close> and \<open>MemoryDriver\<close> (drivers/memory.ts) over the contract \<open>QueueDriver\<close> (drivers/driver.ts);
  \<open>QueueJob\<close> (job.ts, retry.ts); \<open>QueueMiddleware\<close> (middleware.ts); \<open>QueueWorker\<close> (worker.ts), a step machine whose events are enqueueing,
  pumping, admission, settlement and the passing of time.  The lemmas show that no job is lost and what each driver operation does to the
  heaps, leases and dead letters; the driver implements the contract the worker's lemmas rest on.

  \<^bold>\<open>Workflows\<close> (\<open>packages/workflow/src\<close>).  \<open>WorkflowTypes\<close> (types.ts, store.ts); \<open>WorkflowJournal\<close> (journal.ts): a workflow function is a tree
  of commands, and the journal replays or executes them; \<open>WorkflowExecutor\<close> (executor.ts, backoff.ts, activities and parallel commands of context.ts);
  \<open>WorkflowCoordinator\<close> (coordinator.ts and the waiting commands of context.ts); \<open>WorkflowCompensator\<close> (compensator.ts); \<open>WorkflowEngine\<close>
  (runtime.ts, engine.ts).  The step relation \<open>drive_step\<close> and its invariant \<open>at_position\<close> say where in its function a journal is.
  The loop of attempts need not end (unbounded retries, an activity that never settles), so \<open>attempt_loop\<close> is a partial function and \<open>None\<close> is not returning;
  a finite limit and activities that settle or have a timeout are enough for it to return.  No fuel is used.

  \<^bold>\<open>HTTP\<close> (\<open>packages/router/src\<close>, \<open>packages/context/src\<close>, \<open>packages/exceptions/src\<close>, \<open>packages/core/src/http\<close>, \<open>packages/core/src/auth/rbac.ts\<close>).
  \<open>PathPattern\<close>: path templates, their regular expressions and the engine that runs them; \<open>UriComponent\<close>: encodeURIComponent and decodeURIComponent;
  \<open>HttpValidation\<close> (validateObject); \<open>HttpContext\<close>: the context, exceptions, cookies, and middleware as trees run by \<open>run_http_pipeline\<close>;
  \<open>HttpRouter\<close> (router.ts: registration, matching, validation, dispatch, error handler); \<open>Rbac\<close> (the flattening of the role hierarchy; it ends
  because each role is visited once) and \<open>HttpAuth\<close> (auth.middleware.ts, rbacGuard); \<open>HttpServer\<close> (server.ts: bodies, \<open>handleRequest\<close>, the
  states of \<open>listen\<close>).  The lemmas say which route a path takes and with which parameters, what a validated handler sees, whom
  the guards let through, and what a client is answered when something throws; a reply may itself fail once it is started (\<open>failed_reply_unanswered\<close>).

  \<^bold>\<open>Credentials\<close> (\<open>packages/core/src/auth\<close>).  \<open>RefreshTokens\<close> (refresh-tokens.ts over a table, with the transaction of pool.ts; \<open>token_step\<close>
  interleaves the statements of any number of transactions); \<open>ApiKeys\<close>
  (api-keys.ts, a client of the cache through the locale \<open>lru_contract\<close>; \<open>verify\<close> is split at its \<open>await\<close>); \<open>Base32\<close> and \<open>Mfa\<close> (mfa.ts).  Digests, HMAC,
  signatures and randomness are arguments; where uniqueness of what is drawn matters it is a hypothesis.

  \<^bold>\<open>Connection pool\<close> (\<open>packages/pool/src/pool.ts\<close>).  \<open>PgPool\<close> is a step machine: each event is what runs between two \<open>await\<close>s.  \<open>creations_ok\<close>
  and \<open>within_max\<close> are its invariants, \<open>loans_ok\<close> that of the schedules in which a new connection is taken over at once.

  \<^bold>\<open>Rate limiting\<close> (\<open>packages/ratelimit/src/ratelimit.ts\<close>, \<open>packages/store/src/store.ts\<close>).  \<open>Durations\<close> (parseWindow), \<open>WindowStore\<close> (the stores, with the
  locale of the sliding-window counter) and \<open>RateLimit\<close>, whose \<open>rl_step\<close> interleaves requests between the \<open>await\<close> of the count and that of the hit: what overlaps may
  exceed the limit, and the bound says by how much.

  \<^bold>\<open>Gateway\<close> (\<open>packages/gateway/src\<close>).  \<open>GatewayBalancer\<close> (balancer.ts, health.ts), \<open>CircuitBreaker\<close> (circuit-breaker.ts and the core's breaker: one
  automaton, two implementations), \<open>Retry\<close> (retry.ts and the core's resilience helpers), \<open>GatewayLimiter\<close> (ratelimit.ts),
  \<open>GatewayRouter\<close> (router.ts, versioning.ts), \<open>GatewayAccess\<close> (auth.ts, cors.ts, security.ts, validation.ts), \<open>GatewayMiddleware\<close>
  (middleware.ts) and \<open>Gateway\<close> (gateway.ts), where a request is admitted, routed, dispatched, forwarded and accounted.

  \<^bold>\<open>Kafka\<close> (\<open>packages/core/src/transports/kafka\<close>).  \<open>KafkaPrimitives\<close> (primitives.ts) interprets \<open>codec\<close> for each primitive type and relates the CRC
  table to the shift register of its polynomial; \<open>RecordBatch\<close> (recordbatch.ts).  The varint reader ends because the buffer does.

  \<^bold>\<open>Redis\<close> (\<open>packages/core/src/transports\<close>).  \<open>Resp\<close> (resp.ts): commands, the parser of replies over a buffer that grows, and the queue of promises
  the replies settle; replies have a specification (\<open>reply_bytes\<close>, \<open>reply_value\<close>) the parser is proved against, for every way the bytes are cut into
  chunks.  A handler that loops for ever is \<open>None\<close>: the fuel \<open>stream_fuel\<close> is enough for well-formed replies, and for a malformed length none is.
  \<open>RedisCluster\<close> (cluster.ts, cluster-client.ts): slots, redirects, the slot map, and routing with its bounded number of redirects.

  \<^bold>\<open>Events\<close> (\<open>packages/events/src\<close>).  \<open>EventEmitter\<close> (matcher.ts, emitter.ts) matches patterns against an inductive specification and shows that the two indices of
  the emitter are one ordered list of subscriptions (locale \<open>subscription_registry\<close>).  \<open>EventFacade\<close> (facade.ts, event.ts, middleware.ts, store/memory.ts) is a step machine in which
  a delivery is interrupted at every \<open>await\<close> and an event is stored when the store resolves; \<open>facade_ok\<close> and \<open>counters_ok\<close> are its invariants.

  \<^bold>\<open>Microservices\<close> (\<open>packages/core/src/microservices\<close>).  \<open>SagaOrchestrator\<close> (saga.ts, cqrs.ts); \<open>EventStore\<close> (event-store.ts), whose appends interleave at their queries;
  \<open>DistributedLock\<close> (distributed-lock.ts) over advisory locks, which are a parameter with the laws Postgres documents.

  \<^bold>\<open>Cache\<close> (\<open>packages/cache/src/lru.ts\<close>).  \<open>LruCache\<close> models the map and the doubly-linked list pointer by pointer and shows that they implement a
  recency list (locale \<open>lru_contract\<close>).

  \<^bold>\<open>Not modelled.\<close>  Sockets, files, timers, streams, compression and cryptography of Node.js; metrics, logs, telemetry and realtime broadcasts that the
  modelled parts emit; abort signals; workflow commands issued concurrently, \<open>parallel.race\<close>, cron expressions and the bridges to other
  packages; the Redis and SQL drivers; the queue's scheduler and facade; the plugins, controllers and shutdown of the HTTP server, its request timeout and abort
  signals; the warm-up promise and the statistics of the connection pool;
  the connections and reconnecting of the Redis clients; the loop of an event replay, the error handlers and the external stores of the event bus; and the packages that are not named above.  Node's regular expressions are
  a parameter of the gateway's router, and the application's middleware, handlers, resolvers, activities and upstreams are parameters throughout.

  This theory states the properties \<open>C1\<close>, \<open>C2\<close>, \<dots> of the program, the theorems the parts were modelled for.  The lemmas they rest on are in the theories of
  the components.
\<close>

section \<open>Sample data\<close>

definition sample_job :: "string \<Rightarrow> jsnum \<Rightarrow> nat \<Rightarrow> unit envelope" where
  "sample_job i p n =
     \<lparr>env_id = i, env_type = ''mail'', env_queue = ''q'', payload = (), priority = p, attempts = 0, maxAttempts = 3,
      backoff = None, timeoutMs = None, enqueuedAt = 0, env_seq = n, dedupeKey = None, tenantId = None\<rparr>"

definition sample_cfg :: worker_cfg where
  "sample_cfg =
     \<lparr>cf_queues = [''q''], cf_concurrency = 1, cf_stopWhenEmpty = False, cf_visibilityMs = 1000,
      cf_handlers = [''mail''], cf_defaultBackoff = None, cf_rateLimits = [],
      cf_uuid = (\<lambda>n. replicate n CHR ''t'')\<rparr>"

definition sample_events :: "unit worker_event list" where
  "sample_events =
     [Enqueue ''q'' (sample_job ''a'' 0 0), Enqueue ''q'' (sample_job ''b'' 5 1), Start, Pump 10, Admit 0 10,
      Settle 0 (Inr ()) False 0 20 20, Pump 20, Admit 0 20]"

lemma sample_uuid: "inj (cf_uuid sample_cfg)"
  by (auto simp: sample_cfg_def inj_def)

section \<open>The job queue\<close>

text \<open>
  C1: At-least-once delivery (\<open>packages/queue/src/worker.ts\<close> over the in-process driver).  Under every schedule of a worker, that
  is every interleaving of \<open>start\<close>, \<open>stop\<close>, reservation passes, rate checks, settlements with any handler
  outcome, enqueues and promotions, every job ever enqueued is still owed by the driver (ready, delayed or
  leased), or dead-lettered, or was completed: no job is lost.
\<close>

theorem worker_at_least_once:
  "inj (cf_uuid cfg) \<Longrightarrow> enqueued_jobs es \<subseteq># accounted_jobs (foldl worker_step (new_worker cfg store) es)"
  using worker_run_accounts [OF worker_ok_new, of cfg store es]
  by (meson mset_subset_eq_add_right subset_mset.order_trans)

theorem worker_at_least_once_witness:
  "enqueued_jobs sample_events \<subseteq># accounted_jobs (foldl worker_step (new_worker sample_cfg None) sample_events)"
  by (rule worker_at_least_once [OF sample_uuid])

text \<open>
  C2: Bounded concurrency (\<open>worker.ts\<close>, \<open>pump\<close>).  Under every schedule the worker's \<open>inFlight\<close> counter is the number
  of executions in flight, never exceeds the configured concurrency, and the executions in flight hold
  pairwise different reservation tokens.
\<close>

theorem worker_concurrency_bound:
  "inj (cf_uuid cfg) \<Longrightarrow> w = foldl worker_step (new_worker cfg store) es \<Longrightarrow>
   w_inFlight w = length (w_executing w) \<and> w_inFlight w \<le> cf_concurrency cfg \<and>
   distinct (map (\<lambda>(r, b). res_token r) (w_executing w))"
  using worker_okD(3-5) [OF wm.invar_run [OF worker_ok_new, of cfg store es]] worker_run_cfg [of "new_worker cfg store" es]
  by (simp add: in_flight_def new_worker_def comp_def case_prod_beta')

theorem worker_concurrency_bound_witness:
  "w_inFlight (foldl worker_step (new_worker sample_cfg None) sample_events) \<le> 1"
  using worker_concurrency_bound [OF sample_uuid refl, of None sample_events] by (simp add: sample_cfg_def)

text \<open>
  C3: Reservation order (\<open>drivers/memory.ts\<close>, \<open>reserve\<close>).  A reservation comes from the first of the asked queues that
  has ready work once expired leases are reclaimed; within it the reserved job has the highest priority and,
  among equal priorities, the lowest enqueue sequence; its attempt counter is incremented.
\<close>

theorem reserve_picks_best:
  assumes "driver_ok d" "reserve qs v now token d = (Some r, d')"
  shows "\<exists>us vs e. qs = us @ res_queue r # vs \<and>
    (\<forall>u \<in> set us. ready_heap (reclaim_expired_leases now d) u = []) \<and>
    e \<in> set (ready_heap (reclaim_expired_leases now d) (res_queue r)) \<and> res_envelope r = e\<lparr>attempts := attempts e + 1\<rparr> \<and>
    (\<forall>x \<in> set (ready_heap (reclaim_expired_leases now d) (res_queue r)).
       priority x < priority e \<or> priority x = priority e \<and> env_seq e \<le> env_seq x)"
  using reserve_order [OF assms] by blast

definition sample_driver :: "unit memory_driver" where
  "sample_driver = enqueue ''q'' (sample_job ''b'' 5 1) (enqueue ''q'' (sample_job ''a'' 0 0) empty_driver)"

lemma sample_driver_ok: "driver_ok sample_driver"
  by (simp add: sample_driver_def enqueue_ok driver_ok_empty)

lemma sample_driver_eval:
  "sample_driver = \<lparr>ready = [(''q'', [sample_job ''b'' 5 1, sample_job ''a'' 0 0])], delayed = [], reserved = [], dead = []\<rparr>"
  by (simp add: sample_driver_def enqueue_def empty_driver_def ready_heap_def heap_push_def sift_up.simps compare_ready_def
      sample_job_def swap_def numeral_2_eq_2)

lemma sample_reserve:
  "fst (reserve [''q''] 1000 10 ''t0'' sample_driver) =
     Some \<lparr>res_envelope = (sample_job ''b'' 5 1)\<lparr>attempts := 1\<rparr>, res_token = ''t0'', res_queue = ''q'',
           res_leaseExpiresAt = 1010\<rparr>"
  by (simp add: sample_driver_eval reserve_def reclaim_expired_leases_def heap_pop_def sift_down.simps smallest_child_def
      sample_job_def Let_def)

theorem reserve_picks_best_witness:
  "\<exists>us vs e. [''q''] = us @ ''q'' # vs \<and> (sample_job ''b'' 5 1)\<lparr>attempts := 1\<rparr> = e\<lparr>attempts := attempts e + 1\<rparr> \<and>
     (\<forall>x \<in> set (ready_heap (reclaim_expired_leases 10 sample_driver) ''q''). priority x \<le> priority e)"
proof -
  obtain r d' where rs: "reserve [''q''] 1000 10 ''t0'' sample_driver = (Some r, d')"
    using sample_reserve by (metis prod.collapse)
  then have r: "res_queue r = ''q''" "res_envelope r = (sample_job ''b'' 5 1)\<lparr>attempts := 1\<rparr>"
    using sample_reserve by simp_all
  from reserve_picks_best [OF sample_driver_ok rs] show ?thesis unfolding r by (elim exE conjE, intro exI conjI) (assumption+, auto simp: le_less)
qed

text \<open>
  Exactness of promotion (\<open>memory.ts\<close>, \<open>promoteDue\<close>).  Promoting at \<open>now\<close> moves exactly the delayed jobs whose due time
  has come to the ready queues, leaves exactly the others delayed, returns how many it moved, and touches
  neither leases nor dead letters.
\<close>

theorem promote_due_exact:
  assumes "driver_ok d" "promote_due now d = (n, d')"
  shows "bag (delayed d') = filter_mset (\<lambda>x. now < de_runAt x) (bag (delayed d)) \<and>
    bag (ready d') = bag (ready d) + image_mset de_envelope (filter_mset (\<lambda>x. de_runAt x \<le> now) (bag (delayed d))) \<and>
    n = size (filter_mset (\<lambda>x. de_runAt x \<le> now) (bag (delayed d))) \<and>
    reserved d' = reserved d \<and> dead d' = dead d \<and> driver_ok d'"
  using promote_due_spec [OF assms] by (simp add: not_le)

theorem promote_due_exact_witness:
  "bag (delayed (snd (promote_due 10 (enqueue_delayed ''q'' (sample_job ''a'' 0 0) 10 empty_driver)))) =
     filter_mset (\<lambda>x. 10 < de_runAt x) (bag (delayed (enqueue_delayed ''q'' (sample_job ''a'' 0 0) 10 empty_driver)))"
  using promote_due_exact [of "enqueue_delayed ''q'' (sample_job ''a'' 0 0) 10 empty_driver", OF _ surjective_pairing]
  by (simp add: enqueue_delayed_ok driver_ok_empty)

text \<open>
  C4: Settling a live reservation (\<open>memory.ts\<close>; the driver contract of \<open>drivers/driver.ts\<close>).  After a reservation, \<open>nack\<close> returns the
  job to the driver with nothing lost or duplicated, \<open>ack\<close> removes exactly this job, and
  \<open>moveToDeadLetter\<close> moves exactly this job from the owed to the dead-lettered ones.
\<close>

theorem reservation_settles_once:
  assumes "driver_ok d" "lease_of d token = None" "reserve qs v now token d = (Some r, d')"
  shows "driver_jobs (nack r t d') = driver_jobs d \<and>
    driver_jobs d = add_mset (env_id (res_envelope r)) (driver_jobs (ack r d')) \<and>
    driver_jobs d + dead_jobs d =
      driver_jobs (move_to_dead_letter r e n d') + dead_jobs (move_to_dead_letter r e n d') \<and>
    dead_jobs (move_to_dead_letter r e n d') = add_mset (env_id (res_envelope r)) (dead_jobs d)"
  using md.reserve_then_ack [OF assms] md.reserve_then_nack [OF assms] md.reserve_then_bury [OF assms] by simp

theorem reservation_settles_once_witness:
  "\<exists>r d'. reserve [''q''] 1000 10 ''t0'' sample_driver = (Some r, d') \<and> driver_jobs (nack r None d') = driver_jobs sample_driver"
proof -
  obtain r d' where rs: "reserve [''q''] 1000 10 ''t0'' sample_driver = (Some r, d')"
    using sample_reserve by (metis prod.collapse)
  have "lease_of sample_driver ''t0'' = None" by (simp add: sample_driver_eval lease_of_def)
  from reservation_settles_once [OF sample_driver_ok this rs] rs show ?thesis by blast
qed

text \<open>
  A stale reservation duplicates its job (\<open>memory.ts\<close>, \<open>moveToDeadLetter\<close>).  When the lease has been reclaimed, \<open>ack\<close> and
  \<open>nack\<close> change nothing, but \<open>moveToDeadLetter\<close> records a dead letter although the driver still owes the job: the
  driver's jobs are unchanged and the job is dead-lettered as well.
\<close>

theorem stale_dead_letter_duplicates:
  assumes "driver_ok d" "lease_of d (res_token r) = None"
  shows "ack r d = d \<and> nack r t d = d \<and> driver_jobs (move_to_dead_letter r e n d) = driver_jobs d \<and>
    dead_jobs (move_to_dead_letter r e n d) = add_mset (env_id (res_envelope r)) (dead_jobs d)"
  using ack_stale [OF assms(2)] nack_stale [OF assms(2)] move_to_dead_letter_spec(2,4) [OF assms(1)] assms(2) by blast

theorem stale_dead_letter_duplicates_witness:
  "\<exists>r. env_id (res_envelope r) \<in># driver_jobs sample_driver \<and>
     driver_jobs (move_to_dead_letter r timeout_error 0 sample_driver) = driver_jobs sample_driver \<and>
     env_id (res_envelope r) \<in># dead_jobs (move_to_dead_letter r timeout_error 0 sample_driver)"
proof -
  define r where "r = \<lparr>res_envelope = sample_job ''b'' 5 1, res_token = ''t0'', res_queue = ''q'', res_leaseExpiresAt = 1010\<rparr>"
  have "lease_of sample_driver (res_token r) = None" by (simp add: sample_driver_eval lease_of_def)
  from stale_dead_letter_duplicates [OF sample_driver_ok this]
  have "driver_jobs (move_to_dead_letter r timeout_error 0 sample_driver) = driver_jobs sample_driver"
    "env_id (res_envelope r) \<in># dead_jobs (move_to_dead_letter r timeout_error 0 sample_driver)" by simp_all
  moreover have "env_id (res_envelope r) \<in># driver_jobs sample_driver"
    by (simp add: sample_driver_def enqueue_jobs r_def sample_job_def)
  ultimately show ?thesis by blast
qed

text \<open>
  C5: Middleware order and the guard against a second \<open>next()\<close> (\<open>packages/queue/src/middleware.ts\<close>).  Whatever the middleware do, the stages
  entered are \<open>0, 1, \<dots>\<close> in registration order, each at most once, and none after the handler.
\<close>

theorem middleware_each_once_in_order:
  "\<exists>k. k \<le> Suc (length chain) \<and> cs_trace (snd (compose_middleware chain h ctx)) = [0..<k]"
  using compose_trace [of chain h ctx] by blast

text \<open>
  The pipeline applies middleware in registration order.  Middleware that change the context and pass the call on hand the
  handler the context with every change made, first registered first, and the outcome of the pipeline is the
  handler's.
\<close>

theorem middleware_pipeline_composes:
  "fst (compose_middleware (map passing fs) h ctx) = fst (h (fold (\<lambda>f c. f c) fs ctx)) \<and>
   cs_ctx (snd (compose_middleware (map passing fs) h ctx)) = snd (h (fold (\<lambda>f c. f c) fs ctx))"
  using invoke_passing [of "\<lparr>cs_ctx = ctx, cs_lastIndex = - 1, cs_trace = []\<rparr>" 0 next_twice h fs]
  by (simp add: compose_middleware_def)

text \<open>
  The retry decision (\<open>retry.ts\<close>, \<open>onFailure\<close>).  A failed job is dead-lettered exactly when its attempts have reached
  \<open>maxAttempts\<close>; otherwise the next attempt is due at the time of the failure plus the backoff delay, which for a policy in
  milliseconds is \<open>min (base * multiplier ^ (attempts - 1)) maxDelay\<close> scaled by the jitter factor, within
  a fraction \<open>j\<close> of it.
\<close>

theorem retry_decision_spec:
  assumes "backoff env = Some \<lparr>strategy = Exponential, bp_delay = Ms base, multiplier = Some m, maxDelay = Some (Ms cap), jitter = Some j\<rparr>"
    "0 \<le> base" "0 \<le> m" "0 \<le> cap" "0 \<le> j" "0 \<le> r" "r < 1"
  shows "if maxAttempts env \<le> of_int (attempts env) then on_failure env None d r now = Inr DeadLetter
    else \<exists>t. on_failure env None d r now = Inr (Retry t) \<and>
      (let c = math_min (base * power_int m (attempts env - 1)) cap in now + c * (1 - j) \<le> t \<and> t \<le> now + c * (1 + j))"
proof (cases "maxAttempts env \<le> of_int (attempts env)")
  case True
  then show ?thesis by (simp add: on_failure_def)
next
  case False
  have "0 \<le> math_min (base * power_int m (attempts env - 1)) cap"
    using assms by (simp add: math_min_def zero_le_power_int)
  from apply_jitter_bounds [OF this assms(5-7)] False assms(1) show ?thesis
    by (simp add: on_failure_def compute_backoff_delay_def parse_duration_def raw_backoff_def Let_def)
qed

theorem retry_decision_spec_witness:
  "\<exists>t. on_failure ((sample_job ''a'' 0 0)\<lparr>attempts := 2, backoff := Some \<lparr>strategy = Exponential, bp_delay = Ms 100,
       multiplier = Some 3, maxDelay = Some (Ms 250), jitter = Some (1/2)\<rparr>\<rparr>) None None (1/4) 1000 = Inr (Retry t) \<and>
     1125 \<le> t \<and> t \<le> 1375"
  using retry_decision_spec [of "(sample_job ''a'' 0 0)\<lparr>attempts := 2, backoff := Some \<lparr>strategy = Exponential, bp_delay = Ms 100,
       multiplier = Some 3, maxDelay = Some (Ms 250), jitter = Some (1/2)\<rparr>\<rparr>" 100 3 250 "1/2" "1/4" None 1000]
  by (simp add: sample_job_def math_min_def)

text \<open>
  Backoff grows with the attempts and is capped (\<open>retry.ts\<close>, \<open>computeBackoffDelay\<close>).  Without jitter, a policy with a non-negative base and a
  multiplier of at least 1 never waits less on a later attempt, and never longer than \<open>maxDelay\<close>.
\<close>

theorem backoff_monotone_and_capped:
  assumes "b = \<lparr>strategy = s, bp_delay = Ms base, multiplier = mu, maxDelay = Some (Ms cap), jitter = None\<rparr>"
    "0 \<le> base" "1 \<le> nullish mu 2" "1 \<le> a" "a \<le> a'"
  shows "\<exists>x y. compute_backoff_delay a b r = Inr x \<and> compute_backoff_delay a' b r' = Inr y \<and> x \<le> y \<and> y \<le> cap"
  using raw_backoff_mono(2) [of base b a a'] math_min_mono [of "raw_backoff a b base" "raw_backoff a' b base" cap] assms
  by (simp add: compute_backoff_delay_def parse_duration_def Let_def)

theorem backoff_monotone_and_capped_witness:
  "\<exists>x y. compute_backoff_delay 2 (DEFAULT_BACKOFF\<lparr>jitter := None\<rparr>) 0 = Inr x \<and>
     compute_backoff_delay 9 (DEFAULT_BACKOFF\<lparr>jitter := None\<rparr>) 0 = Inr y \<and> x \<le> y \<and> y \<le> 30000"
  using backoff_monotone_and_capped [of "DEFAULT_BACKOFF\<lparr>jitter := None\<rparr>" Exponential 1000 "Some 2" 30000 2 9 0 0]
  by (simp add: DEFAULT_BACKOFF_def)

section \<open>Rate limiting\<close>

text \<open>
  C6: The sliding-window limit (\<open>packages/ratelimit/src/ratelimit.ts\<close>, \<open>rateLimit\<close>, over \<open>packages/store/src/store.ts\<close>).  The middleware awaits
  \<open>store.count\<close> and then \<open>store.hit\<close>, and any requests may run in between; counts are delivered in the order they were asked
  for.  In every schedule of arrivals and deliveries, from a store without entries of the key and with room for the keys, with a monotone
  clock, no closed window of the configured length contains more requests of the key let through than the limit plus \<open>m - 1\<close>, where
  \<open>m\<close> is the greatest number of requests of the key ever between their count and its delivery at the same time; so never more than
  the limit when requests of the key do not overlap.  The store's per-key cap must not be below that number.  The excess is real: \<open>overlapping_requests_exceed\<close>.
\<close>

theorem window_limit_holds:
  assumes "store_ok cap s" "store_entries s k = []" "sorted (arrival_times es)"
    "sc_max cfg + (most_waiting cfg fn k es (rl_idle s) - 1) \<le> cap" "length (rs_log s) + length es \<le> rs_maxKeys s"
  shows "length (filter (\<lambda>x. t - of_int (sc_windowMs cfg) \<le> x \<and> x \<le> t) (passed_times k (rl_run cfg fn es (rl_idle s))))
           \<le> sc_max cfg + (most_waiting cfg fn k es (rl_idle s) - 1)"
proof -
  have "sorted ((case arrival_times es of [] \<Rightarrow> 0 | a # _ \<Rightarrow> a) # arrival_times es)"
    using assms(3) by (cases "arrival_times es") simp_all
  from rl_run_window [OF rl_idle_inv [OF assms(1,2)] refl assms(4) order_refl this] assms(5) show ?thesis
    by (simp add: rl_idle_def)
qed

definition sample_scope :: scoped_cfg where
  "sample_scope = \<lparr>sc_scope = ScopeGlobal, sc_max = 2, sc_windowMs = 100, sc_trustProxy = False\<rparr>"

definition sample_store :: rate_store where
  "sample_store = \<lparr>rs_log = [], rs_maxKeys = 10, rs_maxRequestsPerKey = 5, rs_retentionMs = None\<rparr>"

definition anonymous :: RateLimit.request_ctx where
  "anonymous = \<lparr>remoteAddress = Some ''10.0.0.1'', x_forwarded_for = None, user_id = None\<rparr>"

definition sample_arrivals :: "rl_event list" where
  "sample_arrivals =
     [RlArrive anonymous 1, RlDeliver, RlArrive anonymous 2, RlDeliver, RlArrive anonymous 103, RlDeliver]"

theorem window_limit_holds_witness:
  "length (filter (\<lambda>x. 103 - 100 \<le> x \<and> x \<le> 103)
     (passed_times ''global:__global__'' (rl_run sample_scope None sample_arrivals (rl_idle sample_store)))) \<le> 2"
proof -
  have "most_waiting sample_scope None ''global:__global__'' sample_arrivals (rl_idle sample_store) \<le> 1"
    by (rule one_at_a_time_waiting) (simp_all add: sample_arrivals_def rl_idle_def)
  then have m: "most_waiting sample_scope None ''global:__global__'' sample_arrivals (rl_idle sample_store) - 1 = 0" by simp
  have "sorted (arrival_times sample_arrivals)" "length (rs_log sample_store) + length sample_arrivals \<le> rs_maxKeys sample_store"
    "store_ok 5 sample_store" "store_entries sample_store ''global:__global__'' = []" "sc_max sample_scope = 2" "sc_windowMs sample_scope = 100"
    by (simp_all add: sample_arrivals_def sample_store_def sample_scope_def store_ok_def store_entries_def keys_distinct_def)
  with window_limit_holds [of 5 sample_store "''global:__global__''" sample_arrivals sample_scope None 103] show ?thesis
    by (simp only: m) simp
qed

text \<open>
  A limit above the store's cap never limits (\<open>ratelimit.ts\<close>, \<open>rateLimit\<close>; \<open>store.ts\<close>, \<open>hit\<close>).  The store stops recording at
  \<open>maxRequestsPerKey\<close>, so when \<open>requests\<close> exceeds it every request is accepted, however many came before.
\<close>

theorem limit_above_cap_never_rejects:
  assumes "\<forall>k. length (store_entries s k) \<le> rs_maxRequestsPerKey s" "rs_maxRequestsPerKey s < sc_max cfg"
    "rate_limit_peek cfg fn ctx now s = (key, current)"
  shows "\<exists>h. rate_limit_decide cfg key now current s' = (Proceed h, snd (store_hit key now (of_int (sc_windowMs cfg)) s'))"
  using rate_limit_above_cap [OF assms(1,2), of fn ctx now] assms(3) rate_limit_decide_proceeds by simp

text \<open>
  A deferred job may be deferred again (\<open>worker.ts\<close>, \<open>admitUnderRateLimit\<close>).  A job over its queue's limit is put back with due time
  \<open>now + windowMs\<close>; when the limit's starts were all recorded at \<open>now\<close>, the check at that due time refuses it again:
  the store's window is closed at its lower end.
\<close>

theorem deferral_not_guaranteed:
  assumes "map_of (cf_rateLimits (w_cfg w)) (res_queue r) = Some lmt" "w_rateStore w = Some s"
    "rl_requests lmt \<le> of_nat (length (filter (\<lambda>t. now \<le> t) (store_entries s (res_queue r))))"
  shows "fst (admit_under_rate_limit r (now + rl_windowMs lmt) w) = False"
proof -
  have "rl_requests lmt \<le> of_nat (store_count (res_queue r) (now + rl_windowMs lmt) (rl_windowMs lmt) s)"
    using assms(3) hits_now_still_count [of now s "res_queue r" "rl_windowMs lmt"]
    by (meson of_nat_le_iff order_trans)
  with assms(1,2) show ?thesis by (simp add: admit_under_rate_limit_def Let_def)
qed

theorem deferral_not_guaranteed_witness:
  "fst (admit_under_rate_limit \<lparr>res_envelope = sample_job ''a'' 0 0, res_token = ''t0'', res_queue = ''q'', res_leaseExpiresAt = 0\<rparr>
     (50 + 100) (new_worker (sample_cfg\<lparr>cf_rateLimits := [(''q'', \<lparr>rl_requests = 1, rl_windowMs = 100\<rparr>)]\<rparr>)
       (Some (sample_store\<lparr>rs_log := [(''q'', [50])]\<rparr>)))) = False"
  using deferral_not_guaranteed [of "new_worker (sample_cfg\<lparr>cf_rateLimits := [(''q'', \<lparr>rl_requests = 1, rl_windowMs = 100\<rparr>)]\<rparr>)
       (Some (sample_store\<lparr>rs_log := [(''q'', [50])]\<rparr>))"
      "\<lparr>res_envelope = sample_job ''a'' 0 0, res_token = ''t0'', res_queue = ''q'', res_leaseExpiresAt = 0\<rparr>"
      "\<lparr>rl_requests = 1, rl_windowMs = 100\<rparr>" "sample_store\<lparr>rs_log := [(''q'', [50])]\<rparr>" 50]
  by (simp add: new_worker_def store_entries_def)

section \<open>Workflows\<close>

definition quiet_env :: "'w \<Rightarrow> (nat, 'w) wenv" where
  "quiet_env w = \<lparr>we_store = [], we_times = of_nat, we_reads = 0, we_world = w, we_captured = []\<rparr>"

definition sample_run :: "nat command_record list \<Rightarrow> nat workflow_run" where
  "sample_run cs =
     \<lparr>wr_runId = ''r'', wr_definition = ''d'', wr_status = Running, wr_input = 0, wr_output = None, wr_commands = cs,
      wr_nextSeq = length cs, wr_state = [], wr_pendingSignals = [], wr_history = [], wr_createdAt = 0, wr_updatedAt = 0\<rparr>"

definition done_command :: "nat \<Rightarrow> jsnum \<Rightarrow> nat command_record" where
  "done_command n t =
     \<lparr>cr_seq = n, cr_kind = Activity, cr_status = CsCompleted, cr_attempts = 1, cr_result = Some (10 * n), cr_error = None,
      cr_metadata = None, cr_compensated = None, cr_nextAttemptAt = None, cr_timerExpiresAt = None, cr_waitingFor = None,
      cr_startedAt = Some t, cr_completedAt = Some t\<rparr>"

definition plain_executor :: executor where
  "plain_executor = \<lparr>ex_rng = (\<lambda>n. 0), ex_timer_first = (\<lambda>n. False), ex_aborted = (\<lambda>n. False)\<rparr>"

definition undone :: "string \<Rightarrow> (nat, (string \<times> nat) list) rollback" where
  "undone name out e = (None, e\<lparr>we_world := we_world e @ [(name, out)]\<rparr>)"

text \<open>\<open>activity then throw\<close>: book a seat, declaring how to cancel it, and throw.\<close>

definition booking :: "(nat, (string \<times> nat) list) workflow" where
  "booking = Command
     (activity_command plain_executor (\<lambda>e. (Some (Inr 10), e)) (no_activity_options\<lparr>ao_compensate := Some ''cancel''\<rparr>))
     (\<lambda>r. case r of Inr v \<Rightarrow> Raise (Thrown (JsError ''Error'' ''no seats'')) | Inl t \<Rightarrow> Raise t)"





text \<open>
  C8: Attempts of an activity (\<open>executor.ts\<close>, \<open>run\<close>).  When \<open>Math.max(1, maxAttempts)\<close> is finite and every attempt settles or has a timeout,
  executing an activity returns, with an outcome that is completed or failed.  Its attempts are numbered from 1 without a gap, their
  number is recorded and is at most that limit (a fraction counts as a further attempt); it fails only when the attempts
  are used up or the run was aborted during a backoff.  Without these conditions it need not return: \<open>unbounded_retries_never_end\<close>,
  \<open>hung_attempt_hangs\<close>; with \<open>NaN\<close> it makes no attempt (\<open>nan_makes_no_attempt\<close>).
\<close>

theorem activity_attempts_bounded:
  assumes "max_attempts_of opts = Fin m"
    "ao_timeout opts \<noteq> None \<or> (\<forall>n e. fst (wrap_middleware (ao_middleware opts) n activity e) \<noteq> None)"
  shows "\<exists>oc e' n h. execute_activity ex seq opts activity e = Some (Some oc, e') \<and>
     oc_attempts oc = Some n \<and> oc_history oc = Some h \<and> started h = [1..<Suc n] \<and> 1 \<le> n \<and> of_nat n < m + 1 \<and>
     ((\<exists>v. oc_settled oc = SCompleted v) \<or> (\<exists>err. oc_settled oc = SFailed err \<and> (m \<le> of_nat n \<or> ex_aborted ex n)))"
proof -
  have "(of_nat 0 :: jsnum) < m"
    using assms(1) by (auto simp: max_attempts_of_def at_least_one_def math_max_def split: option.splits jsvalue.splits if_splits)
  from attempt_loop_settles [OF assms(1) _ this, of activity ex seq "[]" None e] assms(2)
  obtain oc e' where "execute_activity ex seq opts activity e = Some (Some oc, e')" "settled_outcome 0 m (ex_aborted ex) [] oc"
    by (auto simp: attempts_settle_def execute_activity_def)
  then show ?thesis unfolding settled_outcome_def by (simp add: Suc_le_eq del: upt_Suc) blast
qed

theorem activity_attempts_bounded_witness:
  "\<exists>oc e' n h. execute_activity plain_executor 4
       (no_activity_options\<lparr>ao_timeout := Some 50, ao_retry := Some \<lparr>ar_maxAttempts = Fin 3, ar_backoff = WfFixed 10\<rparr>\<rparr>)
       (\<lambda>e. (None, e)) (quiet_env (0 :: nat)) = Some (Some oc, e') \<and>
     oc_attempts oc = Some n \<and> oc_history oc = Some h \<and> started h = [1..<Suc n] \<and> 1 \<le> n \<and> of_nat n < (4 :: jsnum)"
  using activity_attempts_bounded [of
      "no_activity_options\<lparr>ao_timeout := Some 50, ao_retry := Some \<lparr>ar_maxAttempts = Fin 3, ar_backoff = WfFixed 10\<rparr>\<rparr>" 3
      "\<lambda>e. (None, e)" plain_executor 4 "quiet_env (0 :: nat)"]
  by (simp add: max_attempts_of_def at_least_one_def math_max_def del: upt_Suc) blast

text \<open>
  C9: Compensation (\<open>compensator.ts\<close>, \<open>compensate\<close>).
  The rollbacks that run are those of the completed commands that have one and were not compensated; they run
  once each, latest completion first, whether or not rollbacks throw; each is recorded as started and as completed or failed; the commands
  are flagged, the run ends persisted as compensated, and compensating again does nothing.
\<close>

theorem compensation_reverse_order:
  assumes "targets_of c \<noteq> []" "logs undo fails" "distinct (map cr_seq (wr_commands (cp_run c)))" "compensate undo c e = (c', e')"
  shows "we_world e' = we_world e @ map (rollback_of (cp_registrations c)) (targets_of c) \<and>
    distinct (targets_of c) \<and> sorted_wrt completed_after (targets_of c) \<and>
    set (targets_of c) = {k \<in> set (wr_commands (cp_run c)).
       cr_status k = CsCompleted \<and> cr_compensated k \<noteq> Some True \<and> map_of (cp_registrations c) (cr_seq k) \<noteq> None} \<and>
    rollbacks_started (wr_history (cp_run c')) = rollbacks_started (wr_history (cp_run c)) @ map cr_seq (targets_of c) \<and>
    rollbacks_ended (wr_history (cp_run c')) = rollbacks_ended (wr_history (cp_run c)) @
       map (\<lambda>k. (cr_seq k, fails (rollback_of (cp_registrations c) k) = None)) (targets_of c) \<and>
    wr_status (cp_run c') = Compensated \<and> store_load (wr_runId (cp_run c)) (we_store e') = Some (cp_run c') \<and>
    compensate undo c' e'' = (c', e'')"
proof -
  note rolled = compensate_rolls_back [OF assms(1,2,4)]
  have "set (targets_of c) = {k \<in> set (wr_commands (cp_run c)).
       cr_status k = CsCompleted \<and> cr_compensated k \<noteq> Some True \<and> map_of (cp_registrations c) (cr_seq k) \<noteq> None}"
    by (auto simp: targets_of_iff is_target_def map_has_def)
  moreover have "compensate undo c' e'' = (c', e'')"
    by (rule compensate_nothing [OF flagged_no_targets [OF rolled(2,3)]])
  moreover have "distinct (targets_of c)" using distinct_targets [OF assms(3)] by (simp add: distinct_map)
  ultimately show ?thesis using rolled targets_sorted by blast
qed

definition booked :: "nat compensator" where
  "booked = register 1 ''b'' 10 (register 0 ''a'' 0 (new_compensator (sample_run [done_command 0 5, done_command 1 9, done_command 2 7])))"

lemma booked_simps [simp]:
  "cp_run booked = sample_run [done_command 0 5, done_command 1 9, done_command 2 7]" "cp_registrations booked = [(0, ''a'', 0), (1, ''b'', 10)]"
  by (simp_all add: booked_def register_def new_compensator_def)

theorem compensation_reverse_order_witness:
  "we_world (snd (compensate undone booked (quiet_env []))) = [(''b'', 10), (''a'', 0)]"
proof -
  have t: "targets_of booked = [done_command 1 9, done_command 0 5]"
    by (simp add: targets_of_def sample_run_def is_target_def map_has_def done_command_def sort_commands_def compare_completion_def completion_key_def)
  have "logs undone (\<lambda>r. None)" by (simp add: logs_def undone_def)
  from compensation_reverse_order [OF _ this, of booked "quiet_env []" "fst (compensate undone booked (quiet_env []))"
      "snd (compensate undone booked (quiet_env []))"]
  show ?thesis by (simp add: t sample_run_def done_command_def rollback_of_def quiet_env_def)
qed

text \<open>
  A failure reached by replay rolls nothing back (\<open>runtime.ts\<close>, \<open>drive\<close>).  When a run is driven again and its function throws
  right after the recorded commands, the run ends failed and no compensation runs, whatever compensations its completed activities
  declare: they are collected only while activities execute live.
\<close>

theorem failure_after_replay_not_compensated:
  assumes "residual (fn (wr_input run)) (wr_commands run) = Some (Raise (Thrown err))"
  shows "dr_status (fst (drive undo fn run e)) = FailedRun \<and> we_world (snd (drive undo fn run e)) = we_world e \<and>
    rollbacks_started (wr_history (dr_run (fst (drive undo fn run e)))) = rollbacks_started (wr_history run) \<and>
    store_load (wr_runId run) (we_store (snd (drive undo fn run e))) = Some (dr_run (fst (drive undo fn run e)))"
  using drive_replayed [where fn = fn and run = run, OF assms prod.collapse [symmetric]] by simp

theorem failure_after_replay_not_compensated_witness:
  "dr_status (fst (drive undone (\<lambda>i. booking) (sample_run [done_command 1 3]) (quiet_env []))) = FailedRun \<and>
   we_world (snd (drive undone (\<lambda>i. booking) (sample_run [done_command 1 3]) (quiet_env []))) = []"
proof -
  have "residual ((\<lambda>i. booking) (wr_input (sample_run [done_command 1 3]))) (wr_commands (sample_run [done_command 1 3])) =
      Some (Raise (Thrown (JsError ''Error'' ''no seats'')))"
    by (simp add: booking_def sample_run_def done_command_def record_matches_def settled_def activity_command_def recorded_result_def)
  from failure_after_replay_not_compensated [where fn = "\<lambda>i. booking", OF this] show ?thesis by (simp add: quiet_env_def)
qed

text \<open>
  C10: Runs that have ended stay as they are (\<open>engine.ts\<close>).  Resuming, pausing, cancelling or signalling a run that is completed, failed,
  compensated or cancelled, and driving it again, change nothing.  A paused run is not driven either: \<open>resume\<close> returns a
  handle and leaves it paused.
\<close>

theorem ended_and_paused_runs_stay:
  assumes "store_load runId (we_store (eg_env g)) = Some run"
  shows "(wr_status run \<in> set TERMINAL \<longrightarrow>
      snd (engine_resume undo runId g) = g \<and> pause_run runId g = g \<and> cancel_run runId g = g \<and>
      snd (signal_run undo runId name pay g) = g \<and> drive_existing undo registry runId (eg_env g) = eg_env g) \<and>
    (wr_status run = Paused \<longrightarrow> engine_resume undo runId g = (Inr runId, g))"
  using terminal_stays [OF assms] paused_stays [OF assms] by blast

definition sample_engine :: "run_status \<Rightarrow> (nat, (string \<times> nat) list) engine" where
  "sample_engine s =
     \<lparr>eg_registry = [(''d'', \<lambda>i. booking)], eg_autoResume = True, eg_autoResumed = [], eg_resumed = [],
      eg_env = persist ((sample_run [])\<lparr>wr_status := s\<rparr>) (quiet_env [])\<rparr>"

theorem ended_and_paused_runs_stay_witness:
  "engine_resume undone ''r'' (sample_engine Paused) = (Inr ''r'', sample_engine Paused) \<and>
   snd (engine_resume undone ''r'' (sample_engine Cancelled)) = sample_engine Cancelled"
proof -
  have l: "store_load ''r'' (we_store (eg_env (sample_engine s))) = Some ((sample_run [])\<lparr>wr_status := s\<rparr>)" for s
    by (simp add: sample_engine_def persist_def store_save_def store_load_def sample_run_def)
  from ended_and_paused_runs_stay [OF l [of Paused], of undone] ended_and_paused_runs_stay [OF l [of Cancelled], of undone]
  show ?thesis by (simp add: TERMINAL_def)
qed

text \<open>
  A run that sleeps never wakes (\<open>context.ts\<close>, \<open>sleep\<close>; \<open>journal.ts\<close>, \<open>process\<close>).  However often the run is driven again and however far
  the clock has advanced, a positive \<open>ctx.sleep\<close> parks it again: the parked command is executed anew, and its expiry is computed from the
  time of that execution, not from the recorded one.
\<close>

theorem sleep_never_wakes:
  assumes "0 < d" "\<And>seq k w t. f (Inl (Suspension seq k w t)) = Raise (Suspension seq k w t)" "wr_commands run = []" "0 < n"
  shows "wr_status (fst (redrive undo (\<lambda>i. Command (sleep_command u d) f) n (run, e))) = WaitingRun"
  using redrive_sleeps [OF assms(1,2) _ assms(4), of "(run, e)" undo u] assms(3) by (simp add: asleep_def)

theorem sleep_never_wakes_witness:
  "wr_status (fst (redrive undone (\<lambda>i. Command (sleep_command 0 1) (\<lambda>r. case r of Inl t \<Rightarrow> Raise t | Inr v \<Rightarrow> Finish v)) 1000
     (sample_run [], quiet_env []))) = WaitingRun"
  by (rule sleep_never_wakes) (simp_all add: sample_run_def)

text \<open>
  A cancellation during a command is lost (\<open>journal.ts\<close>, \<open>process\<close>; \<open>engine.ts\<close>, \<open>cancel\<close>).  When a running run is cancelled while the effect
  of its current command is awaited, the snapshot the command then persists has the status the drive holds: the run is
  running again.
\<close>

theorem cancel_in_flight_lost:
  assumes "wr_status (j_run j) = Running" "length (wr_commands (j_run j)) \<le> j_cursor j"
    "sp_execute spec (wr_nextSeq (j_run j)) (fst (read_clock e)) (j_run j) (snd (read_clock e)) =
       (Inr oc, eg_env (cancel_run (wr_runId (j_run j)) g))" "oc_runStatus oc = None"
  shows "\<exists>run. store_load (wr_runId (j_run j)) (we_store (snd (snd (process spec j e)))) = Some run \<and> wr_status run = Running"
  using live_command_overwrites [OF assms(3,2), of "fst (process spec j e)" "fst (snd (process spec j e))" "snd (snd (process spec j e))"]
    assms(1,4) by simp

definition cancelled_meanwhile :: "(nat, (string \<times> nat) list) command_spec" where
  "cancelled_meanwhile = \<lparr>sp_kind = Activity, sp_metadata = None,
     sp_execute = (\<lambda>seq now run e. (Inr (plain_outcome (SCompleted 1)), eg_env (cancel_run ''r'' (sample_engine Running))))\<rparr>"

theorem cancel_in_flight_lost_witness:
  "\<exists>run. store_load ''r'' (we_store (snd (snd (process cancelled_meanwhile (new_journal (sample_run [])) (quiet_env []))))) = Some run \<and>
     wr_status run = Running"
  using cancel_in_flight_lost [of "new_journal (sample_run [])" cancelled_meanwhile "quiet_env []" "plain_outcome (SCompleted 1)" "sample_engine Running"]
  by (simp add: new_journal_def sample_run_def cancelled_meanwhile_def plain_outcome_def)

section \<open>HTTP requests\<close>

definition sample_handler :: "nat http_handler" where
  "sample_handler c = send (JsonReply 1) 200 c"

lemma sample_handler_returns: "\<exists>c'. sample_handler c = (Inr (), c')"
  by (simp add: sample_handler_def send_def reply_failure_def serialise_failure_def)

definition sample_schema :: route_schema where
  "sample_schema =
     \<lparr>rs_body = None, rs_query = None,
      rs_params = Some [(''id'', \<lparr>fr_type = TBoolean, fr_required = True, fr_min = None, fr_max = None, fr_pattern = None\<rparr>)]\<rparr>"

definition sample_rbac :: rbac_service where
  "sample_rbac = new_rbac [(''admin'', [''editor'']), (''editor'', [])] [(''editor'', [''write''])]"

definition sample_meta :: "nat route_meta" where
  "sample_meta = \<lparr>rm_roles = None, rm_permissions = Some [''write''], rm_rateLimit = None\<rparr>"

definition posts_route :: "nat compiled_route" where
  "posts_route =
     \<lparr>cr_method = ''GET'', cr_pattern = map Lit ''/posts'', cr_paramNames = [], cr_middlewares = [rbac_guard sample_rbac None],
      cr_handler = sample_handler, cr_validate = None, cr_pathTemplate = ''/posts'', cr_requiredRoles = [],
      cr_requiredPermissions = [''write''], cr_rateLimitMw = None\<rparr>"

definition users_route :: "nat compiled_route" where
  "users_route =
     \<lparr>cr_method = ''GET'', cr_pattern = map Lit ''/users/'' @ [Param ''id''], cr_paramNames = [''id''], cr_middlewares = [],
      cr_handler = sample_handler, cr_validate = Some sample_schema, cr_pathTemplate = ''/users/:id'', cr_requiredRoles = [],
      cr_requiredPermissions = [], cr_rateLimitMw = None\<rparr>"

definition sample_routes :: "nat compiled_route list" where
  "sample_routes =
     add_route ''get'' ''/users/:id/'' [] sample_handler (Some sample_schema) None
       (add_route ''get'' ''/posts'' [rbac_guard sample_rbac None] sample_handler None (Some sample_meta) [])"

definition http_request :: "string \<Rightarrow> nat http_context" where
  "http_request path = create_context (Some ''GET'') path [] []"

definition sample_user :: "nat http_context \<Rightarrow> string list \<Rightarrow> nat http_context" where
  "sample_user c roles = c\<lparr>hc_user := Some \<lparr>hu_id = ''u'', hu_email = [], hu_roles = roles\<rparr>\<rparr>"

lemma sample_routes_eq: "sample_routes = [posts_route, users_route]"
proof -
  have "normalize_route_path ''/users/:id/'' = ''/users/:id''" "normalize_route_path ''/posts'' = ''/posts''" "to_upper ''get'' = ''GET''"
    "compile_path ''/posts'' = map Lit ''/posts''" "param_names (map Lit ''/posts'') = []"
    "compile_path ''/users/:id'' = map Lit ''/users/'' @ [Param ''id'']" "param_names (map Lit ''/users/'' @ [Param ''id'']) = [''id'']"
    by code_simp+
  then show ?thesis
    by (simp only: sample_routes_def add_route_def posts_route_def users_route_def sample_meta_def Let_def route_meta.simps
      option.case nullish_simps append.simps)
qed

lemma http_request_simps [simp]:
  "hc_method (http_request p) = ''GET''" "hc_path (http_request p) = p" "\<not> hc_sent (http_request p)"
  "hc_user (http_request p) = None"
  by (simp_all add: http_request_def create_context_def to_upper_def upper_char_def)

text \<open>
  C11: Routing (\<open>packages/router/src/router.ts\<close>, \<open>match\<close> and \<open>compilePath\<close>; \<open>server.ts\<close>).  A request is routed to nothing exactly
  when its path ends in a slash, other than the path \<open>/\<close> itself, or no registered route fits it; in an application without
  global middleware such a request, when nothing has been sent yet, is then answered 404.  A route that is taken
  is the first registered one whose method and template fit, and the captures fill its template to the path.
\<close>

theorem http_route_taken:
  assumes "\<not> hc_sent c" "method = hc_method c" "path = hc_path c"
  shows "(match_request routes method path = Inr None \<longleftrightarrow>
      (path \<noteq> ''/'' \<and> path \<noteq> [] \<and> last path = CHR ''/'') \<or> (\<forall>r \<in> set routes. \<not> route_fits method path r)) \<and>
    (match_request routes method path = Inr None \<longrightarrow> (\<exists>reply. hc_reply (snd (serve mode [] routes c)) = Some (404, reply))) \<and>
    (match_request routes method path = Inr (Some (route, params)) \<longrightarrow>
      (\<exists>before after groups. routes = before @ route # after \<and> (\<forall>r \<in> set before. \<not> route_fits method path r) \<and>
        route_fits method path route \<and> exec_tokens (cr_pattern route) path = Some groups \<and>
        fill (cr_pattern route) groups = path \<and> build_params (cr_paramNames route) groups [] = Inr params))"
proof (intro conjI impI)
  have "\<not> is_canonical_request_path path \<longleftrightarrow> path \<noteq> ''/'' \<and> path \<noteq> [] \<and> last path = CHR ''/''"
    by (simp add: is_canonical_request_path_def ends_with_slash [unfolded slash_def] slash_def)
  then show "match_request routes method path = Inr None \<longleftrightarrow>
    (path \<noteq> ''/'' \<and> path \<noteq> [] \<and> last path = CHR ''/'') \<or> (\<forall>r \<in> set routes. \<not> route_fits method path r)"
    by (simp add: match_request_def match_routes_none)
next
  assume "match_request routes method path = Inr None"
  then show "\<exists>reply. hc_reply (snd (serve mode [] routes c)) = Some (404, reply)"
    using assms catch_error_answers [of c "not_found_handler c" mode]
    by (auto simp: serve_def run_app_pipeline_nil dispatch_request_def not_found_handler_def not_found_def answer_status_def
        answerable_def error_details_of_def)
next
  assume "match_request routes method path = Inr (Some (route, params))"
  then have "match_routes routes method path = Inr (Some (route, params))" by (simp add: match_request_def split: if_splits)
  from match_routes_some [OF this] exec_sound
  show "\<exists>before after groups. routes = before @ route # after \<and> (\<forall>r \<in> set before. \<not> route_fits method path r) \<and>
        route_fits method path route \<and> exec_tokens (cr_pattern route) path = Some groups \<and>
        fill (cr_pattern route) groups = path \<and> build_params (cr_paramNames route) groups [] = Inr params" by metis
qed

theorem http_route_taken_witness:
  "\<exists>reply. hc_reply (snd (serve Legacy [] sample_routes (http_request ''/nothing''))) = Some (404, reply)"
proof -
  have "exec_tokens (map Lit ''/posts'') ''/nothing'' = None" "exec_tokens (map Lit ''/users/'' @ [Param ''id'']) ''/nothing'' = None"
    by code_simp+
  then have "\<forall>r \<in> set sample_routes. \<not> route_fits ''GET'' ''/nothing'' r"
    unfolding sample_routes_eq by (simp add: route_fits_exec posts_route_def users_route_def)
  with http_route_taken [of "http_request ''/nothing''" "''GET''" "''/nothing''" sample_routes Legacy] show ?thesis by simp
qed

text \<open>
  C12: Path parameters (\<open>router.ts\<close>, \<open>add\<close>, \<open>compilePath\<close>, \<open>match\<close>).  Filling a template, whose parameters are separated by slashes, with
  URI-encoded values gives a path that is routed to the template's route, if no earlier route fits, with
  exactly these values as parameters, whatever characters they contain.
\<close>

theorem path_params_round_trip:
  assumes "ts = compile_path (normalize_route_path template)" "segmented ts" "distinct (param_names ts)"
    "''__proto__'' \<notin> set (param_names ts)" "length vs = length (param_names ts)" "\<forall>v \<in> set vs. v \<noteq> [] \<and> list_all scalar_value v"
    "path = fill ts (map encode_uri_component vs)" "is_canonical_request_path path"
    "\<forall>r \<in> set before. \<not> route_fits (to_upper method) path r"
  shows "\<exists>route. match_request (add_route method template middlewares handler validate meta before) (to_upper method) path =
      Inr (Some (route, zip (param_names ts) vs)) \<and> cr_handler route = handler \<and> cr_middlewares route = middlewares"
proof -
  obtain route where r: "add_route method template middlewares handler validate meta before = before @ [route]"
    "cr_pattern route = ts" "cr_paramNames route = param_names ts" "cr_method route = to_upper method"
    "cr_handler route = handler" "cr_middlewares route = middlewares"
    by (simp add: add_route_def Let_def assms(1))
  have "match_request (before @ [route]) (to_upper method) path = Inr (Some (route, zip (cr_paramNames route) vs))"
    using assms by (intro param_round_trip) (simp_all add: r)
  with r show ?thesis by auto
qed

theorem path_params_round_trip_witness:
  "\<exists>route. match_request (add_route ''get'' ''/users/:id'' [] sample_handler None None []) (to_upper ''get'') ''/users/a%2Fb'' =
      Inr (Some (route, zip [''id''] [codes ''a/b''])) \<and> cr_handler route = sample_handler \<and> cr_middlewares route = []"
proof -
  have ts: "compile_path (normalize_route_path ''/users/:id'') = map Lit ''/users/'' @ [Param ''id'']" by code_simp
  have path: "fill (map Lit ''/users/'' @ [Param ''id'']) (map encode_uri_component [codes ''a/b'']) = ''/users/a%2Fb''" by code_simp
  have "segmented (map Lit ''/users/'' @ [Param ''id''])" "param_names (map Lit ''/users/'' @ [Param ''id'']) = [''id'']"
    "is_canonical_request_path ''/users/a%2Fb''" by code_simp+
  moreover have "codes ''a/b'' \<noteq> []" "list_all scalar_value (codes ''a/b'')" by (simp_all add: codes_def scalar_value_def surrogate_def)
  ultimately show ?thesis using path_params_round_trip [OF ts [symmetric], of "[codes ''a/b'']" "''/users/a%2Fb''" "[]" "''get''" "[]" sample_handler None None]
    unfolding path by (simp del: fill.simps)
qed

text \<open>
  C13: What a validated handler sees (\<open>router.ts\<close>, \<open>createValidationMiddleware\<close>, \<open>validateObject\<close>).  For a route with a schema, without a rate
  limiter and without middleware of its own: its handler runs exactly when query and parameters have the types of their rules, and within the
  length bounds where the type is string (\<open>min\<close> and \<open>max\<close> of other types are not looked at), and the body too if it is an
  object.  Otherwise the handler does not run, and the request fails with 400 and the violations; or, when a field of the body
  cannot be converted to a string, with the \<open>TypeError\<close> of the conversion, which is answered 500.
\<close>

theorem validated_handler_types:
  assumes "match_request routes (hc_method c) (hc_path c) = Inr (Some (route, params))"
    "cr_rateLimitMw route = None" "cr_middlewares route = []" "cr_validate route = Some schema" "entered = enter_route route params c"
  shows "(well_typed schema entered \<longrightarrow>
      fst (dispatch_request False routes c) = map_prod (map_sum id (\<lambda>_. True)) id (cr_handler route entered)) \<and>
    (\<not> well_typed schema entered \<longrightarrow>
      (\<exists>errors. errors \<noteq> [] \<and> schema_errors schema entered = Inr errors \<and>
         fst (dispatch_request False routes c) = (Inl (bad_request ''Validation failed'' errors), entered)) \<or>
      (\<exists>e. throwing_field schema entered e \<and> schema_errors schema entered = Inl e \<and>
         fst (dispatch_request False routes c) = (Inl (Plain e), entered) \<and> answer_status (Plain e) = 500))"
proof (intro conjI impI)
  assume "well_typed schema entered"
  then have "schema_errors schema entered = Inr []" by (simp add: schema_errors_none)
  then show "fst (dispatch_request False routes c) = map_prod (map_sum id (\<lambda>_. True)) id (cr_handler route entered)"
    using validated_route [OF assms(1-4)] assms(5) by (auto simp: id_def split: prod.split sum.split)
next
  assume "\<not> well_typed schema entered"
  then have "schema_errors schema entered \<noteq> Inr []" by (simp add: schema_errors_none)
  then show "(\<exists>errors. errors \<noteq> [] \<and> schema_errors schema entered = Inr errors \<and>
         fst (dispatch_request False routes c) = (Inl (bad_request ''Validation failed'' errors), entered)) \<or>
      (\<exists>e. throwing_field schema entered e \<and> schema_errors schema entered = Inl e \<and>
         fst (dispatch_request False routes c) = (Inl (Plain e), entered) \<and> answer_status (Plain e) = 500)"
    using validated_route [OF assms(1-4)] assms(5) schema_errors_throws [of schema entered]
    by (cases "schema_errors schema entered") (auto simp: answer_status_def)
qed

theorem validated_handler_types_witness:
  "fst (fst (dispatch_request False sample_routes (http_request ''/users/7''))) =
     Inl (bad_request ''Validation failed'' [MustBeBoolean InParams ''id''])"
proof -
  have "exec_tokens (map Lit ''/posts'') ''/users/7'' = None" "exec_tokens (map Lit ''/users/'' @ [Param ''id'']) ''/users/7'' = Some [''7'']"
    "build_params [''id''] [''7''] [] = Inr [(''id'', codes ''7'')]" "is_canonical_request_path ''/users/7''"
    by code_simp+
  then have m: "match_request sample_routes ''GET'' ''/users/7'' = Inr (Some (users_route, [(''id'', codes ''7'')]))"
    unfolding sample_routes_eq match_request_def by (simp add: posts_route_def users_route_def)
  have r: "cr_rateLimitMw users_route = None" "cr_middlewares users_route = []" "cr_validate users_route = Some sample_schema"
    by (simp_all add: users_route_def)
  have "check_value InParams ''id'' \<lparr>fr_type = TBoolean, fr_required = True, fr_min = None, fr_max = None, fr_pattern = None\<rparr> (VString (codes ''7''))
      = [MustBeBoolean InParams ''id'']"
    by (simp add: check_value_def boolean_like_def codes_def)
  then have e: "schema_errors sample_schema (enter_route users_route [(''id'', codes ''7'')] (http_request ''/users/7'')) = Inr [MustBeBoolean InParams ''id'']"
    by (simp add: schema_errors_def optional_rules_def enter_route_def sample_schema_def lookup_value_def check_rule_def codes_def
        http_request_def create_context_def)
  from validated_handler_types [OF _ r refl, of sample_routes "http_request ''/users/7''" "[(''id'', codes ''7'')]"] m e
  show ?thesis by (auto simp flip: schema_errors_none)
qed

text \<open>
  C14: Roles and permissions of a route (\<open>packages/core/src/auth/rbac.ts\<close>, \<open>rbacGuard\<close> and \<open>RbacService\<close>; \<open>router.ts\<close>, \<open>dispatch\<close>).  When the guard
  is the first middleware of a route, what follows it runs exactly when the user has one of the required roles by name
  and each required permission is listed for a role that one of the user's roles inherits, at any distance and
  whatever cycles the hierarchy has; otherwise nothing after the guard runs and the request fails with 403.
\<close>

theorem guarded_route_enforces:
  assumes "match_request routes (hc_method c) (hc_path c) = Inr (Some (route, params))"
    "cr_rateLimitMw route = None" "cr_middlewares route = rbac_guard (new_rbac hierarchy table) None # ms"
    "allowed \<longleftrightarrow> (cr_requiredRoles route = [] \<or> set (cr_requiredRoles route) \<inter> set (user_roles c) \<noteq> {}) \<and>
       (\<forall>p \<in> set (cr_requiredPermissions route). \<exists>r \<in> set (user_roles c). \<exists>s. inherits hierarchy r s \<and> p \<in> set (role_entry table s))"
  shows "(allowed \<longrightarrow> fst (dispatch_request False routes c) =
      map_prod (map_sum id (\<lambda>_. True)) id (run_http_pipeline (tl (route_pipeline route)) (enter_route route params c))) \<and>
    (\<not> allowed \<longrightarrow> (\<exists>m. fst (dispatch_request False routes c) = (Inl (forbidden m), enter_route route params c)))"
proof -
  let ?e = "enter_route route params c"
  have e: "hc_requiredRoles ?e = Some (cr_requiredRoles route)" "hc_requiredPermissions ?e = Some (cr_requiredPermissions route)"
    "user_roles ?e = user_roles c" by (simp_all add: enter_route_def user_roles_def)
  have g: "guard_denial (new_rbac hierarchy table) ?e = None \<longleftrightarrow> allowed"
    unfolding guard_denial_none assms(4) e nullish_simps has_permission_iff by blast
  have "\<exists>m. denial_error d = forbidden m" for d by (cases d) (auto simp: denial_error_def)
  then show ?thesis using g guarded_route [OF assms(1-3)]
    by (cases "guard_denial (new_rbac hierarchy table) ?e")
      (auto simp: id_def split: prod.split sum.split)
qed

theorem guarded_route_enforces_witness:
  "fst (fst (dispatch_request False sample_routes (sample_user (http_request ''/posts'') [''admin'']))) = Inr True \<and>
   (\<exists>m. fst (fst (dispatch_request False sample_routes (sample_user (http_request ''/posts'') [''guest'']))) = Inl (forbidden m))"
proof -
  let ?h = "[(''admin'', [''editor'']), (''editor'', [])]" and ?t = "[(''editor'', [''write''])]"
  have "exec_tokens (map Lit ''/posts'') ''/posts'' = Some []" "is_canonical_request_path ''/posts''" by code_simp+
  then have m: "match_request sample_routes (hc_method (sample_user (http_request ''/posts'') rs)) (hc_path (sample_user (http_request ''/posts'') rs)) =
      Inr (Some (posts_route, []))" for rs
    unfolding sample_routes_eq match_request_def by (simp add: posts_route_def sample_user_def)
  have r: "cr_rateLimitMw posts_route = None" "cr_middlewares posts_route = rbac_guard (new_rbac ?h ?t) None # []"
    by (simp_all add: posts_route_def sample_rbac_def)
  note G = guarded_route_enforces [OF m r refl]
  have "inherits ?h ''admin'' ''editor''" by (rule inherits_step [OF inherits_refl]) (simp add: role_entry_def)
  moreover have t: "role_entry ?t ''editor'' = [''write'']" "role_entry ?t ''guest'' = []" by (simp_all add: role_entry_def)
  ultimately have a: "\<exists>s. inherits ?h ''admin'' s \<and> ''write'' \<in> set (role_entry ?t s)" by (intro exI [of _ "''editor''"]) simp
  have o: "s = ''guest''" if "inherits ?h ''guest'' s" for s
    using that by (induction rule: inherits.induct) (simp_all add: role_entry_def)
  have g: "\<not> (\<exists>s. inherits ?h ''guest'' s \<and> ''write'' \<in> set (role_entry ?t s))"
  proof
    assume "\<exists>s. inherits ?h ''guest'' s \<and> ''write'' \<in> set (role_entry ?t s)"
    then obtain s where s: "inherits ?h ''guest'' s" "''write'' \<in> set (role_entry ?t s)" by blast
    with o [OF s(1)] t(2) show False by simp
  qed
  have p: "cr_requiredRoles posts_route = []" "cr_requiredPermissions posts_route = [''write'']"
    "user_roles (sample_user (http_request ''/posts'') rs) = rs" "tl (route_pipeline posts_route) = [handler_step sample_handler]" for rs
    by (simp_all add: posts_route_def sample_user_def user_roles_def route_pipeline_def)
  obtain c' where h: "sample_handler (enter_route posts_route [] (sample_user (http_request ''/posts'') [''admin''])) = (Inr (), c')"
    using sample_handler_returns by blast
  have "fst (fst (dispatch_request False sample_routes (sample_user (http_request ''/posts'') [''admin'']))) = Inr True"
    using G [of "[''admin'']"] a by (simp add: p h)
  moreover have "\<exists>m. fst (fst (dispatch_request False sample_routes (sample_user (http_request ''/posts'') [''guest'']))) = Inl (forbidden m)"
    using G [of "[''guest'']"] g by (auto simp: p)
  ultimately show ?thesis by blast
qed

text \<open>
  A global role guard guards nothing (\<open>rbac.ts\<close>, \<open>rbacGuard\<close>; \<open>server.ts\<close>, \<open>handleRequest\<close>).  Used as the documentation shows it, after the
  authentication middleware on the application, the guard makes no difference to any request: the required roles
  and permissions are set by the router, after all global middleware has run.
\<close>

theorem global_rbac_guard_inert:
  "server_handle_request mode parse multipart maxBytes (auth_middleware verify # rbac_guard service audit # ms) routes method path headers query events =
   server_handle_request mode parse multipart maxBytes (auth_middleware verify # ms) routes method path headers query events"
proof -
  have "serve mode (auth_middleware verify # rbac_guard service audit # ms) routes c = serve mode (auth_middleware verify # ms) routes c"
    if "parse_body parse multipart maxBytes method events (create_context method path headers query) = Some (Inr c)" for c :: "'a http_context"
    using parse_body_fresh [OF that] by (simp add: serve_def guard_skipped)
  then show ?thesis by (simp add: server_handle_request_def Let_def split: option.split sum.split)
qed

text \<open>
  C15: What failures are answered with (\<open>server.ts\<close>, \<open>handleRequest\<close>; \<open>router.ts\<close>, \<open>errorHandler\<close>; \<open>context.ts\<close>, \<open>json\<close>).  When the middleware, the
  router or a handler throws: if no reply had been started, and the error's status is between 100 and 999 and its details have a JSON text, the
  error is answered, with the status of the exception, or 500 for any other error; the answer to such another error is the same whatever the error was.
  If a reply had been started, nothing is added: what the client got of it stays, also when that is nothing because the reply itself
  threw (\<open>failed_reply_unanswered\<close>).
\<close>

theorem failures_answered_and_sanitized:
  assumes "run_http_pipeline (app_pipeline ms routes) c = (Inl err, c')"
  shows "(hc_sent c' \<longrightarrow> serve mode ms routes c = (Inr (), c')) \<and>
    (\<not> hc_sent c' \<and> 100 \<le> answer_status err \<and> answer_status err \<le> 999 \<and> (\<forall>e. error_details_of err \<noteq> Some (DetailsThrow e)) \<longrightarrow>
       (\<exists>body c''. serve mode ms routes c = (Inr (), c'') \<and> hc_sent c'' \<and> hc_reply c'' = Some (answer_status err, FaultReply body))) \<and>
    (err = Plain e \<and> \<not> hc_sent c' \<longrightarrow>
       (\<exists>body. hc_reply (snd (serve mode ms routes c)) = Some (500, FaultReply body) \<and>
               hc_reply (snd (catch_error mode (Inl (Plain other), c'))) = Some (500, FaultReply body)))"
proof -
  have s: "serve mode ms routes c = catch_error mode (Inl err, c')" using assms by (simp add: serve_def)
  show ?thesis
  proof (intro conjI impI)
    assume "hc_sent c'"
    then show "serve mode ms routes c = (Inr (), c')" by (simp add: s catch_error_sent)
  next
    assume "\<not> hc_sent c' \<and> 100 \<le> answer_status err \<and> answer_status err \<le> 999 \<and> (\<forall>e. error_details_of err \<noteq> Some (DetailsThrow e))"
    then show "\<exists>body c''. serve mode ms routes c = (Inr (), c'') \<and> hc_sent c'' \<and> hc_reply c'' = Some (answer_status err, FaultReply body)"
      unfolding s by (intro catch_error_answers) (auto simp: answerable_def)
  next
    assume p: "err = Plain e \<and> \<not> hc_sent c'"
    then obtain body where "hc_reply (snd (catch_error mode (Inl (Plain e), c'))) = Some (500, FaultReply body)"
      using catch_error_answers [of c' "Plain e" mode] by (auto simp: answer_status_def)
    with p plain_error_sanitized [of mode e c' other]
    show "\<exists>body. hc_reply (snd (serve mode ms routes c)) = Some (500, FaultReply body) \<and>
               hc_reply (snd (catch_error mode (Inl (Plain other), c'))) = Some (500, FaultReply body)"
      unfolding s by metis
  qed
qed

theorem failures_answered_and_sanitized_witness:
  "\<exists>body. hc_reply (snd (serve Legacy [HSettle (Inl (Plain (JsError ''Error'' ''secret'')))] sample_routes (http_request ''/posts''))) = Some (500, FaultReply body) \<and>
     hc_reply (snd (catch_error Legacy (Inl (Plain (JsError ''Error'' ''other'')), http_request ''/posts''))) = Some (500, FaultReply body)"
proof -
  have "run_http_pipeline (app_pipeline [HSettle (Inl (Plain (JsError ''Error'' ''secret'')))] sample_routes) (http_request ''/posts'') =
    (Inl (Plain (JsError ''Error'' ''secret'')), http_request ''/posts'')" by (simp add: app_pipeline_def)
  from failures_answered_and_sanitized [OF this, of Legacy "JsError ''Error'' ''secret''" "JsError ''Error'' ''other''"] show ?thesis by simp
qed

text \<open>
  C16: Cookies come back (\<open>packages/context/src/context.ts\<close>, \<open>setCookie\<close> and \<open>cookie\<close>).  What a client keeps of a cookie set by \<open>setCookie\<close>, whatever the
  options, is the name and the encoded value; and from a \<open>Cookie\<close> header made of such pairs \<open>cookie\<close> reads, for every name, the
  value of the first cookie with that name as it was set.
\<close>

theorem cookies_come_back:
  assumes "jar \<noteq> []" "\<forall>(n, v) \<in> set jar. cookie_name n \<and> list_all scalar_value v"
    "map_of (hc_headers c) ''cookie'' =
       Some (join_str ''; '' (map (\<lambda>(n, v). takeWhile (\<lambda>x. x \<noteq> CHR '';'') (serialize_cookie (production n) n v (options n))) jar))"
  shows "cookie name c = Inr (map_of jar name)"
proof -
  have "map (\<lambda>(n, v). takeWhile (\<lambda>x. x \<noteq> CHR '';'') (serialize_cookie (production n) n v (options n))) jar = map (\<lambda>(n, v). cookie_pair n v) jar"
    using assms(2) by (auto simp: stored_cookie)
  then have "map_of (hc_headers c) ''cookie'' = Some (cookie_header jar)" unfolding assms(3) cookie_header_def by (simp only:)
  then show ?thesis by (rule cookie_round_trip [OF assms(1,2)])
qed

theorem cookies_come_back_witness:
  "cookie ''b'' (http_request ''/'' \<lparr>hc_headers :=
     [(''cookie'', join_str ''; '' (map (\<lambda>(n, v). takeWhile (\<lambda>x. x \<noteq> CHR '';'')
        (serialize_cookie True n v \<lparr>ck_httpOnly = None, ck_secure = None, ck_sameSite = None, ck_maxAge = None, ck_path = Some ''/'', ck_domain = None\<rparr>))
        [(''a'', codes ''x; y''), (''b'', codes ''50%'')]))]\<rparr>) = Inr (Some (codes ''50%''))"
proof -
  have "cookie_name ''a''" "cookie_name ''b''" by code_simp+
  then show ?thesis
    by (subst cookies_come_back [where jar = "[(''a'', codes ''x; y''), (''b'', codes ''50%'')]" and production = "\<lambda>_. True" and
        options = "\<lambda>_. \<lparr>ck_httpOnly = None, ck_secure = None, ck_sameSite = None, ck_maxAge = None, ck_path = Some ''/'', ck_domain = None\<rparr>"])
      (simp_all add: codes_def scalar_value_def surrogate_def del: join_str.simps)
qed

section \<open>Tokens, keys and codes\<close>

definition sample_tokens :: token_config where
  "sample_tokens = \<lparr>tc_digest = rev, tc_sign = (\<lambda>user ttl. ''jwt:'' @ user), tc_refreshTtlMs = 1000, tc_accessTtlMs = 60000\<rparr>"

definition sample_token_row :: "string \<Rightarrow> string \<Rightarrow> int option \<Rightarrow> token_row" where
  "sample_token_row i raw revoked =
     \<lparr>tk_id = i, tk_token_hash = rev raw, tk_family_id = ''fam'', tk_user_id = ''u'', tk_expires_at = 500, tk_revoked_at = revoked\<rparr>"

text \<open>
  C17: Refresh tokens rotate (\<open>packages/core/src/auth/refresh-tokens.ts\<close>).  Rotations, issues and revocations run in transactions that may
  overlap: a rotation reads its row at its start and changes the rows at its commit.  In every schedule in which no rotation starts in a family, and
  no token is issued into it, while another rotation that read a live token of that family is open, and tokens are issued only into families
  without a live token: ids and hashes stay unique and each family has at most one live token.  A rotation that nothing overlaps and that succeeds
  makes the new token the only live one of the family, for the same user, and from then on the old token is refused.
  Without the condition a family may get several live tokens (\<open>rotations_race\<close>), and a family revoked during a rotation is live
  again after it (\<open>revoked_family_revived\<close>).
\<close>

theorem refresh_tokens_rotate:
  assumes "tokens_ok t0" "token_run cfg (no_rotations t0) s" "t = ts_table s"
  shows "tokens_ok t \<and> (\<forall>family. length (live_tokens family t) \<le> 1) \<and>
    (map_of (ts_open s) i = None \<longrightarrow>
       ts_table (token_step cfg (RotateCommit i newRaw newId now) (token_step cfg (RotateBegin i raw) s)) =
         snd (rotate cfg raw newRaw newId now t)) \<and>
    (rotate cfg raw newRaw newId now t = (Inr p, t') \<longrightarrow> tokens_ok t' \<and>
       (\<exists>row new. sql_select (tc_digest cfg raw) t = Some row \<and> tk_revoked_at row = None \<and> now \<le> tk_expires_at row \<and>
          live_tokens (tk_family_id row) t' = [new] \<and> tk_token_hash new = tc_digest cfg newRaw \<and> tk_user_id new = tk_user_id row \<and>
          rotate cfg raw again againId later t' = (Inl token_replay, t')))"
proof -
  have ok: "tokens_ok t" using token_run_ok [OF assms(2) no_rotations_ok [OF assms(1)]] assms(3) by (simp add: system_ok_def)
  have "\<exists>row new. sql_select (tc_digest cfg raw) t = Some row \<and> tk_revoked_at row = None \<and> now \<le> tk_expires_at row \<and>
          live_tokens (tk_family_id row) t' = [new] \<and> tk_token_hash new = tc_digest cfg newRaw \<and> tk_user_id new = tk_user_id row \<and>
          rotate cfg raw again againId later t' = (Inl token_replay, t')"
    if r: "rotate cfg raw newRaw newId now t = (Inr p, t')"
  proof -
    obtain row row' new where h: "sql_select (tc_digest cfg raw) t = Some row" "sql_select (tc_digest cfg raw) t' = Some row'"
      "tk_revoked_at row' = Some now" "sql_select (tc_digest cfg newRaw) t' = Some new" "tk_user_id new = tk_user_id row"
      "live_tokens (tk_family_id row) t' = [new]"
      using rotate_hands_over [OF ok r] by blast
    moreover have "tk_revoked_at row = None" "now \<le> tk_expires_at row" using rotate_success [OF r] h(1) by auto
    moreover have "tk_token_hash new = tc_digest cfg newRaw" using sql_select_Some [OF h(4)] by simp
    moreover have "rotate cfg raw again againId later t' = (Inl token_replay, t')" by (rule rotate_revoked [OF h(2)]) (simp add: h(3))
    ultimately show ?thesis by blast
  qed
  moreover have "tokens_ok t'" if "rotate cfg raw newRaw newId now t = (Inr p, t')"
    using rotate_ok [OF ok, of cfg raw newRaw newId now] that by simp
  ultimately show ?thesis using ok rotate_steps [of s i cfg newRaw newId now raw] assms(3) by (simp add: tokens_ok_def)
qed

lemma sample_tokens_ok: "tokens_ok [sample_token_row ''1'' ''ab'' revoked]"
  by (simp add: tokens_ok_def live_tokens_def)

theorem refresh_tokens_rotate_witness:
  "\<exists>s p t'. token_run sample_tokens (no_rotations [sample_token_row ''1'' ''ab'' None]) s \<and> length (live_tokens ''fam'' (ts_table s)) \<le> 1 \<and>
     rotate sample_tokens ''cd'' ''ef'' ''3'' 200 (ts_table s) = (Inr p, t') \<and>
     rotate sample_tokens ''cd'' ''gh'' ''4'' 300 t' = (Inl token_replay, t')"
proof -
  let ?init = "no_rotations [sample_token_row ''1'' ''ab'' None]"
  let ?s = "token_step sample_tokens (RotateCommit 0 ''cd'' ''2'' 100) (token_step sample_tokens (RotateBegin 0 ''ab'') ?init)"
  have u: "undisturbing sample_tokens ?init (RotateBegin 0 ''ab'')" by (simp add: undisturbing_def rotating_def no_rotations_def)
  have "undisturbing sample_tokens (token_step sample_tokens (RotateBegin 0 ''ab'') ?init) (RotateCommit 0 ''cd'' ''2'' 100)"
    by (simp add: undisturbing_def)
  from token_run.step [OF token_run.step [OF token_run.start u] this] have run: "token_run sample_tokens ?init ?s" .
  have t: "ts_table ?s = [sample_token_row ''1'' ''ab'' (Some 100), \<lparr>tk_id = ''2'', tk_token_hash = ''dc'', tk_family_id = ''fam'',
      tk_user_id = ''u'', tk_expires_at = 1100, tk_revoked_at = None\<rparr>]"
    by (simp add: no_rotations_def map_has_def pg_transaction_def rotate_with_def sql_select_def sql_insert_def revoke_row_def sql_revoke_def
        sample_tokens_def sample_token_row_def)
  have "\<exists>p t'. rotate sample_tokens ''cd'' ''ef'' ''3'' 200 (ts_table ?s) = (Inr p, t')"
    unfolding t by (simp add: rotate_def pg_transaction_def rotate_body_def rotate_with_def sql_select_def sql_insert_def revoke_row_def
        sql_revoke_def sample_tokens_def sample_token_row_def)
  then obtain p t' where r: "rotate sample_tokens ''cd'' ''ef'' ''3'' 200 (ts_table ?s) = (Inr p, t')" by blast
  from refresh_tokens_rotate [OF sample_tokens_ok run refl, where raw = "''cd''" and newRaw = "''ef''" and newId = "''3''" and now = 200 and
      p = p and t' = t' and again = "''gh''" and againId = "''4''" and later = 300] r run
  show ?thesis by blast
qed

text \<open>
  C18: The replay of a refresh token revokes nothing (\<open>refresh-tokens.ts\<close>, \<open>rotate\<close>; \<open>packages/pool/src/pool.ts\<close>, \<open>transaction\<close>).  When a revoked token is used
  again, \<open>rotate\<close> revokes its family and throws; the statements run in a transaction, which the error rolls back: the table is as
  before, so that a live token of the family, which may be the thief's, can still be rotated.  Without the rollback no
  token of the family would be live.
\<close>

theorem replay_revokes_nothing:
  assumes "sql_select (tc_digest cfg raw) t = Some row" "tk_revoked_at row \<noteq> None"
  shows "rotate cfg raw newRaw newId now t = (Inl token_replay, t) \<and>
    fst (rotate_body cfg raw newRaw newId now t) = Inl token_replay \<and>
    live_tokens (tk_family_id row) (snd (rotate_body cfg raw newRaw newId now t)) = []"
  using rotate_revoked [OF assms] rotate_body_revoked [OF assms] by (simp add: revoke_live_family_none)

theorem replay_revokes_nothing_witness:
  "rotate sample_tokens ''ab'' ''ef'' ''3'' 200 [sample_token_row ''1'' ''ab'' (Some 100), sample_token_row ''2'' ''cd'' None] =
     (Inl token_replay, [sample_token_row ''1'' ''ab'' (Some 100), sample_token_row ''2'' ''cd'' None])"
proof -
  have "sql_select (tc_digest sample_tokens ''ab'') [sample_token_row ''1'' ''ab'' (Some 100), sample_token_row ''2'' ''cd'' None] =
      Some (sample_token_row ''1'' ''ab'' (Some 100))"
    by (simp add: sql_select_def sample_tokens_def sample_token_row_def)
  from replay_revokes_nothing [OF this, of "''ef''" "''3''" 200] show ?thesis by (simp add: sample_token_row_def)
qed

definition sample_key :: api_key where
  "sample_key =
     \<lparr>ak_id = ''k'', ak_keyHash = ''dc'', ak_prefix = ''sk'', ak_name = ''n'', ak_ownerId = ''o'', ak_expiresAt = Some 50, ak_createdAt = 0\<rparr>"

text \<open>
  C19: Which API keys are accepted (\<open>packages/core/src/auth/api-keys.ts\<close>, over the LRU cache).  After any sequence of operations on a new service, each
  running to its end before the next, \<open>verify\<close> accepts a raw key only with the record of its own hash and at most 60
  seconds after its expiry; and once a key is revoked it is never accepted again, unless the same key is drawn
  anew.
\<close>

theorem api_keys_accepted:
  assumes "new_api_key_service rows = Inr s0" "distinct (map ak_id rows)" "distinct (map ak_keyHash rows)"
    "s = foldl (key_step digest) s0 ops"
  shows "(fst (verify_key digest raw now s) = Some k \<longrightarrow>
      ak_keyHash k = digest raw \<and> (\<forall>e. ak_expiresAt k = Some e \<longrightarrow> now \<le> e + 60000)) \<and>
    (row \<in> set (as_table s) \<and> ak_keyHash row = digest raw \<and> digest raw \<noteq> [] \<and> list_all (draws_anew digest (digest raw)) ops' \<longrightarrow>
      fst (verify_key digest raw now (foldl (key_step digest) (revoke_key (ak_id row) s) ops')) = None)"
proof -
  have ok: "keys_ok s" unfolding assms(4) by (rule run_ok [OF new_service_ok [OF assms(1-3)]])
  have "fst (verify_key digest raw now (foldl (key_step digest) (revoke_key (ak_id row) s) ops')) = None"
    if "row \<in> set (as_table s)" "ak_keyHash row = digest raw" "digest raw \<noteq> []" "list_all (draws_anew digest (digest raw)) ops'"
    using verify_gone(2) [OF run_gone [OF revoke_establishes [OF ok that(1)]]] that(2-4) by auto
  then show ?thesis using accepted_key [OF ok] by (simp add: CACHE_TTL_MS_def)
qed

theorem api_keys_accepted_witness:
  "\<exists>s0. new_api_key_service [sample_key] = Inr s0 \<and>
     fst (verify_key rev ''cd'' 20 (foldl (key_step rev) (revoke_key ''k'' (foldl (key_step rev) s0 [KVerify ''cd'' 10])) [KVerify ''x'' 15])) = None"
proof -
  obtain s0 where s0: "new_api_key_service [sample_key] = Inr s0" "as_table s0 = [sample_key]"
    by (auto simp: new_api_key_service_def new_lru_def CACHE_MAX_def CACHE_TTL_MS_def)
  have t: "as_table (snd (verify_key d r n s)) = as_table s" for d r n and s :: api_key_service
    by (auto simp: verify_key_def verify_begin_def verify_end_def remember_def case_prod_beta split: option.split)
  have "as_table (foldl (key_step rev) s0 [KVerify ''cd'' 10]) = [sample_key]" using s0(2) by (simp add: key_step_def t)
  moreover have "ak_keyHash sample_key = rev ''cd''" "ak_id sample_key = ''k''" by (simp_all add: sample_key_def)
  ultimately show ?thesis
    using api_keys_accepted [OF s0(1) _ _ refl, where digest = rev and ops = "[KVerify ''cd'' 10]" and raw = "''cd''" and now = 20 and row = sample_key and
        ops' = "[KVerify ''x'' 15]"] s0(1)
    by (auto simp: draws_anew_def)
qed

text \<open>
  A revocation during a verification is undone (\<open>api-keys.ts\<close>, \<open>verify\<close> and \<open>revoke\<close>).  When a key is revoked while a \<open>verify\<close> of it waits for the
  database, the \<open>verify\<close> puts the key it had read back into the cache: the key is not in the table any more, and is
  accepted for the next 60 seconds.
\<close>

theorem revoked_key_revived:
  assumes "keys_ok s" "verify_begin digest raw now s = (None, s1)" "select_key (digest raw) s1 = Some row" "\<not> key_expired now row"
    "later \<le> now + 60000" "s2 = revoke_key (ak_id row) s1" "s3 = snd (verify_end (digest raw) (Some row) now s2)"
  shows "row \<notin> set (as_table s3) \<and> fst (verify_key digest raw later s3) = Some row"
  using overtaken_revival [OF assms(1-4), of later] assms(5-7) by (simp add: CACHE_TTL_MS_def)

theorem revoked_key_revived_witness:
  "\<exists>s0. new_api_key_service [sample_key] = Inr s0 \<and>
     fst (verify_key rev ''cd'' 60000 (snd (verify_end ''dc'' (Some sample_key) 10 (revoke_key ''k'' (snd (verify_begin rev ''cd'' 10 s0)))))) = Some sample_key"
proof -
  obtain s0 where s0: "new_api_key_service [sample_key] = Inr s0"
    by (auto simp: new_api_key_service_def new_lru_def CACHE_MAX_def CACHE_TTL_MS_def)
  have ok: "keys_ok s0" by (rule new_service_ok [OF s0]) simp_all
  have b: "verify_begin rev ''cd'' 10 s0 = (None, s0)" "as_table s0 = [sample_key]"
    using s0 by (auto simp: new_api_key_service_def new_lru_def CACHE_MAX_def CACHE_TTL_MS_def verify_begin_def lru_get_def)
  have "select_key (rev ''cd'') s0 = Some sample_key" "\<not> key_expired 10 sample_key"
    using b(2) by (simp_all add: select_key_def sample_key_def key_expired_def)
  from revoked_key_revived [OF ok b(1) this, of 60000] s0 b(1) show ?thesis by (simp add: sample_key_def)
qed

text \<open>
  C20: Base32 (\<open>packages/core/src/auth/mfa.ts\<close>, \<open>base32Encode\<close> and \<open>base32Decode\<close>).  Decoding what was encoded gives the bytes back, for any number of
  them, although the 32-bit accumulator of both loops overflows after four bytes; padding and letter case do not
  matter.
\<close>

theorem base32_decodes:
  assumes "to_upper s = to_upper (base32_encode buf)"
  shows "base32_decode (s @ replicate n CHR ''='') = Inr buf"
  using base32_case [OF assms] by (simp add: base32_padded base32_round_trip)

theorem base32_decodes_witness:
  "base32_decode (''aebagbafaydq'' @ replicate 4 CHR ''='') = Inr [1, 2, 3, 4, 5, 6, 7]"
proof -
  have "to_upper ''aebagbafaydq'' = to_upper (base32_encode [1, 2, 3, 4, 5, 6, 7])" by code_simp
  then show ?thesis by (rule base32_decodes)
qed

definition sample_totp :: totp_options where
  "sample_totp = \<lparr>to_digits = 6, to_periodSec = 30\<rparr>"

text \<open>
  C21: One-time passwords (\<open>mfa.ts\<close>, \<open>verifyTotp\<close>, \<open>hotp\<close>).  Whatever the HMAC is, \<open>verifyTotp\<close> accepts a code exactly when, trimmed, it is the
  password of a time step within the window around the current one (with a period of 0 there are no time steps, and
  checking a well-formed code throws); every password has exactly the configured number of digits.
\<close>

theorem totp_accepts:
  assumes "0 < to_digits opts" "window \<le> time_counter opts nowMs" "time_counter opts nowMs + window < 2 ^ 64"
  shows "(to_periodSec opts \<noteq> 0 \<longrightarrow> verify_totp hmac opts window secret code nowMs =
      Inr (\<exists>w \<in> {- window..window}. hotp hmac opts secret (time_counter opts nowMs + w) = Inr (trim code))) \<and>
    (to_periodSec opts = 0 \<and> 0 \<le> window \<and> list_all is_digit (trim code) \<and> length (trim code) = to_digits opts \<longrightarrow>
      verify_totp hmac opts window secret code nowMs = Inl not_an_integer) \<and>
    (hotp hmac opts secret counter = Inr otp \<longrightarrow> length otp = to_digits opts \<and> list_all is_digit otp)"
proof -
  have "trim code \<noteq> []" if "length (trim code) = to_digits opts" using that assms(1) by auto
  then show ?thesis using verify_totp_iff [OF assms] verify_totp_no_period hotp_shape [OF assms(1)] by blast
qed

theorem totp_accepts_witness:
  "verify_totp (\<lambda>s c. replicate 20 1) sample_totp 1 [1, 2] '' 843009 '' 59000 = Inr True"
proof -
  have t: "time_counter sample_totp 59000 = 1" by (simp add: time_counter_def sample_totp_def floor_eq_iff)
  have "truncate_hmac (replicate 20 1) = 16843009" by (simp add: truncate_hmac_def numeral_eq_Suc)
  moreover have "show_nat 843009 = ''843009''" by (simp add: show_nat.simps) code_simp
  ultimately have "hotp (\<lambda>s c. replicate 20 1) sample_totp [1, 2] 1 = Inr ''843009''"
    by (simp add: hotp_def write_uint_def sample_totp_def pad_start_def)
  moreover have "trim '' 843009 '' = ''843009''" by code_simp
  ultimately have "\<exists>w \<in> {- 1..1}. hotp (\<lambda>s c. replicate 20 1) sample_totp [1, 2] (1 + w) = Inr (trim '' 843009 '')"
    by (intro bexI [of _ 0]) simp_all
  with totp_accepts [of sample_totp 1 59000 "\<lambda>s c. replicate 20 1" "[1, 2]" "'' 843009 ''"] t show ?thesis by (simp add: sample_totp_def)
qed

definition sample_mfa :: mfa_row where
  "sample_mfa =
     \<lparr>mf_user_id = ''u'', mf_secret_b32 = ''AEBA'', mf_enabled = True, mf_recovery_hashes = [''a1'', ''b2''], mf_confirmed_at = Some 0\<rparr>"

text \<open>
  Recovery codes work once (\<open>mfa.ts\<close>, \<open>useRecoveryCode\<close>).  An unused code of an enabled user is accepted; after that it is refused in
  every spelling that hashes alike, and the other codes are unaffected.  But the row is read before it is written: a
  second request that read the row before the first wrote it accepts the same code again.
\<close>

theorem recovery_code_single_use:
  assumes "mfa_lookup u t = Some r" "mf_enabled r" "distinct (mf_recovery_hashes r)" "hash_code sha code \<in> set (mf_recovery_hashes r)"
    "t' = snd (use_recovery_code sha u code t)"
  shows "fst (use_recovery_code sha u code t) \<and>
    (hash_code sha again = hash_code sha code \<longrightarrow> use_recovery_code sha u again t' = (False, t')) \<and>
    (hash_code sha other \<noteq> hash_code sha code \<longrightarrow> fst (use_recovery_code sha u other t') = fst (use_recovery_code sha u other t)) \<and>
    fst (use_recovery_row sha (mfa_lookup u t) u code t')"
proof -
  have u: "use_recovery_code sha u code t = (True, t')"
    using assms by (simp add: use_recovery_code_def use_recovery_row_def)
  show ?thesis
    using recovery_once [OF u assms(1,3)] recovery_keeps_others [OF u] recovery_spent_twice [OF assms(1,2,4)] u assms(1)
    by (simp add: use_recovery_row_def assms(2,4))
qed

theorem recovery_code_single_use_witness:
  "fst (use_recovery_code id ''u'' ''A-1'' [sample_mfa]) \<and>
   \<not> fst (use_recovery_code id ''u'' ''a 1'' (snd (use_recovery_code id ''u'' ''A-1'' [sample_mfa])))"
proof -
  have h: "hash_code id ''A-1'' = ''a1''" "hash_code id ''a 1'' = ''a1''" unfolding hash_code_def id_apply by code_simp+
  have r: "mfa_lookup ''u'' [sample_mfa] = Some sample_mfa" "mf_enabled sample_mfa" "distinct (mf_recovery_hashes sample_mfa)"
    "hash_code id ''A-1'' \<in> set (mf_recovery_hashes sample_mfa)"
    unfolding h by (simp_all add: mfa_lookup_def sample_mfa_def)
  from recovery_code_single_use [OF r refl, of "''a 1''"] h show ?thesis by simp
qed

section \<open>The connection pool\<close>

definition sample_pool :: pool_config where
  "sample_pool = \<lparr>pf_minConnections = 1, pf_maxConnections = 2, pf_idleTimeoutMs = 30000\<rparr>"

text \<open>
  C22: The pool is bounded and lends exclusively (\<open>packages/pool/src/pool.ts\<close>).  After a warm-up of at most the maximum, under every
  schedule of acquisitions, releases, failing and dying connections, timeouts, idle sweeps and closing, connections and
  creations under way are at most the maximum and waiters at most 100; and when each new connection is taken over before
  anything else runs, no connection is ever lent to two callers.
\<close>

theorem pool_bounded_and_exclusive:
  assumes "n \<le> pf_maxConnections cfg" "list_all (\<lambda>e. \<not> is_warm e) es"
    "s = pool_run cfg new_pool (warm_up n now @ es)"
  shows "length (pg_connections s) + length (pg_connecting s) \<le> pf_maxConnections cfg \<and> length (pg_waitQueue s) \<le> 100 \<and>
    pg_pendingCreations s = length (pg_connecting s) + length (pg_pushed s) \<and>
    (prompt es \<longrightarrow> distinct (pg_held s))"
proof -
  have st: "pool_settled (pool_run cfg new_pool (warm_up n now))" by (rule warm_up_settled)
  then have "creations_ok (pool_run cfg new_pool (warm_up n now))" by (simp add: pool_settled_def)
  from pool_within_max [OF this warm_up_within [OF assms(1)] assms(2)] loans_distinct [OF _ st, of es cfg]
  show ?thesis by (simp add: assms(3) pool_run_append within_max_def creations_ok_def MAX_WAIT_def)
qed

theorem pool_bounded_and_exclusive_witness:
  "distinct (pg_held (pool_run sample_pool new_pool (warm_up 1 0 @ [Acquire 1 5, Acquire 2 6, Connected 1 7, TakeOver 1, Release 0 8])))"
  using pool_bounded_and_exclusive [of 1 sample_pool "[Acquire 1 5, Acquire 2 6, Connected 1 7, TakeOver 1, Release 0 8]" _ 0, OF _ _ refl]
  by (simp add: sample_pool_def is_warm_def prompt_def)

text \<open>
  A connection can be lent twice (\<open>pool.ts\<close>, \<open>_createConnection\<close> and \<open>_doAcquire\<close>).  A new connection is put into the pool as idle, and marked as used only when
  the code that awaited it runs again.  A caller whose turn comes in between, when no other connection is idle, is
  lent the same connection.
\<close>

theorem pool_lends_twice:
  assumes "pool_settled s" "pg_initialized s" "\<not> pg_closed s" "map_of (pg_connecting s) c = Some (ForCaller w)"
    "scan_connections (pg_state s) (pg_connections s) = NothingFree"
    "t = pool_run cfg s [Connected c now, Acquire w' now', TakeOver c]"
  shows "pg_outcomes t = pg_outcomes s @ [(w', Acquired c), (w, Acquired c)] \<and> \<not> distinct (pg_held t)"
  using lent_twice [OF assms(1,4,5,2,3,6)] by blast

theorem pool_lends_twice_witness:
  "pg_outcomes (pool_run sample_pool (pool_run sample_pool new_pool [WarmDone, Acquire 1 5]) [Connected 0 7, Acquire 2 7, TakeOver 0]) =
     [(2, Acquired 0), (1, Acquired 0)]"
proof -
  let ?s = "pool_run sample_pool new_pool [WarmDone, Acquire 1 5]"
  have "pool_settled ?s"
    using loans_run [of None "[WarmDone, Acquire 1 5]" new_pool sample_pool] new_pool_settled by simp
  moreover have "pg_initialized ?s" "\<not> pg_closed ?s" "map_of (pg_connecting ?s) 0 = Some (ForCaller 1)"
    "scan_connections (pg_state ?s) (pg_connections ?s) = NothingFree" "pg_outcomes ?s = []"
    by (simp_all add: pool_step_def new_pool_def do_acquire_def create_or_wait_def below_max_def sample_pool_def start_creation_def)
  ultimately show ?thesis using pool_lends_twice [of ?s 0 1 _ sample_pool 7 2 7] by simp
qed

section \<open>The gateway\<close>

definition tgt :: "string \<Rightarrow> int \<Rightarrow> upstream_target" where
  "tgt i w = \<lparr>tgt_id = i, tgt_url = ''http://'' @ i, tgt_weight = Some (Fin (of_int w))\<rparr>"

text \<open>
  Smooth weighted round robin is exactly fair (\<open>packages/gateway/src/balancer.ts\<close>).  Over one cycle of as many picks as the sum of the weights,
  starting from a fresh balancer, every candidate is picked exactly as often as its (normalised) weight says.
\<close>

theorem weighted_cycle_exact:
  assumes "distinct (map tgt_id cs)" "t \<in> set cs"
  shows "int (count_list (fst (pick_times weighted_pick (nat (weight_sum cs)) cs [])) (Some t)) = normalize_weight t"
  using weighted_full_cycle [OF assms] .

theorem weighted_cycle_exact_witness:
  "int (count_list (fst (pick_times weighted_pick (nat (weight_sum [tgt ''a'' 5, tgt ''b'' 1, tgt ''c'' 2])) [tgt ''a'' 5, tgt ''b'' 1, tgt ''c'' 2] []))
     (Some (tgt ''a'' 5))) = 5"
  using weighted_cycle_exact [of "[tgt ''a'' 5, tgt ''b'' 1, tgt ''c'' 2]" "tgt ''a'' 5"]
  by (simp add: tgt_def normalize_weight_def)

text \<open>
  C23: The weighted balancer never lets a target run ahead (\<open>balancer.ts\<close>).  After any number \<open>j\<close> of picks from a fresh balancer over the
  same candidates, a target of weight \<open>w\<close> in a pool of total weight \<open>W\<close> has been picked fewer than \<open>j * w / W + 1\<close> times.
\<close>

theorem weighted_share_bound:
  assumes "distinct (map tgt_id cs)" "t \<in> set cs"
  shows "weight_sum cs * int (count_list (fst (pick_times weighted_pick j cs [])) (Some t)) <
    int j * normalize_weight t + weight_sum cs"
  using weighted_share(1) [OF assms] by (metis prod.collapse)

theorem weighted_share_bound_witness:
  "8 * int (count_list (fst (pick_times weighted_pick 3 [tgt ''a'' 5, tgt ''b'' 1, tgt ''c'' 2] [])) (Some (tgt ''b'' 1))) < 3 * 1 + 8"
  using weighted_share_bound [of "[tgt ''a'' 5, tgt ''b'' 1, tgt ''c'' 2]" "tgt ''b'' 1" 3]
  by (simp add: tgt_def normalize_weight_def weight_sum_def)

text \<open>
  Round robin visits the candidates in order (\<open>balancer.ts\<close>).  From cursor \<open>k\<close>, the \<open>i\<close>-th of any number of picks over the same candidates is
  candidate \<open>(k + i) mod n\<close>.
\<close>

theorem round_robin_order:
  "cs \<noteq> [] \<Longrightarrow> fst (pick_times round_robin_pick n cs k) = map (\<lambda>i. Some (cs ! ((k + i) mod length cs))) [0..<n]"
  by (rule round_robin_cycle)

theorem round_robin_order_witness:
  "fst (pick_times round_robin_pick 3 [tgt ''a'' 1, tgt ''b'' 1] 1) = [Some (tgt ''b'' 1), Some (tgt ''a'' 1), Some (tgt ''b'' 1)]"
  using round_robin_order [of "[tgt ''a'' 1, tgt ''b'' 1]" 3 1]
  by (simp add: numeral_3_eq_3 mod_Suc del: pick_times.simps)

text \<open>
  No traffic to an unhealthy target (\<open>gateway.ts\<close>, \<open>health.ts\<close>, \<open>balancer.ts\<close>).  Whatever the strategy and its state, the target picked from the filtered
  pool belongs to the pool and is not recorded unhealthy; no target is picked exactly when all are.
\<close>

theorem pick_only_eligible:
  "(case fst (balancer_pick b live rng (filter_healthy r targets)) of
      Some t \<Rightarrow> t \<in> set targets \<and> map_option hr_state (map_of r (tgt_id t)) \<noteq> Some Unhealthy
    | None \<Rightarrow> list_all (\<lambda>t. map_option hr_state (map_of r (tgt_id t)) = Some Unhealthy) targets)"
proof -
  define P where "P = (\<lambda>t::upstream_target. map_option hr_state (map_of r (tgt_id t)) \<noteq> Some Unhealthy)"
  have "filter_healthy r targets = filter P targets" by (simp add: filter_healthy_def P_def)
  then have "case fst (balancer_pick b live rng (filter_healthy r targets)) of
      Some t \<Rightarrow> t \<in> set targets \<and> P t | None \<Rightarrow> list_all (\<lambda>t. \<not> P t) targets"
  proof (cases "fst (balancer_pick b live rng (filter P targets))")
    case None
    with gb.pick_none_eligible [of b live rng P targets] \<open>filter_healthy r targets = filter P targets\<close>
    show ?thesis by (simp add: list_all_iff)
  next
    case (Some t)
    with gb.pick_eligible [of b live rng P targets] \<open>filter_healthy r targets = filter P targets\<close>
    show ?thesis by simp
  qed
  then show ?thesis unfolding P_def not_not .
qed

text \<open>
  C24: The life of a gateway circuit (\<open>circuit-breaker.ts\<close>).  From a closed circuit without failures, \<open>failureThreshold\<close> consecutive failures open it;
  it then refuses requests exactly until \<open>openMs\<close> have passed since the last of them, and after that many
  \<open>halfOpenSuccesses\<close> good probes it is closed again with no failures counted.
\<close>

theorem gateway_breaker_life:
  assumes "key_circuit k b = Closed 0" "int (length ts) + 1 = kb_failureThreshold b"
    "int (length us) + 1 = kb_halfOpenSuccesses b" "kb_openMs b \<le> now - stamp"
    "opened = foldl (\<lambda>b (now, stamp). breaker_failure k now stamp b) b (ts @ [(t, stamp)])"
  shows "(fst (can_request k u opened) \<longleftrightarrow> kb_openMs b \<le> u - stamp) \<and>
    key_circuit k (foldl (\<lambda>b now. breaker_success k now b) (snd (can_request k now opened)) (us @ [v])) = Closed 0"
proof -
  have "gateway_limits (kb_failureThreshold b) (kb_halfOpenSuccesses b) (kb_openMs b) b" by (simp add: gateway_limits_def)
  from kb.life_cycle [OF this assms] show ?thesis by blast
qed

definition sample_breaker :: keyed_breaker where
  "sample_breaker = new_keyed_breaker \<lparr>cp_failureThreshold = 2, cp_openMs = 100, cp_halfOpenSuccesses = None\<rparr>"

lemma sample_breaker_fields [simp]:
  "key_circuit ''k'' sample_breaker = Closed 0" "kb_failureThreshold sample_breaker = 2"
  "kb_halfOpenSuccesses sample_breaker = 1" "kb_openMs sample_breaker = 100"
  by (simp_all add: sample_breaker_def new_keyed_breaker_def key_circuit_def entry_circuit_def fresh_entry_def math_max_def)

theorem gateway_breaker_life_witness:
  "\<not> fst (can_request ''k'' 60 (breaker_failure ''k'' 20 20 (breaker_failure ''k'' 10 10 sample_breaker)))"
proof -
  have "fst (can_request ''k'' 60 (foldl (\<lambda>b (now, stamp). breaker_failure ''k'' now stamp b) sample_breaker ([(10, 10)] @ [(20, 20)]))) \<longleftrightarrow>
      kb_openMs sample_breaker \<le> 60 - 20"
    by (rule gateway_breaker_life [where us = "[]" and now = 120, OF _ _ _ _ refl, THEN conjunct1]) simp_all
  then show ?thesis by simp
qed

text \<open>
  C25: The core circuit breaker follows the same automaton (\<open>packages/core/src/microservices/circuit-breaker.ts\<close>).  \<open>execute\<close> refuses with \<open>CircuitOpenError\<close> exactly when the
  circuit is open and its timeout has not passed; otherwise it returns the call's own outcome, and the circuit moves as
  the automaton says for that outcome.  This is for a call during which nothing else uses the breaker; when other calls overlap it, its outcome moves the
  circuit as they have left it, and it still returns its own outcome.  The guard against invalid transitions never fires.
\<close>

theorem core_breaker_refines:
  "(case core_execute now out later b of (r, b') \<Rightarrow>
     (if (\<forall>t. tick (cb_timeout b) now (core_circuit b) \<noteq> Opened t)
      then r = out \<and> core_circuit b' =
        (case out of
           Inr v \<Rightarrow> reported_success (cb_successThreshold b) (tick (cb_timeout b) now (core_circuit b))
         | Inl e \<Rightarrow> reported_failure (cb_failureThreshold b) later (tick (cb_timeout b) now (core_circuit b)))
      else r = Inl circuit_open_error \<and> core_circuit b' = tick (cb_timeout b) now (core_circuit b))) \<and>
   (case core_settle out later left of (r, b') \<Rightarrow>
      r = out \<and> core_circuit b' =
        (case out of
           Inr v \<Rightarrow> reported_success (cb_successThreshold left) (core_circuit left)
         | Inl e \<Rightarrow> reported_failure (cb_failureThreshold left) later (core_circuit left)))"
proof -
  let ?lim = "core_limits (cb_failureThreshold b) (cb_successThreshold b) (cb_timeout b)"
  have lim: "?lim b" by (simp add: core_limits_def)
  then have lim1: "?lim (snd (core_admits now b))" using cb.keeps by blast
  note adm = cb.admits_circuit [OF lim, of now] cb.admits_answer [OF lim, of now]
  note suc = cb.success_circuit [OF lim1, of later] and fai = cb.failure_circuit [OF lim1, of later]
  obtain r b' where s: "core_settle out later left = (r, b')" by (cases "core_settle out later left")
  have settle: "r = out \<and> core_circuit b' =
        (case out of
           Inr v \<Rightarrow> reported_success (cb_successThreshold left) (core_circuit left)
         | Inl e \<Rightarrow> reported_failure (cb_failureThreshold left) later (core_circuit left))"
    by (rule core_settle_circuit [OF s])
  have "case core_execute now out later b of (r, b') \<Rightarrow>
     (if (\<forall>t. tick (cb_timeout b) now (core_circuit b) \<noteq> Opened t)
      then r = out \<and> core_circuit b' =
        (case out of
           Inr v \<Rightarrow> reported_success (cb_successThreshold b) (tick (cb_timeout b) now (core_circuit b))
         | Inl e \<Rightarrow> reported_failure (cb_failureThreshold b) later (tick (cb_timeout b) now (core_circuit b)))
      else r = Inl circuit_open_error \<and> core_circuit b' = tick (cb_timeout b) now (core_circuit b))"
    by (simp add: core_execute_circuit adm suc fai split: sum.split)
  with settle show ?thesis unfolding s prod.case by blast
qed

text \<open>
  C26: What one key gets from the gateway's rate limiter (\<open>packages/gateway/src/ratelimit.ts\<close>).  Under a monotone clock, at most \<open>2 * limit\<close> requests of one key are granted
  in any interval of the window's length, whatever other keys do.
\<close>

theorem bucket_window_bound:
  assumes "sorted (map snd cs)"
  shows "int (between a (a + of_int (bl_windowMs (new_bucket_limiter p))) (granted k cs (new_bucket_limiter p))) \<le>
    2 * bl_limit (new_bucket_limiter p)"
proof (cases cs)
  case Nil
  then show ?thesis by (simp add: new_bucket_limiter_def)
next
  case (Cons c cs')
  have "sorted (snd c # map snd cs)" using assms by (auto simp: Cons)
  moreover have "key_books (new_bucket_limiter p) k [] (snd c)"
    by (rule key_books_start [OF new_limiter_ok]) (simp add: new_bucket_limiter_def)
  ultimately show ?thesis using granted_books [OF new_limiter_ok, of p k "[]" "snd c" cs a] by simp
qed

theorem bucket_window_bound_witness:
  "int (between 95 (95 + of_int (bl_windowMs (new_bucket_limiter \<lparr>lp_scope = LsIp, lp_limit = 1, lp_windowMs = 100\<rparr>)))
     (granted ''a'' [(''a'', 0), (''a'', 99), (''b'', 99), (''a'', 100), (''a'', 150)]
       (new_bucket_limiter \<lparr>lp_scope = LsIp, lp_limit = 1, lp_windowMs = 100\<rparr>))) \<le>
   2 * bl_limit (new_bucket_limiter \<lparr>lp_scope = LsIp, lp_limit = 1, lp_windowMs = 100\<rparr>)"
  by (rule bucket_window_bound) simp

text \<open>
  What a retried call does (\<open>packages/gateway/src/retry.ts\<close>, \<open>runWithRetry\<close>).  It always ends.  With \<open>n\<close> waits it has made
  \<open>n + 1\<close> attempts, numbered from 1, at most \<open>maxAttempts\<close> (at least one); all but the last failed with an error that may be retried, the outcome
  is that of the last, and it gave up only when no attempt was left or the error or the method may not be retried.
\<close>

theorem retried_call_attempts:
  assumes "run_with_retry attempt p m retryable = (r, ds)"
  shows "int (length ds) + 1 \<le> max 1 (floor (rp_maxAttempts p)) \<and> r = attempt (length ds + 1) \<and>
    ds = map (compute_retry_delay p) [1..<1 + length ds] \<and>
    (\<forall>i \<in> {1..<1 + length ds}. \<exists>err. attempt i = Inl err \<and> method_allowed p m \<and> retryable err) \<and>
    (\<forall>err. r = Inl err \<longrightarrow>
       int (length ds) + 1 = max 1 (floor (rp_maxAttempts p)) \<or> \<not> method_allowed p m \<or> \<not> retryable err)"
proof -
  define n where "n = nat (max 1 (floor (rp_maxAttempts p)))"
  have n: "int n = max 1 (floor (rp_maxAttempts p))" "1 \<le> n" by (auto simp: n_def)
  have "retry_run attempt (\<lambda>n e. method_allowed p m \<and> retryable e) (compute_retry_delay p) n 1 (r, ds)"
    using retry_from_run [OF n(2), of attempt "method_allowed p m" retryable p] assms by (simp add: run_with_retry_def n_def)
  then show ?thesis unfolding retry_run_def prod.case n(1) [symmetric] by (auto simp: add.commute)
qed

definition twice_policy :: retry_policy where
  "twice_policy = \<lparr>rp_maxAttempts = 3, rp_baseDelayMs = Some 100, rp_multiplier = None, rp_maxDelayMs = Some 150, rp_retryMethods = None\<rparr>"

theorem retried_call_attempts_witness:
  "snd (run_with_retry (\<lambda>n. Inl n :: nat + unit) twice_policy None (\<lambda>e. True)) = [100, 150]"
proof -
  have k: "nat (max 1 (floor (rp_maxAttempts twice_policy))) = 3" by (simp add: twice_policy_def)
  have r: "run_with_retry (\<lambda>n. Inl n :: nat + unit) twice_policy None (\<lambda>e. True) = (Inl 3, map (compute_retry_delay twice_policy) [1, 2])"
    unfolding run_with_retry_def k
    by (subst retry_from.simps, simp add: method_allowed_def twice_policy_def, subst retry_from.simps, simp, subst retry_from.simps, simp add: numeral_2_eq_2)
  from retried_call_attempts [OF r]
  have "snd (run_with_retry (\<lambda>n. Inl n :: nat + unit) twice_policy None (\<lambda>e. True)) = map (compute_retry_delay twice_policy) [1..<1 + 2]"
    unfolding r by simp
  then show ?thesis by (simp add: upt_rec numeral_2_eq_2 compute_retry_delay_def twice_policy_def cap_delay_def math_min_def math_max_def)
qed

text \<open>
  The two retry helpers agree (\<open>packages/gateway/src/retry.ts\<close>, \<open>packages/core/src/resilience/index.ts\<close>).  For the same limits, without a deadline
  and with a method that may be retried, \<open>withRetry\<close> makes the attempts \<open>runWithRetry\<close> makes, waits as long and ends with the same outcome.
\<close>

theorem retry_helpers_agree:
  assumes "method_allowed p m"
  shows "with_retry attempt (as_core p) retryable date_now = run_with_retry attempt p m retryable"
  using core_retry_from_eq [of 1 attempt retryable date_now p "nat (max 1 (floor (rp_maxAttempts p)))"] assms
  by (simp add: with_retry_def run_with_retry_def as_core_def)

theorem retry_helpers_agree_witness:
  "with_retry (\<lambda>n. Inl n :: nat + unit) (as_core twice_policy) (\<lambda>e. True) (\<lambda>n. 0) =
   run_with_retry (\<lambda>n. Inl n) twice_policy None (\<lambda>e. True)"
  by (rule retry_helpers_agree) (simp add: method_allowed_def twice_policy_def)

text \<open>
  C27: Routing (\<open>packages/gateway/src/router.ts\<close>, \<open>match\<close>).  For a canonical path the router answers with a configured route that admits the method and
  matches, with the parameters of that match.  No matching route outranks it, and of equally ranked ones it is the first;
  it answers with nothing only when no route matches.
\<close>

theorem router_picks_best:
  assumes "canonical_path (strip_query path)"
  shows "case router_match rx routes path m of
     Some b \<Rightarrow>
       (\<exists>us vs. routes = us @ mt_route b # vs \<and> method_allows (mt_route b) m \<and>
          try_match rx (mt_route b) (strip_query path) = Some (mt_params b) \<and>
          (\<forall>r \<in> set us. matches rx (strip_query path) m r \<longrightarrow> outranks (mt_route b) r) \<and>
          (\<forall>r \<in> set vs. matches rx (strip_query path) m r \<longrightarrow> \<not> outranks r (mt_route b)))
   | None \<Rightarrow> \<forall>r \<in> set routes. \<not> matches rx (strip_query path) m r"
  using router_match_best [where rx = rx and path = path and m = m and routes = routes] assms by (auto simp: chosen_def split: option.splits)

definition sample_route :: "string \<Rightarrow> unit route_config" where
  "sample_route p = \<lparr>rt_id = None, rt_pattern = p, rt_kind = None, rt_priority = None, rt_methods = None, rt_service = ''s'',
     rt_strategy = None, rt_policy = None\<rparr>"

theorem router_picks_best_witness:
  "router_match (\<lambda>p s. None) [sample_route ''/api/*'', sample_route ''/users''] ''/users?x=1'' None \<noteq> None"
proof
  assume n: "router_match (\<lambda>p s. None) [sample_route ''/api/*'', sample_route ''/users''] ''/users?x=1'' None = None"
  have q: "strip_query ''/users?x=1'' = ''/users''" by (simp add: strip_query_def)
  have "canonical_path (strip_query ''/users?x=1'')" by (simp add: q canonical_path_def str_eval)
  from router_picks_best [OF this, where rx = "\<lambda>p s. None" and routes = "[sample_route ''/api/*'', sample_route ''/users'']" and m = None] n
  have "\<not> matches (\<lambda>p s. None) ''/users'' None (sample_route ''/users'')" by (simp add: q)
  then show False
    by (simp add: matches_def sample_route_def method_allows_def try_match_def resolve_kind_def str_eval)
qed

text \<open>
  Wildcards capture what they matched (\<open>router.ts\<close>, \<open>matchWildcard\<close>).  A wildcard pattern that matches a path
  yields one parameter per star, and putting them back in the pattern gives the path; a path made from a pattern and parameters without
  slashes matches with exactly these parameters.
\<close>

theorem wildcard_round_trip:
  "(match_wildcard pattern path = Some vs \<longrightarrow>
      join_with CHR ''/'' (fill_segments (split_on CHR ''/'' pattern) vs) = path \<and> length vs = stars (split_on CHR ''/'' pattern)) \<and>
   (length vs = stars (split_on CHR ''/'' pattern) \<and> (\<forall>v \<in> set vs. CHR ''/'' \<notin> set v) \<longrightarrow>
      match_wildcard pattern (join_with CHR ''/'' (fill_segments (split_on CHR ''/'' pattern) vs)) = Some vs)"
  using match_wildcard_fill [of pattern path vs] match_wildcard_filled [of vs pattern] by blast

theorem wildcard_round_trip_witness:
  "match_wildcard ''/api/*/x'' ''/api/42/x'' = Some [''42''] \<and>
   join_with CHR ''/'' (fill_segments (split_on CHR ''/'' ''/api/*/x'') [''42'']) = ''/api/42/x''"
  using wildcard_round_trip [of "''/api/*/x''" "''/api/42/x''" "[''42'']"] by (simp add: stars_def)

text \<open>
  Cross-origin responses (\<open>packages/gateway/src/cors.ts\<close>, \<open>resolveCors\<close>).  Allow-Origin is set exactly for a
  request with an allowed origin.  Its value is that origin, or the wildcard when any origin is allowed and credentials are
  not; the wildcard therefore never comes with Allow-Credentials, unless the client itself sent the origin \<open>*\<close>.
\<close>

theorem cors_never_wildcard_with_credentials:
  "((''Access-Control-Allow-Origin'', v) \<in> set (cr_headers (resolve_cors p req)) \<longleftrightarrow>
      (\<exists>org. cors_header (gr_headers req) ''origin'' = Some org \<and> origin_allowed p org \<and>
         v = (if co_origins p = AnyOrigin \<and> \<not> co_credentials p then ''*'' else org))) \<and>
   ((''Access-Control-Allow-Origin'', ''*'') \<in> set (cr_headers (resolve_cors p req)) \<and>
      (''Access-Control-Allow-Credentials'', ''true'') \<in> set (cr_headers (resolve_cors p req)) \<longrightarrow>
      cors_header (gr_headers req) ''origin'' = Some ''*'')"
  using cors_origin_header [of v p req] cors_origin_header [of "''*''" p req] cors_credentials_header [of "''true''" p req]
  by (simp split: if_splits) blast

definition sample_request :: "headers \<Rightarrow> gateway_request" where
  "sample_request hs = \<lparr>gr_method = ''GET'', gr_path = ''/x'', gr_url = ''/x'', gr_headers = hs, gr_ip = None, gr_bodySize = None\<rparr>"

definition sample_cors :: cors_policy where
  "sample_cors = \<lparr>co_origins = AnyOrigin, co_methods = None, co_allowedHeaders = None, co_exposedHeaders = None,
     co_credentials = True, co_maxAge = None\<rparr>"

theorem cors_never_wildcard_with_credentials_witness:
  "(''Access-Control-Allow-Origin'', ''https://a'') \<in>
     set (cr_headers (resolve_cors sample_cors (sample_request [(''origin'', One ''https://a'')])))"
  using cors_never_wildcard_with_credentials [of "''https://a''" sample_cors "sample_request [(''origin'', One ''https://a'')]"]
  by (simp add: sample_cors_def sample_request_def cors_header_def header_of_def origin_allowed_def str_eval)

text \<open>
  C28: Connection counts (\<open>packages/gateway/src/gateway.ts\<close>, \<open>liveConnections\<close>).  Under every interleaving of dispatches,
  settled forwards and health probes, the count the least-connections balancer reads for a target is the number of forwards
  to it in flight; in particular it never goes below zero.
\<close>

theorem connection_counts_exact:
  "nullish (map_of (gs_live (foldl (gateway_step cfg) (new_gateway cfg) events)) t) 0 =
     int (length (filter (\<lambda>f. pf_target f = t) (gs_pending (foldl (gateway_step cfg) (new_gateway cfg) events))))"
proof -
  have "counts_ok (foldl (gateway_step cfg) (new_gateway cfg) events)" by (rule gm.invar_run [OF counts_ok_new])
  then show ?thesis by (simp add: counts_ok_def)
qed

text \<open>
  C29: One request from start to end (\<open>gateway.ts\<close>, \<open>handle\<close>).  Whatever the middleware and the upstream do, the response carries every security
  header of the policy or the defaults with its value, no forward is left counted as in flight, the active gauge returns to
  its value, the request total grows by one and the error total exactly for a status of 500 or more.
\<close>

theorem request_accounted_and_secured:
  assumes "counts_ok s" "0 \<le> gs_active s" "handle_request cfg ms req env s = (r, s')"
  shows "counts_ok s' \<and> gs_pending s' = gs_pending s \<and> gs_active s' = gs_active s \<and> gs_requests s' = gs_requests s + 1 \<and>
    gs_errors s' = gs_errors s + (if 500 \<le> rsp_status r then 1 else 0) \<and>
    (\<forall>k v. policy_header cfg k = Some v \<longrightarrow> map_of (rsp_headers r) k = Some (One v))"
  using handle_request_accounts [OF assms] handle_request_header [of cfg _ _ ms req env s] assms(3) by simp

definition empty_gateway :: gateway_config where
  "empty_gateway = \<lparr>gc_routes = [], gc_services = [], gc_defaults = None, gc_circuitBreaker = None, gc_cors = None,
     gc_versioning = None, gc_security = None, gc_regex = (\<lambda>p s. None), gc_errorBody = (\<lambda>e. ''error'')\<rparr>"

definition idle_env :: request_env where
  "idle_env = \<lparr>ev_limitNow = 0, ev_breakerNow = 0, ev_settleNow = 0, ev_stamp = 0, ev_rng = Fin 0,
     ev_forward = (\<lambda>t req n. (True, Inl (JsError ''Error'' ''late'')))\<rparr>"

theorem request_accounted_and_secured_witness:
  "gs_requests (snd (handle_request empty_gateway [] (sample_request []) idle_env (new_gateway empty_gateway))) = 1 \<and>
   map_of (rsp_headers (fst (handle_request empty_gateway [] (sample_request []) idle_env (new_gateway empty_gateway)))) ''x-frame-options'' =
     Some (One ''DENY'')"
  using request_accounted_and_secured [OF counts_ok_new, of empty_gateway empty_gateway "[]" "sample_request []" idle_env
      "fst (handle_request empty_gateway [] (sample_request []) idle_env (new_gateway empty_gateway))"
      "snd (handle_request empty_gateway [] (sample_request []) idle_env (new_gateway empty_gateway))"]
    default_policy_headers [of empty_gateway]
  by (simp add: new_gateway_def empty_gateway_def)

section \<open>The Kafka wire format\<close>

text \<open>
  C30: The checksum of a record batch (\<open>packages/core/src/transports/kafka/primitives.ts\<close>, \<open>crc32c\<close>).  The table-driven loop computes what the
  shift register of the Castagnoli polynomial computes bit by bit; changing any one byte of a buffer changes the checksum.
\<close>

theorem crc32c_shift_register:
  "crc32c buf = foldl (\<lambda>c b. (crc_bit ^^ 8) (c XOR ucast b)) 0xffffffff buf XOR 0xffffffff \<and>
   (b \<noteq> c \<longrightarrow> crc32c (xs @ b # ys) \<noteq> crc32c (xs @ c # ys))"
proof -
  have "b = c" if "crc32c (xs @ b # ys) = crc32c (xs @ c # ys)"
    using that xor_cancel [of "0xffffffff"] by (auto simp: crc32c_shift xor.commute [of _ "0xffffffff"] dest!: crc_run_inject crc_shift_byte)
  moreover have "crc_shift = (\<lambda>c b. (crc_bit ^^ 8) (c XOR ucast b))" by (simp add: crc_shift_def fun_eq_iff)
  ultimately show ?thesis using crc32c_shift [of buf] by metis
qed

theorem crc32c_shift_register_witness: "crc32c ([1, 2] @ 3 # [4]) \<noteq> crc32c ([1, 2] @ 7 # [4])"
  using crc32c_shift_register [of "[]" 3 7 "[1, 2]" "[4]"] by simp

text \<open>
  The primitives of the Kafka protocol (\<open>primitives.ts\<close>).  Reading back what \<open>varint\<close> wrote gives the number, for every number
  that fits 64 bits; a nullable string whose UTF-8 encoding is shorter than \<open>2 ^ 15\<close> bytes and a nullable byte array shorter than \<open>2 ^ 31\<close>
  come back too; the reader then stands at the bytes that follow.
\<close>

theorem kafka_primitives_round_trip:
  "(fits 8 v \<longrightarrow> (\<exists>w. k_varint v [] = Inr w \<and> r_varint (reader_at [] (concat w @ rest)) = Inr (v, reader_at (concat w) rest))) \<and>
   (string_ok s \<longrightarrow> (\<exists>w. k_string s [] = Inr w \<and> r_string (reader_at [] (concat w @ rest)) = Inr (s, reader_at (concat w) rest))) \<and>
   (bytes_ok b \<longrightarrow> (\<exists>w. k_bytes b [] = Inr w \<and> r_bytes (reader_at [] (concat w @ rest)) = Inr (b, reader_at (concat w) rest)))"
  using vi.round_trip [of v rest] ks.round_trip [of s rest] kb_opt.round_trip [of b rest] by blast

theorem kafka_primitives_round_trip_witness:
  "\<exists>w. k_varint (- 300) [] = Inr w \<and> r_varint (reader_at [] (concat w @ [1, 2])) = Inr (- 300, reader_at (concat w) [1, 2])"
  using kafka_primitives_round_trip [of "- 300" "[1, 2]" None None] by (simp add: fits_def)

text \<open>
  C31: Produce and fetch (\<open>recordbatch.ts\<close>).  Encoding a batch succeeds when its fields are in range.  Decoding a log of encoded batches that the
  broker cut off inside the last one gives the records of the complete batches in order: keys and values as
  written, offsets counted from 0 within their batch, the batch's timestamp; the cut batch is ignored.
\<close>

theorem record_batch_round_trip:
  assumes "list_all (\<lambda>((now, recs, opts), buf). encode_record_batch now recs opts = Inr buf) ps"
    "encode_record_batch now recs opts = Inr torn" "n < length torn"
  shows "decode_record_batches (concat (map snd ps) @ take n torn) =
      Inr (concat (map (\<lambda>((now, recs, opts), buf). delivered_from now 0 recs) ps)) \<and>
    map (\<lambda>r. (kr_key r, kr_value r)) (concat (map (\<lambda>((now, recs, opts), buf). delivered_from now 0 recs) ps)) =
      concat (map (\<lambda>((now, recs, opts), buf). map (\<lambda>r. (kr_key r, kr_value r)) recs) ps) \<and>
    ((\<exists>buf. encode_record_batch now' recs' opts' = Inr buf) \<longleftrightarrow> in_range now' recs' opts')"
proof -
  have ok: "list_all produced_ok (map fst ps)" "concat (map snd ps) = concat (map produced_bytes (map fst ps))"
    "concat (map (\<lambda>((now, recs, opts), buf). delivered_from now 0 recs) ps) = concat (map produced_records (map fst ps))"
    using assms(1) by (induction ps) (auto simp: produced_ok_def produced_bytes_def produced_records_def encode_batch_Inr)
  have "produced_ok (now, recs, opts)" "torn = produced_bytes (now, recs, opts)"
    using assms(2) by (simp_all add: produced_ok_def produced_bytes_def encode_batch_Inr)
  with decode_produced [OF ok(1) this(1)] assms(3)
  have "decode_record_batches (concat (map snd ps) @ take n torn) =
      Inr (concat (map (\<lambda>((now, recs, opts), buf). delivered_from now 0 recs) ps))" unfolding ok(2,3) by simp
  moreover have "map (\<lambda>r. (kr_key r, kr_value r)) (concat (map (\<lambda>((now, recs, opts), buf). delivered_from now 0 recs) ps)) =
      concat (map (\<lambda>((now, recs, opts), buf). map (\<lambda>r. (kr_key r, kr_value r)) recs) ps)"
    by (induction ps) (auto simp: delivered_contents(1))
  ultimately show ?thesis by (auto simp: encode_batch_Inr)
qed

definition plain_options :: batch_options where
  "plain_options = \<lparr>bo_producerId = None, bo_producerEpoch = None, bo_baseSequence = None\<rparr>"

definition hello :: kafka_record where
  "hello = \<lparr>kr_key = None, kr_value = Some [104, 105], kr_offset = None, kr_timestamp = None\<rparr>"

theorem record_batch_round_trip_witness:
  "decode_record_batches (batch_bytes 7 [hello] plain_options @ take 20 (batch_bytes 7 [hello] plain_options)) =
     Inr [\<lparr>kr_key = None, kr_value = Some [104, 105], kr_offset = Some 0, kr_timestamp = Some 7\<rparr>]"
proof -
  have "in_range 7 [hello] plain_options"
    by (simp add: in_range_def plain_options_def hello_def fits_def framed_record_def record_body_def nullable_bytes_def varint_of_def
        zigzag_def varint_bytes.simps)
  then have enc: "encode_record_batch 7 [hello] plain_options = Inr (batch_bytes 7 [hello] plain_options)"
    by (simp add: encode_batch_Inr)
  have "20 < length (batch_bytes 7 [hello] plain_options)" by (simp add: batch_bytes_def Let_def batch_body_length)
  from record_batch_round_trip [OF _ enc this, of "[((7, [hello], plain_options), batch_bytes 7 [hello] plain_options)]"] enc
  show ?thesis by (simp add: hello_def)
qed

section \<open>The cache\<close>

text \<open>
  C32: The cache as a recency list (\<open>packages/cache/src/lru.ts\<close>).  After any sequence of operations on a new cache, the linked list
  and the map represent what the same operations make of a list of entries, most recent first, and \<open>get\<close> answers as on that list;
  the number of entries never exceeds the capacity.
\<close>

theorem cache_refines_recency_list:
  assumes "new_lru capacity ttl = Inr s"
  shows "lru_contents (lru_run ops s) = spec_run capacity ttl ops [] \<and>
    fst (lru_get k now (lru_run ops s)) = fst (spec_get k now (spec_run capacity ttl ops [])) \<and>
    lru_size (lru_run ops s) = length (spec_run capacity ttl ops []) \<and> of_nat (lru_size (lru_run ops s)) \<le> capacity"
proof -
  have ok: "lru_ok capacity ttl (lru_run ops s)" "lru_contents (lru_run ops s) = spec_run capacity ttl ops []"
    using new_refines [OF assms] lru_run_refines [of capacity ttl s ops] by simp_all
  have "lru_size s = 0" "0 \<le> capacity" using assms by (auto simp: new_lru_def lru_size_def split: if_splits)
  then have "of_nat (lru_size (lru_run ops s)) \<le> capacity"
    using lru_run_bounded [of capacity ttl s ops] new_refines [OF assms] by simp
  with ok get_refines [OF ok(1), of k now] size_contents [OF ok(1)] show ?thesis by (simp add: prod_eq_iff)
qed

theorem cache_refines_recency_list_witness:
  "\<exists>s. new_lru 2 10 = Inr s \<and>
     lru_contents (lru_run [LSet ''a'' (1 :: nat) 0, LSet ''b'' 2 1, LGet ''a'' 3, LSet ''c'' 3 4] s) = [(''c'', 3, 14), (''a'', 1, 10)]"
proof -
  obtain s :: "nat lru_cache" where s: "new_lru 2 10 = Inr s" by (simp add: new_lru_def)
  from cache_refines_recency_list [OF s, of "[LSet ''a'' 1 0, LSet ''b'' 2 1, LGet ''a'' 3, LSet ''c'' 3 4]"] s
  show ?thesis by (auto simp: spec_apply_def spec_set_def spec_get_def Let_def)
qed

text \<open>
  A value stays cached (\<open>lru.ts\<close>).  A value set at \<open>now\<close> is returned later, up to the end of its time to live, if since then its key was not
  set or deleted, no operation saw a time beyond that end, and fewer other keys than the capacity were set or got.
\<close>

theorem cache_hit:
  assumes "new_lru capacity ttl = Inr s" "list_all (leaves k (now + ttl)) ops" "later \<le> now + ttl"
    "of_nat (card (set (concat (map fronted ops)) - {k})) + 1 \<le> capacity"
  shows "fst (lru_get k later (lru_run ops (lru_set k v now (lru_run before s)))) = Some v"
proof -
  have "lru_ok capacity ttl (lru_run before s)" using new_refines [OF assms(1)] lru_run_refines [of capacity ttl s before] by simp
  from lc.hit [OF this assms(2-4)] show ?thesis by (simp only: lru_run_steps)
qed

theorem cache_hit_witness:
  "\<exists>s. new_lru 2 10 = Inr s \<and> fst (lru_get ''a'' 9 (lru_run [LSet ''b'' (2 :: nat) 5, LGet ''b'' 6, LSweep 8] (lru_set ''a'' 1 0 s))) = Some 1"
proof -
  obtain s :: "nat lru_cache" where s: "new_lru 2 10 = Inr s" by (simp add: new_lru_def)
  have "card (set (concat (map fronted [LSet ''b'' (2 :: nat) 5, LGet ''b'' 6, LSweep 8])) - {''a''}) = 1" by (simp add: fronted_def)
  then show ?thesis
    using cache_hit [OF s, of "''a''" 0 "[LSet ''b'' 2 5, LGet ''b'' 6, LSweep 8]" 9 1 "[]"] s by (simp add: leaves_def)
qed

section \<open>The Redis client\<close>

text \<open>
  C33: Replies reach their commands (\<open>packages/core/src/transports/resp.ts\<close>, \<open>RespParser\<close> and the handler of \<open>data\<close>).  However the bytes of well-formed replies are
  cut into chunks, the parser hands on exactly these replies, waits inside each one for its rest, and ends with an empty buffer, so that the handler
  returns; and the \<open>n\<close>-th command gets the \<open>n\<close>-th reply.
\<close>

theorem redis_replies_in_order:
  assumes "\<forall>r \<in> set rs. reply_ok r" "stream_fuel rs \<le> n" "concat chunks = reply_stream rs" "length rs \<le> length commands"
  shows "\<exists>vs. on_chunks n [] chunks = Some (vs, []) \<and> vs = map reply_value rs \<and>
    settle_replies commands vs = (zip commands (map reply_value rs), drop (length rs) commands)"
  using stream_replies [OF assms(1-3)] settle_in_order [of "map reply_value rs" commands] assms(4) by simp

definition sample_replies :: "server_reply list" where
  "sample_replies = [SimpleReply [79, 75], ArrayReply [BulkReply [13, 233], NullBulk, IntReply (- 5)], ErrorReply [69]]"

theorem redis_replies_in_order_witness:
  "\<exists>vs. on_chunks 40 [] (map (\<lambda>b. [b]) (reply_stream sample_replies)) = Some (vs, []) \<and> vs = map reply_value sample_replies \<and>
    settle_replies [''PING'', ''EXEC'', ''GET'', ''SET''] vs =
      (zip [''PING'', ''EXEC'', ''GET'', ''SET''] (map reply_value sample_replies), drop (length sample_replies) [''PING'', ''EXEC'', ''GET'', ''SET''])"
proof (rule redis_replies_in_order)
  show "concat (map (\<lambda>b. [b]) (reply_stream sample_replies)) = reply_stream sample_replies" by simp
qed (simp_all add: sample_replies_def stream_fuel_def line_ok_def scalar_value_def surrogate_def)

text \<open>
  C34: The node of a key (\<open>cluster.ts\<close>, \<open>hashSlot\<close>, \<open>parseClusterSlots\<close> and \<open>buildSlotMap\<close>; \<open>cluster-client.ts\<close>, \<open>connect\<close> and \<open>route\<close>).  After a connect, the first node a
  command is sent to is the master of the last range of the topology that covers the slot of its key, or the first seed when none does; and keys with
  the same hash tag go to the same node.
\<close>

theorem cluster_key_owner:
  assumes "cc_seeds c = seed # seeds" "cc_slotMap c = []" "\<not> cc_connected c"
    "node seed [ArgText (codes ''CLUSTER''), ArgText (codes ''SLOTS'')] w = (Inr reply, w')"
    and ranges: "parse_cluster_slots reply \<noteq> []" "\<forall>r \<in> set (parse_cluster_slots reply). whole_slots r"
  shows "\<exists>c'. cluster_connect node c w = (Inr (), c', w') \<and>
    slot_target c' (hash_slot key) =
      (case find (\<lambda>r. covers r (hash_slot key)) (rev (parse_cluster_slots reply)) of Some r \<Rightarrow> sr_master r | None \<Rightarrow> seed) \<and>
    (123 \<notin> set pre \<longrightarrow> 125 \<notin> set tag \<longrightarrow> tag \<noteq> [] \<longrightarrow> hash_slot (pre @ 123 # tag @ 125 # post) = hash_slot (123 # tag @ [125]))"
proof -
  let ?c = "c\<lparr>cc_slotMap := build_slot_map (parse_cluster_slots reply), cc_connected := True\<rparr>"
  have "cluster_connect node c w = (Inr (), ?c, w')"
    using assms by (simp add: cluster_connect_def refresh_slots_def known_nodes_def List.map_filter_simps)
  moreover have "slot_target ?c (hash_slot key) =
      (case find (\<lambda>r. covers r (hash_slot key)) (rev (parse_cluster_slots reply)) of Some r \<Rightarrow> sr_master r | None \<Rightarrow> seed)"
    using slot_map_owner [OF ranges(2) hash_slot_bound] hash_slot_bound [of key] assms(1) by (simp add: slot_target_def split: option.split)
  ultimately show ?thesis using hash_slot_tag [of pre tag post] hash_slot_tag [of "[]" tag "[]"] by auto
qed

text \<open>
  C35: A stale slot map heals (\<open>cluster-client.ts\<close>, \<open>route\<close>).  When every node but the owner of the slot answers \<open>MOVED\<close> with its address, a command
  of a connected client gets the owner's reply, whatever the map said, and from then on the map sends the keys of this slot to the owner.  Against any nodes, one
  command makes at most two requests for each attempt, of which there are \<open>maxRedirects + 1\<close>.
\<close>

theorem stale_slot_map_heals:
  assumes connected: "cc_connected c" "0 < cc_maxRedirects c"
    and moved: "\<forall>n w. n \<noteq> redirect_node r \<longrightarrow> node n args w = (Inr (reply_value (ErrorReply (redirect_points r))), w)"
    and owner: "\<forall>w. node (redirect_node r) args w = (Inr reply, w)" "redirect_of reply = None"
    and r: "redirect_ok r" "re_kind r = Moved" "re_slot r = hash_slot key"
  shows "\<exists>c'. cluster_route node key args c w = (Inr reply, c', w) \<and> slot_target c' (hash_slot key) = redirect_node r \<and>
    fst (snd (snd (cluster_route (counting wire) key args c (0, w')))) \<le> 2 * (cc_maxRedirects c + 1)"
proof -
  obtain n where n: "cc_maxRedirects c = Suc n" using connected(2) by (cases "cc_maxRedirects c") auto
  have "\<exists>c'. route_loop node args (Suc (Suc n)) (slot_target c (hash_slot key)) False c w = (Inr reply, c', w) \<and>
      slot_target c' (hash_slot key) = redirect_node r"
    by (rule route_learns_owner [OF _ _ owner(2) r refl]) (use moved owner(1) in blast)+
  moreover obtain x c2 kw where x: "cluster_route (counting wire) key args c (0, w') = (x, c2, kw)" by (rule prod_cases3)
  then have "fst kw \<le> 2 * (cc_maxRedirects c + 1)"
    using route_loop_count [of wire args "Suc (Suc n)" "slot_target c (hash_slot key)" False c 0 w' x c2 kw] connected(1) n
    by (simp add: cluster_route_def cluster_connect_def)
  ultimately show ?thesis using connected(1) x by (simp add: cluster_route_def cluster_connect_def n)
qed

definition sample_topology :: resp where
  "sample_topology =
     RArray [RArray [RNumber (js_int 0), RNumber (js_int 16383), RArray [RString [97], RNumber (js_int 6379)], RArray [RString [98], RNumber (js_int 6380)]]]"

definition sample_seed :: cluster_node where
  "sample_seed = \<lparr>cn_host = [115], cn_port = js_int 6379\<rparr>"

definition sample_client :: "bool \<Rightarrow> cluster_client" where
  "sample_client conn = \<lparr>cc_seeds = [sample_seed], cc_maxRedirects = 5, cc_slotMap = [], cc_connected = conn\<rparr>"

theorem cluster_key_owner_witness:
  "\<exists>c'. cluster_connect (\<lambda>n args w. (Inr sample_topology, w)) (sample_client False) () = (Inr (), c', ()) \<and>
    slot_target c' (hash_slot [107]) =
      (case find (\<lambda>r. covers r (hash_slot [107])) (rev (parse_cluster_slots sample_topology)) of Some r \<Rightarrow> sr_master r | None \<Rightarrow> sample_seed) \<and>
    hash_slot ([117] @ 123 # [107] @ 125 # [58]) = hash_slot (123 # [107] @ [125])"
proof -
  have "js_int 0 = js_pos 0" by (simp add: js_pos_numerals(1) [symmetric])
  then have whole: "\<forall>r \<in> set (parse_cluster_slots sample_topology). whole_slots r"
    by (auto simp: sample_topology_def parse_cluster_slots_def parse_range_def parse_node_def List.map_filter_simps whole_slots_def)
  have ranges: "parse_cluster_slots sample_topology \<noteq> []"
    by (simp add: sample_topology_def parse_cluster_slots_def parse_range_def parse_node_def List.map_filter_simps)
  have seeds: "cc_seeds (sample_client False) = [sample_seed]" "cc_slotMap (sample_client False) = []" "\<not> cc_connected (sample_client False)"
    by (simp_all add: sample_client_def)
  from cluster_key_owner [where node = "\<lambda>n args w. (Inr sample_topology, w)" and w = "()" and key = "[107]" and pre = "[117]" and tag = "[107]"
      and post = "[58]", OF seeds refl ranges whole]
  show ?thesis by simp
qed

definition sample_redirect :: redirect where
  "sample_redirect = \<lparr>re_kind = Moved, re_slot = hash_slot [107], re_host = [58, 58, 49], re_port = 7000\<rparr>"

theorem stale_slot_map_heals_witness:
  "\<exists>c'. cluster_route (\<lambda>n args w. (Inr (if n = redirect_node sample_redirect then RNull else reply_value (ErrorReply (redirect_points sample_redirect))), w))
      [107] [ArgText [107]] (sample_client True) () = (Inr RNull, c', ()) \<and> slot_target c' (hash_slot [107]) = redirect_node sample_redirect \<and>
    fst (snd (snd (cluster_route (counting (\<lambda>n args w. (Inr (reply_value (ErrorReply (redirect_points sample_redirect))), w)))
      [107] [ArgText [107]] (sample_client True) (0, ())))) \<le> 2 * (cc_maxRedirects (sample_client True) + 1)"
proof (rule stale_slot_map_heals)
  show "redirect_ok sample_redirect" by (simp add: redirect_ok_def sample_redirect_def js_space_def line_terminator_def)
qed (simp_all add: sample_client_def sample_redirect_def redirect_of_def)

section \<open>The event bus\<close>

text \<open>
  C36: The emitter is one ordered list of subscriptions (\<open>packages/events/src/emitter.ts\<close>, \<open>matcher.ts\<close>).  Its index by name and its list of patterns implement
  a list, \<open>em_subs\<close>: \<open>add\<close> appends to it, cancelling takes the subscription out, \<open>resolve\<close> gives those of the list, in order of registration, whose pattern
  matches the name segment by segment (a star is one segment, two stars are one or more), and the counts count it.
\<close>

theorem emitter_is_ordered_list:
  assumes ok: "em_ok (e :: 'l emitter)" and add: "emitter_add k l once e = (s, e')" and issued: "em_issued t e"
  shows "em_ok (new_emitter :: 'l emitter) \<and> em_subs (new_emitter :: 'l emitter) = [] \<and>
    em_ok e' \<and> em_issued s e' \<and> em_subs e' = em_subs e @ [s] \<and> sb_key s = k \<and> sb_listener s = l \<and> sb_once s = once \<and>
    em_ok (emitter_remove t e) \<and> em_subs (emitter_remove t e) = removeAll t (em_subs e) \<and>
    emitter_resolve name e = filter (\<lambda>s. seg_match (split_on CHR ''.'' (sb_key s)) (split_on CHR ''.'' name)) (em_subs e) \<and>
    sorted_wrt (<) (map sb_order (em_subs e)) \<and>
    listener_count None e = length (em_subs e) \<and> listener_count (Some name) e = length (emitter_resolve name e) \<and>
    em_ok (emitter_clear e) \<and> em_subs (emitter_clear e) = []"
  using em.invar_empty em.invar_add [OF ok add] em.subs_add [OF ok add] em.fields_add [OF add] em.invar_remove [OF ok issued]
    em.subs_remove [OF ok issued] em.resolve_subs [OF ok] em.sorted_subs [OF ok] listener_count_subs [OF ok] emitter_clear_ok(1,2) [OF ok]
  by (auto simp: matches_pattern_iff)

definition sample_emitter :: "nat emitter" where
  "sample_emitter = snd (emitter_add ''order.*'' 7 False new_emitter)"

theorem emitter_is_ordered_list_witness:
  "\<exists>s e' t. emitter_add ''order.paid'' 8 True sample_emitter = (s, e') \<and> em_subs e' = em_subs sample_emitter @ [s] \<and>
    em_subs (emitter_remove t sample_emitter) = removeAll t (em_subs sample_emitter) \<and> t \<in> set (em_subs sample_emitter)"
proof -
  obtain t e1 where t: "emitter_add ''order.*'' 7 False (new_emitter :: nat emitter) = (t, e1)" by (rule prod.exhaust)
  obtain s e2 where s: "emitter_add ''order.paid'' 8 True sample_emitter = (s, e2)" by (rule prod.exhaust)
  have e1: "sample_emitter = e1" using t by (simp add: sample_emitter_def)
  have ok: "em_ok sample_emitter" "em_issued t sample_emitter" "t \<in> set (em_subs sample_emitter)"
    using em.invar_add [OF em.invar_empty(1) t] em.subs_add [OF em.invar_empty(1) t] by (simp_all add: e1)
  have "em_subs e2 = em_subs sample_emitter @ [s] \<and> em_subs (emitter_remove t sample_emitter) = removeAll t (em_subs sample_emitter)"
    using emitter_is_ordered_list [OF ok(1) s ok(2), of "''order.paid''"] by simp
  then show ?thesis using s ok(3) by blast
qed

text \<open>
  C37: Delivery (\<open>facade.ts\<close>, \<open>on\<close>, \<open>once\<close>, \<open>dispatch\<close> and \<open>deliverEnvelope\<close>).  However publishes, deliveries, failures and subscriptions interleave at their awaits: a
  delivery that is over has called, in order of registration, every listener of its snapshot except those cancelled meanwhile, and only listeners that match the event,
  and counts each call as delivered or failed; a \<open>once\<close> listener is called at most once; a listener that was unsubscribed is not called any more; and
  the store's append is called with the envelopes in publish order, numbered without gaps, and what is stored is exactly the envelopes whose
  append has resolved, each once: an append that rejects, or is still awaited, leaves its envelope out.
\<close>

theorem events_delivered:
  assumes f: "f = foldl facade_step (new_facade st p) es"
  shows "(\<forall>r \<in> set (fc_runs f). rn_delivery r = Delivered \<longrightarrow>
      subseq (rn_called r) (rn_snapshot r) \<and> sorted_wrt (<) (map sb_order (rn_called r)) \<and>
      (\<forall>s \<in> set (rn_snapshot r). s \<in> set (rn_called r) \<or> \<not> sub_active (fc_emitter f) s) \<and>
      (\<forall>s \<in> set (rn_called r). matches_pattern (ec_event (rn_ctx r)) (sb_key s)) \<and>
      rn_delivered r + rn_failed r = length (rn_called r)) \<and>
    (\<forall>s. sb_once s \<longrightarrow> count (mset (all_calls f)) s \<le> 1) \<and>
    (\<forall>n < length (fc_handles f). \<forall>later.
       count (mset (all_calls (foldl facade_step (unsubscribe n f) later))) (fc_handles f ! n) = count (mset (all_calls f)) (fc_handles f ! n)) \<and>
    map en_seq (append_calls f) = (if fc_persist f then [0..<fc_published f] else []) \<and>
    distinct (map en_seq (fc_stored f)) \<and> set (fc_stored f) = {env. \<exists>r \<in> set (fc_runs f). rn_append r = AppendResolved env}"
proof -
  have ok: "facade_ok f" unfolding f by (rule facade.invar_run [OF new_facade_ok])
  have c: "counters_ok f" unfolding f by (rule counters.invar_run [OF new_facade_counters])
  have n: "map en_seq (append_calls f) = (if fc_persist f then [0..<fc_published f] else [])" using c by (simp add: counters_ok_def)
  show ?thesis using delivered_run [OF ok] unsubscribed_not_called [OF ok] ok n counters_stored_once [OF c] by (simp add: facade_ok_def)
qed

definition sample_bus_events :: "(nat, string, string) facade_event list" where
  "sample_bus_events =
     [Subscribe ''a.*'' 1 False, Subscribe ''a.b'' 2 True, Publish ''a.b'' ''x'' \<lparr>po_metadata = [], po_tenantId = None\<rparr> 5 ''i'',
      Stored 0 None, Deliver 0, ListenerSettled 0 (Inr ()), ListenerSettled 0 (Inl (JsError ''Error'' ''boom'')),
      Publish ''c'' ''y'' \<lparr>po_metadata = [], po_tenantId = None\<rparr> 6 ''j'', Stored 1 (Some (JsError ''Error'' ''down''))]"

theorem events_delivered_witness:
  "\<exists>f. f = foldl facade_step (new_facade True None) sample_bus_events \<and> \<not> fc_closed f \<and> map rn_delivery (fc_runs f) = [Delivered, NotReached] \<and>
    map (map sb_listener \<circ> rn_called) (fc_runs f) = [[1, 2], []] \<and> map rn_failed (fc_runs f) = [1, 0] \<and>
    rn_delivered (fc_runs f ! 0) + rn_failed (fc_runs f ! 0) = 2 \<and> map en_seq (append_calls f) = [0, 1] \<and> map en_seq (fc_stored f) = [0]"
proof -
  let ?f = "foldl facade_step (new_facade True None) sample_bus_events"
  have e: "\<not> fc_closed ?f" "map rn_delivery (fc_runs ?f) = [Delivered, NotReached]"
    "map (map sb_listener \<circ> rn_called) (fc_runs ?f) = [[1, 2], []]"
    "map rn_failed (fc_runs ?f) = [1, 0]" "fc_persist ?f" "fc_published ?f = 2" "map en_seq (fc_stored ?f) = [0]" "length (fc_runs ?f) = 2"
    "length (rn_called (fc_runs ?f ! 0)) = 2" "rn_delivery (fc_runs ?f ! 0) = Delivered" by code_simp+
  note all = events_delivered [OF refl, of True None sample_bus_events]
  have "fc_runs ?f ! 0 \<in> set (fc_runs ?f)" using e(8) by simp
  then have "rn_delivered (fc_runs ?f ! 0) + rn_failed (fc_runs ?f ! 0) = length (rn_called (fc_runs ?f ! 0))"
    using all [THEN conjunct1] e(10) by blast
  then have "rn_delivered (fc_runs ?f ! 0) + rn_failed (fc_runs ?f ! 0) = 2" using e(9) by simp
  moreover have "map en_seq (append_calls ?f) = [0, 1]"
    using all [THEN conjunct2, THEN conjunct2, THEN conjunct2, THEN conjunct1] e(5,6) by (simp add: upt_rec)
  ultimately show ?thesis using e by (intro exI [of _ ?f]) simp
qed

section \<open>Microservice helpers\<close>

text \<open>
  C38: A saga happens or does not (\<open>packages/core/src/microservices/saga.ts\<close>, \<open>execute\<close>).  When an action fails, the compensations of the actions before it run,
  the last one first, and \<open>execute\<close> throws the error of the action whatever the compensations do; when each compensation undoes its action, and an action
  that fails does nothing, either all actions have happened or the world is as before.
\<close>

theorem saga_all_or_nothing:
  shows "actions_succeed pre w w' \<Longrightarrow> sg_action s w' = (Inl e, w'') \<Longrightarrow>
      execute_saga (pre @ s # post) w = (Inl e, compensate_steps (rev pre) w'' []) \<and>
      fst (compensate_steps (rev pre) w'' []) = foldl (\<lambda>w s. snd (sg_compensate s w)) w'' (rev pre) \<and>
      (list_all undoes (pre @ s # post) \<longrightarrow> fst (snd (execute_saga (pre @ s # post) w)) = w) \<and>
      (actions_succeed steps w w' \<longrightarrow> execute_saga steps w = (Inr (), w', [])) \<and>
      ((\<exists>w'. actions_succeed steps w w') \<or> (\<exists>err. fst (execute_saga steps w) = Inl err))"
  using saga_failed [of pre w w' s e w'' post] saga_completed [of steps w w'] saga_undone [of "pre @ s # post" w e] saga_cases [of steps w]
    compensate_steps_world [of "rev pre" w'' "[]"]
  by (auto simp: compensated_def saga_failed)

definition reserve_room :: "nat orchestrated_step" where
  "reserve_room = \<lparr>sg_action = (\<lambda>w. (Inr (), w + 1)), sg_compensate = (\<lambda>w. (Inr (), w - 1)), sg_name = Some ''room''\<rparr>"

definition charge_card :: "nat orchestrated_step" where
  "charge_card = \<lparr>sg_action = (\<lambda>w. (Inl (JsError ''Error'' ''declined''), w)), sg_compensate = (\<lambda>w. (Inr (), w)), sg_name = None\<rparr>"

theorem saga_all_or_nothing_witness:
  "list_all undoes [reserve_room, charge_card] \<and> actions_succeed [reserve_room] 4 5 \<and>
   fst (execute_saga [reserve_room, charge_card] 4) = Inl (JsError ''Error'' ''declined'') \<and> fst (snd (execute_saga [reserve_room, charge_card] 4)) = 4"
proof -
  have act: "actions_succeed [reserve_room] 4 5" by (rule next_action [of _ _ 5]) (simp_all add: reserve_room_def)
  have charge: "sg_action charge_card 5 = (Inl (JsError ''Error'' ''declined''), 5)" by (simp add: charge_card_def)
  have undo: "list_all undoes [reserve_room, charge_card]" by (simp add: undoes_def reserve_room_def charge_card_def)
  note s = saga_all_or_nothing [OF act charge, of "[]" "[]"]
  have "fst (snd (execute_saga [reserve_room, charge_card] 4)) = 4" using s [THEN conjunct2, THEN conjunct2, THEN conjunct1] undo by simp
  moreover have "fst (execute_saga [reserve_room, charge_card] 4) = Inl (JsError ''Error'' ''declined'')" using s by simp
  ultimately show ?thesis using undo act by simp
qed

text \<open>
  C39: Versions of an aggregate (\<open>event-store.ts\<close>, \<open>append\<close> and \<open>load\<close>).  Appends of events without explicit versions, interleaved at their queries in any
  way and failing or not, leave each aggregate with the versions \<open>0, 1, \<dots>\<close>, each once, and \<open>load\<close> returns them in order.  An append that then runs alone and
  expects the last version, or none, adds its events behind them; one that expects another version adds nothing and fails.
\<close>

theorem event_versions_contiguous:
  assumes start: "\<forall>s \<in> set ss. \<exists>a es x. s = begin_append a es x \<and> (\<forall>e \<in> set es. ne_version e = None)"
    and run: "foldl store_step (ss, []) schedule = (ss', t)"
    and new: "es \<noteq> []" "\<forall>e \<in> set es. ne_version e = None" and n: "n = length (versions a t)"
  shows "distinct (versions a t) \<and> map er_version (load_events a 0 t) = map int [0..<n] \<and>
    (x = None \<or> x = Some (int n - 1) \<longrightarrow>
       append_events a es x t = (Appended, t @ assigned a (int n) es) \<and> load_events a 0 (t @ assigned a (int n) es) = load_events a 0 t @ assigned a (int n) es) \<and>
    (\<forall>v. v \<noteq> int n - 1 \<longrightarrow> append_events a es (Some v) t = (AppendFailed (conflict a v (int n - 1)), t))"
proof -
  have "append_ok s []" if "s \<in> set ss" for s using start that by (force simp: begin_append_def list_all_iff)
  then have "event_store_ok (ss, [])" by (simp add: event_store_ok_def list_all_iff)
  from store.invar_run [OF this, of schedule] have c: "contiguous t" by (simp add: run event_store_ok_def)
  have set: "distinct (versions a t)" "set (versions a t) = {0..<int n}" using c by (simp_all add: contiguous_def n)
  have m: "mset (map er_version (load_events a 0 t)) = mset (filter (\<lambda>v. 0 \<le> v) (versions a t))"
    by (simp add: mset_map load_versions(2) versions_def image_mset_filter_mset_swap [symmetric] filter_map comp_def)
  have "filter (\<lambda>v. 0 \<le> v) (versions a t) = versions a t" using set(2) by (simp add: filter_id_conv)
  then have "map er_version (load_events a 0 t) = sort (versions a t)" using m load_versions(1) by (metis properties_for_sort)
  also have "\<dots> = map int [0..<n]"
  proof (rule sorted_distinct_set_unique)
    show "set (sort (versions a t)) = set (map int [0..<n])" by (auto simp: set(2) image_int_atLeastLessThan)
  qed (use set(1) in \<open>simp_all add: sorted_map distinct_map sorted_wrt_upt\<close>)
  finally show ?thesis
    using set(1) append_alone [OF c, of es x a] append_conflict [OF new(1) refl, of _ a t] load_append [OF c, of 0 a es]
      current_version_contiguous [OF c, of a] new by (simp add: n list_all_iff)
qed

text \<open>
  C40: The distributed lock excludes (\<open>distributed-lock.ts\<close>, \<open>acquire\<close>, \<open>_tryAcquire\<close> and the handle's \<open>release\<close>).  Over the advisory locks of Postgres, and
  when each holder has a database session of its own on which it also releases, at most one handle of a key is live after any sequence of attempts, releases and
  expiries.  On one session two handles of the same key are live at once.
\<close>

theorem lock_excludes:
  assumes db: "postgres_locks db" and m: "m = \<lparr>lm_db = t, lm_live = [], lm_next = 0\<rparr>" "\<forall>i s. lock_count db t i s = 0"
  shows "(on_own_sessions db m es \<longrightarrow> length (holders i (foldl (lock_step db) m es)) \<le> 1) \<and>
    length (holders i (foldl (lock_step db) m [TryLock i s, TryLock i s])) = 2"
proof -
  have "locks_ok db m" by (simp add: m locks_ok_def)
  then show ?thesis using exclusive_on_own_sessions [OF db, of m es i] shared_session_shares_lock [OF db, of m i s] m
    by (simp add: holders_def)
qed

definition sample_locks :: "(int \<Rightarrow> nat \<Rightarrow> nat) advisory" where
  "sample_locks =
     \<lparr>try_advisory_lock = (\<lambda>s i t. if \<forall>s'. s' \<noteq> s \<longrightarrow> t i s' = 0 then (True, t(i := (t i)(s := Suc (t i s)))) else (False, t)),
      advisory_unlock = (\<lambda>s i t. (0 < t i s, t(i := (t i)(s := t i s - 1)))), lock_count = (\<lambda>t. t)\<rparr>"

theorem lock_excludes_witness:
  "length (holders 5 (foldl (lock_step sample_locks) \<lparr>lm_db = \<lambda>i s. 0, lm_live = [], lm_next = 0\<rparr>
     [TryLock 5 0, TryLock 5 1, ReleaseLock 0 0, TryLock 5 1])) \<le> 1 \<and>
   length (holders 5 (foldl (lock_step sample_locks) \<lparr>lm_db = \<lambda>i s. 0, lm_live = [], lm_next = 0\<rparr> [TryLock 5 3, TryLock 5 3])) = 2"
proof -
  let ?m = "\<lparr>lm_db = \<lambda>i s. 0, lm_live = [], lm_next = 0\<rparr>"
  have "postgres_locks sample_locks" by (auto simp: postgres_locks_def sample_locks_def)
  moreover have "on_own_sessions sample_locks ?m [TryLock 5 0, TryLock 5 1, ReleaseLock 0 0, TryLock 5 1]"
    by (auto simp: sample_locks_def own_session_def lock_step_def)
  ultimately show ?thesis
    using lock_excludes [OF _ refl, of sample_locks "\<lambda>i s. 0" "[TryLock 5 0, TryLock 5 1, ReleaseLock 0 0, TryLock 5 1]" 5 3]
    by (simp add: sample_locks_def)
qed

definition opened :: "string new_event" where
  "opened = \<lparr>ne_version = None, ne_type = ''opened'', ne_payload = ''x''\<rparr>"

theorem event_versions_contiguous_witness:
  "\<exists>ss' t. foldl store_step ([begin_append ''a'' [opened, opened] None, begin_append ''a'' [opened] None], []) [0, 0, 1, 1, 0] = (ss', t) \<and>
    map er_version (load_events ''a'' 0 t) = [0, 1] \<and>
    append_events ''a'' [opened] (Some 1) t = (Appended, t @ assigned ''a'' 2 [opened]) \<and>
    append_events ''a'' [opened] (Some 0) t = (AppendFailed (conflict ''a'' 0 1), t)"
proof -
  obtain ss' t where run: "foldl store_step ([begin_append ''a'' [opened, opened] None, begin_append ''a'' [opened] None], []) [0, 0, 1, 1, 0] = (ss', t)"
    by (rule prod.exhaust)
  have t: "length (versions ''a'' (snd (foldl store_step ([begin_append ''a'' [opened, opened] None, begin_append ''a'' [opened] None], []) [0, 0, 1, 1, 0]))) = 2"
    by code_simp
  have o: "ne_version opened = None" by (simp add: opened_def)
  have two: "2 = length (versions ''a'' t)" using t unfolding run by simp
  have start: "\<forall>s \<in> set [begin_append ''a'' [opened, opened] None, begin_append ''a'' [opened] None].
      \<exists>a es x. s = begin_append a es x \<and> (\<forall>e \<in> set es. ne_version e = None)"
    using o by (force intro: exI [of _ "''a''"])
  from event_versions_contiguous [OF start run _ _ two, of "[opened]" "Some 1"] o show ?thesis
    by (intro exI [of _ ss'] exI [of _ t] conjI [OF run]) (auto simp: numeral_2_eq_2)
qed

end
